(* ===== verification/Prelude.thy ===== *)
theory Prelude
  imports Main "HOL-Library.Word"
begin

text \<open>
  Shared vocabulary of the development: the error-propagating sequencing operator that every
  fallible operation is written with, overwriting a segment of a byte list, sums over lists and their ends, the locale of machines
  that follow an abstract one, and the collections of rewrite rules the component theories add to.

  A C function that may end the process (\<open>err_dump\<close>, \<open>err_sys\<close>, \<open>err_quit\<close>), run past a buffer or
  loop for ever returns \<open>Inl e\<close>; a function that returns to its caller gives \<open>Inr\<close> of its value and
  the new state.
\<close>

named_theorems posix_simps \<open>evaluation of the file primitives\<close>
named_theorems cstr_simps \<open>evaluation of the C string library\<close>
named_theorems frame_simps \<open>fields an operation leaves alone\<close>

section \<open>Sequencing with errors\<close>

definition bindE :: "'e + 'a \<Rightarrow> ('a \<Rightarrow> 'e + 'b) \<Rightarrow> 'e + 'b" where
  "bindE m f = (case m of Inl e \<Rightarrow> Inl e | Inr x \<Rightarrow> f x)"

lemma bindE_simps [simp]:
  "bindE (Inr x) f = f x"
  "bindE (Inl e) f = Inl e"
  by (simp_all add: bindE_def)

lemma bindE_Inr_iff: "bindE m f = Inr y \<longleftrightarrow> (\<exists>x. m = Inr x \<and> f x = Inr y)"
  by (cases m) simp_all

lemma bindE_InrE [elim!]:
  assumes "bindE m f = Inr y"
  obtains x where "m = Inr x" and "f x = Inr y"
  using assms by (auto simp: bindE_Inr_iff)

lemma bindE_cong [fundef_cong]:
  "m = m' \<Longrightarrow> (\<And>x. m' = Inr x \<Longrightarrow> f x = f' x) \<Longrightarrow> bindE m f = bindE m' f'"
  by (cases m') simp_all

definition guardE :: "bool \<Rightarrow> 'e \<Rightarrow> 'e + 'a \<Rightarrow> 'e + 'a" where
  \<comment> \<open>\<open>if (bad) die(e);\<close> followed by the rest of the function\<close>
  "guardE bad e rest = (if bad then Inl e else rest)"

lemma guardE_simps [simp]:
  "guardE True e r = Inl e"
  "guardE False e r = r"
  by (simp_all add: guardE_def)

lemma guardE_Inr_iff [simp]: "guardE b e r = Inr y \<longleftrightarrow> \<not> b \<and> r = Inr y"
  by (simp add: guardE_def)

section \<open>Segments of byte lists\<close>

definition splice :: "nat \<Rightarrow> 'a list \<Rightarrow> 'a list \<Rightarrow> 'a list" where
  \<comment> \<open>overwrite the segment that starts at the given position\<close>
  "splice n s bs = take n bs @ s @ drop (n + length s) bs"

lemma length_splice [simp]: "n + length s \<le> length bs \<Longrightarrow> length (splice n s bs) = length bs"
  by (simp add: splice_def)

lemma splice_mid:
  "n = length pre \<Longrightarrow> length s = length old \<Longrightarrow> splice n s (pre @ old @ post) = pre @ s @ post"
  by (simp add: splice_def)

lemma splice_end: "n = length bs \<Longrightarrow> splice n s bs = bs @ s"
  by (simp add: splice_def)

lemma take_drop_mid: "n = length pre \<Longrightarrow> m = length s \<Longrightarrow> take m (drop n (pre @ s @ post)) = s"
  by simp

lemma take_drop_splice_disj:
  assumes "n + length s \<le> length bs" "a + m \<le> n \<or> n + length s \<le> a"
  shows "take m (drop a (splice n s bs)) = take m (drop a bs)"
proof (cases "a + m \<le> n")
  case True
  then show ?thesis
    using assms(1) by (auto simp: splice_def take_drop min_def)
next
  case False
  with assms have "n + length s \<le> a" by simp
  then have "drop a (splice n s bs) = drop (a - (n + length s)) (drop (n + length s) bs)"
    using assms(1) by (simp add: splice_def)
  with \<open>n + length s \<le> a\<close> show ?thesis by simp
qed

lemma take_drop_splice_same:
  assumes "n + length s \<le> length bs"
  shows "take (length s) (drop n (splice n s bs)) = s"
  using assms by (simp add: splice_def)

section \<open>Sums over lists\<close>

lemma sum_list_append_Cons: "sum_list (map f (xs @ y # ys)) = sum_list (map f xs) + f y + sum_list (map f ys)"
  for f :: "'a \<Rightarrow> nat"
  by simp

lemma distinct_concat_nth:
  assumes "distinct (concat xss)" "i < length xss" "j < length xss" "i \<noteq> j"
  shows "set (xss ! i) \<inter> set (xss ! j) = {}"
  using assms
proof (induction xss arbitrary: i j)
  case (Cons xs xss)
  show ?case
  proof (cases i)
    case 0
    with Cons.prems obtain j' where "j = Suc j'" "j' < length xss" by (cases j) auto
    with 0 Cons.prems(1) show ?thesis by fastforce
  next
    case (Suc i')
    show ?thesis
    proof (cases j)
      case 0
      with Suc Cons.prems show ?thesis by fastforce
    next
      case (Suc j')
      with \<open>i = Suc i'\<close> Cons.prems Cons.IH[of i' j'] show ?thesis by simp
    qed
  qed
qed simp

lemma nth_list_update_concat_set:
  "i < length xss \<Longrightarrow> set (concat (xss[i := ys])) \<subseteq> set (concat xss) \<union> set ys"
  by (auto dest!: set_update_subset_insert[THEN subsetD])

section \<open>Ends of lists\<close>

definition hd_opt :: "'a list \<Rightarrow> 'a option" where
  "hd_opt xs = (case xs of [] \<Rightarrow> None | x # _ \<Rightarrow> Some x)"

definition last_opt :: "'a list \<Rightarrow> 'a option" where
  "last_opt xs = (if xs = [] then None else Some (last xs))"

lemma hd_opt_simps [simp]: "hd_opt [] = None" "hd_opt (x # xs) = Some x"
  by (simp_all add: hd_opt_def)

lemma last_opt_simps [simp]: "last_opt [] = None" "last_opt (xs @ [x]) = Some x" "last_opt [x] = Some x"
    "xs \<noteq> [] \<Longrightarrow> last_opt (ys @ xs) = last_opt xs"
  by (simp_all add: last_opt_def)

section \<open>Sequences of operations\<close>

text \<open>A concrete machine that follows an abstract one step by step, as long as the abstract one allows the
  step, follows it along every run.\<close>

fun run_concrete :: "('op \<Rightarrow> 'c \<Rightarrow> 'e + 'c) \<Rightarrow> 'op list \<Rightarrow> 'c \<Rightarrow> 'e + 'c" where
  "run_concrete step [] c = Inr c"
| "run_concrete step (x # xs) c = bindE (step x c) (run_concrete step xs)"

fun run_abstract :: "('op \<Rightarrow> 'a \<Rightarrow> 'a option) \<Rightarrow> 'op list \<Rightarrow> 'a \<Rightarrow> 'a option" where
  "run_abstract spec [] a = Some a"
| "run_abstract spec (x # xs) a = (case spec x a of None \<Rightarrow> None | Some b \<Rightarrow> run_abstract spec xs b)"

locale simulation =
  fixes step :: "'op \<Rightarrow> 'c \<Rightarrow> 'e + 'c" and spec :: "'op \<Rightarrow> 'a \<Rightarrow> 'a option" and repr :: "'c \<Rightarrow> 'a \<Rightarrow> bool"
  assumes sim: "repr c a \<Longrightarrow> spec x a = Some b \<Longrightarrow> \<exists>d. step x c = Inr d \<and> repr d b"
begin

lemma run_follows:
  "repr c a \<Longrightarrow> run_abstract spec xs a = Some b \<Longrightarrow> \<exists>d. run_concrete step xs c = Inr d \<and> repr d b"
proof (induction xs arbitrary: c a)
  case (Cons x xs)
  then obtain a1 where a1: "spec x a = Some a1" "run_abstract spec xs a1 = Some b" by (auto split: option.splits)
  then obtain c1 where "step x c = Inr c1" "repr c1 a1" using sim Cons.prems(1) by blast
  then show ?case using Cons.IH a1(2) by auto
qed simp

end

end
