(* ===== verification/CStd.thy ===== *)
theory CStd
  imports Prelude
begin

text \<open>
  The part of the C library the program text relies on: C strings inside buffers, decimal
  conversion (\<open>sprintf\<close> of \<open>%d\<close> with a width, \<open>atol\<close>/\<open>atoi\<close>), and the character classes.
  A byte is a \<open>char\<close>; the content of a C string is a \<open>string\<close> that holds no null byte.
  \<open>atol\<close> is read over the unbounded integers: the C function is undefined beyond \<open>long\<close>, and every
  field the program itself writes has at most seven digits.
\<close>

abbreviation NUL :: char where "NUL \<equiv> CHR 0x00"
abbreviation NL :: char where "NL \<equiv> CHR 0x0A"

definition cstr :: "string \<Rightarrow> string" where
  \<comment> \<open>the C string that starts at a buffer: the bytes before the first null\<close>
  "cstr bs = takeWhile (\<lambda>c. c \<noteq> NUL) bs"

lemma cstr_id [simp]: "NUL \<notin> set s \<Longrightarrow> cstr s = s"
  by (auto simp: cstr_def takeWhile_eq_all_conv)

lemma cstr_append_NUL: "NUL \<notin> set s \<Longrightarrow> cstr (s @ NUL # t) = s"
  by (induction s) (auto simp: cstr_def)

lemma cstr_no_NUL [simp]: "NUL \<notin> set (cstr s)"
  by (auto simp: cstr_def dest: set_takeWhileD)

lemma cstr_idem [simp]: "cstr (cstr s) = cstr s"
  by simp

definition isspace :: "char \<Rightarrow> bool" where
  "isspace c \<longleftrightarrow> c \<in> {CHR 0x20, CHR 0x09, CHR 0x0A, CHR 0x0B, CHR 0x0C, CHR 0x0D}"

definition isdigit :: "char \<Rightarrow> bool" where
  "isdigit c \<longleftrightarrow> of_char c \<in> {48..57 :: nat}"

definition digit_of :: "nat \<Rightarrow> char" where
  "digit_of n = char_of (48 + n)"

definition digit_val :: "char \<Rightarrow> nat" where
  "digit_val c = of_char c - 48"

lemma digit_val_of: "n < 10 \<Longrightarrow> digit_val (digit_of n) = n"
  by (simp add: digit_val_def digit_of_def)

lemma isdigit_digit_of [simp]: "n < 10 \<Longrightarrow> isdigit (digit_of n)"
  by (simp add: digit_of_def isdigit_def)

fun dec :: "nat \<Rightarrow> string" where
  \<comment> \<open>\<open>%d\<close>, \<open>%ld\<close>, \<open>%lld\<close> of a value that is not negative\<close>
  "dec n = (if n < 10 then [digit_of n] else dec (n div 10) @ [digit_of (n mod 10)])"

declare dec.simps [simp del]

definition sdec :: "int \<Rightarrow> string" where
  \<comment> \<open>\<open>%d\<close> of a signed value\<close>
  "sdec i = (if i < 0 then CHR ''-'' # dec (nat (- i)) else dec (nat i))"

definition padl :: "nat \<Rightarrow> string \<Rightarrow> string" where
  \<comment> \<open>the field width of \<open>%*d\<close>: blanks on the left, never a truncation\<close>
  "padl w s = replicate (w - length s) (CHR '' '') @ s"

definition digits_val :: "string \<Rightarrow> nat" where
  "digits_val s = foldl (\<lambda>v c. 10 * v + digit_val c) 0 s"

definition atol :: "string \<Rightarrow> int" where
  "atol s = (case dropWhile isspace s of
      [] \<Rightarrow> 0
    | c # t \<Rightarrow>
        if c = CHR ''-'' then - int (digits_val (takeWhile isdigit t))
        else if c = CHR ''+'' then int (digits_val (takeWhile isdigit t))
        else int (digits_val (takeWhile isdigit (c # t))))"

definition fgets_line :: "nat \<Rightarrow> string \<Rightarrow> string" where
  \<comment> \<open>the piece that \<open>fgets\<close> takes from the front of a stream: up to a newline or \<open>n - 1\<close> characters\<close>
  "fgets_line n s = (let l = takeWhile (\<lambda>c. c \<noteq> NL) s in
     take (n - 1) (if length l < length s then l @ [NL] else l))"

section \<open>Decimal numbers print and parse\<close>

lemma dec_ne [simp]: "dec n \<noteq> []"
  by (subst dec.simps) simp

lemma isdigit_dec: "c \<in> set (dec n) \<Longrightarrow> isdigit c"
  by (induction n rule: dec.induct) (subst (asm) (2) dec.simps, auto split: if_splits)

lemma isdigit_not:
  "isdigit c \<Longrightarrow> c \<noteq> CHR ''-''" "isdigit c \<Longrightarrow> c \<noteq> CHR ''+''" "isdigit c \<Longrightarrow> \<not> isspace c"
  "isdigit c \<Longrightarrow> c \<noteq> NUL" "isdigit c \<Longrightarrow> c \<noteq> NL" "isdigit c \<Longrightarrow> c \<noteq> CHR '':''"
  "isdigit c \<Longrightarrow> c \<noteq> CHR '' ''"
  by (auto simp: isdigit_def isspace_def)

lemma dec_not_in [simp]:
  "NUL \<notin> set (dec n)" "NL \<notin> set (dec n)" "CHR '':'' \<notin> set (dec n)" "CHR '' '' \<notin> set (dec n)"
  using isdigit_dec isdigit_not by blast+

lemma digits_val_snoc: "digits_val (s @ [c]) = 10 * digits_val s + digit_val c"
  by (simp add: digits_val_def)

lemma digits_val_dec [simp]: "digits_val (dec n) = n"
proof (induction n rule: dec.induct)
  case (1 n)
  show ?case
  proof (cases "n < 10")
    case True
    then show ?thesis
      by (subst dec.simps) (simp add: digits_val_def digit_val_of)
  next
    case False
    with "1.IH" have "digits_val (dec (n div 10)) = n div 10" by simp
    with False show ?thesis
      by (subst dec.simps) (simp add: digits_val_snoc digit_val_of)
  qed
qed

lemma takeWhile_dec [simp]: "takeWhile isdigit (dec n) = dec n"
  using isdigit_dec by (auto simp: takeWhile_eq_all_conv)

lemma takeWhile_dec_append: "\<not> isdigit c \<Longrightarrow> takeWhile isdigit (dec n @ c # t) = dec n"
  using isdigit_dec by (simp add: takeWhile_append2)

lemma dec_ConsE:
  obtains c t where "dec n = c # t" "isdigit c"
  using isdigit_dec[of _ n] by (cases "dec n") auto

lemma dropWhile_blanks: "dropWhile isspace (replicate k (CHR '' '') @ s) = dropWhile isspace s"
  by (induction k) (simp_all add: isspace_def)

lemma dropWhile_dec: "dropWhile isspace (dec n @ t) = dec n @ t"
  by (rule dec_ConsE[of n]) (simp add: isdigit_not)

lemma atol_padl_dec [simp]: "atol (padl w (dec n)) = int n"
proof -
  obtain c t where ct: "dec n = c # t" "isdigit c" by (rule dec_ConsE)
  have "dropWhile isspace (padl w (dec n)) = c # t"
    using ct dropWhile_dec[of n "[]"] by (simp add: padl_def dropWhile_blanks)
  moreover have "takeWhile isdigit (c # t) = dec n"
    using ct takeWhile_dec[of n] by simp
  ultimately have "atol (padl w (dec n)) = int (digits_val (dec n))"
    using ct(2) by (simp only: atol_def list.case isdigit_not if_False)
  then show ?thesis by simp
qed

lemma atol_dec [simp]: "atol (dec n) = int n"
  using atol_padl_dec[of 0 n] by (simp add: padl_def)

lemma atol_sdec [simp]: "atol (sdec i) = i"
proof (cases "i < 0")
  case True
  then show ?thesis by (simp add: sdec_def atol_def isspace_def)
next
  case False
  then show ?thesis by (simp add: sdec_def)
qed

lemma length_padl: "length (padl w s) = max w (length s)"
  by (simp add: padl_def)

lemma NUL_notin_padl [simp]: "NUL \<notin> set (padl w s) \<longleftrightarrow> NUL \<notin> set s"
  by (auto simp: padl_def)

lemma cstr_padl_dec [simp]: "cstr (padl w (dec n)) = padl w (dec n)"
  by simp

lemma length_dec_less: "n < 10 ^ k \<Longrightarrow> 0 < k \<Longrightarrow> length (dec n) \<le> k"
proof (induction n arbitrary: k rule: dec.induct)
  case (1 n)
  show ?case
  proof (cases "n < 10")
    case True
    with "1.prems" show ?thesis by (subst dec.simps) simp
  next
    case False
    then obtain k' where k: "k = Suc k'" "0 < k'"
      using "1.prems" by (cases k; cases "k - 1") auto
    with "1.prems" have "n div 10 < 10 ^ k'" by (simp add: less_mult_imp_div_less)
    with False k "1.IH"[of k'] show ?thesis by (subst dec.simps) simp
  qed
qed

lemma dec_inj: "dec m = dec n \<Longrightarrow> m = n"
  by (metis digits_val_dec)

lemma length_dec_pos [simp]: "0 < length (dec n)"
  by simp

end
