(* ===== verification/PosixFile.thy ===== *)
theory PosixFile
  imports CStd
begin

text \<open>
  Open files as the program sees them through \<open>lseek\<close>, \<open>read\<close>, \<open>readv\<close>, \<open>write\<close> and \<open>writev\<close>: the
  bytes of the file, the offset of the descriptor, and \<open>room\<close>, the largest size the file system
  lets the file reach (a write beyond it is short, which the callers treat as an error).
  A file offset (\<open>off_t\<close>) is an \<open>int\<close>, because a corrupt file can hold a negative one.
\<close>

record ofile =
  bytes :: string
  pos :: nat
  room :: nat

datatype whence = SEEK_SET | SEEK_CUR | SEEK_END

definition seek_base :: "ofile \<Rightarrow> whence \<Rightarrow> int" where
  "seek_base f w = (case w of SEEK_SET \<Rightarrow> 0 | SEEK_CUR \<Rightarrow> int (pos f) | SEEK_END \<Rightarrow> int (length (bytes f)))"

definition lseek :: "ofile \<Rightarrow> int \<Rightarrow> whence \<Rightarrow> int \<times> ofile" where
  "lseek f off w = (let p = seek_base f w + off
     in if p < 0 then (-1, f) else (p, f\<lparr>pos := nat p\<rparr>))"

definition fread :: "ofile \<Rightarrow> nat \<Rightarrow> string \<times> ofile" where
  \<comment> \<open>the bytes read; the return value of \<open>read\<close> is their number\<close>
  "fread f n = (let s = take n (drop (pos f) (bytes f)) in (s, f\<lparr>pos := pos f + length s\<rparr>))"

definition fwrite :: "ofile \<Rightarrow> string \<Rightarrow> nat \<times> ofile" where
  \<comment> \<open>the number of bytes written; a write beyond the end leaves a gap of null bytes\<close>
  "fwrite f s =
     (let n = min (length s) (room f - pos f);
          base = bytes f @ replicate (pos f - length (bytes f)) NUL
      in (n, f\<lparr>bytes := splice (pos f) (take n s) base, pos := pos f + n\<rparr>))"

lemma lseek_set [posix_simps]: "0 \<le> off \<Longrightarrow> lseek f off SEEK_SET = (off, f\<lparr>pos := nat off\<rparr>)"
  by (simp add: lseek_def seek_base_def)

lemma lseek_cur0 [posix_simps]: "lseek f 0 SEEK_CUR = (int (pos f), f)"
  by (simp add: lseek_def seek_base_def)

lemma lseek_end0 [posix_simps]:
  "lseek f 0 SEEK_END = (int (length (bytes f)), f\<lparr>pos := length (bytes f)\<rparr>)"
  by (simp add: lseek_def seek_base_def)

lemma lseek_bytes: "lseek f off w = (r, f') \<Longrightarrow> bytes f' = bytes f \<and> room f' = room f"
  by (auto simp: lseek_def Let_def split: if_splits)

lemma fread_bytes: "fread f n = (s, f') \<Longrightarrow> bytes f' = bytes f \<and> room f' = room f"
  by (auto simp: fread_def Let_def)

lemma fread_mid [posix_simps]:
  "bytes f = pre @ s @ post \<Longrightarrow> pos f = length pre \<Longrightarrow> length s = n \<Longrightarrow>
     fread f n = (s, f\<lparr>pos := pos f + n\<rparr>)"
  by (simp add: fread_def)

lemma fread_eof [posix_simps]: "length (bytes f) \<le> pos f \<Longrightarrow> fread f n = ([], f)"
  by (simp add: fread_def)

lemma fwrite_full:
  "pos f + length s \<le> room f \<Longrightarrow> pos f \<le> length (bytes f) \<Longrightarrow>
     fwrite f s = (length s, f\<lparr>bytes := splice (pos f) s (bytes f), pos := pos f + length s\<rparr>)"
  by (simp add: fwrite_def Let_def)

lemma fwrite_ok:
  assumes "fwrite f s = (n, f')" "n = length s" "pos f \<le> length (bytes f)"
  shows "f' = f\<lparr>bytes := splice (pos f) s (bytes f), pos := pos f + length s\<rparr>"
  using assms by (auto simp: fwrite_def Let_def min_def split: if_splits)

lemma fwrite_short: "fst (fwrite f s) \<noteq> length s \<longleftrightarrow> s \<noteq> [] \<and> room f < pos f + length s"
  by (cases s) (auto simp: fwrite_def Let_def min_def)

end
