(* ===== verification/Db.thy ===== *)
theory Db
  imports PosixFile
begin

text \<open>
  The database library \<open>db/db.c\<close>: a keyed store in an index file and a data file.

  The index file is a line of \<open>nhash + 1\<close> chain pointers of seven characters (the free list, then one
  per hash bucket) and a newline, followed by the index records; an index record is a chain pointer,
  the length of the rest in four characters, then \<open>key:datoff:datlen\<close> and a newline. Chains are linked
  through byte offsets. This theory translates every function of the file; the two buffers are the C
  strings they hold (\<open>idxbuf\<close> is used as the key only), the two descriptors are open files, and the
  record locks the library holds are listed in \<open>locks\<close>.
\<close>

section \<open>Constants and the handle\<close>

definition IDXLEN_SZ :: nat where "IDXLEN_SZ = 4"
definition SEP :: char where "SEP = CHR '':''"
definition SPACE :: char where "SPACE = CHR '' ''"
definition PTR_SZ :: nat where "PTR_SZ = 7"
definition PTR_MAX :: int where "PTR_MAX = 9999999"
definition NHASH_DEF :: nat where "NHASH_DEF = 137"
definition FREE_OFF :: int where "FREE_OFF = 0"
definition HASH_OFF :: int where "HASH_OFF = 7"
definition IDXLEN_MIN :: nat where "IDXLEN_MIN = 6"
definition IDXLEN_MAX :: nat where "IDXLEN_MAX = 1024"
definition DATLEN_MIN :: nat where "DATLEN_MIN = 2"
definition DATLEN_MAX :: nat where "DATLEN_MAX = 1024"

lemmas db_consts = IDXLEN_SZ_def SEP_def SPACE_def PTR_SZ_def PTR_MAX_def NHASH_DEF_def
  FREE_OFF_def HASH_OFF_def IDXLEN_MIN_def IDXLEN_MAX_def DATLEN_MIN_def DATLEN_MAX_def

definition DB_INSERT :: int where "DB_INSERT = 1"
definition DB_REPLACE :: int where "DB_REPLACE = 2"
definition DB_STORE :: int where "DB_STORE = 3"

lemmas db_flags = DB_INSERT_def DB_REPLACE_def DB_STORE_def

datatype db_errno = EINVAL | ENOENT

datatype db_error =
    Dump string      \<comment> \<open>\<open>err_dump\<close>: print and abort\<close>
  | Quit string      \<comment> \<open>\<open>err_quit\<close>: print and exit\<close>
  | Overrun string   \<comment> \<open>a write past the end of a buffer\<close>
  | Diverge          \<comment> \<open>a chain of pointers with a cycle: the loop does not end\<close>

datatype db_fd = IdxFd | DatFd

text \<open>A record lock: descriptor, start, length (0 is to the end of the file), and whether it is a
  write lock.\<close>

type_synonym db_lock = "db_fd \<times> int \<times> nat \<times> bool"

record db =
  idxf :: ofile
  datf :: ofile
  db_name :: string
  idxbuf :: string
  datbuf :: string
  idxoff :: int
  idxlen :: nat
  datoff :: int
  datlen :: nat
  ptrval :: int
  ptroff :: int
  chainoff :: int
  hashoff :: int
  nhash :: nat
  cnt_delok :: "64 word"
  cnt_delerr :: "64 word"
  cnt_fetchok :: "64 word"
  cnt_fetcherr :: "64 word"
  cnt_nextrec :: "64 word"
  cnt_stor1 :: "64 word"
  cnt_stor2 :: "64 word"
  cnt_stor3 :: "64 word"
  cnt_stor4 :: "64 word"
  cnt_storerr :: "64 word"
  locks :: "db_lock list"
  db_err :: "db_errno option"

definition writew_lock :: "db \<Rightarrow> db_fd \<Rightarrow> int \<Rightarrow> nat \<Rightarrow> db" where
  "writew_lock db fd off len = db\<lparr>locks := (fd, off, len, True) # locks db\<rparr>"

definition readw_lock :: "db \<Rightarrow> db_fd \<Rightarrow> int \<Rightarrow> nat \<Rightarrow> db" where
  "readw_lock db fd off len = db\<lparr>locks := (fd, off, len, False) # locks db\<rparr>"

definition un_lock :: "db \<Rightarrow> db_fd \<Rightarrow> int \<Rightarrow> nat \<Rightarrow> db" where
  "un_lock db fd off len =
     db\<lparr>locks := filter (\<lambda>(fd', off', len', w). (fd', off', len') \<noteq> (fd, off, len)) (locks db)\<rparr>"

section \<open>Hashing\<close>

definition schar :: "char \<Rightarrow> int" where
  \<comment> \<open>the value of a \<open>char\<close>, which is signed\<close>
  "schar c = (let n = int (of_char c) in if n < 128 then n else n - 256)"

fun db_hash_loop :: "64 word \<Rightarrow> int \<Rightarrow> string \<Rightarrow> 64 word" where
  "db_hash_loop hval i [] = hval"
| "db_hash_loop hval i (c # key) = db_hash_loop (hval + word_of_int (schar c * i)) (i + 1) key"

definition db_hash :: "db \<Rightarrow> string \<Rightarrow> nat" where
  "db_hash db key = unat (db_hash_loop 0 1 key) mod nhash db"

section \<open>Reading and writing the two files\<close>

definition db_readptr :: "db \<Rightarrow> int \<Rightarrow> db_error + (int \<times> db)" where
  "db_readptr db offset =
     (let (r, f1) = lseek (idxf db) offset SEEK_SET in
      guardE (r = -1) (Dump ''_db_readptr: lseek error to ptr field'')
      (let (asciiptr, f2) = fread f1 PTR_SZ in
       guardE (length asciiptr \<noteq> PTR_SZ) (Dump ''_db_readptr: read error of ptr field'')
       (Inr (atol (cstr asciiptr), db\<lparr>idxf := f2\<rparr>))))"

definition db_writeptr :: "db \<Rightarrow> int \<Rightarrow> int \<Rightarrow> db_error + db" where
  "db_writeptr db offset ptr =
     guardE (ptr < 0 \<or> ptr > PTR_MAX) (Quit ''_db_writeptr: invalid ptr'')
     (let asciiptr = padl PTR_SZ (sdec ptr);
          (r, f1) = lseek (idxf db) offset SEEK_SET in
      guardE (r = -1) (Dump ''_db_writeptr: lseek error to ptr field'')
      (let (n, f2) = fwrite f1 (take PTR_SZ asciiptr) in
       guardE (n \<noteq> PTR_SZ) (Dump ''_db_writeptr: write error of ptr field'')
       (Inr (db\<lparr>idxf := f2\<rparr>))))"

definition db_parse_idx :: "db \<Rightarrow> string \<Rightarrow> db_error + db" where
  \<comment> \<open>the part of \<open>_db_readidx\<close> after the record is in \<open>idxbuf\<close>: find the separators, read the numbers\<close>
  "db_parse_idx db rec =
     guardE (rec = [] \<or> last rec \<noteq> NL) (Dump ''_db_readidx: missing newline'')
     (let buf = cstr (butlast rec) in
      guardE (SEP \<notin> set buf) (Dump ''_db_readidx: missing first separator'')
      (let key = takeWhile (\<lambda>c. c \<noteq> SEP) buf;
           rest = tl (dropWhile (\<lambda>c. c \<noteq> SEP) buf) in
       guardE (SEP \<notin> set rest) (Dump ''_db_readidx: missing second separator'')
       (let ptr1 = takeWhile (\<lambda>c. c \<noteq> SEP) rest;
            ptr2 = tl (dropWhile (\<lambda>c. c \<noteq> SEP) rest) in
        guardE (SEP \<in> set ptr2) (Dump ''_db_readidx: too many separators'')
        (guardE (atol ptr1 < 0) (Dump ''_db_readidx: starting offset < 0'')
         (guardE (atol ptr2 \<le> 0 \<or> atol ptr2 > int DATLEN_MAX) (Dump ''_db_readidx: invalid length'')
          (Inr (db\<lparr>idxbuf := key, datoff := atol ptr1, datlen := nat (atol ptr2)\<rparr>)))))))"

definition db_readidx :: "db \<Rightarrow> int \<Rightarrow> db_error + (int \<times> db)" where
  "db_readidx db offset =
     (let (r, f1) = lseek (idxf db) offset (if offset = 0 then SEEK_CUR else SEEK_SET) in
      guardE (r = -1) (Dump ''_db_readidx: lseek error'')
      (let db1 = db\<lparr>idxoff := r\<rparr>;
           (iov, f2) = fread f1 (PTR_SZ + IDXLEN_SZ) in
       if length iov \<noteq> PTR_SZ + IDXLEN_SZ
       then guardE (\<not> (iov = [] \<and> offset = 0)) (Dump ''_db_readidx: readv error of index record'')
              (Inr (-1, db1\<lparr>idxf := f2\<rparr>))
       else
         let ptr = atol (cstr (take PTR_SZ iov));
             len = atol (cstr (drop PTR_SZ iov)) in
         guardE (len < int IDXLEN_MIN \<or> len > int IDXLEN_MAX) (Dump ''_db_readidx: invalid length'')
         (let (rec, f3) = fread f2 (nat len) in
          guardE (length rec \<noteq> nat len) (Dump ''_db_readidx: read error of index record'')
          (bindE (db_parse_idx (db1\<lparr>idxf := f3, ptrval := ptr, idxlen := nat len\<rparr>) rec)
             (\<lambda>db2. Inr (ptrval db2, db2))))))"

definition db_readdat :: "db \<Rightarrow> db_error + (string \<times> db)" where
  "db_readdat db =
     (let (r, f1) = lseek (datf db) (datoff db) SEEK_SET in
      guardE (r = -1) (Dump ''_db_readdat: lseek error'')
      (let (buf, f2) = fread f1 (datlen db) in
       guardE (length buf \<noteq> datlen db) (Dump ''_db_readdat: read error'')
       (guardE (buf = [] \<or> last buf \<noteq> NL) (Dump ''_db_readdat: missing newline'')
        (Inr (cstr (butlast buf), db\<lparr>datf := f2, datbuf := cstr (butlast buf)\<rparr>)))))"

definition db_writedat :: "db \<Rightarrow> string \<Rightarrow> int \<Rightarrow> whence \<Rightarrow> db_error + db" where
  "db_writedat db data offset w =
     (let db0 = (if w = SEEK_END then writew_lock db DatFd 0 0 else db);
          (r, f1) = lseek (datf db0) offset w in
      guardE (r = -1) (Dump ''_db_writedat: lseek error'')
      (let db1 = db0\<lparr>datoff := r, datlen := length data + 1\<rparr>;
           (n, f2) = fwrite f1 (data @ [NL]) in
       guardE (n \<noteq> datlen db1) (Dump ''_db_writedat: writev error of data record'')
       (Inr (let db2 = db1\<lparr>datf := f2\<rparr> in
             if w = SEEK_END then un_lock db2 DatFd 0 0 else db2))))"

definition db_writeidx :: "db \<Rightarrow> string \<Rightarrow> int \<Rightarrow> whence \<Rightarrow> int \<Rightarrow> db_error + db" where
  "db_writeidx db key offset w ptr =
     guardE (ptr < 0 \<or> ptr > PTR_MAX) (Quit ''_db_writeidx: invalid ptr'')
     (let buf = key @ [SEP] @ sdec (datoff db) @ [SEP] @ dec (datlen db) @ [NL];
          len = length buf;
          db0 = db\<lparr>ptrval := ptr, idxbuf := buf\<rparr> in
      guardE (len + 1 > IDXLEN_MAX + 2) (Overrun ''_db_writeidx: sprintf into idxbuf'')
      (guardE (len < IDXLEN_MIN \<or> len > IDXLEN_MAX) (Dump ''_db_writeidx: invalid length'')
       (let asciiptrlen = padl PTR_SZ (sdec ptr) @ padl IDXLEN_SZ (dec len);
            lockoff = int ((nhash db + 1) * PTR_SZ + 1);
            db1 = (if w = SEEK_END then writew_lock db0 IdxFd lockoff 0 else db0);
            (r, f1) = lseek (idxf db1) offset w in
        guardE (r = -1) (Dump ''_db_writeidx: lseek error'')
        (let (n, f2) = fwrite f1 (take (PTR_SZ + IDXLEN_SZ) asciiptrlen @ buf) in
         guardE (n \<noteq> PTR_SZ + IDXLEN_SZ + len) (Dump ''_db_writeidx: writev error of index record'')
         (Inr (let db2 = db1\<lparr>idxoff := r, idxf := f2\<rparr> in
               if w = SEEK_END then un_lock db2 IdxFd lockoff 0 else db2))))))"

section \<open>Finding, deleting and reusing records\<close>

fun db_find_loop :: "nat \<Rightarrow> db \<Rightarrow> string \<Rightarrow> int \<Rightarrow> db_error + (int \<times> db)" where
  "db_find_loop 0 db key offset = Inl Diverge"
| "db_find_loop (Suc fuel) db key offset =
     (if offset = 0 then Inr (offset, db)
      else bindE (db_readidx db offset) (\<lambda>(nextoffset, db1).
        if idxbuf db1 = key then Inr (offset, db1)
        else db_find_loop fuel (db1\<lparr>ptroff := offset\<rparr>) key nextoffset))"

definition db_fuel :: "db \<Rightarrow> nat" where
  \<comment> \<open>more steps than the index file has offsets: a loop that takes them all is in a cycle\<close>
  "db_fuel db = Suc (length (bytes (idxf db)))"

definition db_find_and_lock :: "db \<Rightarrow> string \<Rightarrow> bool \<Rightarrow> db_error + (int \<times> db)" where
  "db_find_and_lock db key writelock =
     (let chain = int (db_hash db key * PTR_SZ) + hashoff db;
          db0 = db\<lparr>chainoff := chain, ptroff := chain\<rparr>;
          db1 = (if writelock then writew_lock db0 IdxFd chain 1 else readw_lock db0 IdxFd chain 1) in
      bindE (db_readptr db1 (ptroff db1)) (\<lambda>(offset, db2).
      bindE (db_find_loop (db_fuel db2) db2 key offset) (\<lambda>(offset, db3).
        Inr (if offset = 0 then -1 else 0, db3))))"

definition db_dodelete :: "db \<Rightarrow> db_error + db" where
  "db_dodelete db =
     (let db0 = db\<lparr>datbuf := replicate (datlen db - 1) SPACE,
                    idxbuf := map (\<lambda>_. SPACE) (idxbuf db)\<rparr>;
          db1 = writew_lock db0 IdxFd FREE_OFF 1 in
      bindE (db_writedat db1 (datbuf db1) (datoff db1) SEEK_SET) (\<lambda>db2.
      bindE (db_readptr db2 FREE_OFF) (\<lambda>(freeptr, db3).
      let saveptr = ptrval db3 in
      bindE (db_writeidx db3 (idxbuf db3) (idxoff db3) SEEK_SET freeptr) (\<lambda>db4.
      bindE (db_writeptr db4 FREE_OFF (idxoff db4)) (\<lambda>db5.
      bindE (db_writeptr db5 (ptroff db5) saveptr) (\<lambda>db6.
        Inr (un_lock db6 IdxFd FREE_OFF 1)))))))"

fun db_findfree_loop :: "nat \<Rightarrow> db \<Rightarrow> nat \<Rightarrow> nat \<Rightarrow> int \<Rightarrow> int \<Rightarrow> db_error + (int \<times> int \<times> db)" where
  "db_findfree_loop 0 db keylen datlen' saveoffset offset = Inl Diverge"
| "db_findfree_loop (Suc fuel) db keylen datlen' saveoffset offset =
     (if offset = 0 then Inr (saveoffset, offset, db)
      else bindE (db_readidx db offset) (\<lambda>(nextoffset, db1).
        if length (idxbuf db1) = keylen \<and> datlen db1 = datlen' then Inr (saveoffset, offset, db1)
        else db_findfree_loop fuel db1 keylen datlen' offset nextoffset))"

definition db_findfree :: "db \<Rightarrow> nat \<Rightarrow> nat \<Rightarrow> db_error + (int \<times> db)" where
  "db_findfree db keylen datlen' =
     (let db0 = writew_lock db IdxFd FREE_OFF 1 in
      bindE (db_readptr db0 FREE_OFF) (\<lambda>(offset, db1).
      bindE (db_findfree_loop (db_fuel db1) db1 keylen datlen' FREE_OFF offset)
        (\<lambda>(saveoffset, offset, db2).
      bindE (if offset = 0 then Inr (-1, db2)
             else bindE (db_writeptr db2 saveoffset (ptrval db2)) (\<lambda>db3. Inr (0, db3)))
        (\<lambda>(rc, db4). Inr (rc, un_lock db4 IdxFd FREE_OFF 1)))))"

section \<open>The operations of the interface\<close>

definition db_fetch :: "db \<Rightarrow> string \<Rightarrow> db_error + (string option \<times> db)" where
  "db_fetch db key =
     bindE (db_find_and_lock db key False) (\<lambda>(rc, db1).
     bindE (if rc < 0 then Inr (None, db1\<lparr>cnt_fetcherr := cnt_fetcherr db1 + 1\<rparr>)
            else bindE (db_readdat db1) (\<lambda>(s, db2).
              Inr (Some s, db2\<lparr>cnt_fetchok := cnt_fetchok db2 + 1\<rparr>)))
       (\<lambda>(ptr, db3). Inr (ptr, un_lock db3 IdxFd (chainoff db3) 1)))"

definition db_delete :: "db \<Rightarrow> string \<Rightarrow> db_error + (int \<times> db)" where
  "db_delete db key =
     bindE (db_find_and_lock db key True) (\<lambda>(rc, db1).
     bindE (if rc = 0 then bindE (db_dodelete db1) (\<lambda>db2. Inr (0, db2\<lparr>cnt_delok := cnt_delok db2 + 1\<rparr>))
            else Inr (-1, db1\<lparr>cnt_delerr := cnt_delerr db1 + 1\<rparr>))
       (\<lambda>(rc, db3). Inr (rc, un_lock db3 IdxFd (chainoff db3) 1)))"

definition db_store_new :: "db \<Rightarrow> string \<Rightarrow> string \<Rightarrow> db_error + db" where
  \<comment> \<open>\<open>db_store\<close>, the record was not found and may be inserted\<close>
  "db_store_new db key data =
     bindE (db_readptr db (chainoff db)) (\<lambda>(ptr, db1).
     bindE (db_findfree db1 (length key) (length data + 1)) (\<lambda>(rc, db2).
       if rc < 0 then
         bindE (db_writedat db2 data 0 SEEK_END) (\<lambda>db3.
         bindE (db_writeidx db3 key 0 SEEK_END ptr) (\<lambda>db4.
         bindE (db_writeptr db4 (chainoff db4) (idxoff db4)) (\<lambda>db5.
           Inr (db5\<lparr>cnt_stor1 := cnt_stor1 db5 + 1\<rparr>))))
       else
         bindE (db_writedat db2 data (datoff db2) SEEK_SET) (\<lambda>db3.
         bindE (db_writeidx db3 key (idxoff db3) SEEK_SET ptr) (\<lambda>db4.
         bindE (db_writeptr db4 (chainoff db4) (idxoff db4)) (\<lambda>db5.
           Inr (db5\<lparr>cnt_stor2 := cnt_stor2 db5 + 1\<rparr>))))))"

definition db_store_over :: "db \<Rightarrow> string \<Rightarrow> string \<Rightarrow> db_error + db" where
  \<comment> \<open>\<open>db_store\<close>, the record was found and may be replaced\<close>
  "db_store_over db key data =
     (if length data + 1 \<noteq> datlen db then
        bindE (db_dodelete db) (\<lambda>db1.
        bindE (db_readptr db1 (chainoff db1)) (\<lambda>(ptr, db2).
        bindE (db_writedat db2 data 0 SEEK_END) (\<lambda>db3.
        bindE (db_writeidx db3 key 0 SEEK_END ptr) (\<lambda>db4.
        bindE (db_writeptr db4 (chainoff db4) (idxoff db4)) (\<lambda>db5.
          Inr (db5\<lparr>cnt_stor3 := cnt_stor3 db5 + 1\<rparr>))))))
      else
        bindE (db_writedat db data (datoff db) SEEK_SET) (\<lambda>db1.
          Inr (db1\<lparr>cnt_stor4 := cnt_stor4 db1 + 1\<rparr>)))"

definition db_store :: "db \<Rightarrow> string \<Rightarrow> string \<Rightarrow> int \<Rightarrow> db_error + (int \<times> db)" where
  "db_store db key data flag =
     (if flag \<noteq> DB_INSERT \<and> flag \<noteq> DB_REPLACE \<and> flag \<noteq> DB_STORE
      then Inr (-1, db\<lparr>db_err := Some EINVAL\<rparr>)
      else
        guardE (length data + 1 < DATLEN_MIN \<or> length data + 1 > DATLEN_MAX)
          (Dump ''db_store: invalid data length'')
        (bindE (db_find_and_lock db key True) (\<lambda>(found, db1).
         bindE (if found < 0 then
                  (if flag = DB_REPLACE
                   then Inr (-1, db1\<lparr>cnt_storerr := cnt_storerr db1 + 1, db_err := Some ENOENT\<rparr>)
                   else bindE (db_store_new db1 key data) (\<lambda>db2. Inr (0, db2)))
                else
                  (if flag = DB_INSERT
                   then Inr (1, db1\<lparr>cnt_storerr := cnt_storerr db1 + 1\<rparr>)
                   else bindE (db_store_over db1 key data) (\<lambda>db2. Inr (0, db2))))
           (\<lambda>(rc, db3). Inr (rc, un_lock db3 IdxFd (chainoff db3) 1)))))"

definition db_rewind :: "db \<Rightarrow> db_error + db" where
  "db_rewind db =
     (let (r, f) = lseek (idxf db) (int ((nhash db + 1) * PTR_SZ) + 1) SEEK_SET in
      guardE (r = -1) (Dump ''db_rewind: lseek error'') (Inr (db\<lparr>idxoff := r, idxf := f\<rparr>)))"

fun db_nextrec_loop :: "nat \<Rightarrow> db \<Rightarrow> db_error + (bool \<times> db)" where
  \<comment> \<open>the \<open>do ... while\<close>: false at the end of the index file, true at a record with a nonblank key\<close>
  "db_nextrec_loop 0 db = Inl Diverge"
| "db_nextrec_loop (Suc fuel) db =
     bindE (db_readidx db 0) (\<lambda>(r, db1).
       if r < 0 then Inr (False, db1)
       else if dropWhile (\<lambda>c. c = SPACE) (idxbuf db1) = [] then db_nextrec_loop fuel db1
       else Inr (True, db1))"

definition db_nextrec :: "db \<Rightarrow> db_error + ((string \<times> string) option \<times> db)" where
  \<comment> \<open>the key copied to the caller and the data returned, or None for \<open>NULL\<close>\<close>
  "db_nextrec db =
     bindE (db_nextrec_loop (db_fuel db) (readw_lock db IdxFd FREE_OFF 1)) (\<lambda>(got, db1).
     bindE (if \<not> got then Inr (None, db1)
            else bindE (db_readdat db1) (\<lambda>(s, db2).
              Inr (Some (idxbuf db2, s), db2\<lparr>cnt_nextrec := cnt_nextrec db2 + 1\<rparr>)))
       (\<lambda>(ptr, db3). Inr (ptr, un_lock db3 IdxFd FREE_OFF 1)))"

section \<open>Opening and closing\<close>

text \<open>The file system: the content of each file by name. The access mode and the permission bits
  are those that grant the call.\<close>

record oflags =
  o_creat :: bool
  o_trunc :: bool
  o_excl :: bool

definition fs_open :: "(string \<rightharpoonup> string) \<Rightarrow> nat \<Rightarrow> string \<Rightarrow> oflags \<Rightarrow> (ofile \<times> (string \<rightharpoonup> string)) option" where
  \<comment> \<open>open(2): None is the return of -1\<close>
  "fs_open fs rm path fl =
     (case fs path of
        None \<Rightarrow> if o_creat fl then Some (\<lparr>bytes = [], pos = 0, room = rm\<rparr>, fs(path \<mapsto> [])) else None
      | Some content \<Rightarrow>
          if o_creat fl \<and> o_excl fl then None
          else let c = (if o_trunc fl then [] else content) in
            Some (\<lparr>bytes = c, pos = 0, room = rm\<rparr>, fs(path \<mapsto> c)))"

definition db_alloc :: "string \<Rightarrow> ofile \<Rightarrow> ofile \<Rightarrow> db" where
  \<comment> \<open>\<open>_db_alloc\<close> (a zeroed structure and its buffers) once the two descriptors are open\<close>
  "db_alloc nm f g =
     \<lparr>idxf = f, datf = g, db_name = nm, idxbuf = [], datbuf = [], idxoff = 0, idxlen = 0, datoff = 0,
      datlen = 0, ptrval = 0, ptroff = 0, chainoff = 0, hashoff = 0, nhash = 0,
      cnt_delok = 0, cnt_delerr = 0, cnt_fetchok = 0, cnt_fetcherr = 0, cnt_nextrec = 0,
      cnt_stor1 = 0, cnt_stor2 = 0, cnt_stor3 = 0, cnt_stor4 = 0, cnt_storerr = 0,
      locks = [], db_err = None\<rparr>"

definition db_open :: "(string \<rightharpoonup> string) \<Rightarrow> nat \<Rightarrow> string \<Rightarrow> oflags
    \<Rightarrow> db_error + (db option \<times> (string \<rightharpoonup> string))" where
  "db_open fs rm pathname fl =
     (let r1 = fs_open fs rm (pathname @ ''.idx'') fl;
          fs1 = (case r1 of None \<Rightarrow> fs | Some (_, fs') \<Rightarrow> fs');
          r2 = fs_open fs1 rm (pathname @ ''.dat'') fl;
          fs2 = (case r2 of None \<Rightarrow> fs1 | Some (_, fs') \<Rightarrow> fs') in
      case (r1, r2) of
        (Some (f, _), Some (g, _)) \<Rightarrow>
          let db0 = (db_alloc (pathname @ ''.dat'') f g)\<lparr>nhash := NHASH_DEF, hashoff := HASH_OFF\<rparr> in
          bindE (if o_creat fl \<and> o_trunc fl then
                   let db1 = writew_lock db0 IdxFd 0 0 in
                   bindE (if bytes (idxf db1) = [] then
                            let hash = concat (replicate (NHASH_DEF + 1) (padl PTR_SZ (dec 0))) @ [NL];
                                (n, f') = fwrite (idxf db1) hash in
                            guardE (n \<noteq> length hash) (Dump ''db_open: index file init write error'')
                              (Inr (db1\<lparr>idxf := f'\<rparr>))
                          else Inr db1)
                     (\<lambda>db2. Inr (un_lock db2 IdxFd 0 0))
                 else Inr db0)
            (\<lambda>db3. bindE (db_rewind db3) (\<lambda>db4. Inr (Some db4, fs2)))
      | _ \<Rightarrow> Inr (None, fs2))"

definition db_close :: "db \<Rightarrow> string \<Rightarrow> (string \<rightharpoonup> string) \<Rightarrow> (string \<rightharpoonup> string)" where
  \<comment> \<open>the handle is freed; what stays is the content of the two files\<close>
  "db_close db pathname fs =
     fs(pathname @ ''.idx'' \<mapsto> bytes (idxf db), pathname @ ''.dat'' \<mapsto> bytes (datf db))"

end
