(* ===== verification/DbLayout.thy ===== *)
theory DbLayout
  imports Db
begin

text \<open>
  The structure of an index file: a list of chain pointers and a list of index records, and the
  bytes that encode them. The file operations of \<open>Db\<close> are shown to read and write exactly one
  pointer cell or one record of that structure. Addresses are byte offsets; a pointer cell is
  addressed by the offset of its seven characters, an index record by the offset of its chain
  pointer.
\<close>

section \<open>Index records and their bytes\<close>

record irec =
  nxt :: nat
  ikey :: string
  idoff :: nat
  idlen :: nat

definition enc_body :: "irec \<Rightarrow> string" where
  "enc_body r = ikey r @ [SEP] @ dec (idoff r) @ [SEP] @ dec (idlen r) @ [NL]"

definition enc_ptr :: "nat \<Rightarrow> string" where
  "enc_ptr p = padl PTR_SZ (dec p)"

definition enc_rec :: "irec \<Rightarrow> string" where
  "enc_rec r = enc_ptr (nxt r) @ padl IDXLEN_SZ (dec (length (enc_body r))) @ enc_body r"

definition rsize :: "irec \<Rightarrow> nat" where
  "rsize r = 11 + length (enc_body r)"

definition valid_irec :: "irec \<Rightarrow> bool" where
  "valid_irec r \<longleftrightarrow> int (nxt r) \<le> PTR_MAX \<and> IDXLEN_MIN \<le> length (enc_body r)
     \<and> length (enc_body r) \<le> IDXLEN_MAX \<and> SEP \<notin> set (ikey r) \<and> NUL \<notin> set (ikey r)
     \<and> 1 \<le> idlen r \<and> idlen r \<le> DATLEN_MAX"

lemma length_enc_ptr: "int p \<le> PTR_MAX \<Longrightarrow> length (enc_ptr p) = 7"
  using length_dec_less[of p 7] by (simp add: enc_ptr_def length_padl db_consts)

lemma length_enc_len: "l \<le> IDXLEN_MAX \<Longrightarrow> length (padl IDXLEN_SZ (dec l)) = 4"
  using length_dec_less[of l 4] by (simp add: length_padl db_consts)

lemma length_enc_rec: "valid_irec r \<Longrightarrow> length (enc_rec r) = rsize r"
  by (simp add: enc_rec_def valid_irec_def length_enc_ptr length_enc_len rsize_def)

lemma atol_enc_ptr [simp]: "atol (enc_ptr p) = int p"
  by (simp add: enc_ptr_def)

lemma cstr_enc_ptr [simp]: "cstr (enc_ptr p) = enc_ptr p"
  by (simp add: enc_ptr_def)

lemma rsize_nxt [simp]: "rsize (r\<lparr>nxt := p\<rparr>) = rsize r"
  by (simp add: rsize_def enc_body_def)

lemma enc_body_nxt [simp]: "enc_body (r\<lparr>nxt := p\<rparr>) = enc_body r"
  by (simp add: enc_body_def)

lemma valid_irec_nxt: "valid_irec r \<Longrightarrow> int p \<le> PTR_MAX \<Longrightarrow> valid_irec (r\<lparr>nxt := p\<rparr>)"
  by (simp add: valid_irec_def)

lemma rsize_pos [simp]: "0 < rsize r" "rsize r \<noteq> 0"
  by (simp_all add: rsize_def)

section \<open>The records of a file by offset\<close>

fun rec_at :: "nat \<Rightarrow> irec list \<Rightarrow> nat \<Rightarrow> irec option" where
  "rec_at b [] a = None"
| "rec_at b (r # rs) a = (if a = b then Some r else rec_at (b + rsize r) rs a)"

fun rec_upd :: "nat \<Rightarrow> irec list \<Rightarrow> nat \<Rightarrow> irec \<Rightarrow> irec list" where
  "rec_upd b [] a r' = []"
| "rec_upd b (r # rs) a r' = (if a = b then r' # rs else r # rec_upd (b + rsize r) rs a r')"

definition rsizes :: "irec list \<Rightarrow> nat" where
  "rsizes rs = sum_list (map rsize rs)"

lemma rsizes_simps [simp]:
  "rsizes [] = 0" "rsizes (r # rs) = rsize r + rsizes rs" "rsizes (rs @ ss) = rsizes rs + rsizes ss"
  by (simp_all add: rsizes_def)

lemma rec_at_bounds: "rec_at b rs a = Some r \<Longrightarrow> b \<le> a \<and> a + rsize r \<le> b + rsizes rs"
  by (induction b rs a rule: rec_at.induct) (auto split: if_splits)

lemma rec_at_below: "a < b \<Longrightarrow> rec_at b rs a = None"
  using rec_at_bounds[of b rs a] by (cases "rec_at b rs a") auto

lemma rec_at_mem: "rec_at b rs a = Some r \<Longrightarrow> r \<in> set rs"
  by (induction b rs a rule: rec_at.induct) (auto split: if_splits)

lemma rec_at_split:
  "rec_at b rs a = Some r \<Longrightarrow> \<exists>ys zs. rs = ys @ r # zs \<and> a = b + rsizes ys"
proof (induction b rs a rule: rec_at.induct)
  case (2 b s rs a)
  show ?case
  proof (cases "a = b")
    case True
    with 2 show ?thesis by (intro exI[of _ "[]"] exI[of _ rs]) simp
  next
    case False
    with 2 obtain ys zs where "rs = ys @ r # zs" "a = b + rsize s + rsizes ys" by auto
    then show ?thesis by (intro exI[of _ "s # ys"] exI[of _ zs]) simp
  qed
qed simp

lemma rec_at_append: "rec_at b (ys @ zs) a =
    (if a < b + rsizes ys then rec_at b ys a else rec_at (b + rsizes ys) zs a)"
proof (induction ys arbitrary: b)
  case Nil
  then show ?case by (simp add: rec_at_below)
next
  case (Cons y ys)
  then show ?case by (auto simp: rec_at_below add.assoc)
qed

lemma rec_upd_mid: "rec_upd b (ys @ r # zs) (b + rsizes ys) r' = ys @ r' # zs"
  by (induction ys arbitrary: b) (auto simp: add.assoc[symmetric])

lemma rec_at_upd:
  assumes "rec_at b rs a = Some r" "rsize r' = rsize r"
  shows "rec_at b (rec_upd b rs a r') x = (if x = a then Some r' else rec_at b rs x)"
  using assms(1)
proof (induction b rs a rule: rec_at.induct)
  case (2 b s rs a)
  show ?case
  proof (cases "a = b")
    case True
    with 2 assms(2) show ?thesis by simp
  next
    case False
    with "2.prems" have "b + rsize s \<le> a"
      using rec_at_bounds[of "b + rsize s" rs a r] by simp
    then have "b < a" using rsize_pos[of s] by linarith
    with False 2 show ?thesis by auto
  qed
qed simp

lemma rsizes_upd: "rec_at b rs a = Some r \<Longrightarrow> rsize r' = rsize r \<Longrightarrow> rsizes (rec_upd b rs a r') = rsizes rs"
  by (induction b rs a rule: rec_at.induct) (auto split: if_splits)

lemma set_rec_upd: "set (rec_upd b rs a r') \<subseteq> insert r' (set rs)"
  by (induction b rs a r' rule: rec_upd.induct) auto

section \<open>Index files\<close>

record ix =
  hdr :: "nat list"
  recs :: "irec list"

definition rbase :: "ix \<Rightarrow> nat" where
  "rbase x = 7 * length (hdr x) + 1"

definition enc_hdr :: "nat list \<Rightarrow> string" where
  "enc_hdr hs = concat (map enc_ptr hs)"

definition enc_ix :: "ix \<Rightarrow> string" where
  "enc_ix x = enc_hdr (hdr x) @ [NL] @ concat (map enc_rec (recs x))"

definition valid_ix :: "ix \<Rightarrow> bool" where
  "valid_ix x \<longleftrightarrow> (\<forall>p \<in> set (hdr x). int p \<le> PTR_MAX) \<and> (\<forall>r \<in> set (recs x). valid_irec r)"

definition irec_of :: "ix \<Rightarrow> nat \<Rightarrow> irec option" where
  "irec_of x a = rec_at (rbase x) (recs x) a"

definition cell :: "ix \<Rightarrow> nat \<Rightarrow> nat option" where
  "cell x a = (if a mod 7 = 0 \<and> a div 7 < length (hdr x) then Some (hdr x ! (a div 7))
               else map_option nxt (irec_of x a))"

definition body :: "ix \<Rightarrow> nat \<Rightarrow> (string \<times> nat \<times> nat) option" where
  "body x a = map_option (\<lambda>r. (ikey r, idoff r, idlen r)) (irec_of x a)"

definition put_rec :: "ix \<Rightarrow> nat \<Rightarrow> irec \<Rightarrow> ix" where
  "put_rec x a r = x\<lparr>recs := rec_upd (rbase x) (recs x) a r\<rparr>"

definition put_cell :: "ix \<Rightarrow> nat \<Rightarrow> nat \<Rightarrow> ix" where
  "put_cell x a p =
     (if a mod 7 = 0 \<and> a div 7 < length (hdr x) then x\<lparr>hdr := (hdr x)[a div 7 := p]\<rparr>
      else case irec_of x a of None \<Rightarrow> x | Some r \<Rightarrow> put_rec x a (r\<lparr>nxt := p\<rparr>))"

definition add_rec :: "ix \<Rightarrow> irec \<Rightarrow> ix" where
  "add_rec x r = x\<lparr>recs := recs x @ [r]\<rparr>"

definition xlen :: "ix \<Rightarrow> nat" where
  "xlen x = rbase x + rsizes (recs x)"

lemma length_enc_hdr: "\<forall>p \<in> set hs. int p \<le> PTR_MAX \<Longrightarrow> length (enc_hdr hs) = 7 * length hs"
  by (induction hs) (auto simp: enc_hdr_def length_enc_ptr)

lemma length_enc_recs: "\<forall>r \<in> set rs. valid_irec r \<Longrightarrow> length (concat (map enc_rec rs)) = rsizes rs"
  by (induction rs) (auto simp: length_enc_rec)

lemma length_enc_ix: "valid_ix x \<Longrightarrow> length (enc_ix x) = xlen x"
  by (simp add: valid_ix_def enc_ix_def length_enc_hdr length_enc_recs xlen_def rbase_def)

lemma irec_of_bounds: "irec_of x a = Some r \<Longrightarrow> rbase x \<le> a \<and> a + rsize r \<le> xlen x"
  by (auto simp: irec_of_def xlen_def dest: rec_at_bounds)

lemma irec_of_valid: "valid_ix x \<Longrightarrow> irec_of x a = Some r \<Longrightarrow> valid_irec r"
  by (auto simp: irec_of_def valid_ix_def dest: rec_at_mem)

lemma irec_of_not_hdr: "irec_of x a = Some r \<Longrightarrow> \<not> (a mod 7 = 0 \<and> a div 7 < length (hdr x))"
  using irec_of_bounds[of x a r] by (auto simp: rbase_def)

lemma cell_rec: "irec_of x a = Some r \<Longrightarrow> cell x a = Some (nxt r)"
  using irec_of_not_hdr[of x a r] by (auto simp: cell_def)

lemma cell_hdr: "i < length (hdr x) \<Longrightarrow> cell x (7 * i) = Some (hdr x ! i)"
  by (simp add: cell_def)

lemma cell_le: "valid_ix x \<Longrightarrow> cell x a = Some p \<Longrightarrow> int p \<le> PTR_MAX"
  by (auto simp: cell_def valid_ix_def irec_of_def valid_irec_def split: if_splits dest: rec_at_mem)

lemma body_dom: "body x a \<noteq> None \<Longrightarrow> rbase x \<le> a \<and> a < xlen x"
  by (cases "irec_of x a") (auto simp: body_def dest!: irec_of_bounds, metis add_lessD1 rsize_pos(1)
      less_add_same_cancel1 order_less_le_trans)

section \<open>One cell, one record\<close>

lemma hdr_split:
  assumes "i < length hs" "\<forall>p \<in> set hs. int p \<le> PTR_MAX"
  shows "enc_hdr hs = enc_hdr (take i hs) @ enc_ptr (hs ! i) @ enc_hdr (drop (Suc i) hs)"
    and "enc_hdr (hs[i := q]) = enc_hdr (take i hs) @ enc_ptr q @ enc_hdr (drop (Suc i) hs)"
    and "length (enc_hdr (take i hs)) = 7 * i"
proof -
  have eq: "hs = take i hs @ hs ! i # drop (Suc i) hs" by (rule id_take_nth_drop[OF assms(1)])
  show "enc_hdr hs = enc_hdr (take i hs) @ enc_ptr (hs ! i) @ enc_hdr (drop (Suc i) hs)"
    by (subst eq) (simp add: enc_hdr_def)
  have "hs[i := q] = take i hs @ q # drop (Suc i) hs" by (rule upd_conv_take_nth_drop[OF assms(1)])
  then show "enc_hdr (hs[i := q]) = enc_hdr (take i hs) @ enc_ptr q @ enc_hdr (drop (Suc i) hs)"
    by (simp add: enc_hdr_def)
  show "length (enc_hdr (take i hs)) = 7 * i"
    using assms length_enc_hdr[of "take i hs"] by (auto dest: in_set_takeD)
qed

lemma rec_segment:
  assumes "valid_ix x" "irec_of x a = Some r"
  obtains pre post where "enc_ix x = pre @ enc_rec r @ post" "length pre = a"
    "\<And>r'. enc_ix (put_rec x a r') = pre @ enc_rec r' @ post"
proof -
  obtain ys zs where yz: "recs x = ys @ r # zs" "a = rbase x + rsizes ys"
    using assms(2) rec_at_split unfolding irec_of_def by blast
  let ?pre = "enc_hdr (hdr x) @ [NL] @ concat (map enc_rec ys)"
  let ?post = "concat (map enc_rec zs)"
  show thesis
  proof (rule that)
    show "enc_ix x = ?pre @ enc_rec r @ ?post" using yz by (simp add: enc_ix_def)
    show "length ?pre = a"
      using assms(1) yz by (simp add: valid_ix_def length_enc_hdr length_enc_recs rbase_def)
    show "enc_ix (put_rec x a r') = ?pre @ enc_rec r' @ ?post" for r'
      using yz rec_upd_mid[of "rbase x" ys r zs r'] by (simp add: put_rec_def enc_ix_def)
  qed
qed

lemma cell_segment:
  assumes "valid_ix x" "cell x a = Some p"
  obtains pre post where "enc_ix x = pre @ enc_ptr p @ post" "length pre = a"
    "\<And>q. enc_ix (put_cell x a q) = pre @ enc_ptr q @ post"
proof (cases "a mod 7 = 0 \<and> a div 7 < length (hdr x)")
  case True
  let ?i = "a div 7" and ?rest = "[NL] @ concat (map enc_rec (recs x))"
  have hs: "\<forall>p \<in> set (hdr x). int p \<le> PTR_MAX" using assms(1) by (simp add: valid_ix_def)
  have a: "a = 7 * ?i" using True by auto
  show thesis
  proof (rule that)
    show "enc_ix x = enc_hdr (take ?i (hdr x)) @ enc_ptr p @ (enc_hdr (drop (Suc ?i) (hdr x)) @ ?rest)"
      using True assms(2) hdr_split(1)[of ?i "hdr x"] hs by (simp add: enc_ix_def cell_def)
    show "length (enc_hdr (take ?i (hdr x))) = a"
      using True hs hdr_split(3)[of ?i "hdr x"] a by simp
    show "enc_ix (put_cell x a q)
        = enc_hdr (take ?i (hdr x)) @ enc_ptr q @ (enc_hdr (drop (Suc ?i) (hdr x)) @ ?rest)" for q
      using True hdr_split(2)[of ?i "hdr x" q] hs by (simp add: enc_ix_def put_cell_def)
  qed
next
  case False
  then obtain r where r: "irec_of x a = Some r" "p = nxt r"
    using assms(2) by (auto simp: cell_def)
  obtain pre post where seg: "enc_ix x = pre @ enc_rec r @ post" "length pre = a"
    "\<And>r'. enc_ix (put_rec x a r') = pre @ enc_rec r' @ post"
    using rec_segment[OF assms(1) r(1)] by blast
  show thesis
  proof (rule that)
    let ?post = "padl IDXLEN_SZ (dec (length (enc_body r))) @ enc_body r @ post"
    show "enc_ix x = pre @ enc_ptr p @ ?post" using seg(1) r(2) by (simp add: enc_rec_def)
    show "length pre = a" by (rule seg(2))
    show "enc_ix (put_cell x a q) = pre @ enc_ptr q @ ?post" for q
      using False r seg(3)[of "r\<lparr>nxt := q\<rparr>"] by (auto simp: put_cell_def enc_rec_def)
  qed
qed

section \<open>What the updates do to cells and records\<close>

lemma put_rec_sel [simp]:
  "hdr (put_rec x a r) = hdr x" "rbase (put_rec x a r) = rbase x"
  by (simp_all add: put_rec_def rbase_def)

lemma irec_of_put_rec:
  assumes "irec_of x a = Some r" "rsize r' = rsize r"
  shows "irec_of (put_rec x a r') = (irec_of x)(a \<mapsto> r')"
  using rec_at_upd[OF assms(1)[unfolded irec_of_def] assms(2)]
  by (auto simp: irec_of_def put_rec_def rbase_def fun_eq_iff)

lemma cell_put_rec:
  assumes "irec_of x a = Some r" "rsize r' = rsize r"
  shows "cell (put_rec x a r') = (cell x)(a \<mapsto> nxt r')"
  using irec_of_put_rec[OF assms] irec_of_not_hdr[OF assms(1)] by (auto simp: cell_def fun_eq_iff)

lemma body_put_rec:
  assumes "irec_of x a = Some r" "rsize r' = rsize r"
  shows "body (put_rec x a r') = (body x)(a \<mapsto> (ikey r', idoff r', idlen r'))"
  using irec_of_put_rec[OF assms] by (auto simp: body_def fun_eq_iff)

lemma xlen_put_rec: "irec_of x a = Some r \<Longrightarrow> rsize r' = rsize r \<Longrightarrow> xlen (put_rec x a r') = xlen x"
  by (simp add: xlen_def rbase_def put_rec_def irec_of_def rsizes_upd)

lemma valid_put_rec: "valid_ix x \<Longrightarrow> valid_irec r' \<Longrightarrow> valid_ix (put_rec x a r')"
  using set_rec_upd by (fastforce simp: valid_ix_def put_rec_def)

lemma mod7_eqD: "a mod 7 = 0 \<Longrightarrow> b mod 7 = 0 \<Longrightarrow> a div 7 = b div 7 \<Longrightarrow> a = (b::nat)"
  by (metis mult_div_mod_eq)

lemma cell_put_cell:
  assumes "cell x a = Some p"
  shows "cell (put_cell x a q) = (cell x)(a \<mapsto> q)"
proof (cases "a mod 7 = 0 \<and> a div 7 < length (hdr x)")
  case True
  then show ?thesis
    by (auto simp: put_cell_def cell_def fun_eq_iff irec_of_def rbase_def nth_list_update dest: mod7_eqD)
next
  case False
  then obtain r where r: "irec_of x a = Some r" using assms by (auto simp: cell_def)
  then show ?thesis using False cell_put_rec[OF r, of "r\<lparr>nxt := q\<rparr>"] by (auto simp: put_cell_def)
qed

lemma body_put_cell: "body (put_cell x a q) = body x"
proof (cases "a mod 7 = 0 \<and> a div 7 < length (hdr x)")
  case True
  then show ?thesis by (auto simp: put_cell_def body_def irec_of_def rbase_def fun_eq_iff)
next
  case False
  show ?thesis
  proof (cases "irec_of x a")
    case None
    with False show ?thesis by (auto simp: put_cell_def)
  next
    case (Some r)
    then show ?thesis
      using False body_put_rec[OF Some, of "r\<lparr>nxt := q\<rparr>"] by (auto simp: put_cell_def body_def fun_eq_iff)
  qed
qed

lemma length_hdr_put_cell [simp]: "length (hdr (put_cell x a q)) = length (hdr x)"
  by (simp add: put_cell_def split: option.split)

lemma xlen_put_cell [simp]: "xlen (put_cell x a q) = xlen x"
  by (auto simp: put_cell_def xlen_put_rec split: option.split) (simp_all add: xlen_def rbase_def)

lemma valid_put_cell: "valid_ix x \<Longrightarrow> int q \<le> PTR_MAX \<Longrightarrow> valid_ix (put_cell x a q)"
proof (cases "a mod 7 = 0 \<and> a div 7 < length (hdr x)")
  case True
  moreover assume "valid_ix x" "int q \<le> PTR_MAX"
  ultimately show ?thesis
    using set_update_subset_insert[of "hdr x" "a div 7" q] by (auto simp: put_cell_def valid_ix_def)
next
  case False
  assume v: "valid_ix x" "int q \<le> PTR_MAX"
  show ?thesis
  proof (cases "irec_of x a")
    case None
    with False v show ?thesis by (auto simp: put_cell_def)
  next
    case (Some r)
    with v have "valid_irec (r\<lparr>nxt := q\<rparr>)" by (blast intro: valid_irec_nxt irec_of_valid)
    with False Some v show ?thesis by (auto simp: put_cell_def intro: valid_put_rec)
  qed
qed

lemma irec_of_add_rec: "irec_of (add_rec x r) = (irec_of x)(xlen x \<mapsto> r)"
proof
  fix a
  show "irec_of (add_rec x r) a = ((irec_of x)(xlen x \<mapsto> r)) a"
    using rec_at_bounds[of "rbase x" "recs x" a]
    by (cases "rec_at (rbase x) (recs x) a")
       (auto simp: irec_of_def add_rec_def rec_at_append xlen_def rbase_def)
qed

lemma xlen_not_hdr: "\<not> (xlen x mod 7 = 0 \<and> xlen x div 7 < length (hdr x))"
  by (auto simp: xlen_def rbase_def)

lemma cell_add_rec: "cell (add_rec x r) = (cell x)(xlen x \<mapsto> nxt r)"
  using irec_of_add_rec[of x r] xlen_not_hdr[of x] by (auto simp: cell_def fun_eq_iff add_rec_def)

lemma body_add_rec: "body (add_rec x r) = (body x)(xlen x \<mapsto> (ikey r, idoff r, idlen r))"
  using irec_of_add_rec[of x r] by (auto simp: body_def fun_eq_iff)

lemma add_rec_sel [simp]:
  "hdr (add_rec x r) = hdr x" "xlen (add_rec x r) = xlen x + rsize r"
  "enc_ix (add_rec x r) = enc_ix x @ enc_rec r"
  by (simp_all add: add_rec_def xlen_def rbase_def enc_ix_def)

lemma valid_add_rec: "valid_ix x \<Longrightarrow> valid_irec r \<Longrightarrow> valid_ix (add_rec x r)"
  by (auto simp: valid_ix_def add_rec_def)

end
