(* ===== verification/DbIO.thy ===== *)
theory DbIO
  imports DbLayout
begin

text \<open>
  The reading and writing functions of \<open>db/db.c\<close> against the structure of \<open>DbLayout\<close>: each reads
  or replaces one pointer cell, one index record or one data record, and changes nothing else but
  the file offsets and the scratch fields of the handle.
\<close>

section \<open>The index file\<close>

definition idx_rep :: "db \<Rightarrow> ix \<Rightarrow> bool" where
  "idx_rep db x \<longleftrightarrow> valid_ix x \<and> bytes (idxf db) = enc_ix x \<and> xlen x \<le> room (idxf db)"

lemma idx_repD: "idx_rep db x \<Longrightarrow> valid_ix x" "idx_rep db x \<Longrightarrow> bytes (idxf db) = enc_ix x"
  "idx_rep db x \<Longrightarrow> xlen x \<le> room (idxf db)"
  by (simp_all add: idx_rep_def)

lemma cell_fits: "idx_rep db x \<Longrightarrow> cell x a = Some p \<Longrightarrow> a + 7 \<le> xlen x"
proof -
  assume rep: "idx_rep db x" and c: "cell x a = Some p"
  have v: "valid_ix x" using rep by (rule idx_repD)
  obtain pre post where "enc_ix x = pre @ enc_ptr p @ post" "length pre = a"
    using cell_segment[OF v c] by blast
  moreover have "length (enc_ptr p) = 7" by (rule length_enc_ptr, rule cell_le[OF v c])
  ultimately show "a + 7 \<le> xlen x" using length_enc_ix[OF v] by simp
qed

lemma readptr_cell:
  assumes "idx_rep db x" "cell x a = Some p"
  shows "db_readptr db (int a) = Inr (int p, db\<lparr>idxf := (idxf db)\<lparr>pos := a + 7\<rparr>\<rparr>)"
proof -
  have v: "valid_ix x" and b: "bytes (idxf db) = enc_ix x" using assms(1) by (auto dest: idx_repD)
  obtain pre post where s: "enc_ix x = pre @ enc_ptr p @ post" "length pre = a"
    using cell_segment[OF v assms(2)] by blast
  have l: "length (enc_ptr p) = 7" by (rule length_enc_ptr, rule cell_le[OF v assms(2)])
  have "fread ((idxf db)\<lparr>pos := a\<rparr>) 7 = (enc_ptr p, (idxf db)\<lparr>pos := a + 7\<rparr>)"
    using s b l fread_mid[of "(idxf db)\<lparr>pos := a\<rparr>" pre "enc_ptr p" post 7] by simp
  then show ?thesis by (simp add: db_readptr_def lseek_set PTR_SZ_def l)
qed

lemma writeptr_cell:
  assumes "idx_rep db x" "cell x a = Some p" "int q \<le> PTR_MAX"
  shows "db_writeptr db (int a) (int q)
       = Inr (db\<lparr>idxf := (idxf db)\<lparr>bytes := enc_ix (put_cell x a q), pos := a + 7\<rparr>\<rparr>)"
proof -
  have v: "valid_ix x" and b: "bytes (idxf db) = enc_ix x" using assms(1) by (auto dest: idx_repD)
  obtain pre post where s: "enc_ix x = pre @ enc_ptr p @ post" "length pre = a"
    "\<And>q. enc_ix (put_cell x a q) = pre @ enc_ptr q @ post"
    using cell_segment[OF v assms(2)] by blast
  have l: "length (enc_ptr p) = 7" by (rule length_enc_ptr, rule cell_le[OF v assms(2)])
  have lq: "length (enc_ptr q) = 7" by (rule length_enc_ptr, rule assms(3))
  have fit: "a + 7 \<le> room (idxf db)" "a + 7 \<le> length (enc_ix x)"
    using cell_fits[OF assms(1,2)] idx_repD(3)[OF assms(1)] length_enc_ix[OF v] by simp_all
  have "splice a (enc_ptr q) (enc_ix x) = enc_ix (put_cell x a q)"
    using s l lq by (simp add: splice_mid)
  then have "fwrite ((idxf db)\<lparr>pos := a\<rparr>) (enc_ptr q)
      = (7, (idxf db)\<lparr>bytes := enc_ix (put_cell x a q), pos := a + 7\<rparr>)"
    using fwrite_full[of "(idxf db)\<lparr>pos := a\<rparr>" "enc_ptr q"] fit b lq by simp
  moreover have "take PTR_SZ (padl PTR_SZ (sdec (int q))) = enc_ptr q"
    using lq by (simp add: enc_ptr_def sdec_def PTR_SZ_def)
  ultimately show ?thesis
    using assms(3) by (simp add: db_writeptr_def lseek_set PTR_SZ_def)
qed

lemma parse_enc_body:
  assumes "valid_irec r"
  shows "db_parse_idx db (enc_body r)
       = Inr (db\<lparr>idxbuf := ikey r, datoff := int (idoff r), datlen := idlen r\<rparr>)"
proof -
  have k: "SEP \<notin> set (ikey r)" "NUL \<notin> set (ikey r)" using assms by (auto simp: valid_irec_def)
  let ?b = "ikey r @ SEP # dec (idoff r) @ SEP # dec (idlen r)"
  have lst: "enc_body r \<noteq> []" "last (enc_body r) = NL" "butlast (enc_body r) = ?b"
    by (simp_all add: enc_body_def butlast_append)
  have "NUL \<notin> set ?b" using k by (auto simp: SEP_def)
  then have b: "cstr (butlast (enc_body r)) = ?b" using lst by simp
  have tw: "takeWhile (\<lambda>c. c \<noteq> SEP) (s @ SEP # t) = s" "dropWhile (\<lambda>c. c \<noteq> SEP) (s @ SEP # t) = SEP # t"
    if "SEP \<notin> set s" for s t
    using that by (induction s) auto
  have d: "SEP \<notin> set (dec n)" for n by (simp add: SEP_def)
  have "1 \<le> idlen r" "idlen r \<le> DATLEN_MAX" using assms by (simp_all add: valid_irec_def)
  then show ?thesis
    using lst(1,2) k(1) d by (simp add: db_parse_idx_def b tw)
qed

lemma readidx_rec:
  assumes "idx_rep db x" "irec_of x a = Some r" "off = int a \<or> off = 0 \<and> pos (idxf db) = a"
  shows "db_readidx db off = Inr (int (nxt r), db\<lparr>idxf := (idxf db)\<lparr>pos := a + rsize r\<rparr>,
           idxbuf := ikey r, idxoff := int a, idxlen := length (enc_body r),
           datoff := int (idoff r), datlen := idlen r, ptrval := int (nxt r)\<rparr>)"
proof -
  have v: "valid_ix x" and b: "bytes (idxf db) = enc_ix x" using assms(1) by (auto dest: idx_repD)
  have vr: "valid_irec r" by (rule irec_of_valid[OF v assms(2)])
  obtain pre post where s: "enc_ix x = pre @ enc_rec r @ post" "length pre = a"
    using rec_segment[OF v assms(2)] by blast
  let ?len = "padl IDXLEN_SZ (dec (length (enc_body r)))"
  have l: "length (enc_ptr (nxt r)) = 7" "length ?len = 4"
    "6 \<le> length (enc_body r)" "length (enc_body r) \<le> 1024"
    using vr length_enc_ptr length_enc_len by (simp_all add: valid_irec_def IDXLEN_MIN_def IDXLEN_MAX_def)
  have apos: "a \<noteq> 0" using irec_of_bounds[OF assms(2)] by (simp add: rbase_def)
  have seek: "lseek (idxf db) off (if off = 0 then SEEK_CUR else SEEK_SET) = (int a, (idxf db)\<lparr>pos := a\<rparr>)"
    using assms(3) apos by (auto simp: lseek_set lseek_cur0)
  have r1: "fread ((idxf db)\<lparr>pos := a\<rparr>) 11 = (enc_ptr (nxt r) @ ?len, (idxf db)\<lparr>pos := a + 11\<rparr>)"
    using s b l fread_mid[of "(idxf db)\<lparr>pos := a\<rparr>" pre "enc_ptr (nxt r) @ ?len" "enc_body r @ post" 11]
    by (simp add: enc_rec_def)
  have r2: "fread ((idxf db)\<lparr>pos := a + 11\<rparr>) (length (enc_body r))
      = (enc_body r, (idxf db)\<lparr>pos := a + 11 + length (enc_body r)\<rparr>)"
    using s b l fread_mid[of "(idxf db)\<lparr>pos := a + 11\<rparr>" "pre @ enc_ptr (nxt r) @ ?len" "enc_body r" post]
    by (simp add: enc_rec_def)
  have "a + 11 + length (enc_body r) = a + rsize r" by (simp add: rsize_def)
  then show ?thesis
    using l by (simp add: db_readidx_def seek PTR_SZ_def r1 r2 IDXLEN_SZ_def IDXLEN_MIN_def IDXLEN_MAX_def
        parse_enc_body[OF vr] del: One_nat_def)
qed

lemma readidx_eof:
  assumes "idx_rep db x" "pos (idxf db) = xlen x"
  shows "db_readidx db 0 = Inr (-1, db\<lparr>idxoff := int (xlen x)\<rparr>)"
proof -
  have "length (bytes (idxf db)) \<le> pos (idxf db)"
    using assms length_enc_ix idx_repD by simp
  then show ?thesis
    using assms(2) by (simp add: db_readidx_def lseek_cur0 fread_eof PTR_SZ_def)
qed

section \<open>Writing index records\<close>

definition mk_irec :: "db \<Rightarrow> nat \<Rightarrow> string \<Rightarrow> irec" where
  \<comment> \<open>the record \<open>_db_writeidx\<close> builds from its arguments and the handle\<close>
  "mk_irec db p key = \<lparr>nxt = p, ikey = key, idoff = nat (datoff db), idlen = datlen db\<rparr>"

lemma mk_irec_sel [simp]:
  "nxt (mk_irec db p key) = p" "ikey (mk_irec db p key) = key"
  "idoff (mk_irec db p key) = nat (datoff db)" "idlen (mk_irec db p key) = datlen db"
  by (simp_all add: mk_irec_def)

lemma writeidx_bytes:
  assumes "0 \<le> datoff db" "valid_irec (mk_irec db p key)"
  shows "padl PTR_SZ (sdec (int p)) @ padl IDXLEN_SZ (dec (length (enc_body (mk_irec db p key))))
           @ enc_body (mk_irec db p key) = enc_rec (mk_irec db p key)"
    and "key @ [SEP] @ sdec (datoff db) @ [SEP] @ dec (datlen db) @ [NL] = enc_body (mk_irec db p key)"
    and "length (padl PTR_SZ (sdec (int p))) = 7"
    and "length (padl IDXLEN_SZ (dec (length (enc_body (mk_irec db p key))))) = 4"
  using assms length_enc_ptr[of p] length_enc_len
  by (auto simp: enc_rec_def enc_ptr_def enc_body_def sdec_def valid_irec_def)

lemma writeidx_rec:
  assumes "idx_rep db x" "irec_of x a = Some r" "0 \<le> datoff db"
    and "valid_irec (mk_irec db p key)" "rsize (mk_irec db p key) = rsize r"
  shows "db_writeidx db key (int a) SEEK_SET (int p)
       = Inr (db\<lparr>ptrval := int p, idxbuf := enc_body (mk_irec db p key), idxoff := int a,
           idxf := (idxf db)\<lparr>bytes := enc_ix (put_rec x a (mk_irec db p key)), pos := a + rsize r\<rparr>\<rparr>)"
proof -
  let ?r = "mk_irec db p key"
  have v: "valid_ix x" and b: "bytes (idxf db) = enc_ix x" using assms(1) by (auto dest: idx_repD)
  obtain pre post where s: "enc_ix x = pre @ enc_rec r @ post" "length pre = a"
    "\<And>r'. enc_ix (put_rec x a r') = pre @ enc_rec r' @ post"
    using rec_segment[OF v assms(2)] by blast
  have len: "length (enc_rec ?r) = rsize r" "length (enc_rec r) = rsize r"
    using length_enc_rec assms(4,5) irec_of_valid[OF v assms(2)] by simp_all
  have sp: "splice a (enc_rec ?r) (enc_ix x) = enc_ix (put_rec x a ?r)"
    using s len by (simp add: splice_mid)
  have fit: "a + rsize r \<le> room (idxf db)" "a \<le> length (enc_ix x)"
    using irec_of_bounds[OF assms(2)] idx_repD(3)[OF assms(1)] length_enc_ix[OF v] by simp_all
  have w: "fwrite ((idxf db)\<lparr>pos := a\<rparr>) (enc_rec ?r)
      = (rsize r, (idxf db)\<lparr>bytes := enc_ix (put_rec x a ?r), pos := a + rsize r\<rparr>)"
    using fwrite_full[of "(idxf db)\<lparr>pos := a\<rparr>" "enc_rec ?r"] fit b len sp by simp
  have L: "IDXLEN_MIN \<le> length (enc_body ?r)" "length (enc_body ?r) \<le> IDXLEN_MAX" "int p \<le> PTR_MAX"
    "rsize r = 11 + length (enc_body ?r)"
    using assms(4,5) by (simp_all add: valid_irec_def rsize_def)
  note wb = writeidx_bytes[OF assms(3,4)]
  let ?A = "padl PTR_SZ (sdec (int p))" and ?B = "padl IDXLEN_SZ (dec (length (enc_body ?r)))"
  have tk: "take (PTR_SZ + IDXLEN_SZ) (?A @ ?B) @ enc_body ?r = enc_rec ?r"
    using wb by (simp add: PTR_SZ_def IDXLEN_SZ_def)
  show ?thesis
    using L by (simp add: db_writeidx_def wb(2)[simplified] tk[simplified] lseek_set w Let_def split del: if_split)
      (simp add: PTR_SZ_def IDXLEN_SZ_def)
qed

lemma un_writew_lock:
  "\<forall>w. (fd, off, len, w) \<notin> set (locks db) \<Longrightarrow> un_lock (writew_lock db fd off len) fd off len = db"
  by (auto simp: un_lock_def writew_lock_def intro!: db.equality filter_True)

lemma writeidx_append:
  assumes "idx_rep db x" "0 \<le> datoff db" "valid_irec (mk_irec db p key)"
    and "xlen x + rsize (mk_irec db p key) \<le> room (idxf db)"
    and "\<forall>w. (IdxFd, int ((nhash db + 1) * PTR_SZ + 1), 0, w) \<notin> set (locks db)"
  shows "db_writeidx db key 0 SEEK_END (int p)
       = Inr (db\<lparr>ptrval := int p, idxbuf := enc_body (mk_irec db p key), idxoff := int (xlen x),
           idxf := (idxf db)\<lparr>bytes := enc_ix (add_rec x (mk_irec db p key)),
                             pos := xlen x + rsize (mk_irec db p key)\<rparr>\<rparr>)"
proof -
  let ?r = "mk_irec db p key"
  have v: "valid_ix x" and b: "bytes (idxf db) = enc_ix x" using assms(1) by (auto dest: idx_repD)
  have len: "length (enc_rec ?r) = rsize ?r" by (rule length_enc_rec[OF assms(3)])
  have w: "fwrite ((idxf db)\<lparr>pos := xlen x\<rparr>) (enc_rec ?r)
      = (rsize ?r, (idxf db)\<lparr>bytes := enc_ix (add_rec x ?r), pos := xlen x + rsize ?r\<rparr>)"
    using fwrite_full[of "(idxf db)\<lparr>pos := xlen x\<rparr>" "enc_rec ?r"] assms(4) b len length_enc_ix[OF v]
    by (simp add: splice_end)
  have L: "IDXLEN_MIN \<le> length (enc_body ?r)" "length (enc_body ?r) \<le> IDXLEN_MAX" "int p \<le> PTR_MAX"
    "rsize ?r = 11 + length (enc_body ?r)"
    using assms(3) by (simp_all add: valid_irec_def rsize_def)
  note wb = writeidx_bytes[OF assms(2,3)]
  let ?A = "padl PTR_SZ (sdec (int p))" and ?B = "padl IDXLEN_SZ (dec (length (enc_body ?r)))"
  have tk: "take (PTR_SZ + IDXLEN_SZ) (?A @ ?B) @ enc_body ?r = enc_rec ?r"
    using wb by (simp add: PTR_SZ_def IDXLEN_SZ_def)
  have seek: "lseek (idxf db) 0 SEEK_END = (int (xlen x), (idxf db)\<lparr>pos := xlen x\<rparr>)"
    using b length_enc_ix[OF v] by (simp add: lseek_end0)
  define lk where "lk = int ((nhash db + 1) * PTR_SZ + 1)"
  define db1 where "db1 = db\<lparr>ptrval := int p, idxbuf := enc_body ?r\<rparr>"
  define db2 where "db2 = db1\<lparr>idxoff := int (xlen x),
     idxf := (idxf db)\<lparr>bytes := enc_ix (add_rec x ?r), pos := xlen x + rsize ?r\<rparr>\<rparr>"
  have "db_writeidx db key 0 SEEK_END (int p)
      = Inr (un_lock ((writew_lock db1 IdxFd lk 0)\<lparr>idxoff := int (xlen x),
     idxf := (idxf db)\<lparr>bytes := enc_ix (add_rec x ?r), pos := xlen x + rsize ?r\<rparr>\<rparr>) IdxFd lk 0)"
    using L by (simp add: db_writeidx_def wb(2)[simplified] tk[simplified] seek w Let_def writew_lock_def
        db1_def lk_def split del: if_split) (simp add: PTR_SZ_def IDXLEN_SZ_def)
  also have "\<dots> = Inr (un_lock (writew_lock db2 IdxFd lk 0) IdxFd lk 0)"
    by (rule arg_cong[where f = "\<lambda>d. Inr (un_lock d IdxFd lk 0)"], rule db.equality)
       (simp_all add: db2_def writew_lock_def db1_def)
  also have "\<dots> = Inr db2"
    using assms(5) by (simp add: un_writew_lock lk_def db2_def db1_def)
  finally show ?thesis by (simp add: db2_def db1_def)
qed

section \<open>The data file\<close>

definition dat_at :: "string \<Rightarrow> nat \<Rightarrow> nat \<Rightarrow> string" where
  "dat_at d off len = take len (drop off d)"

lemma length_dat_at: "off + len \<le> length d \<Longrightarrow> length (dat_at d off len) = len"
  by (simp add: dat_at_def)

lemma readdat_rec:
  assumes "datoff db = int o'" "datlen db = length s + 1" "NUL \<notin> set s"
    "dat_at (bytes (datf db)) o' (length s + 1) = s @ [NL]"
  shows "db_readdat db = Inr (s, db\<lparr>datf := (datf db)\<lparr>pos := o' + length s + 1\<rparr>, datbuf := s\<rparr>)"
proof -
  have "fread ((datf db)\<lparr>pos := o'\<rparr>) (length s + 1) = (s @ [NL], (datf db)\<lparr>pos := o' + length s + 1\<rparr>)"
    using assms(4) by (simp add: fread_def dat_at_def)
  then show ?thesis using assms by (simp add: db_readdat_def lseek_set)
qed

lemma writedat_over:
  assumes "datoff db = int o'" "o' + length data + 1 \<le> length (bytes (datf db))"
    "length (bytes (datf db)) \<le> room (datf db)" "off = datoff db"
  shows "db_writedat db data off SEEK_SET = Inr (db\<lparr>datlen := length data + 1,
      datf := (datf db)\<lparr>bytes := splice o' (data @ [NL]) (bytes (datf db)), pos := o' + length data + 1\<rparr>\<rparr>)"
proof -
  have "fwrite ((datf db)\<lparr>pos := o'\<rparr>) (data @ [NL]) = (length data + 1,
     (datf db)\<lparr>bytes := splice o' (data @ [NL]) (bytes (datf db)), pos := o' + length data + 1\<rparr>)"
    using fwrite_full[of "(datf db)\<lparr>pos := o'\<rparr>" "data @ [NL]"] assms(2,3) by simp
  then show ?thesis using assms(1,4) by (simp add: db_writedat_def lseek_set)
qed

lemma writedat_append:
  assumes "length (bytes (datf db)) + length data + 1 \<le> room (datf db)"
    and "\<forall>w. (DatFd, 0, 0, w) \<notin> set (locks db)"
  shows "db_writedat db data 0 SEEK_END = Inr (db\<lparr>datoff := int (length (bytes (datf db))),
      datlen := length data + 1, datf := (datf db)\<lparr>bytes := bytes (datf db) @ data @ [NL],
      pos := length (bytes (datf db)) + length data + 1\<rparr>\<rparr>)"
proof -
  let ?e = "length (bytes (datf db))"
  have w: "fwrite ((datf db)\<lparr>pos := ?e\<rparr>) (data @ [NL]) = (length data + 1,
     (datf db)\<lparr>bytes := bytes (datf db) @ data @ [NL], pos := ?e + length data + 1\<rparr>)"
    using fwrite_full[of "(datf db)\<lparr>pos := ?e\<rparr>" "data @ [NL]"] assms(1) by (simp add: splice_end)
  define db2 where "db2 = db\<lparr>datoff := int ?e, datlen := length data + 1,
     datf := (datf db)\<lparr>bytes := bytes (datf db) @ data @ [NL], pos := ?e + length data + 1\<rparr>\<rparr>"
  define db1 where "db1 = (writew_lock db DatFd 0 0)\<lparr>datoff := int ?e, datlen := length data + 1,
     datf := (datf db)\<lparr>bytes := bytes (datf db) @ data @ [NL], pos := ?e + length data + 1\<rparr>\<rparr>"
  have "db_writedat db data 0 SEEK_END = Inr (un_lock db1 DatFd 0 0)"
    by (simp add: db_writedat_def lseek_end0 w Let_def writew_lock_def db1_def)
  also have "db1 = writew_lock db2 DatFd 0 0"
    by (rule db.equality) (simp_all add: db1_def db2_def writew_lock_def)
  also have "Inr (un_lock (writew_lock db2 DatFd 0 0) DatFd 0 0) = Inr db2" using assms(2) by (simp add: un_writew_lock db2_def)
  finally show ?thesis by (simp add: db2_def)
qed

lemma dat_at_splice_same:
  "o' + length s \<le> length d \<Longrightarrow> dat_at (splice o' s d) o' (length s) = s"
  by (simp add: dat_at_def take_drop_splice_same)

lemma dat_at_splice_other:
  "o' + length s \<le> length d \<Longrightarrow> a + m \<le> o' \<or> o' + length s \<le> a \<Longrightarrow>
     dat_at (splice o' s d) a m = dat_at d a m"
  by (simp add: dat_at_def take_drop_splice_disj)

lemma dat_at_append: "a + m \<le> length d \<Longrightarrow> dat_at (d @ s) a m = dat_at d a m"
  by (simp add: dat_at_def)

lemma dat_at_end: "dat_at (d @ s) (length d) (length s) = s"
  by (simp add: dat_at_def)

end
