(* ===== verification/DbInv.thy ===== *)
theory DbInv
  imports DbIO
begin

text \<open>
  The invariant of the database files, in two layers: the chains as paths through pointer cells
  (\<open>lf\<close>), and the relation \<open>db_rep\<close> between a handle with its two files and the map from keys to
  data that they store. The chains of the free list and of every bucket partition the records of
  the index file; live records sit in the bucket of their hash, with distinct keys; free records
  have blank keys; the data regions of the records are disjoint and end in a newline.
\<close>

section \<open>Paths through pointer cells\<close>

fun lf :: "(nat \<Rightarrow> nat option) \<Rightarrow> nat \<Rightarrow> nat list \<Rightarrow> bool" where
  "lf c s [] \<longleftrightarrow> c s = Some 0"
| "lf c s (a # as) \<longleftrightarrow> c s = Some a \<and> a \<noteq> 0 \<and> lf c a as"

definition lfv :: "(nat \<Rightarrow> nat option) \<Rightarrow> nat \<Rightarrow> nat list \<Rightarrow> bool" where
  \<comment> \<open>the path that a pointer value leads to\<close>
  "lfv c p as \<longleftrightarrow> (case as of [] \<Rightarrow> p = 0 | a # as' \<Rightarrow> p = a \<and> a \<noteq> 0 \<and> lf c a as')"

lemma lf_lfv: "lf c s as \<longleftrightarrow> (\<exists>p. c s = Some p \<and> lfv c p as)"
  by (cases as) (auto simp: lfv_def)

lemma lf_cong: "(\<And>x. x \<in> set (s # as) \<Longrightarrow> c' x = c x) \<Longrightarrow> lf c' s as = lf c s as"
  by (induction as arbitrary: s) auto

lemma lf_upd [simp]: "x \<notin> set (s # as) \<Longrightarrow> lf (c(x := v)) s as = lf c s as"
  by (rule lf_cong) auto

lemma lf_append: "lf c s (pre @ a # post) \<Longrightarrow> c (last (s # pre)) = Some a \<and> lf c a post"
  by (induction pre arbitrary: s) auto

lemma lf_delete:
  assumes "lf c s (pre @ a # post)" "distinct (s # pre @ a # post)"
  shows "lf (c(last (s # pre) := c a)) s (pre @ post)"
  using assms
proof (induction pre arbitrary: s)
  case Nil
  show ?case
  proof (cases post)
    case Nil
    with \<open>lf c s ([] @ a # post)\<close> show ?thesis by simp
  next
    case (Cons q qs)
    then have "lf (c(s := c a)) q qs = lf c q qs" using Nil.prems(2) by (intro lf_upd) auto
    with Nil.prems Cons show ?thesis by (simp del: fun_upd_apply) simp
  qed
next
  case (Cons b pre)
  have ne: "s \<noteq> last (b # pre)" using Cons.prems(2) last_in_set[of "b # pre"] by fastforce
  have "lf (c(last (b # pre) := c a)) b (pre @ post)"
    using Cons.prems by (intro Cons.IH) auto
  moreover have "last (s # b # pre) = last (b # pre)" by simp
  ultimately show ?case using Cons.prems(1) ne by (simp only: append_Cons lf.simps fun_upd_other) simp
qed

lemma lf_insert:
  assumes "lf c s as" "distinct (s # a # as)" "a \<noteq> 0" "c s = Some p"
  shows "lf (c(a := Some p, s := Some a)) s (a # as)"
  using assms by (cases as) auto

lemma lf_nonzero: "lf c s as \<Longrightarrow> 0 \<notin> set as"
  by (induction as arbitrary: s) auto

section \<open>Bodies of records\<close>

definition bkey :: "(nat \<rightharpoonup> string \<times> nat \<times> nat) \<Rightarrow> nat \<Rightarrow> string" where
  "bkey b a = fst (the (b a))"

definition bval :: "(nat \<rightharpoonup> string \<times> nat \<times> nat) \<Rightarrow> string \<Rightarrow> nat \<Rightarrow> string" where
  "bval b d a = (case the (b a) of (k, o', l) \<Rightarrow> butlast (dat_at d o' l))"

definition live :: "nat list list \<Rightarrow> nat list" where
  "live cs = concat (tl cs)"

definition khash :: "nat \<Rightarrow> string \<Rightarrow> nat" where
  "khash n key = unat (db_hash_loop 0 1 key) mod n"

lemma db_hash_khash: "db_hash db key = khash (nhash db) key"
  by (simp add: db_hash_def khash_def)

definition chains_ok :: "nat \<Rightarrow> (nat \<rightharpoonup> nat) \<Rightarrow> (nat \<rightharpoonup> string \<times> nat \<times> nat) \<Rightarrow> nat list list \<Rightarrow> bool" where
  "chains_ok n c b cs \<longleftrightarrow> length cs = Suc n \<and> (\<forall>i \<le> n. lf c (7 * i) (cs ! i))
     \<and> (\<forall>i \<le> n. distinct (cs ! i))
     \<and> (\<forall>i \<le> n. \<forall>j \<le> n. i \<noteq> j \<longrightarrow> set (cs ! i) \<inter> set (cs ! j) = {})
     \<and> (\<Union>i \<le> n. set (cs ! i)) = dom b \<and> (\<forall>a \<in> dom b. 7 * n < a)"

definition keys_ok :: "nat \<Rightarrow> (nat \<rightharpoonup> string \<times> nat \<times> nat) \<Rightarrow> nat list list \<Rightarrow> bool" where
  "keys_ok n b cs \<longleftrightarrow> (\<forall>h < n. \<forall>a \<in> set (cs ! Suc h). khash n (bkey b a) = h)
     \<and> inj_on (bkey b) (set (live cs)) \<and> (\<forall>a \<in> set (cs ! 0). set (bkey b a) \<subseteq> {SPACE})"

definition data_ok :: "(nat \<rightharpoonup> string \<times> nat \<times> nat) \<Rightarrow> string \<Rightarrow> bool" where
  "data_ok b d \<longleftrightarrow>
     (\<forall>a k o' l. b a = Some (k, o', l) \<longrightarrow>
        o' + l \<le> length d \<and> (\<exists>s. dat_at d o' l = s @ [NL] \<and> NUL \<notin> set s))
     \<and> (\<forall>a a' k o' l k' p l'. a \<noteq> a' \<longrightarrow> b a = Some (k, o', l) \<longrightarrow> b a' = Some (k', p, l')
          \<longrightarrow> o' + l \<le> p \<or> p + l' \<le> o')"

definition amap :: "(nat \<rightharpoonup> string \<times> nat \<times> nat) \<Rightarrow> nat list list \<Rightarrow> string \<Rightarrow> string \<rightharpoonup> string" where
  "amap b cs d = map_of (map (\<lambda>a. (bkey b a, bval b d a)) (live cs))"

definition db_inv :: "db \<Rightarrow> ix \<Rightarrow> nat list list \<Rightarrow> bool" where
  "db_inv db x cs \<longleftrightarrow> idx_rep db x \<and> length (hdr x) = Suc (nhash db) \<and> nhash db = NHASH_DEF \<and> hashoff db = 7
     \<and> chains_ok (nhash db) (cell x) (body x) cs \<and> keys_ok (nhash db) (body x) cs
     \<and> data_ok (body x) (bytes (datf db)) \<and> length (bytes (datf db)) \<le> room (datf db)"

definition db_rep :: "db \<Rightarrow> (string \<rightharpoonup> string) \<Rightarrow> bool" where
  "db_rep db m \<longleftrightarrow> (\<exists>x cs. db_inv db x cs \<and> m = amap (body x) cs (bytes (datf db)))"

section \<open>The abstract map\<close>

lemma live_set: "length cs = Suc n \<Longrightarrow> set (live cs) = (\<Union>h < n. set (cs ! Suc h))"
proof -
  assume l: "length cs = Suc n"
  then obtain c cs' where cs: "cs = c # cs'" "length cs' = n" by (cases cs) auto
  have "set cs' = {cs' ! h | h. h < n}" using cs(2) by (auto simp: set_conv_nth)
  then show ?thesis using cs by (auto simp: live_def)
qed

lemma amap_Some:
  assumes "inj_on (bkey b) (set (live cs))"
  shows "amap b cs d k = Some v \<longleftrightarrow> (\<exists>a \<in> set (live cs). bkey b a = k \<and> bval b d a = v)"
proof
  assume "amap b cs d k = Some v"
  then show "\<exists>a \<in> set (live cs). bkey b a = k \<and> bval b d a = v"
    unfolding amap_def by (auto dest!: map_of_SomeD)
next
  assume "\<exists>a \<in> set (live cs). bkey b a = k \<and> bval b d a = v"
  then obtain a where a: "a \<in> set (live cs)" "bkey b a = k" "bval b d a = v" by blast
  then have "k \<in> fst ` set (map (\<lambda>a. (bkey b a, bval b d a)) (live cs))" by force
  then obtain w where w: "amap b cs d k = Some w"
    unfolding amap_def by (metis map_of_eq_None_iff not_None_eq)
  then obtain a' where "a' \<in> set (live cs)" "bkey b a' = k" "bval b d a' = w"
    unfolding amap_def by (auto dest!: map_of_SomeD)
  with a assms have "w = v" by (metis inj_onD)
  with w show "amap b cs d k = Some v" by simp
qed

lemma amap_None: "amap b cs d k = None \<longleftrightarrow> (\<forall>a \<in> set (live cs). bkey b a \<noteq> k)"
  by (force simp: amap_def map_of_eq_None_iff)

lemma map_eqI: "(\<And>k v. m k = Some v \<longleftrightarrow> m' k = Some v) \<Longrightarrow> m = m'"
  by (rule ext) (metis not_None_eq)

lemma chains_live:
  assumes "chains_ok n c b cs"
  shows "set (live cs) \<subseteq> dom b" "set (cs ! 0) \<inter> set (live cs) = {}"
    "dom b = set (cs ! 0) \<union> set (live cs)"
proof -
  have l: "length cs = Suc n" and d: "(\<Union>i \<le> n. set (cs ! i)) = dom b"
    and j: "\<And>i j. i \<le> n \<Longrightarrow> j \<le> n \<Longrightarrow> i \<noteq> j \<Longrightarrow> set (cs ! i) \<inter> set (cs ! j) = {}"
    using assms unfolding chains_ok_def by blast+
  have "{..n} = insert 0 (Suc ` {..<n})" by (auto simp: image_iff Suc_le_eq gr0_conv_Suc lessThan_def)
      (metis Suc_le_eq less_eq_Suc_le not0_implies_Suc)
  then have "(\<Union>i \<le> n. set (cs ! i)) = set (cs ! 0) \<union> (\<Union>h < n. set (cs ! Suc h))" by simp
  then show e: "dom b = set (cs ! 0) \<union> set (live cs)" using d live_set[OF l] by simp
  then show "set (live cs) \<subseteq> dom b" by simp
  have "set (cs ! 0) \<inter> set (cs ! Suc h) = {}" if "h < n" for h using j[of 0 "Suc h"] that by simp
  then show "set (cs ! 0) \<inter> set (live cs) = {}" unfolding live_set[OF l] by blast
qed

lemma amap_inv:
  assumes "chains_ok n c b cs" "keys_ok n b cs"
  shows "amap b cs d k = Some v \<longleftrightarrow> (\<exists>a \<in> set (live cs). bkey b a = k \<and> bval b d a = v)"
  using assms by (intro amap_Some) (auto simp: keys_ok_def)

section \<open>The scratch fields of the handle\<close>

definition core_of :: "db \<Rightarrow> db" where
  \<comment> \<open>the handle without its file offsets, its buffers and the fields that describe the last record\<close>
  "core_of db = db\<lparr>idxf := (idxf db)\<lparr>pos := 0\<rparr>, datf := (datf db)\<lparr>pos := 0\<rparr>, idxbuf := [], datbuf := [],
     idxoff := 0, idxlen := 0, datoff := 0, datlen := 0, ptrval := 0, ptroff := 0\<rparr>"

lemma core_ofD:
  assumes "core_of a = core_of b"
  shows "bytes (idxf a) = bytes (idxf b)" "room (idxf a) = room (idxf b)"
    "bytes (datf a) = bytes (datf b)" "room (datf a) = room (datf b)"
    "nhash a = nhash b" "hashoff a = hashoff b" "chainoff a = chainoff b" "locks a = locks b"
    "cnt_delok a = cnt_delok b" "db_err a = db_err b"
  using arg_cong[OF assms, of "\<lambda>d. bytes (idxf d)"] arg_cong[OF assms, of "\<lambda>d. room (idxf d)"]
    arg_cong[OF assms, of "\<lambda>d. bytes (datf d)"] arg_cong[OF assms, of "\<lambda>d. room (datf d)"]
    arg_cong[OF assms, of nhash] arg_cong[OF assms, of hashoff] arg_cong[OF assms, of chainoff]
    arg_cong[OF assms, of locks] arg_cong[OF assms, of cnt_delok] arg_cong[OF assms, of db_err]
  by (simp_all add: core_of_def)

lemma core_of_upd [simp]:
  "core_of (db\<lparr>idxf := (idxf db)\<lparr>pos := p\<rparr>\<rparr>) = core_of db"
  "core_of (db\<lparr>datf := (datf db)\<lparr>pos := p\<rparr>\<rparr>) = core_of db"
  "core_of (db\<lparr>ptroff := i\<rparr>) = core_of db"
  "core_of (db\<lparr>datbuf := s\<rparr>) = core_of db"
  "core_of (db\<lparr>idxbuf := s\<rparr>) = core_of db"
  "core_of (db\<lparr>idxoff := i\<rparr>) = core_of db"
  "core_of (db\<lparr>idxlen := n\<rparr>) = core_of db"
  "core_of (db\<lparr>datoff := i\<rparr>) = core_of db"
  "core_of (db\<lparr>datlen := n\<rparr>) = core_of db"
  "core_of (db\<lparr>ptrval := i\<rparr>) = core_of db"
  by (simp_all add: core_of_def)

lemma core_of_un_lock: "core_of a = core_of b \<Longrightarrow> core_of (un_lock a fd o' l) = core_of (un_lock b fd o' l)"
proof -
  have "core_of (un_lock d fd o' l) = un_lock (core_of d) fd o' l" for d
    by (simp add: un_lock_def core_of_def)
  then show "core_of a = core_of b \<Longrightarrow> ?thesis" by simp
qed

lemma core_of_idx_bytes:
  "core_of a = core_of b \<Longrightarrow>
     core_of (a\<lparr>idxf := (idxf a)\<lparr>bytes := s\<rparr>\<rparr>) = core_of (b\<lparr>idxf := (idxf b)\<lparr>bytes := s\<rparr>\<rparr>)"
proof -
  have "core_of (d\<lparr>idxf := (idxf d)\<lparr>bytes := s\<rparr>\<rparr>)
      = (core_of d)\<lparr>idxf := (idxf (core_of d))\<lparr>bytes := s\<rparr>\<rparr>" for d
    by (simp add: core_of_def)
  then show "core_of a = core_of b \<Longrightarrow> ?thesis" by simp
qed

lemma idx_rep_core: "core_of a = core_of b \<Longrightarrow> idx_rep a x = idx_rep b x"
  using core_ofD[of a b] by (auto simp: idx_rep_def)

lemma db_inv_core: "core_of a = core_of b \<Longrightarrow> db_inv a x cs = db_inv b x cs"
  using core_ofD[of a b] idx_rep_core[of a b x] by (auto simp: db_inv_def)

lemma db_inv_other:
  "db_inv (db\<lparr>chainoff := i\<rparr>) x cs = db_inv db x cs" "db_inv (db\<lparr>locks := l\<rparr>) x cs = db_inv db x cs"
  "db_inv (db\<lparr>db_err := e\<rparr>) x cs = db_inv db x cs"
  "db_inv (db\<lparr>cnt_fetchok := w\<rparr>) x cs = db_inv db x cs" "db_inv (db\<lparr>cnt_fetcherr := w\<rparr>) x cs = db_inv db x cs"
  "db_inv (db\<lparr>cnt_delok := w\<rparr>) x cs = db_inv db x cs" "db_inv (db\<lparr>cnt_delerr := w\<rparr>) x cs = db_inv db x cs"
  "db_inv (db\<lparr>cnt_nextrec := w\<rparr>) x cs = db_inv db x cs"
  "db_inv (db\<lparr>cnt_stor1 := w\<rparr>) x cs = db_inv db x cs" "db_inv (db\<lparr>cnt_stor2 := w\<rparr>) x cs = db_inv db x cs"
  "db_inv (db\<lparr>cnt_stor3 := w\<rparr>) x cs = db_inv db x cs" "db_inv (db\<lparr>cnt_stor4 := w\<rparr>) x cs = db_inv db x cs"
  "db_inv (db\<lparr>cnt_storerr := w\<rparr>) x cs = db_inv db x cs"
  by (simp_all add: db_inv_def idx_rep_def)

end
