(* ===== verification/DbFind.thy ===== *)
theory DbFind
  imports DbInv
begin

text \<open>
  The searches of \<open>db/db.c\<close>: the hash chain walked by \<open>_db_find_and_lock\<close> and the free list walked by
  \<open>_db_findfree\<close>. Both end, because a chain holds each record at most once, and both leave the record
  they stop at described in the handle.
\<close>

definition loaded :: "db \<Rightarrow> nat \<Rightarrow> irec \<Rightarrow> bool" where
  \<comment> \<open>the handle describes the record at this offset\<close>
  "loaded db a r \<longleftrightarrow> idxbuf db = ikey r \<and> idxoff db = int a \<and> datoff db = int (idoff r)
     \<and> datlen db = idlen r \<and> ptrval db = int (nxt r)"

lemma readidx_loaded:
  assumes "idx_rep db x" "irec_of x a = Some r" "off = int a \<or> off = 0 \<and> pos (idxf db) = a"
  obtains db' where "db_readidx db off = Inr (int (nxt r), db')" "core_of db' = core_of db"
    "loaded db' a r" "pos (idxf db') = a + rsize r" "ptroff db' = ptroff db"
proof -
  let ?db = "db\<lparr>idxf := (idxf db)\<lparr>pos := a + rsize r\<rparr>,
           idxbuf := ikey r, idxoff := int a, idxlen := length (enc_body r),
           datoff := int (idoff r), datlen := idlen r, ptrval := int (nxt r)\<rparr>"
  show thesis
    by (rule that[of ?db]) (use readidx_rec[OF assms] in \<open>simp_all add: loaded_def core_of_def\<close>)
qed

lemma bkey_irec: "irec_of x a = Some r \<Longrightarrow> bkey (body x) a = ikey r"
  by (simp add: bkey_def body_def)

lemma dom_body: "a \<in> dom (body x) \<longleftrightarrow> (\<exists>r. irec_of x a = Some r)"
  by (auto simp: body_def)

lemma length_le_xlen:
  assumes "distinct as" "set as \<subseteq> dom (body x)"
  shows "length as \<le> xlen x"
proof -
  have "set as \<subseteq> {..<xlen x}" using assms(2) body_dom[of x] by (auto simp: dom_def)
  then have "card (set as) \<le> card {..<xlen x}" by (intro card_mono) auto
  then show ?thesis using distinct_card[OF assms(1)] by simp
qed

lemma lfv_Cons: "lfv (cell x) p (a # as) \<Longrightarrow> irec_of x a = Some r \<Longrightarrow> p = a \<and> a \<noteq> 0 \<and> lfv (cell x) (nxt r) as"
  by (auto simp: lfv_def lf_lfv cell_rec split: list.splits)

section \<open>The hash chain\<close>

lemma find_loop_found:
  assumes "idx_rep db x" "lfv (cell x) p (pre @ a # post)" "set (pre @ [a]) \<subseteq> dom (body x)"
    and "\<forall>b \<in> set pre. bkey (body x) b \<noteq> key" "bkey (body x) a = key" "length pre < fuel"
  shows "\<exists>db' r. db_find_loop fuel db key (int p) = Inr (int a, db') \<and> core_of db' = core_of db
    \<and> irec_of x a = Some r \<and> loaded db' a r
    \<and> ptroff db' = (if pre = [] then ptroff db else int (last pre))"
  using assms
proof (induction pre arbitrary: db p fuel)
  case Nil
  then obtain f r where f: "fuel = Suc f" and r: "irec_of x a = Some r"
    by (cases fuel) (auto simp: dom_body)
  with Nil.prems have p: "p = a" "a \<noteq> 0" using lfv_Cons by auto
  obtain db' where db': "db_readidx db (int a) = Inr (int (nxt r), db')" "core_of db' = core_of db"
    "loaded db' a r" "ptroff db' = ptroff db"
    using readidx_loaded[OF Nil.prems(1) r] by blast
  moreover have "idxbuf db' = key" using db'(3) Nil.prems(5) bkey_irec[OF r] by (simp add: loaded_def)
  ultimately show ?case using f r p by auto
next
  case (Cons b pre)
  then obtain f r where f: "fuel = Suc f" and r: "irec_of x b = Some r"
    by (cases fuel) (auto simp: dom_body)
  have p: "p = b" "b \<noteq> 0" "lfv (cell x) (nxt r) (pre @ a # post)"
    using lfv_Cons[of x p b "pre @ a # post", OF _ r] Cons.prems(2) by auto
  obtain db' where db': "db_readidx db (int b) = Inr (int (nxt r), db')" "core_of db' = core_of db" "loaded db' b r"
    using readidx_loaded[OF Cons.prems(1) r] by blast
  have ne: "idxbuf db' \<noteq> key" using db'(3) Cons.prems(4) bkey_irec[OF r] by (auto simp: loaded_def)
  let ?db = "db'\<lparr>ptroff := int b\<rparr>"
  have st: "core_of ?db = core_of db" using db'(2) by simp
  have "\<exists>db'' s. db_find_loop f ?db key (int (nxt r)) = Inr (int a, db'') \<and> core_of db'' = core_of ?db
    \<and> irec_of x a = Some s \<and> loaded db'' a s
    \<and> ptroff db'' = (if pre = [] then ptroff ?db else int (last pre))"
    using Cons.prems f p(3) idx_rep_core[OF st] by (intro Cons.IH) auto
  then show ?case using f p(1,2) db'(1) ne st by auto
qed

lemma find_loop_none:
  assumes "idx_rep db x" "lfv (cell x) p as" "set as \<subseteq> dom (body x)"
    and "\<forall>b \<in> set as. bkey (body x) b \<noteq> key" "length as < fuel"
  shows "\<exists>db'. db_find_loop fuel db key (int p) = Inr (0, db') \<and> core_of db' = core_of db"
  using assms
proof (induction as arbitrary: db p fuel)
  case Nil
  then show ?case by (cases fuel) (auto simp: lfv_def)
next
  case (Cons b as)
  then obtain f r where f: "fuel = Suc f" and r: "irec_of x b = Some r"
    by (cases fuel) (auto simp: dom_body)
  have p: "p = b" "b \<noteq> 0" "lfv (cell x) (nxt r) as"
    using lfv_Cons[OF Cons.prems(2) r] by auto
  obtain db' where db': "db_readidx db (int b) = Inr (int (nxt r), db')" "core_of db' = core_of db" "loaded db' b r"
    using readidx_loaded[OF Cons.prems(1) r] by blast
  have ne: "idxbuf db' \<noteq> key" using db'(3) Cons.prems(4) bkey_irec[OF r] by (auto simp: loaded_def)
  let ?db = "db'\<lparr>ptroff := int b\<rparr>"
  have st: "core_of ?db = core_of db" using db'(2) by simp
  have "\<exists>db''. db_find_loop f ?db key (int (nxt r)) = Inr (0, db'') \<and> core_of db'' = core_of ?db"
    using Cons.prems f p(3) idx_rep_core[OF st] by (intro Cons.IH) auto
  then show ?case using f p(1,2) db'(1) ne st by auto
qed

definition lock_chain :: "db \<Rightarrow> nat \<Rightarrow> bool \<Rightarrow> db" where
  \<comment> \<open>the handle with the chain whose pointer cell is given selected and locked\<close>
  "lock_chain db c w = db\<lparr>chainoff := int c, locks := (IdxFd, int c, 1, w) # locks db\<rparr>"

lemma db_inv_lock_chain [simp]: "db_inv (lock_chain db c w) x cs = db_inv db x cs"
  by (simp add: lock_chain_def db_inv_def idx_rep_def)

lemma db_invD:
  assumes "db_inv db x cs"
  shows "idx_rep db x" "length (hdr x) = Suc (nhash db)" "0 < nhash db" "hashoff db = 7"
    "chains_ok (nhash db) (cell x) (body x) cs" "keys_ok (nhash db) (body x) cs"
    "data_ok (body x) (bytes (datf db))" "length (bytes (datf db)) \<le> room (datf db)"
    "nhash db = NHASH_DEF"
proof -
  have "nhash db = NHASH_DEF" using assms unfolding db_inv_def by blast
  then show "0 < nhash db" by (simp add: NHASH_DEF_def)
qed (use assms[unfolded db_inv_def] in blast)+

lemma chain_facts:
  assumes "db_inv db x cs" "i \<le> nhash db"
  shows "lf (cell x) (7 * i) (cs ! i)" "distinct (cs ! i)" "set (cs ! i) \<subseteq> dom (body x)"
    "length (cs ! i) \<le> xlen x" "\<And>a. a \<in> set (cs ! i) \<Longrightarrow> 7 * nhash db < a" "length cs = Suc (nhash db)"
proof -
  have ok: "chains_ok (nhash db) (cell x) (body x) cs" by (rule db_invD[OF assms(1)])
  then have l: "length cs = Suc (nhash db)" by (simp add: chains_ok_def)
  show lf: "lf (cell x) (7 * i) (cs ! i)" using ok assms(2) by (simp add: chains_ok_def)
  show d: "distinct (cs ! i)" using ok assms(2) by (simp add: chains_ok_def)
  show s: "set (cs ! i) \<subseteq> dom (body x)" 
    using ok assms(2) unfolding chains_ok_def by blast
  show "length (cs ! i) \<le> xlen x" by (rule length_le_xlen[OF d s])
  show "\<And>a. a \<in> set (cs ! i) \<Longrightarrow> 7 * nhash db < a" using ok s by (auto simp: chains_ok_def)
  show "length cs = Suc (nhash db)" by (rule l)
qed

lemma find_and_lock_start:
  assumes "db_inv db x cs" "h = khash (nhash db) key"
  obtains p db1 where "cell x (7 * Suc h) = Some p" "lfv (cell x) p (cs ! Suc h)"
    "db_inv db1 x cs" "core_of db1 = core_of (lock_chain db (7 * Suc h) w)" "ptroff db1 = int (7 * Suc h)"
    "length (cs ! Suc h) < db_fuel db1"
    "db_find_and_lock db key w = bindE (db_find_loop (db_fuel db1) db1 key (int p))
        (\<lambda>(offset, db3). Inr (if offset = 0 then -1 else 0, db3))"
proof -
  have h: "h < nhash db" "Suc h \<le> nhash db" using db_invD(3)[OF assms(1)] assms by (auto simp: khash_def Suc_le_eq)
  note cf = chain_facts[OF assms(1) h(2)]
  obtain p where p: "cell x (7 * Suc h) = Some p" "lfv (cell x) p (cs ! Suc h)"
    using cf(1) by (auto simp: lf_lfv)
  define db0 where "db0 = (lock_chain db (7 * Suc h) w)\<lparr>ptroff := int (7 * Suc h)\<rparr>"
  have st0: "core_of db0 = core_of (lock_chain db (7 * Suc h) w)" by (simp add: db0_def)
  have inv0: "db_inv db0 x cs" using db_inv_core[OF st0] assms(1) by simp
  define db1 where "db1 = db0\<lparr>idxf := (idxf db0)\<lparr>pos := 7 * Suc h + 7\<rparr>\<rparr>"
  have st1: "core_of db1 = core_of db0" by (simp add: db1_def)
  have inv1: "db_inv db1 x cs" using db_inv_core[OF st1] inv0 by simp
  have rd: "db_readptr db0 (int (7 * Suc h)) = Inr (int p, db1)"
    using readptr_cell[OF db_invD(1)[OF inv0] p(1)] by (simp add: db1_def)
  have off: "int (db_hash db key * PTR_SZ) + hashoff db = int (7 * Suc h)"
    using assms by (simp add: db_hash_khash PTR_SZ_def db_inv_def)
  have "db_fuel db1 = Suc (xlen x)"
    using inv1 by (simp add: db_fuel_def db_inv_def idx_rep_def length_enc_ix)
  with cf(4) have fuel: "length (cs ! Suc h) < db_fuel db1" by simp
  have lk: "(if w then writew_lock (db\<lparr>chainoff := int (7 * Suc h), ptroff := int (7 * Suc h)\<rparr>) IdxFd (int (7 * Suc h)) 1
             else readw_lock (db\<lparr>chainoff := int (7 * Suc h), ptroff := int (7 * Suc h)\<rparr>) IdxFd (int (7 * Suc h)) 1) = db0"
    by (rule db.equality) (simp_all add: db0_def lock_chain_def writew_lock_def readw_lock_def)
  show thesis
  proof (rule that[OF p inv1 _ _ fuel])
    show "core_of db1 = core_of (lock_chain db (7 * Suc h) w)" using st0 st1 by simp
    show "ptroff db1 = int (7 * Suc h)" by (simp add: db1_def db0_def)
    have pt: "ptroff db0 = int (7 * Suc h)" by (simp add: db0_def)
    show "db_find_and_lock db key w = bindE (db_find_loop (db_fuel db1) db1 key (int p))
        (\<lambda>(offset, db3). Inr (if offset = 0 then -1 else 0, db3))"
      unfolding db_find_and_lock_def Let_def off lk pt rd by simp
  qed
qed

lemma amap_chain_None:
  assumes "db_inv db x cs"
  shows "amap (body x) cs d key = None \<longleftrightarrow>
    (\<forall>a \<in> set (cs ! Suc (khash (nhash db) key)). bkey (body x) a \<noteq> key)"
proof -
  have n: "0 < nhash db" and k: "keys_ok (nhash db) (body x) cs" using db_invD[OF assms] by simp_all
  have l: "length cs = Suc (nhash db)" by (rule chain_facts(6)[OF assms, of 0]) simp
  have h: "khash (nhash db) key < nhash db" using n by (simp add: khash_def)
  show ?thesis
  proof
    assume "amap (body x) cs d key = None"
    then show "\<forall>a \<in> set (cs ! Suc (khash (nhash db) key)). bkey (body x) a \<noteq> key"
      using h unfolding amap_None live_set[OF l] by blast
  next
    assume n: "\<forall>a \<in> set (cs ! Suc (khash (nhash db) key)). bkey (body x) a \<noteq> key"
    have "bkey (body x) a \<noteq> key" if "h < nhash db" "a \<in> set (cs ! Suc h)" for h a
    proof
      assume e: "bkey (body x) a = key"
      have "khash (nhash db) (bkey (body x) a) = h" using k that unfolding keys_ok_def by blast
      with e have "h = khash (nhash db) key" by simp
      with n that e show False by blast
    qed
    then show "amap (body x) cs d key = None" unfolding amap_None live_set[OF l] by blast
  qed
qed

lemma find_and_lock_none:
  assumes "db_inv db x cs" "amap (body x) cs d key = None"
  obtains db' where "db_find_and_lock db key w = Inr (-1, db')"
    "core_of db' = core_of (lock_chain db (7 * Suc (khash (nhash db) key)) w)"
proof -
  let ?h = "khash (nhash db) key"
  have h: "Suc ?h \<le> nhash db" using db_invD(3)[OF assms(1)] assms by (auto simp: khash_def Suc_le_eq)
  obtain p db1 where s: "cell x (7 * Suc ?h) = Some p" "lfv (cell x) p (cs ! Suc ?h)"
    "db_inv db1 x cs" "core_of db1 = core_of (lock_chain db (7 * Suc ?h) w)"
    "length (cs ! Suc ?h) < db_fuel db1"
    "db_find_and_lock db key w = bindE (db_find_loop (db_fuel db1) db1 key (int p))
        (\<lambda>(offset, db3). Inr (if offset = 0 then -1 else 0, db3))"
    using find_and_lock_start[OF assms(1) refl] by blast
  have "\<forall>b \<in> set (cs ! Suc ?h). bkey (body x) b \<noteq> key" using amap_chain_None[OF assms(1)] assms(2) by simp
  then obtain db' where "db_find_loop (db_fuel db1) db1 key (int p) = Inr (0, db')" "core_of db' = core_of db1"
    using find_loop_none[OF db_invD(1)[OF s(3)] s(2) chain_facts(3)[OF assms(1) h] _ s(5)] by blast
  with s show thesis by (intro that[of db']) simp_all
qed

lemma find_and_lock_found:
  assumes "db_inv db x cs" "amap (body x) cs d key = Some v"
  obtains db' pre a post r where "db_find_and_lock db key w = Inr (0, db')"
    "core_of db' = core_of (lock_chain db (7 * Suc (khash (nhash db) key)) w)"
    "cs ! Suc (khash (nhash db) key) = pre @ a # post" "irec_of x a = Some r" "ikey r = key"
    "loaded db' a r" "ptroff db' = int (last (7 * Suc (khash (nhash db) key) # pre))"
    "v = bval (body x) d a" "a \<in> set (live cs)"
proof -
  let ?h = "khash (nhash db) key"
  have h: "?h < nhash db" "Suc ?h \<le> nhash db" using db_invD(3)[OF assms(1)] assms by (auto simp: khash_def Suc_le_eq)
  obtain p db1 where s: "cell x (7 * Suc ?h) = Some p" "lfv (cell x) p (cs ! Suc ?h)"
    "db_inv db1 x cs" "core_of db1 = core_of (lock_chain db (7 * Suc ?h) w)" "ptroff db1 = int (7 * Suc ?h)"
    "length (cs ! Suc ?h) < db_fuel db1"
    "db_find_and_lock db key w = bindE (db_find_loop (db_fuel db1) db1 key (int p))
        (\<lambda>(offset, db3). Inr (if offset = 0 then -1 else 0, db3))"
    using find_and_lock_start[OF assms(1) refl] by blast
  have "\<exists>a \<in> set (cs ! Suc ?h). bkey (body x) a = key"
    using amap_chain_None[OF assms(1), of d key] assms(2) by auto
  then obtain pre a post where spl: "cs ! Suc ?h = pre @ a # post" "bkey (body x) a = key"
    "\<forall>b \<in> set pre. bkey (body x) b \<noteq> key"
    using split_list_first_prop[of "cs ! Suc ?h" "\<lambda>a. bkey (body x) a = key"] by blast
  have dom: "set (pre @ [a]) \<subseteq> dom (body x)" using chain_facts(3)[OF assms(1) h(2)] spl(1) by auto
  obtain db' r where f: "db_find_loop (db_fuel db1) db1 key (int p) = Inr (int a, db')" "core_of db' = core_of db1"
    "irec_of x a = Some r" "loaded db' a r" "ptroff db' = (if pre = [] then ptroff db1 else int (last pre))"
    using find_loop_found[OF db_invD(1)[OF s(3)] s(2)[unfolded spl(1)] dom spl(3,2), of "db_fuel db1"]
      s(6) spl(1) by auto
  have l: "length cs = Suc (nhash db)" by (rule chain_facts(6)[OF assms(1) h(2)])
  have "a \<in> set (cs ! Suc ?h)" using spl(1) by simp
  then have lv: "a \<in> set (live cs)" using h(1) unfolding live_set[OF l] by blast
  have ck: "chains_ok (nhash db) (cell x) (body x) cs" "keys_ok (nhash db) (body x) cs"
    using db_invD[OF assms(1)] by blast+
  have v: "amap (body x) cs d key = Some (bval (body x) d a)"
    using amap_inv[OF ck] lv spl(2) by blast
  have a0: "a \<noteq> 0" using f(3) irec_of_bounds[OF f(3)] by (simp add: rbase_def)
  show thesis
  proof (rule that[OF _ _ spl(1) f(3) _ f(4) _ _ lv])
    show "db_find_and_lock db key w = Inr (0, db')" using s(7) f(1) a0 by simp
    show "core_of db' = core_of (lock_chain db (7 * Suc ?h) w)" using f(2) s(4) by simp
    show "ikey r = key" using spl(2) bkey_irec[OF f(3)] by simp
    show "ptroff db' = int (last (7 * Suc ?h # pre))" using f(5) s(5) by simp
    show "v = bval (body x) d a" using v assms(2) by simp
  qed
qed

lemma idx_length: "db_inv db x cs \<Longrightarrow> length (bytes (idxf db)) = xlen x"
  using db_invD(1) idx_repD length_enc_ix by metis

section \<open>Free records of given lengths\<close>

definition fmatch :: "ix \<Rightarrow> nat \<Rightarrow> nat \<Rightarrow> nat \<Rightarrow> bool" where
  \<comment> \<open>the record at \<open>a\<close> has the wanted lengths of key and data\<close>
  "fmatch x kl dl a = (case body x a of None \<Rightarrow> False | Some (k, _, l) \<Rightarrow> length k = kl \<and> l = dl)"

lemma fmatch_rec: "irec_of x a = Some r \<Longrightarrow> fmatch x kl dl a \<longleftrightarrow> length (ikey r) = kl \<and> idlen r = dl"
  by (simp add: fmatch_def body_def)

definition reusable :: "ix \<Rightarrow> nat list list \<Rightarrow> string \<Rightarrow> string \<Rightarrow> bool" where
  "reusable x cs key data \<longleftrightarrow> (\<exists>a \<in> set (cs ! 0). fmatch x (length key) (length data + 1) a)"

end
