(* ===== verification/DbUpdate.thy ===== *)
theory DbUpdate
  imports DbFind
begin

text \<open>
  The updates of the linked structure, apart from bytes: moving a record from its bucket to the
  head of the free list, unlinking a record from the free list, linking a record at the head of a
  bucket. Each keeps the partition of the records into chains; and what each does to the map from
  keys to data.
\<close>

section \<open>Facts of the partition\<close>

lemma chainsD:
  assumes "chains_ok n c b cs"
  shows "length cs = Suc n" "\<And>i. i \<le> n \<Longrightarrow> lf c (7 * i) (cs ! i)" "\<And>i. i \<le> n \<Longrightarrow> distinct (cs ! i)"
    "\<And>i j. i \<le> n \<Longrightarrow> j \<le> n \<Longrightarrow> i \<noteq> j \<Longrightarrow> set (cs ! i) \<inter> set (cs ! j) = {}"
    "(\<Union>i \<le> n. set (cs ! i)) = dom b" "\<And>a. a \<in> dom b \<Longrightarrow> 7 * n < a"
    "\<And>i a. i \<le> n \<Longrightarrow> a \<in> set (cs ! i) \<Longrightarrow> a \<in> dom b"
    "\<And>i j a. i \<le> n \<Longrightarrow> j \<le> n \<Longrightarrow> a \<in> set (cs ! i) \<Longrightarrow> a \<noteq> 7 * j"
proof -
  show "length cs = Suc n" "\<And>i. i \<le> n \<Longrightarrow> lf c (7 * i) (cs ! i)" "\<And>i. i \<le> n \<Longrightarrow> distinct (cs ! i)"
    "\<And>i j. i \<le> n \<Longrightarrow> j \<le> n \<Longrightarrow> i \<noteq> j \<Longrightarrow> set (cs ! i) \<inter> set (cs ! j) = {}"
    and un: "(\<Union>i \<le> n. set (cs ! i)) = dom b" and big: "\<And>a. a \<in> dom b \<Longrightarrow> 7 * n < a"
    using assms by (simp_all add: chains_ok_def)
  then show d: "a \<in> dom b" if "i \<le> n" "a \<in> set (cs ! i)" for i a
  proof -
    have "a \<in> (\<Union>i \<le> n. set (cs ! i))" using that by blast
    then show ?thesis using un by simp
  qed
  show "\<And>i j a. i \<le> n \<Longrightarrow> j \<le> n \<Longrightarrow> a \<in> set (cs ! i) \<Longrightarrow> a \<noteq> 7 * j"
  proof
    fix i j a
    assume "i \<le> n" "j \<le> n" "a \<in> set (cs ! i)" "a = 7 * j"
    then have "a \<in> dom b" using d by blast
    then have "7 * n < a" by (rule big)
    with \<open>a = 7 * j\<close> \<open>j \<le> n\<close> show False by simp
  qed
qed

lemma seven_inj: "(7 * i = 7 * (j::nat)) = (i = j)"
  by simp

lemma seven_notin:
  assumes "chains_ok n c b cs" "i \<le> n" "j \<le> n" "i \<noteq> j"
  shows "7 * i \<notin> set (7 * j # cs ! j)"
  using chainsD(8)[OF assms(1,3,2)] assms(4) by auto

section \<open>Moving a record to the head of another chain\<close>

lemma move_chains:
  assumes ok: "chains_ok n c b cs" and ij: "i \<le> n" "j \<le> n" "i \<noteq> j" and spl: "cs ! i = pre @ a # post"
    and bd: "b a \<noteq> None"
  defines "pc \<equiv> last (7 * i # pre)"
  shows "chains_ok n (c(a := c (7 * j), 7 * j := Some a, pc := c a)) (b(a := Some y))
           (cs[j := a # cs ! j, i := pre @ post])"
    (is "chains_ok n ?c ?b ?cs")
proof -
  note D = chainsD[OF ok]
  have a_in: "a \<in> set (cs ! i)" using spl by simp
  have pc_in: "pc \<in> set (7 * i # pre)" unfolding pc_def by (rule last_in_set) simp
  then have pc_pre: "pc \<in> set (7 * i # cs ! i)" using spl by auto
  have nth: "?cs ! j = a # cs ! j" "?cs ! i = pre @ post"
    "\<And>k. k \<noteq> j \<Longrightarrow> k \<noteq> i \<Longrightarrow> ?cs ! k = cs ! k"
    using D(1) ij by (auto simp: nth_list_update)
  have hd_ne: "7 * l \<notin> set (7 * k # cs ! k)" if "k \<le> n" "l \<le> n" "k \<noteq> l" for k l
    using D(8)[OF that(1,2)] that(3) by auto
  have a_hd: "a \<noteq> 7 * k" if "k \<le> n" for k using D(8)[OF ij(1) that a_in] .
  have a_ne: "a \<notin> set (7 * k # cs ! k)" if "k \<le> n" "k \<noteq> i" for k
    using a_in D(4)[OF ij(1) that(1)] that a_hd[OF that(1)] by auto
  have pc_ne: "pc \<notin> set (7 * k # cs ! k)" if "k \<le> n" "k \<noteq> i" for k
    using pc_pre D(4)[OF ij(1) that(1)] that D(8)[OF ij(1) that(1)] D(8)[OF that(1) ij(1)] by auto
  have dist: "distinct (7 * i # pre @ a # post)" using D(3)[OF ij(1)] D(8)[OF ij(1) ij(1)] spl by auto
  have a_pc: "a \<noteq> pc" using pc_in dist by auto
  have pcj: "pc \<noteq> 7 * j" using pc_ne[of j] ij by auto
  have a0: "a \<noteq> 0" using a_hd[of 0] by simp
  obtain p where p: "c (7 * j) = Some p" using D(2)[OF ij(2)] by (auto simp: lf_lfv)
  have lf': "lf ?c (7 * k) (?cs ! k)" if k: "k \<le> n" for k
  proof (cases "k = j")
    case True
    have "lf (c(a := Some p, 7 * j := Some a)) (7 * j) (a # cs ! j)"
      using D(2,3)[OF ij(2)] a_ne[of j] ij a0 p D(8)[OF ij(2) ij(2)] by (intro lf_insert) auto
    moreover have "pc \<notin> set (7 * j # a # cs ! j)" using pc_ne[of j] a_pc ij by auto
    ultimately show ?thesis using True nth(1) p by (simp del: lf.simps fun_upd_apply)
  next
    case False
    show ?thesis
    proof (cases "k = i")
      case True
      have "lf (c(pc := c a)) (7 * i) (pre @ post)"
        unfolding pc_def by (rule lf_delete[OF D(2)[OF ij(1), unfolded spl] dist])
      moreover have "?c = (c(pc := c a))(a := c (7 * j), 7 * j := Some a)"
        using a_pc pcj by (simp add: fun_upd_twist)
      moreover have "a \<notin> set (7 * i # pre @ post)" "7 * j \<notin> set (7 * i # pre @ post)"
        using dist hd_ne[OF ij(1,2,3)] spl by auto
      ultimately show ?thesis unfolding True nth(2) by (simp del: fun_upd_apply)
    next
      case ne: False
      then show ?thesis
        using D(2)[OF k] nth(3)[OF False ne] pc_ne[OF k ne] a_ne[OF k ne] hd_ne[OF k ij(2) False]
        by (simp del: fun_upd_apply)
    qed
  qed
  have sub: "set (?cs ! k) = (if k = j then insert a (set (cs ! j)) else set (cs ! k) - {a})"
    if "k \<le> n" for k
  proof (cases "k = j \<or> k = i")
    case True
    then show ?thesis using nth spl dist ij(3) by auto
  next
    case False
    then show ?thesis using nth a_ne[OF that] by auto
  qed
  have di: "distinct (?cs ! k)" if "k \<le> n" for k
    using nth D(3)[OF that] D(3)[OF ij(2)] dist a_ne[of j] ij
    by (cases "k = j"; cases "k = i") auto
  have disj: "set (?cs ! k) \<inter> set (?cs ! l) = {}" if "k \<le> n" "l \<le> n" "k \<noteq> l" for k l
    unfolding sub[OF that(1)] sub[OF that(2)] using D(4)[OF that] that(3) by auto
  have un: "(\<Union>k \<le> n. set (?cs ! k)) = dom ?b"
  proof -
    have "(\<Union>k \<le> n. set (?cs ! k)) = insert a (\<Union>k \<le> n. set (cs ! k))"
      using sub ij(2) by (auto split: if_splits)
    also have "\<dots> = dom ?b" using D(5) bd by auto
    finally show ?thesis .
  qed
  have big: "\<forall>z \<in> dom ?b. 7 * n < z" using D(6) bd by auto
  show ?thesis unfolding chains_ok_def using D(1) lf' di disj un big by simp
qed

lemma add_chains:
  assumes ok: "chains_ok n c b cs" and j: "j \<le> n" and e: "e \<notin> dom b" "7 * n < e"
  shows "chains_ok n (c(e := c (7 * j), 7 * j := Some e)) (b(e := Some y)) (cs[j := e # cs ! j])"
    (is "chains_ok n ?c ?b ?cs")
proof -
  note D = chainsD[OF ok]
  have nth: "?cs ! j = e # cs ! j" "\<And>k. k \<noteq> j \<Longrightarrow> ?cs ! k = cs ! k"
    using D(1) j by (auto simp: nth_list_update)
  have e_ne: "e \<notin> set (7 * k # cs ! k)" if "k \<le> n" for k using e D(7)[OF that] that by auto
  obtain p where p: "c (7 * j) = Some p" using D(2)[OF j] by (auto simp: lf_lfv)
  have lf': "lf ?c (7 * k) (?cs ! k)" if k: "k \<le> n" for k
  proof (cases "k = j")
    case True
    have "lf (c(e := Some p, 7 * j := Some e)) (7 * j) (e # cs ! j)"
      using D(2,3)[OF j] e_ne[OF j] e p D(8)[OF j j] by (intro lf_insert) auto
    then show ?thesis using True nth(1) p by (simp del: lf.simps fun_upd_apply)
  next
    case False
    then show ?thesis
      using D(2)[OF k] nth(2) e_ne[OF k] D(8)[OF k j] by (subst lf_cong[where c = c]) auto
  qed
  have sub: "set (?cs ! k) = (if k = j then insert e (set (cs ! j)) else set (cs ! k))" for k
    using nth by auto
  have di: "distinct (?cs ! k)" if "k \<le> n" for k
    using nth D(3)[OF that] D(3)[OF j] e_ne[OF j] by (cases "k = j") auto
  have disj: "set (?cs ! k) \<inter> set (?cs ! l) = {}" if "k \<le> n" "l \<le> n" "k \<noteq> l" for k l
    unfolding sub using D(4)[OF that] that(3) e_ne[OF that(1)] e_ne[OF that(2)] by auto
  have un: "(\<Union>k \<le> n. set (?cs ! k)) = dom ?b"
  proof -
    have "(\<Union>k \<le> n. set (?cs ! k)) = insert e (\<Union>k \<le> n. set (cs ! k))"
      unfolding sub using j by (auto split: if_splits)
    also have "\<dots> = dom ?b" using D(5) by auto
    finally show ?thesis .
  qed
  have big: "\<forall>z \<in> dom ?b. 7 * n < z" using D(6) e by auto
  show ?thesis unfolding chains_ok_def using D(1) lf' di disj un big by simp
qed

lemma move_set:
  assumes ok: "chains_ok n c b cs" and ij: "i \<le> n" "j \<le> n" "i \<noteq> j" and spl: "cs ! i = pre @ a # post"
    and k: "k \<le> n"
  shows "set (cs[j := a # cs ! j, i := pre @ post] ! k)
       = (if k = j then insert a (set (cs ! j)) else set (cs ! k) - {a})"
proof -
  note D = chainsD[OF ok]
  have "a \<in> set (cs ! i)" "distinct (pre @ a # post)" using spl D(3)[OF ij(1)] by auto
  moreover have "a \<notin> set (cs ! k)" if "k \<noteq> i" using D(4)[OF ij(1) k] that spl by auto
  moreover have "cs[j := a # cs ! j, i := pre @ post] ! k
      = (if k = i then pre @ post else if k = j then a # cs ! j else cs ! k)"
    using D(1) ij k by (auto simp: nth_list_update)
  ultimately show ?thesis using spl ij(3) by auto
qed

lemma live_move_free:
  assumes "chains_ok n c b cs" "h < n" "cs ! Suc h = pre @ a # post"
  shows "set (live (cs[0 := a # cs ! 0, Suc h := pre @ post])) = set (live cs) - {a}"
proof -
  have l: "length cs = Suc n" "length (cs[0 := a # cs ! 0, Suc h := pre @ post]) = Suc n"
    using chainsD(1)[OF assms(1)] by simp_all
  have "set (cs[0 := a # cs ! 0, Suc h := pre @ post] ! Suc k) = set (cs ! Suc k) - {a}" if "k < n" for k
    using move_set[OF assms(1) _ _ _ assms(3), of 0 "Suc k"] assms(2) that by simp
  then show ?thesis unfolding live_set[OF l(1)] live_set[OF l(2)] by auto
qed

lemma live_move_bucket:
  assumes "chains_ok n c b cs" "h < n" "cs ! 0 = pre @ a # post"
  shows "set (live (cs[Suc h := a # cs ! Suc h, 0 := pre @ post])) = insert a (set (live cs))"
proof -
  have l: "length cs = Suc n" "length (cs[Suc h := a # cs ! Suc h, 0 := pre @ post]) = Suc n"
    using chainsD(1)[OF assms(1)] by simp_all
  have a: "a \<notin> set (cs ! Suc k)" if "k < n" for k
    using chainsD(4)[OF assms(1), of 0 "Suc k"] that assms(3) by auto
  have "set (cs[Suc h := a # cs ! Suc h, 0 := pre @ post] ! Suc k)
      = (if k = h then insert a (set (cs ! Suc h)) else set (cs ! Suc k))" if "k < n" for k
    using move_set[OF assms(1) _ _ _ assms(3), of "Suc h" "Suc k"] assms(2) that a[OF that] by simp
  then show ?thesis
    unfolding live_set[OF l(1)] live_set[OF l(2)] using assms(2) by (auto split: if_splits)
qed

lemma live_add:
  assumes "length cs = Suc n" "h < n"
  shows "set (live (cs[Suc h := e # cs ! Suc h])) = insert e (set (live cs))"
proof -
  have l: "length (cs[Suc h := e # cs ! Suc h]) = Suc n" using assms(1) by simp
  have "set (cs[Suc h := e # cs ! Suc h] ! Suc k)
      = (if k = h then insert e (set (cs ! Suc h)) else set (cs ! Suc k))" if "k < n" for k
    using assms that by (auto simp: nth_list_update)
  then show ?thesis
    unfolding live_set[OF assms(1)] live_set[OF l] using assms(2) by (auto split: if_splits)
qed

section \<open>The map after an update\<close>

lemma amap_del:
  assumes "inj_on (bkey b) (set (live cs))" "a \<in> set (live cs)" "set (live cs') = set (live cs) - {a}"
    and "\<And>z. z \<in> set (live cs') \<Longrightarrow> bkey b' z = bkey b z \<and> bval b' d' z = bval b d z"
  shows "amap b' cs' d' = (amap b cs d)(bkey b a := None)"
proof (rule map_eqI)
  fix k v
  have inj: "inj_on (bkey b') (set (live cs'))"
    using assms(1,3,4) by (auto simp: inj_on_def)
  have "amap b' cs' d' k = Some v \<longleftrightarrow> (\<exists>z \<in> set (live cs) - {a}. bkey b z = k \<and> bval b d z = v)"
    unfolding amap_Some[OF inj] using assms(3,4) by auto
  also have "\<dots> \<longleftrightarrow> ((amap b cs d)(bkey b a := None)) k = Some v"
    using amap_Some[OF assms(1)] assms(1,2) by (auto simp: inj_on_def)
  finally show "amap b' cs' d' k = Some v \<longleftrightarrow> ((amap b cs d)(bkey b a := None)) k = Some v" .
qed

lemma amap_put:
  assumes "inj_on (bkey b) (set (live cs))" "inj_on (bkey b') (set (live cs'))"
    and "set (live cs') = insert a (set (live cs))" "bkey b' a = key" "bval b' d' a = v"
    and "\<And>z. z \<in> set (live cs) \<Longrightarrow> z \<noteq> a \<Longrightarrow> bkey b' z = bkey b z \<and> bval b' d' z = bval b d z"
    and "a \<in> set (live cs) \<Longrightarrow> bkey b a = key"
  shows "amap b' cs' d' = (amap b cs d)(key \<mapsto> v)"
proof (rule map_eqI)
  fix k w
  have off: "bkey b' z \<noteq> key" if "z \<in> set (live cs)" "z \<noteq> a" for z
    using assms(2,3,4) that by (auto simp: inj_on_def)
  have "amap b' cs' d' k = Some w \<longleftrightarrow>
      (key = k \<and> v = w) \<or> (\<exists>z \<in> set (live cs) - {a}. bkey b z = k \<and> bval b d z = w)"
    unfolding amap_Some[OF assms(2)] assms(3) using assms(4,5,6)
    by (metis Diff_iff empty_iff insert_iff)
  also have "\<dots> \<longleftrightarrow> ((amap b cs d)(key \<mapsto> v)) k = Some w"
    using off assms(6,7) amap_Some[OF assms(1), of d k w] by (cases "k = key") auto
  finally show "amap b' cs' d' k = Some w \<longleftrightarrow> ((amap b cs d)(key \<mapsto> v)) k = Some w" .
qed

section \<open>The data regions after an update\<close>

lemma data_okD:
  assumes "data_ok b d" "b a = Some (k, o', l)"
  shows "o' + l \<le> length d" "dat_at d o' l = bval b d a @ [NL]" "NUL \<notin> set (bval b d a)"
    "l = length (bval b d a) + 1"
proof -
  obtain s where s: "o' + l \<le> length d" "dat_at d o' l = s @ [NL]" "NUL \<notin> set s"
    using assms unfolding data_ok_def by blast
  then have v: "bval b d a = s" using assms(2) by (simp add: bval_def)
  show "o' + l \<le> length d" "dat_at d o' l = bval b d a @ [NL]" "NUL \<notin> set (bval b d a)"
    using s v by simp_all
  have "length (dat_at d o' l) = l" using s(1) by (rule length_dat_at)
  then show "l = length (bval b d a) + 1" using s(2) v by simp
qed

lemma data_ok_disj:
  "data_ok b d \<Longrightarrow> b a = Some (k, o', l) \<Longrightarrow> b a' = Some (k', p, l') \<Longrightarrow> a \<noteq> a' \<Longrightarrow> o' + l \<le> p \<or> p + l' \<le> o'"
  unfolding data_ok_def by blast

lemma data_okI:
  assumes "\<And>a k o' l. b a = Some (k, o', l) \<Longrightarrow> o' + l \<le> length d"
    and "\<And>a k o' l. b a = Some (k, o', l) \<Longrightarrow> \<exists>s. dat_at d o' l = s @ [NL] \<and> NUL \<notin> set s"
    and "\<And>a a' k o' l k' p l'. a \<noteq> a' \<Longrightarrow> b a = Some (k, o', l) \<Longrightarrow> b a' = Some (k', p, l')
          \<Longrightarrow> o' + l \<le> p \<or> p + l' \<le> o'"
  shows "data_ok b d"
  using assms unfolding data_ok_def by blast

lemma data_over:
  fixes k' :: string and k :: string
  assumes ok: "data_ok b d" and a: "b a = Some (k, o', length s + 1)" and s: "NUL \<notin> set s"
  defines "b' \<equiv> b(a := Some (k', o', length s + 1))" and "d' \<equiv> splice o' (s @ [NL]) d"
  shows "data_ok b' d'" "length d' = length d" "bval b' d' a = s"
    "\<And>z. z \<in> dom b \<Longrightarrow> z \<noteq> a \<Longrightarrow> bval b' d' z = bval b d z"
proof -
  have fit: "o' + length (s @ [NL]) \<le> length d" using data_okD(1)[OF ok a] by simp
  have same: "dat_at d' o' (length s + 1) = s @ [NL]"
    using dat_at_splice_same[OF fit] by (simp add: d'_def)
  have other: "dat_at d' p l = dat_at d p l" if "b z = Some (q, p, l)" "z \<noteq> a" for z q p l
    unfolding d'_def using data_ok_disj[OF ok that(1) a that(2)] by (intro dat_at_splice_other[OF fit]) auto
  show len: "length d' = length d" unfolding d'_def by (rule length_splice[OF fit])
  show "bval b' d' a = s" using same by (simp add: bval_def b'_def)
  show "bval b' d' z = bval b d z" if "z \<in> dom b" "z \<noteq> a" for z
    using that other by (auto simp: bval_def b'_def)
  show "data_ok b' d'"
  proof (rule data_okI)
    fix z q p l assume z: "b' z = Some (q, p, l)"
    show "p + l \<le> length d'"
      using z data_okD(1)[OF ok] a len by (cases "z = a") (auto simp: b'_def)
    show "\<exists>t. dat_at d' p l = t @ [NL] \<and> NUL \<notin> set t"
    proof (cases "z = a")
      case True
      then show ?thesis using z same s by (auto simp: b'_def)
    next
      case False
      then have "b z = Some (q, p, l)" using z by (simp add: b'_def)
      then show ?thesis using other[OF _ False] data_okD[OF ok] by metis
    qed
  next
    fix z z' q p l q' p' l'
    assume "z \<noteq> z'" "b' z = Some (q, p, l)" "b' z' = Some (q', p', l')"
    then show "p + l \<le> p' \<or> p' + l' \<le> p"
      using data_ok_disj[OF ok, of z _ p l z'] data_ok_disj[OF ok, of z _ p l z'] a
      by (auto simp: b'_def split: if_splits)
  qed
qed

lemma data_append:
  fixes k :: string
  assumes ok: "data_ok b d" and e: "b e = None" and s: "NUL \<notin> set s"
  defines "b' \<equiv> b(e := Some (k, length d, length s + 1))" and "d' \<equiv> d @ s @ [NL]"
  shows "data_ok b' d'" "bval b' d' e = s" "\<And>z. z \<in> dom b \<Longrightarrow> bval b' d' z = bval b d z"
proof -
  have same: "dat_at d' (length d) (length s + 1) = s @ [NL]"
    using dat_at_end[of d "s @ [NL]"] by (simp add: d'_def)
  have other: "dat_at d' p l = dat_at d p l" if "b z = Some (q, p, l)" for z q p l
    unfolding d'_def using data_okD(1)[OF ok that] by (rule dat_at_append)
  show "bval b' d' e = s" using same by (simp add: bval_def b'_def)
  show "bval b' d' z = bval b d z" if "z \<in> dom b" for z
    using that other e by (auto simp: bval_def b'_def)
  show "data_ok b' d'"
  proof (rule data_okI)
    fix z q p l assume z: "b' z = Some (q, p, l)"
    show "p + l \<le> length d'"
      using z data_okD(1)[OF ok] by (cases "z = e") (fastforce simp: b'_def d'_def)+
    show "\<exists>t. dat_at d' p l = t @ [NL] \<and> NUL \<notin> set t"
    proof (cases "z = e")
      case True
      then show ?thesis using z same s by (auto simp: b'_def)
    next
      case False
      then have "b z = Some (q, p, l)" using z by (simp add: b'_def)
      then show ?thesis using other data_okD[OF ok] by metis
    qed
  next
    fix z z' q p l q' p' l'
    assume "z \<noteq> z'" "b' z = Some (q, p, l)" "b' z' = Some (q', p', l')"
    then show "p + l \<le> p' \<or> p' + l' \<le> p"
      using data_ok_disj[OF ok, of z _ p l z'] data_okD(1)[OF ok, of z _ p l] data_okD(1)[OF ok, of z' _ p' l']
      by (auto simp: b'_def split: if_splits)
  qed
qed

end
