(* ===== verification/DbDelete.thy ===== *)
theory DbDelete
  imports DbUpdate
begin

text \<open>
  \<open>_db_dodelete\<close>: blank the data, blank the key, put the record at the head of the free list and link
  it out of its bucket. Its effect on the files is one move between chains, and on the map one key
  less; nothing grows.
\<close>

lemma cell_hdr_inv: "db_inv db x cs \<Longrightarrow> i \<le> nhash db \<Longrightarrow> \<exists>p. cell x (7 * i) = Some p"
  using chain_facts(1) lf_lfv by blast

lemma chain_ptr_le:
  assumes "db_inv db x cs" "i \<le> nhash db" "cs ! i = pre @ a # post"
  shows "int a \<le> PTR_MAX" "cell x (last (7 * i # pre)) = Some a"
proof -
  show c: "cell x (last (7 * i # pre)) = Some a"
    using lf_append[of "cell x" "7 * i" pre a post] chain_facts(1)[OF assms(1,2)] assms(3) by simp
  show "int a \<le> PTR_MAX" using cell_le[OF idx_repD(1)[OF db_invD(1)[OF assms(1)]] c] .
qed

lemma enc_body_same_length:
  assumes "length (ikey r') = length (ikey r)" "idoff r' = idoff r" "idlen r' = idlen r"
  shows "length (enc_body r') = length (enc_body r)"
  using assms by (simp add: enc_body_def)

lemma rec_data:
  assumes "db_inv db x cs" "irec_of x a = Some r"
  shows "idoff r + idlen r \<le> length (bytes (datf db))" "1 \<le> idlen r" "a \<in> dom (body x)"
    "body x a = Some (ikey r, idoff r, idlen r)" "valid_irec r" "a \<noteq> 0"
    "idlen r = length (bval (body x) (bytes (datf db)) a) + 1"
    "dat_at (bytes (datf db)) (idoff r) (idlen r) = bval (body x) (bytes (datf db)) a @ [NL]"
    "NUL \<notin> set (bval (body x) (bytes (datf db)) a)"
proof -
  show b: "body x a = Some (ikey r, idoff r, idlen r)" using assms(2) by (simp add: body_def)
  have ok: "data_ok (body x) (bytes (datf db))" using assms(1) by (rule db_invD)
  note d = data_okD[OF ok b]
  show "idoff r + idlen r \<le> length (bytes (datf db))"
    "idlen r = length (bval (body x) (bytes (datf db)) a) + 1"
    "dat_at (bytes (datf db)) (idoff r) (idlen r) = bval (body x) (bytes (datf db)) a @ [NL]"
    "NUL \<notin> set (bval (body x) (bytes (datf db)) a)" "1 \<le> idlen r"
    using d by simp_all
  show "a \<in> dom (body x)" using b by auto
  show "valid_irec r" by (rule irec_of_valid[OF idx_repD(1)[OF db_invD(1)[OF assms(1)]] assms(2)])
  show "a \<noteq> 0" using irec_of_bounds[OF assms(2)] by (simp add: rbase_def)
qed

definition blanked :: "irec \<Rightarrow> nat \<Rightarrow> irec" where
  "blanked r p = r\<lparr>nxt := p, ikey := map (\<lambda>_. SPACE) (ikey r)\<rparr>"

lemma blanked_sel [simp]:
  "nxt (blanked r p) = p" "ikey (blanked r p) = map (\<lambda>_. SPACE) (ikey r)"
  "idoff (blanked r p) = idoff r" "idlen (blanked r p) = idlen r"
  by (simp_all add: blanked_def)

lemma rsize_blanked [simp]: "rsize (blanked r p) = rsize r"
  using enc_body_same_length[of "blanked r p" r] by (simp add: rsize_def)

lemma valid_blanked: "valid_irec r \<Longrightarrow> int p \<le> PTR_MAX \<Longrightarrow> valid_irec (blanked r p)"
  using enc_body_same_length[of "blanked r p" r] by (auto simp: valid_irec_def SPACE_def SEP_def)

definition deleted_ix :: "ix \<Rightarrow> nat \<Rightarrow> irec \<Rightarrow> nat \<Rightarrow> nat \<Rightarrow> ix" where
  \<comment> \<open>the index file after record \<open>r\<close> at \<open>a\<close>, linked from cell \<open>pc\<close>, was freed over head \<open>p0\<close>\<close>
  "deleted_ix x a r p0 pc = put_cell (put_cell (put_rec x a (blanked r p0)) 0 a) pc (nxt r)"

lemma dodelete_run:
  assumes inv: "db_inv db x cs" and h: "h < nhash db" and spl: "cs ! Suc h = pre @ a # post"
    and r: "irec_of x a = Some r" and ld: "loaded db a r"
    and po: "ptroff db = int (last (7 * Suc h # pre))"
    and lk: "\<forall>w. (IdxFd, 0, 1, w) \<notin> set (locks db)" and p0: "cell x 0 = Some p0"
  defines "pc \<equiv> last (7 * Suc h # pre)"
  shows "\<exists>db'. db_dodelete db = Inr db' \<and> locks db' = locks db \<and> chainoff db' = chainoff db
    \<and> nhash db' = nhash db \<and> hashoff db' = hashoff db
    \<and> idx_rep db' (deleted_ix x a r p0 pc) \<and> room (idxf db') = room (idxf db)
    \<and> bytes (datf db') = splice (idoff r) (replicate (idlen r - 1) SPACE @ [NL]) (bytes (datf db))
    \<and> room (datf db') = room (datf db)"
proof -
  note rd = rec_data[OF inv r] and rep = db_invD(1)[OF inv]
  have vx: "valid_ix x" by (rule idx_repD[OF rep])
  have h': "Suc h \<le> nhash db" using h by simp
  note cp = chain_ptr_le[OF inv h' spl]
  have a_hd: "a \<noteq> 7 * i" if "i \<le> nhash db" for i
    using chainsD(8)[OF db_invD(5)[OF inv] h' that] spl by simp
  let ?blank = "replicate (idlen r - 1) SPACE"
  let ?d2 = "splice (idoff r) (?blank @ [NL]) (bytes (datf db))"
  define db1 where "db1 = writew_lock (db\<lparr>datbuf := ?blank, idxbuf := map (\<lambda>_. SPACE) (ikey r)\<rparr>) IdxFd 0 1"
  define db2 where "db2 = db1\<lparr>datlen := idlen r, datf := (datf db)\<lparr>bytes := ?d2, pos := idoff r + idlen r\<rparr>\<rparr>"
  have rep1: "idx_rep db1 x" and rep2: "idx_rep db2 x"
    using rep by (simp_all add: idx_rep_def db1_def db2_def writew_lock_def)
  have off1: "datoff db1 = int (idoff r)" using ld by (simp add: db1_def writew_lock_def loaded_def)
  have s2: "db_writedat db1 ?blank (datoff db1) SEEK_SET = Inr db2"
    using writedat_over[OF off1, of ?blank "datoff db1"] rd(1,2) db_invD(8)[OF inv]
    by (simp add: db2_def db1_def writew_lock_def)
  define db3 where "db3 = db2\<lparr>idxf := (idxf db2)\<lparr>pos := 7\<rparr>\<rparr>"
  have s3: "db_readptr db2 0 = Inr (int p0, db3)"
    using readptr_cell[OF rep2 p0] by (simp add: db3_def)
  have rep3: "idx_rep db3 x" using rep2 by (simp add: idx_rep_def db3_def)
  have p0_le: "int p0 \<le> PTR_MAX" by (rule cell_le[OF vx p0])
  have dl3: "datoff db3 = int (idoff r)" "datlen db3 = idlen r" "idxoff db3 = int a"
    "ptrval db3 = int (nxt r)" "idxbuf db3 = map (\<lambda>_. SPACE) (ikey r)" "ptroff db3 = int pc"
    using ld po by (simp_all add: db3_def db2_def db1_def writew_lock_def loaded_def pc_def)
  have mk: "mk_irec db3 p0 (map (\<lambda>_. SPACE) (ikey r)) = blanked r p0"
    using dl3 by (simp add: mk_irec_def blanked_def)
  define x1 where "x1 = put_rec x a (blanked r p0)"
  define db4 where "db4 = db3\<lparr>ptrval := int p0, idxbuf := enc_body (blanked r p0), idxoff := int a,
           idxf := (idxf db3)\<lparr>bytes := enc_ix x1, pos := a + rsize r\<rparr>\<rparr>"
  have s4: "db_writeidx db3 (idxbuf db3) (idxoff db3) SEEK_SET (int p0) = Inr db4"
    unfolding dl3(3,5) db4_def x1_def mk[symmetric]
    by (rule writeidx_rec[OF rep3 r]) (use dl3 valid_blanked[OF rd(5) p0_le] in \<open>simp_all only: mk rsize_blanked of_nat_0_le_iff\<close>)
  have v1: "valid_ix x1" unfolding x1_def by (rule valid_put_rec[OF vx valid_blanked[OF rd(5) p0_le]])
  have rep4: "idx_rep db4 x1"
    using v1 idx_repD(3)[OF rep3] xlen_put_rec[OF r, of "blanked r p0"] by (simp add: idx_rep_def db4_def x1_def)
  have c1: "cell x1 = (cell x)(a \<mapsto> p0)" unfolding x1_def using cell_put_rec[OF r, of "blanked r p0"] by simp
  have c10: "cell x1 0 = Some p0" using c1 p0 rd(6) by simp
  define x2 where "x2 = put_cell x1 0 a"
  define db5 where "db5 = db4\<lparr>idxf := (idxf db4)\<lparr>bytes := enc_ix x2, pos := 7\<rparr>\<rparr>"
  have s5: "db_writeptr db4 0 (idxoff db4) = Inr db5"
    using writeptr_cell[OF rep4 c10 cp(1)] by (simp add: db5_def x2_def db4_def)
  have rep5: "idx_rep db5 x2"
    using valid_put_cell[OF v1 cp(1), of 0] idx_repD(3)[OF rep4] by (simp add: idx_rep_def db5_def x2_def)
  have c2: "cell x2 = (cell x)(a \<mapsto> p0, 0 \<mapsto> a)"
    unfolding x2_def using cell_put_cell[OF c10, of a] c1 by simp
  have "cell x pc = Some a" using cp(2) by (simp only: pc_def)
  then have "cell x2 pc \<noteq> None" unfolding c2 by simp
  then obtain q where q: "cell x2 pc = Some q" by blast
  have nx: "int (nxt r) \<le> PTR_MAX" using rd(5) by (simp add: valid_irec_def)
  define db6 where "db6 = db5\<lparr>idxf := (idxf db5)\<lparr>bytes := enc_ix (put_cell x2 pc (nxt r)), pos := pc + 7\<rparr>\<rparr>"
  have po5: "ptroff db5 = int pc" using dl3 by (simp add: db5_def db4_def)
  have s6: "db_writeptr db5 (ptroff db5) (int (nxt r)) = Inr db6"
    using writeptr_cell[OF rep5 q nx] po5 by (simp add: db6_def)
  have rep6: "idx_rep db6 (deleted_ix x a r p0 pc)"
    using valid_put_cell[OF idx_repD(1)[OF rep5] nx, of pc] idx_repD(3)[OF rep5]
    by (simp add: idx_rep_def db6_def deleted_ix_def x2_def x1_def)
  have init: "length (replicate (datlen db - 1) SPACE) = idlen r - 1" "idxbuf db = ikey r" "datlen db = idlen r"
    using ld by (simp_all add: loaded_def)
  have run: "db_dodelete db = Inr (un_lock db6 IdxFd 0 1)"
    unfolding db_dodelete_def Let_def init(2,3) FREE_OFF_def
    using s2 s3 s4 s5 s6 dl3(4) by (simp add: db1_def writew_lock_def)
  have lk6: "locks db6 = (IdxFd, 0, 1, True) # locks db"
    by (simp add: db6_def db5_def db4_def db3_def db2_def db1_def writew_lock_def)
  have "locks (un_lock db6 IdxFd 0 1) = locks db"
    using lk by (auto simp: un_lock_def lk6 intro!: filter_True)
  moreover have "idx_rep (un_lock db6 IdxFd 0 1) (deleted_ix x a r p0 pc)"
    using rep6 by (simp add: un_lock_def idx_rep_def)
  ultimately show ?thesis
    using run by (simp add: un_lock_def db6_def db5_def db4_def db3_def db2_def db1_def writew_lock_def)
qed

lemma deleted_cells:
  assumes inv: "db_inv db x cs" and h: "h < nhash db" and spl: "cs ! Suc h = pre @ a # post"
    and r: "irec_of x a = Some r" and p0: "cell x 0 = Some p0"
  defines "pc \<equiv> last (7 * Suc h # pre)"
  shows "cell (deleted_ix x a r p0 pc) = (cell x)(a \<mapsto> p0, 0 \<mapsto> a, pc \<mapsto> nxt r)"
    "body (deleted_ix x a r p0 pc) = (body x)(a \<mapsto> (map (\<lambda>_. SPACE) (ikey r), idoff r, idlen r))"
    "length (hdr (deleted_ix x a r p0 pc)) = length (hdr x)"
    "xlen (deleted_ix x a r p0 pc) = xlen x"
proof -
  have h': "Suc h \<le> nhash db" using h by simp
  have a0: "a \<noteq> 0" by (rule rec_data(6)[OF inv r])
  let ?x1 = "put_rec x a (blanked r p0)"
  have c1: "cell ?x1 = (cell x)(a \<mapsto> p0)" using cell_put_rec[OF r, of "blanked r p0"] by simp
  have c2: "cell (put_cell ?x1 0 a) = (cell x)(a \<mapsto> p0, 0 \<mapsto> a)"
    using cell_put_cell[of ?x1 0 p0 a] c1 p0 a0 by simp
  have "cell x pc = Some a" using chain_ptr_le(2)[OF inv h' spl] by (simp only: pc_def)
  then have "cell (put_cell ?x1 0 a) pc \<noteq> None" unfolding c2 by simp
  then show "cell (deleted_ix x a r p0 pc) = (cell x)(a \<mapsto> p0, 0 \<mapsto> a, pc \<mapsto> nxt r)"
    unfolding deleted_ix_def using cell_put_cell c2 by fastforce
  show "body (deleted_ix x a r p0 pc) = (body x)(a \<mapsto> (map (\<lambda>_. SPACE) (ikey r), idoff r, idlen r))"
    using body_put_rec[OF r, of "blanked r p0"] by (simp add: deleted_ix_def body_put_cell)
  show "length (hdr (deleted_ix x a r p0 pc)) = length (hdr x)" "xlen (deleted_ix x a r p0 pc) = xlen x"
    using xlen_put_rec[OF r, of "blanked r p0"] by (simp_all add: deleted_ix_def)
qed

lemma dodelete_inv:
  assumes inv: "db_inv db x cs" and h: "h < nhash db" and spl: "cs ! Suc h = pre @ a # post"
    and r: "irec_of x a = Some r" and ld: "loaded db a r"
    and po: "ptroff db = int (last (7 * Suc h # pre))"
    and lk: "\<forall>w. (IdxFd, 0, 1, w) \<notin> set (locks db)"
  obtains db' x' cs' where "db_dodelete db = Inr db'" "db_inv db' x' cs'"
    "amap (body x') cs' (bytes (datf db')) = (amap (body x) cs (bytes (datf db)))(ikey r := None)"
    "locks db' = locks db" "chainoff db' = chainoff db" "nhash db' = nhash db" "xlen x' = xlen x"
    "length (bytes (datf db')) = length (bytes (datf db))" "room (idxf db') = room (idxf db)"
    "room (datf db') = room (datf db)"
    "\<And>key data. length key = length (ikey r) \<Longrightarrow> length data + 1 = idlen r \<Longrightarrow> reusable x' cs' key data"
proof -
  let ?n = "nhash db" and ?d = "bytes (datf db)" and ?b = "body x"
  let ?pc = "last (7 * Suc h # pre)"
  have h': "Suc h \<le> ?n" "0 \<le> ?n" using h by simp_all
  obtain p0 where p0: "cell x 0 = Some p0" using cell_hdr_inv[OF inv, of 0] by auto
  note rd = rec_data[OF inv r]
  let ?blank = "replicate (idlen r - 1) SPACE" and ?bk = "map (\<lambda>_. SPACE) (ikey r)"
  let ?x' = "deleted_ix x a r p0 ?pc" and ?cs' = "cs[0 := a # cs ! 0, Suc h := pre @ post]"
  let ?d' = "splice (idoff r) (?blank @ [NL]) ?d"
  obtain db' where db': "db_dodelete db = Inr db'" "locks db' = locks db" "chainoff db' = chainoff db"
    "nhash db' = ?n" "hashoff db' = hashoff db" "idx_rep db' ?x'" "room (idxf db') = room (idxf db)"
    "bytes (datf db') = ?d'" "room (datf db') = room (datf db)"
    using dodelete_run[OF inv h spl r ld po lk p0] by blast
  note dc = deleted_cells[OF inv h spl r p0]
  have ck: "chains_ok ?n (cell x) ?b cs" and kk: "keys_ok ?n ?b cs" using db_invD[OF inv] by blast+
  have ch: "chains_ok ?n (cell ?x') (body ?x') ?cs'"
    unfolding dc(1,2) using move_chains[OF ck h'(1,2) _ spl, of "(?bk, idoff r, idlen r)"] rd(3) p0
    by (simp add: cell_rec[OF r] domIff)
  have lv: "set (live ?cs') = set (live cs) - {a}" by (rule live_move_free[OF ck h spl])
  have a_h: "a \<in> set (cs ! Suc h)" using spl by simp
  have al: "a \<in> set (live cs)" using a_h h unfolding live_set[OF chainsD(1)[OF ck]] by blast
  have inj: "inj_on (bkey ?b) (set (live cs))" using kk by (simp add: keys_ok_def)
  have bk: "bkey (body ?x') z = (if z = a then ?bk else bkey ?b z)" for z unfolding dc(2) by (simp add: bkey_def)
  have ba: "?b a = Some (ikey r, idoff r, length ?blank + 1)" using rd(2,4) by simp
  have ns: "NUL \<notin> set ?blank" by (simp add: SPACE_def)
  have dt: "data_ok (body ?x') ?d'" "length ?d' = length ?d" "\<And>z. z \<in> dom ?b \<Longrightarrow> z \<noteq> a \<Longrightarrow> bval (body ?x') ?d' z = bval ?b ?d z"
    using data_over(1,4)[OF db_invD(7)[OF inv] ba ns, where k' = ?bk] data_over(2)[OF db_invD(7)[OF inv] ba ns] rd(2)
    unfolding dc(2) by simp_all
  have ks: "keys_ok ?n (body ?x') ?cs'"
    unfolding keys_ok_def
  proof (intro conjI allI impI ballI)
    fix k z assume k: "k < ?n" "z \<in> set (?cs' ! Suc k)"
    have "set (?cs' ! Suc k) = set (cs ! Suc k) - {a}"
      using move_set[OF ck h'(1,2) _ spl, of "Suc k"] k(1) by simp
    then show "khash ?n (bkey (body ?x') z) = k"
      using k kk unfolding bk keys_ok_def by auto
  next
    have "inj_on (\<lambda>z. if z = a then ?bk else bkey ?b z) (set (live cs) - {a})"
      using inj unfolding inj_on_def by simp
    then show "inj_on (bkey (body ?x')) (set (live ?cs'))" unfolding inj_on_def bk lv .
  next
    fix z assume "z \<in> set (?cs' ! 0)"
    then have "z = a \<or> z \<in> set (cs ! 0)" using chainsD(1)[OF ck] by (auto simp: nth_list_update)
    then show "set (bkey (body ?x') z) \<subseteq> {SPACE}" using kk unfolding bk keys_ok_def by auto
  qed
  have inv': "db_inv db' ?x' ?cs'"
    using db' ch ks dt dc(3) inv by (simp add: db_inv_def)
  have am: "amap (body ?x') ?cs' ?d' = (amap ?b cs ?d)(bkey ?b a := None)"
  proof (rule amap_del[OF inj al lv])
    fix z assume "z \<in> set (live ?cs')"
    then have z: "z \<in> dom ?b" "z \<noteq> a" unfolding lv using chains_live(1)[OF ck] by auto
    show "bkey (body ?x') z = bkey ?b z \<and> bval (body ?x') ?d' z = bval ?b ?d z"
      unfolding bk using dt(3)[OF z] z(2) by (intro conjI) (simp_all only: if_False)
  qed
  have ru: "reusable ?x' ?cs' key data" if "length key = length (ikey r)" "length data + 1 = idlen r" for key data
  proof -
    have "a \<in> set (?cs' ! 0)" using chainsD(1)[OF ck] by simp
    moreover have "fmatch ?x' (length key) (length data + 1) a" unfolding fmatch_def dc(2) using that by simp
    ultimately show ?thesis unfolding reusable_def by blast
  qed
  show thesis
    by (rule that[OF db'(1) inv' _ _ _ _ _ _ _ _ ru]) (use db' am dc(4) dt(2) bkey_irec[OF r] in simp_all)
qed

end
