(* ===== verification/DbStore.thy ===== *)
theory DbStore
  imports DbDelete
begin

text \<open>
  \<open>_db_findfree\<close> and the four ways \<open>db_store\<close> writes: append a new record, reuse a free record whose
  key and data have the same lengths, replace the data in place, and delete then append. Each keeps
  the invariant and puts one key.
\<close>

section \<open>The free list\<close>

lemma findfree_loop_found:
  assumes "idx_rep db x" "lfv (cell x) p (pre @ a # post)" "set (pre @ [a]) \<subseteq> dom (body x)"
    and "\<forall>b \<in> set pre. \<not> fmatch x kl dl b" "fmatch x kl dl a" "length pre < fuel"
  shows "\<exists>db' r. db_findfree_loop fuel db kl dl (int s) (int p) = Inr (int (last (s # pre)), int a, db')
    \<and> core_of db' = core_of db \<and> irec_of x a = Some r \<and> loaded db' a r"
  using assms
proof (induction pre arbitrary: db p fuel s)
  case Nil
  then obtain f r where f: "fuel = Suc f" and r: "irec_of x a = Some r"
    by (cases fuel) (auto simp: dom_body)
  with Nil.prems have p: "p = a" "a \<noteq> 0" using lfv_Cons by auto
  obtain db' where db': "db_readidx db (int a) = Inr (int (nxt r), db')" "core_of db' = core_of db"
    "loaded db' a r" "ptroff db' = ptroff db"
    using readidx_loaded[OF Nil.prems(1) r] by blast
  moreover have "length (idxbuf db') = kl \<and> datlen db' = dl"
    using db'(3) Nil.prems(5) fmatch_rec[OF r] by (simp add: loaded_def)
  ultimately show ?case using f r p by auto
next
  case (Cons b pre)
  then obtain f r where f: "fuel = Suc f" and r: "irec_of x b = Some r"
    by (cases fuel) (auto simp: dom_body)
  have p: "p = b" "b \<noteq> 0" "lfv (cell x) (nxt r) (pre @ a # post)"
    using lfv_Cons[of x p b "pre @ a # post", OF _ r] Cons.prems(2) by auto
  obtain db' where db': "db_readidx db (int b) = Inr (int (nxt r), db')" "core_of db' = core_of db" "loaded db' b r"
    using readidx_loaded[OF Cons.prems(1) r] by blast
  have ne: "\<not> (length (idxbuf db') = kl \<and> datlen db' = dl)"
    using db'(3) Cons.prems(4) fmatch_rec[OF r] by (auto simp: loaded_def)
  have "\<exists>db'' q. db_findfree_loop f db' kl dl (int b) (int (nxt r)) = Inr (int (last (b # pre)), int a, db'')
    \<and> core_of db'' = core_of db' \<and> irec_of x a = Some q \<and> loaded db'' a q"
    using Cons.prems f p(3) idx_rep_core[OF db'(2)] by (intro Cons.IH) auto
  then show ?case using f p(1,2) db'(1,2) ne by auto
qed

lemma findfree_loop_none:
  assumes "idx_rep db x" "lfv (cell x) p as" "set as \<subseteq> dom (body x)"
    and "\<forall>b \<in> set as. \<not> fmatch x kl dl b" "length as < fuel"
  shows "\<exists>db' s'. db_findfree_loop fuel db kl dl s (int p) = Inr (s', 0, db') \<and> core_of db' = core_of db"
  using assms
proof (induction as arbitrary: db p fuel s)
  case Nil
  then show ?case by (cases fuel) (auto simp: lfv_def)
next
  case (Cons b as)
  then obtain f r where f: "fuel = Suc f" and r: "irec_of x b = Some r"
    by (cases fuel) (auto simp: dom_body)
  have p: "p = b" "b \<noteq> 0" "lfv (cell x) (nxt r) as"
    using lfv_Cons[OF Cons.prems(2) r] by auto
  obtain db' where db': "db_readidx db (int b) = Inr (int (nxt r), db')" "core_of db' = core_of db" "loaded db' b r"
    using readidx_loaded[OF Cons.prems(1) r] by blast
  have ne: "\<not> (length (idxbuf db') = kl \<and> datlen db' = dl)"
    using db'(3) Cons.prems(4) fmatch_rec[OF r] by (auto simp: loaded_def)
  have "\<exists>db'' s'. db_findfree_loop f db' kl dl (int b) (int (nxt r)) = Inr (s', 0, db'') \<and> core_of db'' = core_of db'"
    using Cons.prems f p(3) idx_rep_core[OF db'(2)] by (intro Cons.IH) auto
  then show ?case using f p(1,2) db'(1,2) ne by auto
qed

definition findfree_end :: "int \<times> int \<times> db \<Rightarrow> db_error + (int \<times> db)" where
  \<comment> \<open>\<open>_db_findfree\<close> after its loop\<close>
  "findfree_end = (\<lambda>(saveoffset, offset, db2).
      bindE (if offset = 0 then Inr (-1, db2)
             else bindE (db_writeptr db2 saveoffset (ptrval db2)) (\<lambda>db3. Inr (0, db3)))
        (\<lambda>(rc, db4). Inr (rc, un_lock db4 IdxFd 0 1)))"

lemma findfree_start:
  assumes "db_inv db x cs"
  obtains p db1 where "cell x 0 = Some p" "lfv (cell x) p (cs ! 0)" "idx_rep db1 x"
    "core_of db1 = core_of (writew_lock db IdxFd 0 1)" "length (cs ! 0) < db_fuel db1"
    "db_findfree db kl dl = bindE (db_findfree_loop (db_fuel db1) db1 kl dl 0 (int p)) findfree_end"
proof -
  note cf = chain_facts[OF assms, of 0]
  obtain p where p: "cell x 0 = Some p" "lfv (cell x) p (cs ! 0)"
    using cf(1) by (auto simp: lf_lfv)
  let ?db0 = "writew_lock db IdxFd 0 1"
  have rep0: "idx_rep ?db0 x" using db_invD(1)[OF assms] by (simp add: idx_rep_def writew_lock_def)
  define db1 where "db1 = ?db0\<lparr>idxf := (idxf ?db0)\<lparr>pos := 7\<rparr>\<rparr>"
  have rd: "db_readptr ?db0 0 = Inr (int p, db1)"
    using readptr_cell[OF rep0 p(1)] by (simp add: db1_def)
  have st: "core_of db1 = core_of ?db0" by (simp add: db1_def)
  have rep1: "idx_rep db1 x" using idx_rep_core[OF st] rep0 by simp
  have "db_fuel db1 = Suc (xlen x)"
    using rep1 by (simp add: db_fuel_def idx_rep_def length_enc_ix)
  with cf(4) have fuel: "length (cs ! 0) < db_fuel db1" by simp
  show thesis
    by (rule that[OF p rep1 st fuel]) (simp add: db_findfree_def findfree_end_def Let_def FREE_OFF_def rd[simplified])
qed

lemma findfree_none:
  assumes "db_inv db x cs" "\<forall>w. (IdxFd, 0, 1, w) \<notin> set (locks db)" "\<forall>b \<in> set (cs ! 0). \<not> fmatch x kl dl b"
  obtains db' where "db_findfree db kl dl = Inr (-1, db')" "core_of db' = core_of db"
proof -
  obtain p db1 where s: "lfv (cell x) p (cs ! 0)" "idx_rep db1 x"
    "core_of db1 = core_of (writew_lock db IdxFd 0 1)" "length (cs ! 0) < db_fuel db1"
    "db_findfree db kl dl = bindE (db_findfree_loop (db_fuel db1) db1 kl dl 0 (int p)) findfree_end"
    by (rule findfree_start[OF assms(1), where kl = kl and dl = dl])
  obtain db2 s' where f: "db_findfree_loop (db_fuel db1) db1 kl dl 0 (int p) = Inr (s', 0, db2)" "core_of db2 = core_of db1"
    using findfree_loop_none[OF s(2,1) chain_facts(3)[OF assms(1)] assms(3) s(4)] by blast
  have "core_of (un_lock db2 IdxFd 0 1) = core_of (un_lock (writew_lock db IdxFd 0 1) IdxFd 0 1)"
    using f(2) s(3) by (intro core_of_un_lock) simp
  also have "\<dots> = core_of db" using un_writew_lock[OF assms(2)] by simp
  finally show thesis using s(5) f(1) by (intro that[of "un_lock db2 IdxFd 0 1"]) (simp_all add: findfree_end_def)
qed

lemma findfree_found:
  assumes inv: "db_inv db x cs" and lk: "\<forall>w. (IdxFd, 0, 1, w) \<notin> set (locks db)"
    and spl: "cs ! 0 = pre @ a # post" "\<forall>b \<in> set pre. \<not> fmatch x kl dl b" "fmatch x kl dl a"
  defines "pc \<equiv> last (0 # pre)"
  obtains db' r where "db_findfree db kl dl = Inr (0, db')" "irec_of x a = Some r" "loaded db' a r"
    "core_of db' = core_of (db\<lparr>idxf := (idxf db)\<lparr>bytes := enc_ix (put_cell x pc (nxt r))\<rparr>\<rparr>)"
proof -
  obtain p db1 where s: "lfv (cell x) p (cs ! 0)" "idx_rep db1 x"
    "core_of db1 = core_of (writew_lock db IdxFd 0 1)" "length (cs ! 0) < db_fuel db1"
    "db_findfree db kl dl = bindE (db_findfree_loop (db_fuel db1) db1 kl dl 0 (int p)) findfree_end"
    by (rule findfree_start[OF inv, where kl = kl and dl = dl])
  have dom: "set (pre @ [a]) \<subseteq> dom (body x)" using chain_facts(3)[OF inv, of 0] spl(1) by auto
  have fuel: "length pre < db_fuel db1" using s(4) spl(1) by simp
  have "\<exists>db2 r. db_findfree_loop (db_fuel db1) db1 kl dl (int 0) (int p) = Inr (int (last (0 # pre)), int a, db2)
      \<and> core_of db2 = core_of db1 \<and> irec_of x a = Some r \<and> loaded db2 a r"
    by (rule findfree_loop_found[OF s(2) s(1)[unfolded spl(1)] dom spl(2,3) fuel])
  then obtain db2 r where f: "db_findfree_loop (db_fuel db1) db1 kl dl 0 (int p) = Inr (int pc, int a, db2)"
    "core_of db2 = core_of db1" "irec_of x a = Some r" "loaded db2 a r"
    unfolding pc_def by auto
  have rep2: "idx_rep db2 x" using idx_rep_core[OF f(2)] s(2) by simp
  have c: "cell x pc = Some a" using chain_ptr_le(2)[OF inv _ spl(1)] by (simp add: pc_def)
  have nx: "int (nxt r) \<le> PTR_MAX"
    using irec_of_valid[OF idx_repD(1)[OF rep2] f(3)] by (simp add: valid_irec_def)
  have a0: "a \<noteq> 0" by (rule rec_data(6)[OF inv f(3)])
  define db3 where "db3 = db2\<lparr>idxf := (idxf db2)\<lparr>bytes := enc_ix (put_cell x pc (nxt r)), pos := pc + 7\<rparr>\<rparr>"
  have w: "db_writeptr db2 (int pc) (ptrval db2) = Inr db3"
    using writeptr_cell[OF rep2 c nx] f(4) by (simp add: db3_def loaded_def)
  let ?u = "\<lambda>d. d\<lparr>idxf := (idxf d)\<lparr>bytes := enc_ix (put_cell x pc (nxt r))\<rparr>\<rparr>"
  have "core_of db3 = core_of (?u db2)" by (simp add: db3_def core_of_def)
  also have "\<dots> = core_of (?u (writew_lock db IdxFd 0 1))"
    using f(2) s(3) by (intro core_of_idx_bytes) simp
  finally have "core_of (un_lock db3 IdxFd 0 1) = core_of (un_lock (?u (writew_lock db IdxFd 0 1)) IdxFd 0 1)"
    by (rule core_of_un_lock)
  also have "un_lock (?u (writew_lock db IdxFd 0 1)) IdxFd 0 1 = ?u (un_lock (writew_lock db IdxFd 0 1) IdxFd 0 1)"
    by (simp add: un_lock_def writew_lock_def)
  finally have co: "core_of (un_lock db3 IdxFd 0 1) = core_of (?u db)" using un_writew_lock[OF lk] by simp
  have ld: "loaded (un_lock db3 IdxFd 0 1) a r" using f(4) by (simp add: db3_def loaded_def un_lock_def)
  show thesis
    by (rule that[OF _ f(3) ld co]) (simp add: s(5) f(1) w a0 findfree_end_def)
qed

section \<open>Appending a record\<close>

definition key_ok :: "string \<Rightarrow> bool" where
  \<comment> \<open>a C string without the separator\<close>
  "key_ok key \<longleftrightarrow> SEP \<notin> set key \<and> NUL \<notin> set key"

definition ixlen :: "db \<Rightarrow> string \<Rightarrow> string \<Rightarrow> nat" where
  \<comment> \<open>the length of the index record that an append of this key and data would write\<close>
  "ixlen db key data = length key + length (dec (length (bytes (datf db)))) + length (dec (length data + 1)) + 3"

definition fits :: "db \<Rightarrow> string \<Rightarrow> string \<Rightarrow> bool" where
  \<comment> \<open>the limits of the format and of the device admit the append\<close>
  "fits db key data \<longleftrightarrow> IDXLEN_MIN \<le> ixlen db key data \<and> ixlen db key data \<le> IDXLEN_MAX
     \<and> int (length (bytes (idxf db))) \<le> PTR_MAX
     \<and> length (bytes (idxf db)) + 11 + ixlen db key data \<le> room (idxf db)
     \<and> length (bytes (datf db)) + length data + 1 \<le> room (datf db)"

definition data_valid :: "string \<Rightarrow> bool" where
  "data_valid data \<longleftrightarrow> NUL \<notin> set data \<and> DATLEN_MIN \<le> length data + 1 \<and> length data + 1 \<le> DATLEN_MAX"

lemma append_keys_ok:
  assumes ck: "chains_ok n c b cs" and kk: "keys_ok n b cs" and h: "h < n" "khash n key = h"
    and fresh: "\<And>z. z \<in> set (live cs) \<Longrightarrow> bkey b z \<noteq> key" and e: "e \<notin> dom b"
  shows "keys_ok n (b(e := Some (key, y))) (cs[Suc h := e # cs ! Suc h])" (is "keys_ok n ?b ?cs")
proof -
  have l: "length cs = Suc n" using chainsD(1)[OF ck] .
  have bk: "bkey ?b z = (if z = e then key else bkey b z)" for z by (simp add: bkey_def)
  have e_no: "e \<notin> set (cs ! i)" if "i \<le> n" for i using chainsD(7)[OF ck that] e by blast
  have lv: "set (live ?cs) = insert e (set (live cs))" by (rule live_add[OF l h(1)])
  have inj: "inj_on (bkey b) (set (live cs))" using kk by (simp add: keys_ok_def)
  have en: "e \<notin> set (live cs)" using chains_live(1)[OF ck] e by blast
  have "khash n (bkey ?b a) = k" if "k < n" "a \<in> set (?cs ! Suc k)" for k a
    using that kk l h e_no[of "Suc k"] unfolding keys_ok_def bk
    by (cases "k = h") (auto simp: nth_list_update)
  moreover have "inj_on (bkey ?b) (set (live ?cs))"
  proof (rule inj_onI)
    fix u v assume "u \<in> set (live ?cs)" "v \<in> set (live ?cs)" "bkey ?b u = bkey ?b v"
    then show "u = v" using inj fresh en unfolding lv bk
      by (auto simp: inj_on_def split: if_splits)
  qed
  moreover have "set (bkey ?b a) \<subseteq> {SPACE}" if "a \<in> set (?cs ! 0)" for a
    using that kk e_no[of 0] unfolding keys_ok_def bk by auto
  ultimately show ?thesis unfolding keys_ok_def by blast
qed

lemma append_inv:
  assumes inv: "db_inv db x cs" and h: "h < nhash db" "khash (nhash db) key = h" and co: "chainoff db = int (7 * Suc h)"
    and fresh: "\<And>z. z \<in> set (live cs) \<Longrightarrow> bkey (body x) z \<noteq> key" and k: "key_ok key" and dv: "data_valid data"
    and fits: "fits db key data" and p: "cell x (7 * Suc h) = Some p"
    and lk: "\<forall>fd off w. (fd, off, 0, w) \<notin> set (locks db)"
  obtains db3 db4 db5 x' cs' where "db_writedat db data 0 SEEK_END = Inr db3"
    "db_writeidx db3 key 0 SEEK_END (int p) = Inr db4"
    "db_writeptr db4 (chainoff db4) (idxoff db4) = Inr db5" "db_inv db5 x' cs'"
    "amap (body x') cs' (bytes (datf db5)) = (amap (body x) cs (bytes (datf db)))(key \<mapsto> data)"
    "locks db5 = locks db" "chainoff db5 = chainoff db"
    "length (bytes (idxf db5)) = length (bytes (idxf db)) + 11 + ixlen db key data"
    "length (bytes (datf db5)) = length (bytes (datf db)) + length data + 1"
    "room (idxf db5) = room (idxf db)" "room (datf db5) = room (datf db)"
proof -
  let ?n = "nhash db" and ?b = "body x" and ?d = "bytes (datf db)" and ?e = "xlen x"
  note I = db_invD[OF inv]
  have vx: "valid_ix x" by (rule idx_repD[OF I(1)])
  have idl: "length (bytes (idxf db)) = ?e" using idx_repD(2)[OF I(1)] length_enc_ix[OF vx] by simp
  define db3 where "db3 = db\<lparr>datoff := int (length ?d), datlen := length data + 1,
    datf := (datf db)\<lparr>bytes := ?d @ data @ [NL], pos := length ?d + length data + 1\<rparr>\<rparr>"
  have s3: "db_writedat db data 0 SEEK_END = Inr db3"
    unfolding db3_def using fits lk by (intro writedat_append) (auto simp: fits_def)
  let ?r = "mk_irec db3 p key"
  have r: "nxt ?r = p" "ikey ?r = key" "idoff ?r = length ?d" "idlen ?r = length data + 1"
    by (simp_all add: db3_def)
  have dr: "datoff db3 = int (length ?d)" "datlen db3 = length data + 1" by (simp_all add: db3_def)
  have lr: "length (enc_body ?r) = ixlen db key data" by (simp add: enc_body_def db3_def ixlen_def)
  have vr: "valid_irec ?r"
    using fits k dv cell_le[OF vx p] by (simp add: valid_irec_def lr dr fits_def key_ok_def data_valid_def)
  have rep3: "idx_rep db3 x" using I(1) by (simp add: idx_rep_def db3_def)
  have rs: "rsize ?r = 11 + ixlen db key data" by (simp add: rsize_def lr)
  define x1 where "x1 = add_rec x ?r"
  define db4 where "db4 = db3\<lparr>ptrval := int p, idxbuf := enc_body ?r, idxoff := int ?e,
    idxf := (idxf db3)\<lparr>bytes := enc_ix x1, pos := ?e + rsize ?r\<rparr>\<rparr>"
  have s4: "db_writeidx db3 key 0 SEEK_END (int p) = Inr db4"
    unfolding db4_def x1_def using fits lk idl rs
    by (intro writeidx_append[OF rep3 _ vr]) (auto simp: db3_def fits_def)
  have rep4: "idx_rep db4 x1"
    using valid_add_rec[OF vx vr] fits idl rs by (simp add: idx_rep_def db4_def x1_def db3_def fits_def)
  have c1: "cell x1 = (cell x)(?e \<mapsto> p)" using cell_add_rec[of x ?r] by (simp add: x1_def r)
  have hlt: "7 * Suc h < ?e" using I(2) h(1) by (simp add: xlen_def rbase_def)
  have c1h: "cell x1 (7 * Suc h) = Some p" using c1 p hlt by simp
  have eP: "int ?e \<le> PTR_MAX" using fits idl by (simp add: fits_def)
  define x2 where "x2 = put_cell x1 (7 * Suc h) ?e"
  define db5 where "db5 = db4\<lparr>idxf := (idxf db4)\<lparr>bytes := enc_ix x2, pos := 7 * Suc h + 7\<rparr>\<rparr>"
  have co4: "chainoff db4 = int (7 * Suc h)" "idxoff db4 = int ?e" using co by (simp_all add: db4_def db3_def)
  have s5: "db_writeptr db4 (chainoff db4) (idxoff db4) = Inr db5"
    unfolding co4 db5_def x2_def by (rule writeptr_cell[OF rep4 c1h eP])
  have c2: "cell x2 = (cell x)(?e := cell x (7 * Suc h), 7 * Suc h := Some ?e)"
    unfolding x2_def using cell_put_cell[OF c1h, of ?e] c1 p by simp
  have b2: "body x2 = ?b(?e \<mapsto> (key, length ?d, length data + 1))"
    using body_add_rec[of x ?r] by (simp add: x2_def body_put_cell x1_def dr)
  have e_no: "?e \<notin> dom ?b" using body_dom[of x ?e] by auto
  let ?cs = "cs[Suc h := ?e # cs ! Suc h]"
  have ck: "chains_ok ?n (cell x2) (body x2) ?cs"
    unfolding c2 b2 using hlt h(1) e_no I(2) by (intro add_chains[OF I(5)]) (auto simp: xlen_def rbase_def)
  have kk: "keys_ok ?n (body x2) ?cs" unfolding b2 by (rule append_keys_ok[OF I(5,6) h fresh e_no])
  have ns: "NUL \<notin> set data" using dv by (simp add: data_valid_def)
  have e_None: "?b ?e = None" using e_no by auto
  note da = data_append[OF I(7) e_None ns, where k = key]
  have d5: "bytes (datf db5) = ?d @ data @ [NL]" "room (datf db5) = room (datf db)"
    by (simp_all add: db5_def db4_def db3_def)
  have n5: "nhash db5 = ?n" "hashoff db5 = hashoff db" and hl: "length (hdr x2) = length (hdr x)"
    by (simp_all add: db5_def db4_def db3_def x2_def x1_def)
  have rep5: "idx_rep db5 x2"
    using valid_put_cell[OF idx_repD(1)[OF rep4] eP] idx_repD(3)[OF rep4] by (simp add: idx_rep_def db5_def x2_def)
  have inv5: "db_inv db5 x2 ?cs"
    unfolding db_inv_def d5 n5 hl using rep5 ck kk da(1) I(2-4,9) fits by (simp add: b2 fits_def)
  have lv: "set (live ?cs) = insert ?e (set (live cs))" by (rule live_add[OF chainsD(1)[OF I(5)] h(1)])
  have "amap (body x2) ?cs (bytes (datf db5)) = (amap ?b cs ?d)(key \<mapsto> data)"
  proof (rule amap_put[OF _ _ lv])
    show "inj_on (bkey ?b) (set (live cs))" "inj_on (bkey (body x2)) (set (live ?cs))"
      using I(6) kk by (simp_all add: keys_ok_def)
    show "bkey (body x2) ?e = key" by (simp add: b2 bkey_def)
    show "bval (body x2) (bytes (datf db5)) ?e = data" unfolding b2 d5 by (rule da(2))
    show "bkey (body x2) z = bkey ?b z \<and> bval (body x2) (bytes (datf db5)) z = bval ?b ?d z"
      if "z \<in> set (live cs)" "z \<noteq> ?e" for z
    proof
      show "bkey (body x2) z = bkey ?b z" using that(2) by (simp add: b2 bkey_def)
      show "bval (body x2) (bytes (datf db5)) z = bval ?b ?d z"
        unfolding b2 d5 using that(1) chains_live(1)[OF I(5)] by (intro da(3)) blast
    qed
    show "bkey ?b ?e = key" if "?e \<in> set (live cs)" using that chains_live(1)[OF I(5)] e_no by blast
  qed
  note am = this
  have li: "length (bytes (idxf db5)) = length (bytes (idxf db)) + 11 + ixlen db key data"
    using idx_repD(2)[OF rep5] length_enc_ix[OF idx_repD(1)[OF rep5]] idl rs by (simp add: x2_def x1_def)
  show thesis
    by (rule that[OF s3 s4 s5 inv5 am _ _ li]) (simp_all add: db5_def db4_def db3_def)
qed

section \<open>Reusing a free record\<close>

lemma reuse_keys_ok:
  assumes ck: "chains_ok n c b cs" and kk: "keys_ok n b cs" and h: "h < n" "khash n key = h"
    and fresh: "\<And>z. z \<in> set (live cs) \<Longrightarrow> bkey b z \<noteq> key" and spl: "cs ! 0 = pre @ a # post"
  shows "keys_ok n (b(a := Some (key, y))) (cs[Suc h := a # cs ! Suc h, 0 := pre @ post])" (is "keys_ok n ?b ?cs")
proof -
  have bk: "bkey ?b z = (if z = a then key else bkey b z)" for z by (simp add: bkey_def)
  have ms: "set (?cs ! k) = (if k = Suc h then insert a (set (cs ! Suc h)) else set (cs ! k) - {a})" if "k \<le> n" for k
    using move_set[OF ck _ _ _ spl that, of "Suc h"] h(1) by simp
  have lv: "set (live ?cs) = insert a (set (live cs))" by (rule live_move_bucket[OF ck h(1) spl])
  have inj: "inj_on (bkey b) (set (live cs))" using kk by (simp add: keys_ok_def)
  have an: "a \<notin> set (live cs)" using chains_live(2)[OF ck] spl by auto
  have "khash n (bkey ?b z) = k" if "k < n" "z \<in> set (?cs ! Suc k)" for k z
  proof (cases "z = a")
    case True
    have "a \<notin> set (cs ! Suc k)" using chainsD(4)[OF ck, of 0 "Suc k"] that(1) spl by auto
    then have "k = h" using that True ms[of "Suc k"] by (auto split: if_splits)
    then show ?thesis using True h by (simp add: bk)
  next
    case False
    then have "z \<in> set (cs ! Suc k)" using that ms[of "Suc k"] by (auto split: if_splits)
    then show ?thesis using kk that(1) False by (simp add: bk keys_ok_def)
  qed
  moreover have "inj_on (bkey ?b) (set (live ?cs))"
  proof (rule inj_onI)
    fix u v assume "u \<in> set (live ?cs)" "v \<in> set (live ?cs)" "bkey ?b u = bkey ?b v"
    then show "u = v" using inj fresh an unfolding lv bk
      by (auto simp: inj_on_def split: if_splits)
  qed
  moreover have "set (bkey ?b z) \<subseteq> {SPACE}" if "z \<in> set (?cs ! 0)" for z
  proof -
    have "z \<in> set (cs ! 0)" "z \<noteq> a" using that ms[of 0] by (auto split: if_splits)
    then show ?thesis using kk by (simp add: bk keys_ok_def)
  qed
  ultimately show ?thesis unfolding keys_ok_def by blast
qed

lemma reuse_inv:
  assumes inv: "db_inv db x cs" and h: "h < nhash db" "khash (nhash db) key = h" and co: "chainoff db = int (7 * Suc h)"
    and fresh: "\<And>z. z \<in> set (live cs) \<Longrightarrow> bkey (body x) z \<noteq> key" and k: "key_ok key" and ns: "NUL \<notin> set data"
    and p: "cell x (7 * Suc h) = Some p" and spl: "cs ! 0 = pre @ a # post"
    and r: "irec_of x a = Some r" "length (ikey r) = length key" "idlen r = length data + 1"
    and ld: "loaded db2 a r"
    and st2: "core_of db2 = core_of (db\<lparr>idxf := (idxf db)\<lparr>bytes := enc_ix (put_cell x (last (0 # pre)) (nxt r))\<rparr>\<rparr>)"
  obtains db3 db4 db5 x' cs' where "db_writedat db2 data (datoff db2) SEEK_SET = Inr db3"
    "db_writeidx db3 key (idxoff db3) SEEK_SET (int p) = Inr db4"
    "db_writeptr db4 (chainoff db4) (idxoff db4) = Inr db5" "db_inv db5 x' cs'"
    "amap (body x') cs' (bytes (datf db5)) = (amap (body x) cs (bytes (datf db)))(key \<mapsto> data)"
    "locks db5 = locks db" "chainoff db5 = chainoff db"
    "length (bytes (idxf db5)) = length (bytes (idxf db))"
    "length (bytes (datf db5)) = length (bytes (datf db))"
    "room (idxf db5) = room (idxf db)" "room (datf db5) = room (datf db)"
proof -
  define pc where "pc = last (0 # pre)"
  let ?n = "nhash db" and ?b = "body x" and ?d = "bytes (datf db)"
  let ?d2 = "splice (idoff r) (data @ [NL]) ?d"
  note I = db_invD[OF inv] and rd = rec_data[OF inv r(1)] and S = core_ofD[OF st2]
  have vx: "valid_ix x" by (rule idx_repD[OF I(1)])
  have cp: "cell x pc = Some a" using chain_ptr_le(2)[OF inv _ spl] by (simp add: pc_def)
  have aP: "int a \<le> PTR_MAX" by (rule cell_le[OF vx cp])
  have nx: "int (nxt r) \<le> PTR_MAX" using rd(5) by (simp add: valid_irec_def)
  define x1 where "x1 = put_cell x pc (nxt r)"
  have c1: "cell x1 = (cell x)(pc \<mapsto> nxt r)" unfolding x1_def by (rule cell_put_cell[OF cp])
  have b1: "body x1 = ?b" by (simp add: x1_def body_put_cell)
  have dist: "distinct (pre @ a # post)" using chainsD(3)[OF I(5), of 0] spl by simp
  have a7: "a \<noteq> 7 * i" if "i \<le> ?n" for i using chainsD(8)[OF I(5) _ that, of 0 a] spl by simp
  have pc_in: "pc \<in> set (0 # pre)" unfolding pc_def by (rule last_in_set) simp
  have apc: "a \<noteq> pc" using pc_in dist a7[of 0] by auto
  have pc7: "pc \<noteq> 7 * Suc h"
  proof (cases "pc = 0")
    case False
    then have "pc \<in> set (cs ! 0)" using pc_in spl by auto
    then show ?thesis using chainsD(8)[OF I(5) _ _ , of 0 "Suc h" pc] h(1) by simp
  qed simp
  have rep1: "idx_rep db2 x1"
    using valid_put_cell[OF vx nx, of pc] idx_repD(3)[OF I(1)] S(1,2) by (simp add: idx_rep_def x1_def pc_def)
  obtain r1 where r1: "irec_of x1 a = Some r1" "ikey r1 = ikey r" "idoff r1 = idoff r" "idlen r1 = idlen r"
    using b1 rd(4) by (auto simp: body_def fun_eq_iff split: option.splits dest!: spec[of _ a])
  define db3 where "db3 = db2\<lparr>datlen := length data + 1,
    datf := (datf db2)\<lparr>bytes := ?d2, pos := idoff r + length data + 1\<rparr>\<rparr>"
  have off2: "datoff db2 = int (idoff r)" using ld by (simp add: loaded_def)
  have s3: "db_writedat db2 data (datoff db2) SEEK_SET = Inr db3"
    using writedat_over[OF off2 _ _ refl, of data] rd(1) r(3) I(8) S(3,4) by (simp add: db3_def)
  have rep3: "idx_rep db3 x1" using rep1 by (simp add: idx_rep_def db3_def)
  have d3: "datoff db3 = int (idoff r)" "datlen db3 = length data + 1" "idxoff db3 = int a"
    using ld by (simp_all add: db3_def loaded_def)
  let ?r = "mk_irec db3 p key"
  have ls: "length (enc_body ?r) = length (enc_body r)" using d3 r by (simp add: enc_body_def)
  have rs: "rsize ?r = rsize r1" using ls r1 by (simp add: rsize_def enc_body_def)
  have vr: "valid_irec ?r"
    using rd(5) k cell_le[OF vx p] ls r(3) d3 unfolding valid_irec_def by (simp add: key_ok_def)
  define x2 where "x2 = put_rec x1 a ?r"
  define db4 where "db4 = db3\<lparr>ptrval := int p, idxbuf := enc_body ?r, idxoff := int a,
    idxf := (idxf db3)\<lparr>bytes := enc_ix x2, pos := a + rsize r1\<rparr>\<rparr>"
  have s4: "db_writeidx db3 key (idxoff db3) SEEK_SET (int p) = Inr db4"
    unfolding d3(3) db4_def x2_def by (rule writeidx_rec[OF rep3 r1(1) _ vr rs]) (simp add: d3)
  have rep4: "idx_rep db4 x2"
    using valid_put_rec[OF idx_repD(1)[OF rep3] vr] idx_repD(3)[OF rep3] xlen_put_rec[OF r1(1) rs]
    by (simp add: idx_rep_def db4_def x2_def)
  have c2: "cell x2 = (cell x)(pc \<mapsto> nxt r, a \<mapsto> p)"
    unfolding x2_def using cell_put_rec[OF r1(1) rs] c1 by simp
  have c2h: "cell x2 (7 * Suc h) = Some p" using c2 p a7[of "Suc h"] pc7 h(1) by auto
  define x3 where "x3 = put_cell x2 (7 * Suc h) a"
  define db5 where "db5 = db4\<lparr>idxf := (idxf db4)\<lparr>bytes := enc_ix x3, pos := 7 * Suc h + 7\<rparr>\<rparr>"
  have co4: "chainoff db4 = int (7 * Suc h)" "idxoff db4 = int a" using co S(7) by (simp_all add: db4_def db3_def)
  have s5: "db_writeptr db4 (chainoff db4) (idxoff db4) = Inr db5"
    unfolding co4 db5_def x3_def by (rule writeptr_cell[OF rep4 c2h aP])
  have "cell x3 = (cell x)(pc \<mapsto> nxt r, a \<mapsto> p, 7 * Suc h \<mapsto> a)"
    unfolding x3_def using cell_put_cell[OF c2h, of a] c2 by simp
  also have "\<dots> = (cell x)(a := cell x (7 * Suc h), 7 * Suc h := Some a, last (7 * 0 # pre) := cell x a)"
    using p cell_rec[OF r(1)] apc pc7 a7[of "Suc h"] a7[of 0] h(1) unfolding pc_def by (auto simp: fun_eq_iff)
  finally have c3: "cell x3 = \<dots>" .
  have b3: "body x3 = ?b(a \<mapsto> (key, idoff r, length data + 1))"
    using body_put_rec[OF r1(1) rs] by (simp add: x3_def body_put_cell x2_def b1 d3)
  let ?cs = "cs[Suc h := a # cs ! Suc h, 0 := pre @ post]"
  have ck: "chains_ok ?n (cell x3) (body x3) ?cs"
    unfolding c3 b3 using h(1) rd(3) by (intro move_chains[OF I(5) _ _ _ spl]) auto
  have kk: "keys_ok ?n (body x3) ?cs" unfolding b3 by (rule reuse_keys_ok[OF I(5,6) h fresh spl])
  have ba: "?b a = Some (ikey r, idoff r, length data + 1)" using rd(4) r(3) by simp
  note da = data_over[OF I(7) ba ns]
  have d5: "bytes (datf db5) = ?d2" "room (datf db5) = room (datf db)" "nhash db5 = nhash db" "hashoff db5 = hashoff db"
    using S by (simp_all add: db5_def db4_def db3_def)
  have rep5: "idx_rep db5 x3"
    using valid_put_cell[OF idx_repD(1)[OF rep4] aP] idx_repD(3)[OF rep4] by (simp add: idx_rep_def db5_def x3_def)
  have hl: "length (hdr x3) = length (hdr x)" by (simp add: x3_def x2_def x1_def)
  have inv5: "db_inv db5 x3 ?cs"
    unfolding db_inv_def d5 hl using rep5 ck kk da(1)[where k' = key] I(2-4,8,9) da(2) by (simp add: b3)
  have lv: "set (live ?cs) = insert a (set (live cs))" by (rule live_move_bucket[OF I(5) h(1) spl])
  have an: "a \<notin> set (live cs)" using chains_live(2)[OF I(5)] spl by auto
  have am: "amap (body x3) ?cs (bytes (datf db5)) = (amap ?b cs ?d)(key \<mapsto> data)"
  proof (rule amap_put[OF _ _ lv])
    show "inj_on (bkey ?b) (set (live cs))" "inj_on (bkey (body x3)) (set (live ?cs))"
      using I(6) kk by (simp_all add: keys_ok_def)
    show "bkey (body x3) a = key" by (simp add: b3 bkey_def)
    show "bval (body x3) (bytes (datf db5)) a = data" unfolding b3 d5 by (rule da(3))
    show "bkey (body x3) z = bkey ?b z \<and> bval (body x3) (bytes (datf db5)) z = bval ?b ?d z"
      if "z \<in> set (live cs)" "z \<noteq> a" for z
    proof
      show "bkey (body x3) z = bkey ?b z" using that(2) by (simp add: b3 bkey_def)
      show "bval (body x3) (bytes (datf db5)) z = bval ?b ?d z"
        unfolding b3 d5 using that chains_live(1)[OF I(5)] by (intro da(4)) auto
    qed
    show "bkey ?b a = key" if "a \<in> set (live cs)" using that an by blast
  qed
  have "xlen x3 = xlen x" using xlen_put_rec[OF r1(1) rs] by (simp add: x3_def x2_def x1_def)
  then have li: "length (bytes (idxf db5)) = length (bytes (idxf db))"
    using idx_repD(2)[OF rep5] length_enc_ix[OF idx_repD(1)[OF rep5]] idx_repD(2)[OF I(1)] length_enc_ix[OF vx] by simp
  show thesis
  proof (rule that[OF s3 s4 s5 inv5 am _ _ li])
    show "locks db5 = locks db" "chainoff db5 = chainoff db" "room (idxf db5) = room (idxf db)"
      "room (datf db5) = room (datf db)" using S by (simp_all add: db5_def db4_def db3_def)
    show "length (bytes (datf db5)) = length ?d" unfolding d5 by (rule da(2))
  qed
qed

section \<open>The branches of \<open>db_store\<close>\<close>

lemma store_new_inv:
  assumes inv: "db_inv db x cs" and h: "h < nhash db" "khash (nhash db) key = h" and co: "chainoff db = int (7 * Suc h)"
    and fresh: "\<And>z. z \<in> set (live cs) \<Longrightarrow> bkey (body x) z \<noteq> key" and k: "key_ok key" and dv: "data_valid data"
    and space: "fits db key data \<or> reusable x cs key data"
    and lk0: "\<forall>w. (IdxFd, 0, 1, w) \<notin> set (locks db)" and lk: "\<forall>fd off w. (fd, off, 0, w) \<notin> set (locks db)"
  obtains db' x' cs' where "db_store_new db key data = Inr db'" "db_inv db' x' cs'"
    "amap (body x') cs' (bytes (datf db')) = (amap (body x) cs (bytes (datf db)))(key \<mapsto> data)"
    "locks db' = locks db" "chainoff db' = chainoff db"
    "length (bytes (idxf db')) = length (bytes (idxf db)) + (if reusable x cs key data then 0 else 11 + ixlen db key data)"
    "length (bytes (datf db')) = length (bytes (datf db)) + (if reusable x cs key data then 0 else length data + 1)"
    "room (idxf db') = room (idxf db)" "room (datf db') = room (datf db)"
proof -
  have h': "Suc h \<le> nhash db" using h by simp
  obtain p where p: "cell x (7 * Suc h) = Some p" using cell_hdr_inv[OF inv h'] by blast
  define db1 where "db1 = db\<lparr>idxf := (idxf db)\<lparr>pos := 7 * Suc h + 7\<rparr>\<rparr>"
  have rd: "db_readptr db (chainoff db) = Inr (int p, db1)"
    unfolding co db1_def by (rule readptr_cell[OF db_invD(1)[OF inv] p])
  have st1: "core_of db1 = core_of db" by (simp add: db1_def)
  note S1 = core_ofD[OF st1]
  have inv1: "db_inv db1 x cs" using db_inv_core[OF st1] inv by simp
  have lk1: "\<forall>w. (IdxFd, 0, 1, w) \<notin> set (locks db1)" using lk0 S1 by simp
  have ns: "NUL \<notin> set data" using dv by (simp add: data_valid_def)
  show thesis
  proof (cases "reusable x cs key data")
    case True
    then have "\<exists>a \<in> set (cs ! 0). fmatch x (length key) (length data + 1) a" by (simp add: reusable_def)
    then obtain pre a post where spl: "cs ! 0 = pre @ a # post" "fmatch x (length key) (length data + 1) a"
      "\<forall>b \<in> set pre. \<not> fmatch x (length key) (length data + 1) b"
      using split_list_first_prop[of "cs ! 0" "fmatch x (length key) (length data + 1)"] by blast
    obtain db2 r where f: "db_findfree db1 (length key) (length data + 1) = Inr (0, db2)" "irec_of x a = Some r"
      "loaded db2 a r"
      "core_of db2 = core_of (db1\<lparr>idxf := (idxf db1)\<lparr>bytes := enc_ix (put_cell x (last (0 # pre)) (nxt r))\<rparr>\<rparr>)"
      by (rule findfree_found[OF inv1 lk1 spl(1,3,2)])
    have m: "length (ikey r) = length key" "idlen r = length data + 1" using spl(2) fmatch_rec[OF f(2)] by simp_all
    have st2: "core_of db2 = core_of (db\<lparr>idxf := (idxf db)\<lparr>bytes := enc_ix (put_cell x (last (0 # pre)) (nxt r))\<rparr>\<rparr>)"
      using f(4) core_of_idx_bytes[OF st1] by simp
    obtain db3 db4 db5 x' cs' where w: "db_writedat db2 data (datoff db2) SEEK_SET = Inr db3"
      "db_writeidx db3 key (idxoff db3) SEEK_SET (int p) = Inr db4"
      "db_writeptr db4 (chainoff db4) (idxoff db4) = Inr db5" "db_inv db5 x' cs'"
      "amap (body x') cs' (bytes (datf db5)) = (amap (body x) cs (bytes (datf db)))(key \<mapsto> data)"
      "locks db5 = locks db" "chainoff db5 = chainoff db"
      "length (bytes (idxf db5)) = length (bytes (idxf db))"
      "length (bytes (datf db5)) = length (bytes (datf db))"
      "room (idxf db5) = room (idxf db)" "room (datf db5) = room (datf db)"
      by (rule reuse_inv[OF inv h co fresh k ns p spl(1) f(2) m f(3) st2])
    have run: "db_store_new db key data = Inr (db5\<lparr>cnt_stor2 := cnt_stor2 db5 + 1\<rparr>)"
      using f(1) w(1-3) by (simp add: db_store_new_def rd)
    show thesis by (rule that[OF run]) (use True w in \<open>simp_all add: db_inv_other\<close>)
  next
    case False
    then have "\<forall>b \<in> set (cs ! 0). \<not> fmatch x (length key) (length data + 1) b" by (simp add: reusable_def)
    then obtain db2 where f: "db_findfree db1 (length key) (length data + 1) = Inr (-1, db2)" "core_of db2 = core_of db1"
      by (rule findfree_none[OF inv1 lk1])
    have st2: "core_of db2 = core_of db" using f(2) st1 by simp
    note S2 = core_ofD[OF st2]
    have inv2: "db_inv db2 x cs" using db_inv_core[OF st2] inv by simp
    have ft: "fits db2 key data" using space False S2 by (simp add: fits_def ixlen_def)
    have h2: "h < nhash db2" "khash (nhash db2) key = h" "chainoff db2 = int (7 * Suc h)" using h co S2 by simp_all
    have lk2: "\<forall>fd off w. (fd, off, 0, w) \<notin> set (locks db2)" using lk S2 by simp
    obtain db3 db4 db5 x' cs' where w: "db_writedat db2 data 0 SEEK_END = Inr db3"
      "db_writeidx db3 key 0 SEEK_END (int p) = Inr db4"
      "db_writeptr db4 (chainoff db4) (idxoff db4) = Inr db5" "db_inv db5 x' cs'"
      "amap (body x') cs' (bytes (datf db5)) = (amap (body x) cs (bytes (datf db2)))(key \<mapsto> data)"
      "locks db5 = locks db2" "chainoff db5 = chainoff db2"
      "length (bytes (idxf db5)) = length (bytes (idxf db2)) + 11 + ixlen db2 key data"
      "length (bytes (datf db5)) = length (bytes (datf db2)) + length data + 1"
      "room (idxf db5) = room (idxf db2)" "room (datf db5) = room (datf db2)"
      by (rule append_inv[OF inv2 h2 fresh k dv ft p lk2])
    have run: "db_store_new db key data = Inr (db5\<lparr>cnt_stor1 := cnt_stor1 db5 + 1\<rparr>)"
      using f(1) w(1-3) by (simp add: db_store_new_def rd)
    show thesis by (rule that[OF run]) (use False w S2 in \<open>simp_all add: db_inv_other ixlen_def\<close>)
  qed
qed

lemma store_over_same:
  assumes inv: "db_inv db x cs" and spl: "a \<in> set (live cs)" and r: "irec_of x a = Some r" and ld: "loaded db a r"
    and ns: "NUL \<notin> set data" and len: "length data + 1 = idlen r"
  obtains db' where "db_store_over db key data = Inr db'" "db_inv db' x cs"
    "amap (body x) cs (bytes (datf db')) = (amap (body x) cs (bytes (datf db)))(ikey r \<mapsto> data)"
    "locks db' = locks db" "chainoff db' = chainoff db" "bytes (idxf db') = bytes (idxf db)"
    "length (bytes (datf db')) = length (bytes (datf db))"
    "room (idxf db') = room (idxf db)" "room (datf db') = room (datf db)"
proof -
  let ?b = "body x" and ?d = "bytes (datf db)"
  let ?d2 = "splice (idoff r) (data @ [NL]) ?d"
  note I = db_invD[OF inv] and rd = rec_data[OF inv r]
  have off: "datoff db = int (idoff r)" "datlen db = idlen r" using ld by (simp_all add: loaded_def)
  define db1 where "db1 = db\<lparr>datlen := length data + 1,
      datf := (datf db)\<lparr>bytes := ?d2, pos := idoff r + length data + 1\<rparr>\<rparr>"
  have w: "db_writedat db data (datoff db) SEEK_SET = Inr db1"
    using writedat_over[OF off(1) _ I(8) refl, of data] rd(1) len by (simp add: db1_def)
  have run: "db_store_over db key data = Inr (db1\<lparr>cnt_stor4 := cnt_stor4 db1 + 1\<rparr>)"
    using w len off by (simp add: db_store_over_def)
  have ba: "?b a = Some (ikey r, idoff r, length data + 1)" using rd(4) len by simp
  have bsame: "?b(a := Some (ikey r, idoff r, length data + 1)) = ?b" using ba by auto
  note da = data_over(1,3,4)[OF I(7) ba ns, where k' = "ikey r", unfolded bsame] and dl = data_over(2)[OF I(7) ba ns]
  have rep1: "idx_rep db1 x" using I(1) by (simp add: idx_rep_def db1_def)
  have inv1: "db_inv db1 x cs"
    using rep1 I(2-6,8,9) da(1) dl by (simp add: db_inv_def) (simp add: db1_def)
  have inj: "inj_on (bkey ?b) (set (live cs))" using I(6) by (simp add: keys_ok_def)
  have am: "amap ?b cs ?d2 = (amap ?b cs ?d)(ikey r \<mapsto> data)"
  proof (rule amap_put[OF inj inj])
    show "bkey ?b a = ikey r" by (rule bkey_irec[OF r])
    show "bval ?b ?d2 a = data" by (rule da(2))
    show "bkey ?b z = bkey ?b z \<and> bval ?b ?d2 z = bval ?b ?d z" if "z \<in> set (live cs)" "z \<noteq> a" for z
      using that chains_live(1)[OF I(5)] da(3)[of z] by auto
  qed (use spl in \<open>auto simp: bkey_irec[OF r]\<close>)
  show thesis
    by (rule that[OF run]) (use inv1 am dl in \<open>simp_all add: db_inv_other db1_def\<close>)
qed

lemma store_over_diff:
  assumes inv: "db_inv db x cs" and h: "h < nhash db" "khash (nhash db) key = h" and co: "chainoff db = int (7 * Suc h)"
    and spl: "cs ! Suc h = pre @ a # post" and r: "irec_of x a = Some r" "ikey r = key" and ld: "loaded db a r"
    and po: "ptroff db = int (last (7 * Suc h # pre))" and len: "length data + 1 \<noteq> idlen r"
    and k: "key_ok key" and dv: "data_valid data" and space: "fits db key data"
    and lk0: "\<forall>w. (IdxFd, 0, 1, w) \<notin> set (locks db)" and lk: "\<forall>fd off w. (fd, off, 0, w) \<notin> set (locks db)"
  obtains db' x' cs' where "db_store_over db key data = Inr db'" "db_inv db' x' cs'"
    "amap (body x') cs' (bytes (datf db')) = (amap (body x) cs (bytes (datf db)))(key \<mapsto> data)"
    "locks db' = locks db" "chainoff db' = chainoff db"
    "length (bytes (idxf db')) = length (bytes (idxf db)) + 11 + ixlen db key data"
    "length (bytes (datf db')) = length (bytes (datf db)) + length data + 1"
    "room (idxf db') = room (idxf db)" "room (datf db') = room (datf db)"
proof -
  obtain db1 x1 cs1 where d: "db_dodelete db = Inr db1" "db_inv db1 x1 cs1"
    "amap (body x1) cs1 (bytes (datf db1)) = (amap (body x) cs (bytes (datf db)))(ikey r := None)"
    "locks db1 = locks db" "chainoff db1 = chainoff db" "nhash db1 = nhash db" "xlen x1 = xlen x"
    "length (bytes (datf db1)) = length (bytes (datf db))" "room (idxf db1) = room (idxf db)"
    "room (datf db1) = room (datf db)"
    by (rule dodelete_inv[OF inv h(1) spl r(1) ld po lk0])
  have li: "length (bytes (idxf db1)) = length (bytes (idxf db))"
    using d(7) idx_length[OF inv] idx_length[OF d(2)] by simp
  obtain p where p: "cell x1 (7 * Suc h) = Some p" using cell_hdr_inv[OF d(2), of "Suc h"] h(1) d(6) by auto
  define db2 where "db2 = db1\<lparr>idxf := (idxf db1)\<lparr>pos := 7 * Suc h + 7\<rparr>\<rparr>"
  have rd: "db_readptr db1 (chainoff db1) = Inr (int p, db2)"
    unfolding d(5) co db2_def by (rule readptr_cell[OF db_invD(1)[OF d(2)] p])
  have st2: "core_of db2 = core_of db1" by (simp add: db2_def)
  note S2 = core_ofD[OF st2]
  have inv2: "db_inv db2 x1 cs1" using db_inv_core[OF st2] d(2) by simp
  have h2: "h < nhash db2" "khash (nhash db2) key = h" "chainoff db2 = int (7 * Suc h)" using h co d S2 by simp_all
  have "amap (body x1) cs1 (bytes (datf db1)) key = None" using d(3) r(2) by simp
  then have fresh: "\<And>z. z \<in> set (live cs1) \<Longrightarrow> bkey (body x1) z \<noteq> key" using amap_None by blast
  have ft: "fits db2 key data" using space S2 d li by (simp add: fits_def ixlen_def)
  have lk2: "\<forall>fd off w. (fd, off, 0, w) \<notin> set (locks db2)" using lk S2 d(4) by simp
  obtain db3 db4 db5 x' cs' where w: "db_writedat db2 data 0 SEEK_END = Inr db3"
    "db_writeidx db3 key 0 SEEK_END (int p) = Inr db4"
    "db_writeptr db4 (chainoff db4) (idxoff db4) = Inr db5" "db_inv db5 x' cs'"
    "amap (body x') cs' (bytes (datf db5)) = (amap (body x1) cs1 (bytes (datf db2)))(key \<mapsto> data)"
    "locks db5 = locks db2" "chainoff db5 = chainoff db2"
    "length (bytes (idxf db5)) = length (bytes (idxf db2)) + 11 + ixlen db2 key data"
    "length (bytes (datf db5)) = length (bytes (datf db2)) + length data + 1"
    "room (idxf db5) = room (idxf db2)" "room (datf db5) = room (datf db2)"
    by (rule append_inv[OF inv2 h2 fresh k dv ft p lk2])
  have dl: "datlen db = idlen r" using ld by (simp add: loaded_def)
  have run: "db_store_over db key data = Inr (db5\<lparr>cnt_stor3 := cnt_stor3 db5 + 1\<rparr>)"
    using d(1) w(1-3) len dl by (simp add: db_store_over_def rd)
  have am: "amap (body x') cs' (bytes (datf db5)) = (amap (body x) cs (bytes (datf db)))(key \<mapsto> data)"
    using w(5) d(3) S2 r(2) by (simp add: fun_upd_upd)
  show thesis by (rule that[OF run]) (use w am S2 d li in \<open>simp_all add: db_inv_other ixlen_def\<close>)
qed

end
