(* ===== verification/DbApi.thy ===== *)
theory DbApi
  imports DbStore
begin

text \<open>
  What \<open>db_fetch\<close>, \<open>db_store\<close> and \<open>db_delete\<close> do to the map from keys to data that the two files hold,
  and the contract of a keyed store that the three operations implement (locale \<open>map_store\<close>).
\<close>

section \<open>A handle between two calls\<close>

definition db_ok :: "db \<Rightarrow> (string \<rightharpoonup> string) \<Rightarrow> bool" where
  \<comment> \<open>the files hold this map and the library holds no lock\<close>
  "db_ok db m \<longleftrightarrow> db_rep db m \<and> locks db = []"

definition same_files :: "db \<Rightarrow> db \<Rightarrow> bool" where
  "same_files db db' \<longleftrightarrow> bytes (idxf db') = bytes (idxf db) \<and> bytes (datf db') = bytes (datf db)
     \<and> room (idxf db') = room (idxf db) \<and> room (datf db') = room (datf db)"

lemma db_okE:
  assumes "db_ok db m"
  obtains x cs where "db_inv db x cs" "m = amap (body x) cs (bytes (datf db))" "locks db = []"
  using assms by (auto simp: db_ok_def db_rep_def)

lemma db_okI: "db_inv db x cs \<Longrightarrow> amap (body x) cs (bytes (datf db)) = m \<Longrightarrow> locks db = [] \<Longrightarrow> db_ok db m"
  unfolding db_ok_def db_rep_def by blast

lemma un_lock_chain:
  "locks db = [(IdxFd, c, 1, w)] \<Longrightarrow> chainoff db = c \<Longrightarrow> locks (un_lock db IdxFd (chainoff db) 1) = []"
  by (simp add: un_lock_def)

lemma db_inv_un_lock [simp]: "db_inv (un_lock db fd c l) x cs = db_inv db x cs"
  by (simp add: un_lock_def db_inv_other)

lemma un_lock_sel [simp]:
  "idxf (un_lock db fd c l) = idxf db" "datf (un_lock db fd c l) = datf db"
  "chainoff (un_lock db fd c l) = chainoff db"
  by (simp_all add: un_lock_def)

lemma lock_chain_core:
  assumes "core_of db' = core_of (lock_chain db c w)" "locks db = []"
  shows "locks db' = [(IdxFd, int c, 1, w)]" "chainoff db' = int c" "same_files db db'" "nhash db' = nhash db"
    "hashoff db' = hashoff db" "db_inv db' x cs = db_inv db x cs"
  using core_ofD[OF assms(1)] db_inv_core[OF assms(1)] assms(2)
  by (simp_all add: lock_chain_def same_files_def db_inv_other)

section \<open>Fetch\<close>

lemma fetch_run:
  assumes "db_ok db m"
  obtains db' where "db_fetch db key = Inr (m key, db')" "db_ok db' m" "same_files db db'"
proof -
  obtain x cs where inv: "db_inv db x cs" and m: "m = amap (body x) cs (bytes (datf db))" and lk: "locks db = []"
    using assms by (rule db_okE)
  let ?c = "7 * Suc (khash (nhash db) key)"
  show thesis
  proof (cases "m key")
    case None
    obtain db1 where f: "db_find_and_lock db key False = Inr (-1, db1)" "core_of db1 = core_of (lock_chain db ?c False)"
      by (rule find_and_lock_none[OF inv None[unfolded m]])
    note L = lock_chain_core[OF f(2) lk]
    define db2 where "db2 = db1\<lparr>cnt_fetcherr := cnt_fetcherr db1 + 1\<rparr>"
    have run: "db_fetch db key = Inr (m key, un_lock db2 IdxFd (chainoff db2) 1)"
      using None by (simp add: db_fetch_def f(1) db2_def)
    have sf: "same_files db db2" using L(3) by (simp add: db2_def same_files_def)
    have "db_ok (un_lock db2 IdxFd (chainoff db2) 1) m"
      using inv L sf m by (intro db_okI[of _ x cs] un_lock_chain) (auto simp: db2_def db_inv_other same_files_def)
    then show thesis using sf by (intro that[OF run]) (simp_all add: same_files_def)
  next
    case (Some v)
    obtain db1 pre a post r where f: "db_find_and_lock db key False = Inr (0, db1)"
      "core_of db1 = core_of (lock_chain db ?c False)"
      "cs ! Suc (khash (nhash db) key) = pre @ a # post" "irec_of x a = Some r" "ikey r = key"
      "loaded db1 a r" "ptroff db1 = int (last (?c # pre))"
      "v = bval (body x) (bytes (datf db)) a" "a \<in> set (live cs)"
      by (rule find_and_lock_found[OF inv Some[unfolded m]])
    note L = lock_chain_core[OF f(2) lk] and rd = rec_data[OF inv f(4)]
    define db2 where "db2 = db1\<lparr>datf := (datf db1)\<lparr>pos := idoff r + length v + 1\<rparr>, datbuf := v\<rparr>"
    have g: "db_readdat db1 = Inr (v, db2)"
      unfolding db2_def using f(6,8) rd L(3)
      by (intro readdat_rec) (auto simp: loaded_def same_files_def)
    define db3 where "db3 = db2\<lparr>cnt_fetchok := cnt_fetchok db2 + 1\<rparr>"
    have run: "db_fetch db key = Inr (m key, un_lock db3 IdxFd (chainoff db3) 1)"
      using Some by (simp add: db_fetch_def f(1) g db3_def)
    have "core_of db2 = core_of db1" by (simp add: db2_def)
    from db_inv_core[OF this, of x cs] have inv3: "db_inv db3 x cs" using inv L(6)[of x cs] by (simp add: db3_def db_inv_other)
    have sf: "same_files db db3" using L(3) by (simp add: db3_def db2_def same_files_def)
    have lk3: "locks db3 = [(IdxFd, int ?c, 1, False)]" "chainoff db3 = int ?c"
      using L(1,2) by (simp_all add: db3_def db2_def)
    have "db_ok (un_lock db3 IdxFd (chainoff db3) 1) m"
      using inv3 sf m lk3 by (intro db_okI[of _ x cs] un_lock_chain) (auto simp: same_files_def)
    then show thesis using sf by (intro that[OF run]) (simp_all add: same_files_def)
  qed
qed

section \<open>Delete\<close>

definition same_room :: "db \<Rightarrow> db \<Rightarrow> bool" where
  \<comment> \<open>neither file has grown, and the device limits are the same\<close>
  "same_room db db' \<longleftrightarrow> length (bytes (idxf db')) = length (bytes (idxf db))
     \<and> length (bytes (datf db')) = length (bytes (datf db))
     \<and> room (idxf db') = room (idxf db) \<and> room (datf db') = room (datf db)"

lemma same_files_room: "same_files db db' \<Longrightarrow> same_room db db'"
  by (simp add: same_files_def same_room_def)

lemma same_room_trans: "same_room a b \<Longrightarrow> same_room b c \<Longrightarrow> same_room a c"
  by (simp add: same_room_def)

lemma delete_run_none:
  assumes "db_ok db m" "m key = None"
  obtains db' where "db_delete db key = Inr (-1, db')" "db_ok db' m" "same_files db db'"
proof -
  obtain x cs where inv: "db_inv db x cs" and m: "m = amap (body x) cs (bytes (datf db))" and lk: "locks db = []"
    using assms(1) by (rule db_okE)
  let ?c = "7 * Suc (khash (nhash db) key)"
  obtain db1 where f: "db_find_and_lock db key True = Inr (-1, db1)" "core_of db1 = core_of (lock_chain db ?c True)"
    by (rule find_and_lock_none[OF inv assms(2)[unfolded m]])
  note L = lock_chain_core[OF f(2) lk]
  define db2 where "db2 = db1\<lparr>cnt_delerr := cnt_delerr db1 + 1\<rparr>"
  have run: "db_delete db key = Inr (-1, un_lock db2 IdxFd (chainoff db2) 1)"
    by (simp add: db_delete_def f(1) db2_def)
  have sf: "same_files db db2" using L(3) by (simp add: db2_def same_files_def)
  have "db_ok (un_lock db2 IdxFd (chainoff db2) 1) m"
    using inv L sf m by (intro db_okI[of _ x cs] un_lock_chain) (auto simp: db2_def db_inv_other same_files_def)
  then show thesis using sf by (intro that[OF run]) (simp_all add: same_files_def)
qed

lemma delete_run_some:
  assumes "db_ok db m" "m key = Some v"
  obtains db' x' cs' where "db_delete db key = Inr (0, db')" "db_ok db' (m(key := None))" "same_room db db'"
    "db_inv db' x' cs'" "amap (body x') cs' (bytes (datf db')) = m(key := None)"
    "\<And>k d. length k = length key \<Longrightarrow> length d = length v \<Longrightarrow> reusable x' cs' k d"
proof -
  obtain x cs where inv: "db_inv db x cs" and m: "m = amap (body x) cs (bytes (datf db))" and lk: "locks db = []"
    using assms(1) by (rule db_okE)
  let ?h = "khash (nhash db) key"
  have h: "?h < nhash db" using db_invD(3)[OF inv] by (simp add: khash_def)
  obtain db1 pre a post r where f: "db_find_and_lock db key True = Inr (0, db1)"
    "core_of db1 = core_of (lock_chain db (7 * Suc ?h) True)"
    "cs ! Suc ?h = pre @ a # post" "irec_of x a = Some r" "ikey r = key"
    "loaded db1 a r" "ptroff db1 = int (last (7 * Suc ?h # pre))"
    "v = bval (body x) (bytes (datf db)) a" "a \<in> set (live cs)"
    by (rule find_and_lock_found[OF inv assms(2)[unfolded m]])
  note L = lock_chain_core[OF f(2) lk] and rd = rec_data[OF inv f(4)]
  have inv1: "db_inv db1 x cs" using inv L(6) by simp
  have h1: "?h < nhash db1" using h L(4) by simp
  have l0: "\<forall>w. (IdxFd, 0, 1, w) \<notin> set (locks db1)" using L(1) by simp
  obtain db2 x' cs' where d: "db_dodelete db1 = Inr db2" "db_inv db2 x' cs'"
    "amap (body x') cs' (bytes (datf db2)) = (amap (body x) cs (bytes (datf db1)))(ikey r := None)"
    "locks db2 = locks db1" "chainoff db2 = chainoff db1" "nhash db2 = nhash db1" "xlen x' = xlen x"
    "length (bytes (datf db2)) = length (bytes (datf db1))" "room (idxf db2) = room (idxf db1)"
    "room (datf db2) = room (datf db1)"
    "\<And>key data. length key = length (ikey r) \<Longrightarrow> length data + 1 = idlen r \<Longrightarrow> reusable x' cs' key data"
    by (rule dodelete_inv[OF inv1 h1 f(3,4,6,7) l0]) blast
  define db3 where "db3 = db2\<lparr>cnt_delok := cnt_delok db2 + 1\<rparr>"
  have run: "db_delete db key = Inr (0, un_lock db3 IdxFd (chainoff db3) 1)"
    by (simp add: db_delete_def f(1) d(1) db3_def)
  have inv3: "db_inv db3 x' cs'" using d(2) by (simp add: db3_def db_inv_other)
  have am: "amap (body x') cs' (bytes (datf db3)) = m(key := None)"
    using d(3) L(3) f(5) m by (simp add: db3_def same_files_def)
  have lk3: "locks db3 = [(IdxFd, int (7 * Suc ?h), 1, True)]" "chainoff db3 = int (7 * Suc ?h)"
    using L(1,2) d(4,5) by (simp_all add: db3_def)
  have sr: "same_room db db3"
    using L(3) d(7-10) idx_length[OF inv] idx_length[OF d(2)] by (simp add: same_room_def same_files_def db3_def)
  show thesis
  proof (rule that[OF run])
    show "db_ok (un_lock db3 IdxFd (chainoff db3) 1) (m(key := None))"
      using inv3 am lk3 by (intro db_okI[of _ x' cs'] un_lock_chain) auto
    show "reusable x' cs' k d" if "length k = length key" "length d = length v" for k d
      using that f(5,8) rd(7) by (intro d(11)) simp_all
  qed (use inv3 am sr in \<open>simp_all add: same_room_def\<close>)
qed

section \<open>Store\<close>

definition spec_store :: "(string \<rightharpoonup> string) \<Rightarrow> string \<Rightarrow> string \<Rightarrow> int \<Rightarrow> int \<times> (string \<rightharpoonup> string)" where
  \<comment> \<open>what \<open>db_store\<close> promises: its result and the map after it\<close>
  "spec_store m key data flag =
     (if flag \<noteq> DB_INSERT \<and> flag \<noteq> DB_REPLACE \<and> flag \<noteq> DB_STORE then (-1, m)
      else case m key of
        None \<Rightarrow> if flag = DB_REPLACE then (-1, m) else (0, m(key \<mapsto> data))
      | Some _ \<Rightarrow> if flag = DB_INSERT then (1, m) else (0, m(key \<mapsto> data)))"

definition grown :: "db \<Rightarrow> db \<Rightarrow> nat \<Rightarrow> nat \<Rightarrow> bool" where
  \<comment> \<open>the files have grown by at most so many bytes\<close>
  "grown db db' i d \<longleftrightarrow> length (bytes (idxf db')) \<le> length (bytes (idxf db)) + i
     \<and> length (bytes (datf db')) \<le> length (bytes (datf db)) + d
     \<and> room (idxf db') = room (idxf db) \<and> room (datf db') = room (datf db)"

lemma grown_refl [simp]: "same_files db db' \<Longrightarrow> grown db db' i d"
  by (simp add: same_files_def grown_def)

lemma store_finish:
  assumes inv: "db_inv db3 x cs" and am: "amap (body x) cs (bytes (datf db3)) = m"
    and lk: "locks db3 = [(IdxFd, c, 1, True)]" "chainoff db3 = c"
  shows "db_ok (un_lock db3 IdxFd (chainoff db3) 1) m"
  using assms by (intro db_okI[of _ x cs] un_lock_chain) auto

lemma store_absent:
  assumes inv: "db_inv db x cs" and m: "amap (body x) cs (bytes (datf db)) = m" and lk: "locks db = []"
    and none: "m key = None" and k: "key_ok key" and dv: "data_valid data" and fl: "flag = DB_INSERT \<or> flag = DB_STORE"
    and space: "fits db key data \<or> reusable x cs key data"
  obtains db' where "db_store db key data flag = Inr (0, db')" "db_ok db' (m(key \<mapsto> data))"
    "grown db db' (if reusable x cs key data then 0 else 11 + ixlen db key data)
       (if reusable x cs key data then 0 else length data + 1)"
proof -
  let ?h = "khash (nhash db) key"
  have h: "?h < nhash db" using db_invD(3)[OF inv] by (simp add: khash_def)
  obtain db1 where f: "db_find_and_lock db key True = Inr (-1, db1)"
    "core_of db1 = core_of (lock_chain db (7 * Suc ?h) True)"
    by (rule find_and_lock_none[OF inv]) (use none m in auto)
  note L = lock_chain_core[OF f(2) lk]
  note SF = L(3)[unfolded same_files_def]
  have inv1: "db_inv db1 x cs" using inv L(6) by simp
  have h1: "?h < nhash db1" "khash (nhash db1) key = ?h" using h L(4) by simp_all
  have fresh: "bkey (body x) z \<noteq> key" if "z \<in> set (live cs)" for z using none m that amap_None by blast
  have sp1: "fits db1 key data \<or> reusable x cs key data" using space SF by (simp add: fits_def ixlen_def)
  have l0: "\<forall>w. (IdxFd, 0, 1, w) \<notin> set (locks db1)" "\<forall>fd off w. (fd, off, 0, w) \<notin> set (locks db1)"
    using L(1) by simp_all
  obtain db2 x' cs' where s: "db_store_new db1 key data = Inr db2" "db_inv db2 x' cs'"
    "amap (body x') cs' (bytes (datf db2)) = (amap (body x) cs (bytes (datf db1)))(key \<mapsto> data)"
    "locks db2 = locks db1" "chainoff db2 = chainoff db1"
    "length (bytes (idxf db2)) = length (bytes (idxf db1)) + (if reusable x cs key data then 0 else 11 + ixlen db1 key data)"
    "length (bytes (datf db2)) = length (bytes (datf db1)) + (if reusable x cs key data then 0 else length data + 1)"
    "room (idxf db2) = room (idxf db1)" "room (datf db2) = room (datf db1)"
    by (rule store_new_inv[OF inv1 h1 L(2) fresh k dv sp1 l0])
  have run: "db_store db key data flag = Inr (0, un_lock db2 IdxFd (chainoff db2) 1)"
    using fl dv by (auto simp: db_store_def f(1) s(1) db_flags data_valid_def)
  have am: "amap (body x') cs' (bytes (datf db2)) = m(key \<mapsto> data)" using s(3) SF m by simp
  show thesis
  proof (rule that[OF run])
    show "db_ok (un_lock db2 IdxFd (chainoff db2) 1) (m(key \<mapsto> data))"
      using store_finish[OF s(2) am] s(4,5) L(1,2) by simp
  qed (use s(6-9) SF in \<open>simp add: grown_def ixlen_def\<close>)
qed

lemma store_present:
  assumes inv: "db_inv db x cs" and m: "amap (body x) cs (bytes (datf db)) = m" and lk: "locks db = []"
    and some: "m key = Some v" and k: "key_ok key" and dv: "data_valid data" and fl: "flag = DB_REPLACE \<or> flag = DB_STORE"
    and space: "length data \<noteq> length v \<longrightarrow> fits db key data"
  obtains db' where "db_store db key data flag = Inr (0, db')" "db_ok db' (m(key \<mapsto> data))"
    "grown db db' (if length data = length v then 0 else 11 + ixlen db key data)
       (if length data = length v then 0 else length data + 1)"
proof -
  let ?h = "khash (nhash db) key"
  have h: "?h < nhash db" using db_invD(3)[OF inv] by (simp add: khash_def)
  have some': "amap (body x) cs (bytes (datf db)) key = Some v" using some m by simp
  obtain db1 pre a post r where f: "db_find_and_lock db key True = Inr (0, db1)"
    "core_of db1 = core_of (lock_chain db (7 * Suc ?h) True)"
    "cs ! Suc ?h = pre @ a # post" "irec_of x a = Some r" "ikey r = key"
    "loaded db1 a r" "ptroff db1 = int (last (7 * Suc ?h # pre))"
    "v = bval (body x) (bytes (datf db)) a" "a \<in> set (live cs)"
    by (rule find_and_lock_found[OF inv some'])
  note L = lock_chain_core[OF f(2) lk] and rd = rec_data[OF inv f(4)]
  note SF = L(3)[unfolded same_files_def]
  have inv1: "db_inv db1 x cs" using inv L(6) by simp
  have h1: "?h < nhash db1" "khash (nhash db1) key = ?h" using h L(4) by simp_all
  have ns: "NUL \<notin> set data" using dv by (simp add: data_valid_def)
  have l0: "\<forall>w. (IdxFd, 0, 1, w) \<notin> set (locks db1)" "\<forall>fd off w. (fd, off, 0, w) \<notin> set (locks db1)"
    using L(1) by simp_all
  have lv: "length v + 1 = idlen r" using rd(7) f(8) by simp
  have run: "db_store db key data flag = Inr (0, un_lock db2 IdxFd (chainoff db2) 1)"
    if "db_store_over db1 key data = Inr db2" for db2
    using fl dv that by (auto simp: db_store_def f(1) db_flags data_valid_def)
  show thesis
  proof (cases "length data = length v")
    case True
    then have len: "length data + 1 = idlen r" using lv by simp
    obtain db2 where s: "db_store_over db1 key data = Inr db2" "db_inv db2 x cs"
      "amap (body x) cs (bytes (datf db2)) = (amap (body x) cs (bytes (datf db1)))(ikey r \<mapsto> data)"
      "locks db2 = locks db1" "chainoff db2 = chainoff db1" "bytes (idxf db2) = bytes (idxf db1)"
      "length (bytes (datf db2)) = length (bytes (datf db1))"
      "room (idxf db2) = room (idxf db1)" "room (datf db2) = room (datf db1)"
      by (rule store_over_same[OF inv1 f(9,4,6) ns len])
    have am: "amap (body x) cs (bytes (datf db2)) = m(key \<mapsto> data)" using s(3) SF m f(5) by simp
    show thesis
      by (rule that[OF run[OF s(1)]])
        (use store_finish[OF s(2) am] s(4-9) L(1,2) SF True in \<open>simp_all add: grown_def\<close>)
  next
    case False
    then have len: "length data + 1 \<noteq> idlen r" using lv by simp
    have ft: "fits db1 key data" using space False SF by (simp add: fits_def ixlen_def)
    obtain db2 x' cs' where s: "db_store_over db1 key data = Inr db2" "db_inv db2 x' cs'"
      "amap (body x') cs' (bytes (datf db2)) = (amap (body x) cs (bytes (datf db1)))(key \<mapsto> data)"
      "locks db2 = locks db1" "chainoff db2 = chainoff db1"
      "length (bytes (idxf db2)) = length (bytes (idxf db1)) + 11 + ixlen db1 key data"
      "length (bytes (datf db2)) = length (bytes (datf db1)) + length data + 1"
      "room (idxf db2) = room (idxf db1)" "room (datf db2) = room (datf db1)"
      by (rule store_over_diff[OF inv1 h1 L(2) f(3,4,5,6,7) len k dv ft l0])
    have am: "amap (body x') cs' (bytes (datf db2)) = m(key \<mapsto> data)" using s(3) SF m by simp
    show thesis
      by (rule that[OF run[OF s(1)]])
        (use store_finish[OF s(2) am] s(4-9) L(1,2) SF False in \<open>simp_all add: grown_def ixlen_def\<close>)
  qed
qed

lemma db_ok_err [simp]: "db_ok (db\<lparr>db_err := e\<rparr>) m = db_ok db m"
  by (simp add: db_ok_def db_rep_def db_inv_other)

lemma store_refused:
  assumes ok: "db_ok db m" and dv: "data_valid data"
    and fl: "flag = DB_REPLACE \<and> m key = None \<or> flag = DB_INSERT \<and> m key \<noteq> None"
  obtains db' where "db_store db key data flag = Inr (if flag = DB_REPLACE then -1 else 1, db')" "db_ok db' m"
    "same_files db db'" "flag = DB_REPLACE \<Longrightarrow> db_err db' = Some ENOENT"
proof -
  obtain x cs where inv: "db_inv db x cs" and m: "m = amap (body x) cs (bytes (datf db))" and lk: "locks db = []"
    using ok by (rule db_okE)
  let ?c = "7 * Suc (khash (nhash db) key)" and ?rep = "flag = DB_REPLACE"
  obtain db1 where f: "db_find_and_lock db key True = Inr (if ?rep then -1 else 0, db1)"
    "core_of db1 = core_of (lock_chain db ?c True)"
  proof (cases ?rep)
    case True
    then have n: "amap (body x) cs (bytes (datf db)) key = None" using fl m by (auto simp: db_flags)
    obtain db1 where "db_find_and_lock db key True = Inr (-1, db1)" "core_of db1 = core_of (lock_chain db ?c True)"
      by (rule find_and_lock_none[OF inv n])
    then show thesis using that True by simp
  next
    case False
    then obtain v where n: "amap (body x) cs (bytes (datf db)) key = Some v" using fl m by auto
    obtain db1 where "db_find_and_lock db key True = Inr (0, db1)" "core_of db1 = core_of (lock_chain db ?c True)"
      by (rule find_and_lock_found[OF inv n]) blast
    then show thesis using that False by simp
  qed
  note L = lock_chain_core[OF f(2) lk]
  note SF = L(3)[unfolded same_files_def]
  define db2 where "db2 = (if ?rep then db1\<lparr>cnt_storerr := cnt_storerr db1 + 1, db_err := Some ENOENT\<rparr>
    else db1\<lparr>cnt_storerr := cnt_storerr db1 + 1\<rparr>)"
  have inv2: "db_inv db2 x cs" using inv L(6) by (simp add: db2_def db_inv_other)
  have am: "amap (body x) cs (bytes (datf db2)) = m" using m SF by (simp add: db2_def)
  have l2: "locks db2 = [(IdxFd, int ?c, 1, True)]" "chainoff db2 = int ?c" using L(1,2) by (simp_all add: db2_def)
  have run: "db_store db key data flag = Inr (if ?rep then -1 else 1, un_lock db2 IdxFd (chainoff db2) 1)"
    using fl dv by (auto simp: db_store_def f(1) db_flags data_valid_def db2_def)
  show thesis
  proof (rule that[OF run store_finish[OF inv2 am l2]])
    show "same_files db (un_lock db2 IdxFd (chainoff db2) 1)" using SF by (simp add: same_files_def db2_def)
    show "db_err (un_lock db2 IdxFd (chainoff db2) 1) = Some ENOENT" if ?rep
      using that by (simp add: un_lock_def db2_def)
  qed
qed

lemma store_run:
  assumes ok: "db_ok db m" and k: "key_ok key" and dv: "data_valid data" and ft: "fits db key data"
  obtains db' where "db_store db key data flag = Inr (fst (spec_store m key data flag), db')"
    "db_ok db' (snd (spec_store m key data flag))" "grown db db' (11 + ixlen db key data) (length data + 1)"
proof -
  obtain x cs where inv: "db_inv db x cs" and m: "amap (body x) cs (bytes (datf db)) = m" and lk: "locks db = []"
    using ok by (auto elim: db_okE)
  have weaken: "grown db db' (if P then 0 else i) (if P then 0 else d) \<Longrightarrow> grown db db' i d" for db' P i d
    by (auto simp: grown_def split: if_splits)
  consider "flag \<notin> {DB_INSERT, DB_REPLACE, DB_STORE}"
    | "flag = DB_REPLACE \<and> m key = None \<or> flag = DB_INSERT \<and> m key \<noteq> None"
    | "flag = DB_INSERT \<or> flag = DB_STORE" "m key = None"
    | v where "flag = DB_REPLACE \<or> flag = DB_STORE" "m key = Some v"
    by fastforce
  then show thesis
  proof cases
    case 1
    have "db_store db key data flag = Inr (fst (spec_store m key data flag), db\<lparr>db_err := Some EINVAL\<rparr>)"
      using 1 by (simp add: db_store_def spec_store_def)
    then show thesis using 1 ok by (intro that[of "db\<lparr>db_err := Some EINVAL\<rparr>"]) (simp_all add: spec_store_def grown_def)
  next
    case 2
    obtain db' where "db_store db key data flag = Inr (if flag = DB_REPLACE then -1 else 1, db')" "db_ok db' m"
      "same_files db db'" by (rule store_refused[OF ok dv 2])
    then show thesis using 2 by (intro that[of db']) (auto simp: spec_store_def db_flags)
  next
    case 3
    have "fits db key data \<or> reusable x cs key data" using ft ..
    from store_absent[OF inv m lk 3(2) k dv 3(1) this] weaken obtain db' where
      "db_store db key data flag = Inr (0, db')" "db_ok db' (m(key \<mapsto> data))" "grown db db' (11 + ixlen db key data) (length data + 1)"
      by metis
    then show thesis using 3 by (intro that[of db']) (auto simp: spec_store_def db_flags)
  next
    case 4
    have "length data \<noteq> length v \<longrightarrow> fits db key data" using ft ..
    from store_present[OF inv m lk 4(2) k dv 4(1) this] weaken obtain db' where
      "db_store db key data flag = Inr (0, db')" "db_ok db' (m(key \<mapsto> data))" "grown db db' (11 + ixlen db key data) (length data + 1)"
      by metis
    then show thesis using 4 by (intro that[of db']) (auto simp: spec_store_def db_flags)
  qed
qed

section \<open>The contract of a keyed store\<close>

datatype ('k, 'v) store_op = OpFetch 'k | OpStore 'k 'v int | OpDelete 'k

datatype 'v store_res = RFetch "'v option" | RCode int

fun op_needs :: "('k, 'v) store_op \<Rightarrow> nat" where
  "op_needs (OpStore _ _ _) = 1"
| "op_needs _ = 0"

fun spec_op :: "((string \<rightharpoonup> string) \<Rightarrow> string \<Rightarrow> string \<Rightarrow> int \<Rightarrow> int \<times> (string \<rightharpoonup> string)) \<Rightarrow>
    (string \<rightharpoonup> string) \<Rightarrow> (string, string) store_op \<Rightarrow> string store_res \<times> (string \<rightharpoonup> string)" where
  "spec_op sp m (OpFetch k) = (RFetch (m k), m)"
| "spec_op sp m (OpStore k v f) = (RCode (fst (sp m k v f)), snd (sp m k v f))"
| "spec_op sp m (OpDelete k) = (RCode (if m k = None then -1 else 0), m(k := None))"

fun spec_ops :: "((string \<rightharpoonup> string) \<Rightarrow> string \<Rightarrow> string \<Rightarrow> int \<Rightarrow> int \<times> (string \<rightharpoonup> string)) \<Rightarrow>
    (string \<rightharpoonup> string) \<Rightarrow> (string, string) store_op list \<Rightarrow> string store_res list \<times> (string \<rightharpoonup> string)" where
  "spec_ops sp m [] = ([], m)"
| "spec_ops sp m (c # cs) = (let (r, m1) = spec_op sp m c; (rs, m2) = spec_ops sp m1 cs in (r # rs, m2))"

fun run_ops :: "('h \<Rightarrow> 'c \<Rightarrow> 'e + ('r \<times> 'h)) \<Rightarrow> 'h \<Rightarrow> 'c list \<Rightarrow> 'e + ('r list \<times> 'h)" where
  \<comment> \<open>a client that calls the operations one after another\<close>
  "run_ops stp h [] = Inr ([], h)"
| "run_ops stp h (c # cs) = bindE (stp h c) (\<lambda>(r, h1). bindE (run_ops stp h1 cs) (\<lambda>(rs, h2). Inr (r # rs, h2)))"

fun good_op :: "(string \<Rightarrow> string \<Rightarrow> bool) \<Rightarrow> (string, string) store_op \<Rightarrow> bool" where
  "good_op good (OpStore k v f) = good k v"
| "good_op good _ = True"

locale map_store =
  fixes rep :: "'h \<Rightarrow> (string \<rightharpoonup> string) \<Rightarrow> bool"
    and budget :: "'h \<Rightarrow> nat \<Rightarrow> bool"
    and good :: "string \<Rightarrow> string \<Rightarrow> bool"
    and sp :: "(string \<rightharpoonup> string) \<Rightarrow> string \<Rightarrow> string \<Rightarrow> int \<Rightarrow> int \<times> (string \<rightharpoonup> string)"
    and fetch :: "'h \<Rightarrow> string \<Rightarrow> 'e + (string option \<times> 'h)"
    and store :: "'h \<Rightarrow> string \<Rightarrow> string \<Rightarrow> int \<Rightarrow> 'e + (int \<times> 'h)"
    and del :: "'h \<Rightarrow> string \<Rightarrow> 'e + (int \<times> 'h)"
    and step :: "'h \<Rightarrow> (string, string) store_op \<Rightarrow> 'e + (string store_res \<times> 'h)"
  assumes fetch_law: "rep h m \<Longrightarrow> budget h n \<Longrightarrow> \<exists>h'. fetch h k = Inr (m k, h') \<and> rep h' m \<and> budget h' n"
    and store_law: "rep h m \<Longrightarrow> good k v \<Longrightarrow> budget h (Suc n) \<Longrightarrow>
      \<exists>h'. store h k v f = Inr (fst (sp m k v f), h') \<and> rep h' (snd (sp m k v f)) \<and> budget h' n"
    and del_law: "rep h m \<Longrightarrow> budget h n \<Longrightarrow>
      \<exists>h'. del h k = Inr (if m k = None then -1 else 0, h') \<and> rep h' (m(k := None)) \<and> budget h' n"
    and step_fetch: "step h (OpFetch k) = bindE (fetch h k) (\<lambda>(r, h'). Inr (RFetch r, h'))"
    and step_store: "step h (OpStore k v f) = bindE (store h k v f) (\<lambda>(r, h'). Inr (RCode r, h'))"
    and step_del: "step h (OpDelete k) = bindE (del h k) (\<lambda>(r, h'). Inr (RCode r, h'))"
begin

lemma step_refines:
  assumes "rep h m" "good_op good c" "budget h (op_needs c + n)"
  shows "\<exists>h'. step h c = Inr (fst (spec_op sp m c), h') \<and> rep h' (snd (spec_op sp m c)) \<and> budget h' n"
proof (cases c)
  case (OpFetch k)
  then show ?thesis using fetch_law[OF assms(1), of n k] assms by (auto simp: step_fetch)
next
  case (OpStore k v f)
  then show ?thesis using store_law[OF assms(1), of k v n f] assms by (auto simp: step_store)
next
  case (OpDelete k)
  then show ?thesis using del_law[OF assms(1), of n k] assms by (auto simp: step_del)
qed

lemma run_refines:
  assumes "rep h m" "\<forall>c \<in> set cs. good_op good c" "budget h (sum_list (map op_needs cs) + n)"
  shows "\<exists>h'. run_ops step h cs = Inr (fst (spec_ops sp m cs), h') \<and> rep h' (snd (spec_ops sp m cs)) \<and> budget h' n"
  using assms
proof (induction cs arbitrary: h m)
  case (Cons c cs)
  obtain h1 where h1: "step h c = Inr (fst (spec_op sp m c), h1)" "rep h1 (snd (spec_op sp m c))"
    "budget h1 (sum_list (map op_needs cs) + n)"
    using step_refines[of h m c "sum_list (map op_needs cs) + n"] Cons.prems by (auto simp: add.assoc)
  obtain h2 where "run_ops step h1 cs = Inr (fst (spec_ops sp (snd (spec_op sp m c)) cs), h2)"
    "rep h2 (snd (spec_ops sp (snd (spec_op sp m c)) cs))" "budget h2 n"
    using Cons.IH[OF h1(2)] Cons.prems(2) h1(3) by auto
  with h1(1) show ?case by (auto simp: Let_def split: prod.splits)
qed simp

end

end
