(* ===== verification/DbScan.thy ===== *)
theory DbScan
  imports DbApi
begin

text \<open>
  Opening a database and reading it sequentially: the handle that \<open>db_open\<close> returns for a new or an
  existing database, and what a caller sees that rewinds and then calls \<open>db_nextrec\<close> until it
  returns \<open>NULL\<close>.
\<close>

section \<open>Open, close and open again\<close>

definition empty_ix :: ix where
  "empty_ix = \<lparr>hdr = replicate (NHASH_DEF + 1) 0, recs = []\<rparr>"

lemma empty_ix_bytes:
  "enc_ix empty_ix = concat (replicate (NHASH_DEF + 1) (padl PTR_SZ (dec 0))) @ [NL]"
  by (simp add: empty_ix_def enc_ix_def enc_hdr_def enc_ptr_def)

lemma xlen_empty: "xlen empty_ix = 967"
  by (simp add: empty_ix_def xlen_def rbase_def NHASH_DEF_def)

lemma cell_empty: "i \<le> 137 \<Longrightarrow> cell empty_ix (7 * i) = Some 0"
  using cell_hdr[of i empty_ix] by (simp add: empty_ix_def NHASH_DEF_def)

lemma body_empty: "body empty_ix = Map.empty"
  by (rule ext) (simp add: body_def irec_of_def empty_ix_def)

lemma valid_empty: "valid_ix empty_ix"
  by (auto simp: valid_ix_def empty_ix_def PTR_MAX_def)

lemma empty_inv:
  assumes "bytes (idxf db) = enc_ix empty_ix" "967 \<le> room (idxf db)" "bytes (datf db) = []"
    "nhash db = NHASH_DEF" "hashoff db = HASH_OFF"
  shows "db_inv db empty_ix (replicate 138 [])"
proof -
  have n: "NHASH_DEF = 137" by (simp add: NHASH_DEF_def)
  have r: "replicate 138 ([]::nat list) ! i = []" if "i \<le> 137" for i using that by simp
  have "chains_ok 137 (cell empty_ix) (body empty_ix) (replicate 138 [])"
    unfolding chains_ok_def body_empty using cell_empty by (simp add: r)
  moreover have "keys_ok 137 (body empty_ix) (replicate 138 [])"
    by (auto simp: keys_ok_def live_def r)
  moreover have "data_ok (body empty_ix) []" by (simp add: data_ok_def body_empty)
  ultimately show ?thesis
    using assms valid_empty by (simp add: db_inv_def idx_rep_def xlen_empty n HASH_OFF_def)
      (simp add: empty_ix_def NHASH_DEF_def)
qed

definition open_new :: "(string \<rightharpoonup> string) \<Rightarrow> string \<Rightarrow> oflags \<Rightarrow> bool" where
  \<comment> \<open>the flags create or truncate, and \<open>O_EXCL\<close> does not refuse\<close>
  "open_new fs path fl \<longleftrightarrow> o_creat fl \<and> o_trunc fl
     \<and> (o_excl fl \<longrightarrow> fs (path @ ''.idx'') = None \<and> fs (path @ ''.dat'') = None)"

lemma fs_open_trunc:
  assumes "o_creat fl" "o_trunc fl" "o_excl fl \<longrightarrow> fs p = None"
  shows "fs_open fs rm p fl = Some (\<lparr>bytes = [], pos = 0, room = rm\<rparr>, fs(p \<mapsto> []))"
  using assms by (auto simp: fs_open_def split: option.split)

lemma open_new_run:
  assumes "open_new fs path fl" "967 \<le> rm"
  obtains db where
    "db_open fs rm path fl = Inr (Some db, fs(path @ ''.idx'' \<mapsto> [], path @ ''.dat'' \<mapsto> []))"
    "db_ok db Map.empty" "length (bytes (idxf db)) = 967" "bytes (datf db) = []"
    "room (idxf db) = rm" "room (datf db) = rm"
proof -
  let ?i = "path @ ''.idx''" and ?d = "path @ ''.dat''"
  have o: "o_creat fl" "o_trunc fl" "o_excl fl \<longrightarrow> fs ?i = None" "o_excl fl \<longrightarrow> (fs(?i \<mapsto> [])) ?d = None"
    using assms(1) by (auto simp: open_new_def)
  let ?z = "\<lparr>bytes = [], pos = 0, room = rm\<rparr>"
  define db0 where "db0 = (db_alloc ?d ?z ?z)\<lparr>nhash := NHASH_DEF, hashoff := HASH_OFF\<rparr>"
  define h where "h = concat (replicate (NHASH_DEF + 1) (padl PTR_SZ (dec 0))) @ [NL]"
  have hx: "h = enc_ix empty_ix" unfolding h_def by (rule empty_ix_bytes[symmetric])
  have hl: "length h = 967" unfolding hx length_enc_ix[OF valid_empty] by (rule xlen_empty)
  have w: "fwrite ?z h = (length h, \<lparr>bytes = h, pos = 967, room = rm\<rparr>)"
    using fwrite_full[of ?z h] assms(2) hl by (simp add: splice_def)
  define db1 where "db1 = db0\<lparr>idxf := \<lparr>bytes = h, pos = 967, room = rm\<rparr>\<rparr>"
  define db2 where "db2 = db1\<lparr>idxoff := 967\<rparr>"
  have sel: "idxf db0 = ?z" "locks db0 = []" "nhash db0 = NHASH_DEF" "datf db0 = ?z" "hashoff db0 = HASH_OFF"
    by (simp_all add: db0_def db_alloc_def)
  have ul: "un_lock ((writew_lock db0 IdxFd 0 0)\<lparr>idxf := f\<rparr>) IdxFd 0 0 = db0\<lparr>idxf := f\<rparr>" for f
    by (rule db.equality) (simp_all add: un_lock_def writew_lock_def sel)
  have rw: "db_rewind db1 = Inr db2"
    by (simp add: db_rewind_def db1_def db2_def sel PTR_SZ_def NHASH_DEF_def lseek_set)
  have ai: "idxf (db_alloc ?d ?z ?z) = ?z" by (simp add: db_alloc_def)
  have al: "(db_alloc ?d ?z ?z)\<lparr>nhash := NHASH_DEF, hashoff := HASH_OFF\<rparr> = db0" by (simp add: db0_def)
  have run: "db_open fs rm path fl = Inr (Some db2, fs(?i \<mapsto> [], ?d \<mapsto> []))"
    using fs_open_trunc[where fs = fs and p = ?i, OF o(1,2,3)] fs_open_trunc[where fs = "fs(?i \<mapsto> [])" and p = ?d, OF o(1,2,4)] o(1,2) w sel(1) ul rw
    unfolding db_open_def Let_def h_def[symmetric]
    by (simp add: al ai db1_def[symmetric] sel(2) writew_lock_def)
  have inv: "db_inv db2 empty_ix (replicate 138 [])"
    using assms(2) by (intro empty_inv) (simp_all add: db2_def db1_def sel hx)
  have "db_ok db2 Map.empty"
    by (rule db_okI[OF inv]) (simp_all add: amap_def live_def db2_def db1_def sel)
  then show thesis
    by (intro that[OF run]) (use hl in \<open>simp_all add: db2_def db1_def sel\<close>)
qed

lemma fs_open_plain:
  "fs p = Some c \<Longrightarrow> \<not> o_trunc fl \<Longrightarrow> \<not> (o_creat fl \<and> o_excl fl) \<Longrightarrow>
     fs_open fs rm p fl = Some (\<lparr>bytes = c, pos = 0, room = rm\<rparr>, fs)"
  by (simp add: fs_open_def fun_upd_idem)

lemma reopen_run:
  assumes ok: "db_ok db m" and fl: "\<not> o_trunc fl" "\<not> (o_creat fl \<and> o_excl fl)"
    and rm: "length (bytes (idxf db)) \<le> rm" "length (bytes (datf db)) \<le> rm"
  obtains db' where "db_open (db_close db path fs) rm path fl = Inr (Some db', db_close db path fs)" "db_ok db' m"
    "bytes (idxf db') = bytes (idxf db)" "bytes (datf db') = bytes (datf db)"
proof -
  obtain x cs where inv: "db_inv db x cs" and m: "m = amap (body x) cs (bytes (datf db))" and lk: "locks db = []"
    using ok by (rule db_okE)
  note I = db_invD[OF inv]
  let ?i = "path @ ''.idx''" and ?d = "path @ ''.dat''" and ?fs = "db_close db path fs"
  let ?f = "\<lparr>bytes = bytes (idxf db), pos = 0, room = rm\<rparr>" and ?g = "\<lparr>bytes = bytes (datf db), pos = 0, room = rm\<rparr>"
  have at: "?fs ?i = Some (bytes (idxf db))" "?fs ?d = Some (bytes (datf db))" by (simp_all add: db_close_def)
  define db0 where "db0 = (db_alloc ?d ?f ?g)\<lparr>nhash := NHASH_DEF, hashoff := HASH_OFF\<rparr>"
  have sel: "idxf db0 = ?f" "locks db0 = []" "nhash db0 = NHASH_DEF" "datf db0 = ?g" "hashoff db0 = HASH_OFF"
    by (simp_all add: db0_def db_alloc_def)
  define db1 where "db1 = db0\<lparr>idxoff := 967, idxf := ?f\<lparr>pos := 967\<rparr>\<rparr>"
  have rw: "db_rewind db0 = Inr db1"
    by (simp add: db_rewind_def db1_def sel PTR_SZ_def NHASH_DEF_def lseek_set)
  have run: "db_open ?fs rm path fl = Inr (Some db1, ?fs)"
    using fs_open_plain[where fs = ?fs and rm = rm, OF at(1) fl] fs_open_plain[where fs = ?fs and rm = rm, OF at(2) fl] fl rw
    unfolding db_open_def Let_def by (simp add: db0_def[symmetric])
  have "idx_rep db1 x" using I(1) rm(1) idx_length[OF inv] by (simp add: idx_rep_def db1_def)
  then have inv1: "db_inv db1 x cs"
    using I(2,4-7,9) rm(2) by (simp add: db_inv_def db1_def sel HASH_OFF_def)
  show thesis
  proof (rule that[OF run])
    show "db_ok db1 m" by (rule db_okI[OF inv1]) (simp_all add: db1_def sel m)
  qed (simp_all add: db1_def sel)
qed

section \<open>Offsets of the records in file order\<close>

fun offs :: "nat \<Rightarrow> irec list \<Rightarrow> nat list" where
  "offs b [] = []"
| "offs b (r # rs) = b # offs (b + rsize r) rs"

lemma offs_ge: "a \<in> set (offs b rs) \<Longrightarrow> b \<le> a"
  by (induction rs arbitrary: b) force+

lemma distinct_offs: "distinct (offs b rs)"
  using offs_ge by (induction rs arbitrary: b) (auto, fastforce)

lemma set_offs: "a \<in> set (offs b rs) \<longleftrightarrow> rec_at b rs a \<noteq> None"
proof (induction rs arbitrary: b)
  case (Cons r rs)
  then show ?case by auto
qed simp

definition at_rec :: "ix \<Rightarrow> nat \<Rightarrow> irec list \<Rightarrow> bool" where
  \<comment> \<open>the records from offset \<open>a\<close> to the end of the file\<close>
  "at_rec x a zs \<longleftrightarrow> (\<exists>ys. recs x = ys @ zs \<and> a = rbase x + rsizes ys)"

lemma at_rec_start: "at_rec x (rbase x) (recs x)"
  by (auto simp: at_rec_def intro!: exI[of _ "[]"])

lemma at_rec_end: "at_rec x a [] \<Longrightarrow> a = xlen x"
  by (auto simp: at_rec_def xlen_def)

lemma at_rec_Cons:
  assumes "at_rec x a (r # zs)"
  shows "irec_of x a = Some r" "at_rec x (a + rsize r) zs"
proof -
  obtain ys where y: "recs x = ys @ r # zs" "a = rbase x + rsizes ys" using assms by (auto simp: at_rec_def)
  show "irec_of x a = Some r" using y by (simp add: irec_of_def rec_at_append)
  show "at_rec x (a + rsize r) zs"
    unfolding at_rec_def using y by (intro exI[of _ "ys @ [r]"]) simp
qed

definition blank :: "string \<Rightarrow> bool" where
  "blank k \<longleftrightarrow> set k \<subseteq> {SPACE}"

lemma dropWhile_blank: "dropWhile (\<lambda>c. c = SPACE) k = [] \<longleftrightarrow> blank k"
  by (auto simp: blank_def dropWhile_eq_Nil_conv)

section \<open>One call of \<open>db_nextrec\<close>\<close>

lemma nextrec_loop_end:
  assumes "idx_rep db x" "at_rec x (pos (idxf db)) zs" "\<forall>r \<in> set zs. blank (ikey r)" "length zs < fuel"
  shows "\<exists>db'. db_nextrec_loop fuel db = Inr (False, db') \<and> core_of db' = core_of db \<and> at_rec x (pos (idxf db')) []"
  using assms
proof (induction zs arbitrary: db fuel)
  case Nil
  then obtain f where f: "fuel = Suc f" by (cases fuel) auto
  show ?case
    using readidx_eof[OF Nil.prems(1) at_rec_end[OF Nil.prems(2)]] Nil.prems(2) by (simp add: f)
next
  case (Cons r zs)
  then obtain f where f: "fuel = Suc f" by (cases fuel) auto
  note a = at_rec_Cons[OF Cons.prems(2)]
  obtain db1 where d: "db_readidx db 0 = Inr (int (nxt r), db1)" "core_of db1 = core_of db"
    "loaded db1 (pos (idxf db)) r" "pos (idxf db1) = pos (idxf db) + rsize r"
    using readidx_loaded[OF Cons.prems(1) a(1), of 0] by blast
  have "\<exists>db'. db_nextrec_loop f db1 = Inr (False, db') \<and> core_of db' = core_of db1 \<and> at_rec x (pos (idxf db')) []"
    using Cons.prems f a(2) d(4) idx_rep_core[OF d(2)] by (intro Cons.IH) auto
  moreover have "dropWhile (\<lambda>c. c = SPACE) (idxbuf db1) = []"
    unfolding dropWhile_blank using d(3) Cons.prems(3) by (simp add: loaded_def)
  ultimately show ?case using d(1,2) by (simp add: f)
qed

lemma nextrec_loop_found:
  assumes "idx_rep db x" "at_rec x (pos (idxf db)) (bl @ r # zs)" "\<forall>r \<in> set bl. blank (ikey r)"
    "\<not> blank (ikey r)" "length bl < fuel"
  shows "\<exists>db' a. db_nextrec_loop fuel db = Inr (True, db') \<and> core_of db' = core_of db
    \<and> irec_of x a = Some r \<and> a = pos (idxf db) + rsizes bl \<and> loaded db' a r \<and> at_rec x (pos (idxf db')) zs"
  using assms
proof (induction bl arbitrary: db fuel)
  case Nil
  then obtain f where f: "fuel = Suc f" by (cases fuel) auto
  have at: "at_rec x (pos (idxf db)) (r # zs)" using Nil.prems(2) by simp
  note a = at_rec_Cons[OF at]
  obtain db1 where d: "db_readidx db 0 = Inr (int (nxt r), db1)" "core_of db1 = core_of db"
    "loaded db1 (pos (idxf db)) r" "pos (idxf db1) = pos (idxf db) + rsize r"
    using readidx_loaded[OF Nil.prems(1) a(1), of 0] by blast
  have "dropWhile (\<lambda>c. c = SPACE) (idxbuf db1) \<noteq> []"
    unfolding dropWhile_blank using d(3) Nil.prems(4) by (simp add: loaded_def)
  then have "db_nextrec_loop fuel db = Inr (True, db1)" using d(1) f by auto
  then show ?case using d a by auto
next
  case (Cons q bl)
  then obtain f where f: "fuel = Suc f" by (cases fuel) auto
  have at: "at_rec x (pos (idxf db)) (q # bl @ r # zs)" using Cons.prems(2) by simp
  note a = at_rec_Cons[OF at]
  obtain db1 where d: "db_readidx db 0 = Inr (int (nxt q), db1)" "core_of db1 = core_of db"
    "loaded db1 (pos (idxf db)) q" "pos (idxf db1) = pos (idxf db) + rsize q"
    using readidx_loaded[OF Cons.prems(1) a(1), of 0] by blast
  have "\<exists>db' a. db_nextrec_loop f db1 = Inr (True, db') \<and> core_of db' = core_of db1
    \<and> irec_of x a = Some r \<and> a = pos (idxf db1) + rsizes bl \<and> loaded db' a r \<and> at_rec x (pos (idxf db')) zs"
    using Cons.prems f a(2) d(4) idx_rep_core[OF d(2)] by (intro Cons.IH) auto
  moreover have "dropWhile (\<lambda>c. c = SPACE) (idxbuf db1) = []"
    unfolding dropWhile_blank using d(3) Cons.prems(3) by (simp add: loaded_def)
  ultimately show ?case using d f by (simp add: add.assoc)
qed

definition vis :: "irec list \<Rightarrow> irec list" where
  "vis rs = filter (\<lambda>r. \<not> blank (ikey r)) rs"

definition ent :: "string \<Rightarrow> irec \<Rightarrow> string \<times> string" where
  "ent d r = (ikey r, butlast (dat_at d (idoff r) (idlen r)))"

lemma vis_split:
  obtains "vis zs = []" "\<forall>r \<in> set zs. blank (ikey r)"
  | bl r zs' where "zs = bl @ r # zs'" "\<forall>r \<in> set bl. blank (ikey r)" "\<not> blank (ikey r)" "vis zs = r # vis zs'"
proof (cases "\<exists>r \<in> set zs. \<not> blank (ikey r)")
  case True
  then obtain bl r zs' where "zs = bl @ r # zs'" "\<not> blank (ikey r)" "\<forall>r \<in> set bl. \<not> \<not> blank (ikey r)"
    using split_list_first_prop[OF True] by blast
  then show thesis by (intro that(2)[of bl r zs']) (simp_all add: vis_def)
qed (use that(1) in \<open>simp add: vis_def\<close>)

lemma length_le_rsizes: "length rs \<le> rsizes rs"
proof (induction rs)
  case (Cons r rs)
  then show ?case by (simp add: rsize_def)
qed simp

lemma at_rec_fuel:
  assumes "idx_rep db x" "at_rec x a zs"
  shows "length zs < db_fuel db"
proof -
  obtain ys where "recs x = ys @ zs" using assms(2) by (auto simp: at_rec_def)
  then have "length zs \<le> xlen x" using length_le_rsizes[of zs] by (simp add: xlen_def)
  moreover have "length (bytes (idxf db)) = xlen x" using assms(1) idx_repD length_enc_ix by metis
  ultimately show ?thesis by (simp add: db_fuel_def)
qed

lemma nextrec_step:
  assumes inv: "db_inv db x cs" and lk: "locks db = []" and at: "at_rec x (pos (idxf db)) zs"
  obtains (fin) db' where "vis zs = []" "db_nextrec db = Inr (None, db')" "db_inv db' x cs" "locks db' = []" "same_files db db'"
  | (more) db' r zs' where "vis zs = r # vis zs'" "db_nextrec db = Inr (Some (ent (bytes (datf db)) r), db')"
      "db_inv db' x cs" "locks db' = []" "same_files db db'" "at_rec x (pos (idxf db')) zs'"
proof -
  let ?db0 = "readw_lock db IdxFd FREE_OFF 1"
  have inv0: "db_inv ?db0 x cs" using inv by (simp add: readw_lock_def db_inv_other)
  note rep0 = db_invD(1)[OF inv0]
  have at0: "at_rec x (pos (idxf ?db0)) zs" using at by (simp add: readw_lock_def)
  have fuel: "length zs < db_fuel db" by (rule at_rec_fuel[OF db_invD(1)[OF inv] at])
  have unl: "db_inv (un_lock d IdxFd FREE_OFF 1) x cs \<and> locks (un_lock d IdxFd FREE_OFF 1) = [] \<and> same_files db (un_lock d IdxFd FREE_OFF 1)"
    if "core_of d = core_of ?db0" for d
    using core_ofD[OF that] db_inv_core[OF that] inv0 lk by (simp add: un_lock_def db_inv_other readw_lock_def same_files_def)
  show thesis
  proof (cases rule: vis_split[of zs])
    case 1
    obtain db1 where d: "db_nextrec_loop (db_fuel db) ?db0 = Inr (False, db1)" "core_of db1 = core_of ?db0"
      using nextrec_loop_end[OF rep0 at0 1(2) fuel] by blast
    have "db_nextrec db = Inr (None, un_lock db1 IdxFd FREE_OFF 1)" using d(1) by (simp add: db_nextrec_def)
    then show thesis using unl[OF d(2)] 1 by (intro fin) auto
  next
    case (2 bl r zs')
    have fl: "length bl < db_fuel db" using fuel 2(1) by simp
    obtain db1 a where d: "db_nextrec_loop (db_fuel db) ?db0 = Inr (True, db1)" "core_of db1 = core_of ?db0"
      "irec_of x a = Some r" "loaded db1 a r" "at_rec x (pos (idxf db1)) zs'"
      using nextrec_loop_found[OF rep0 at0[unfolded 2(1)] 2(2,3) fl] by blast
    note rd = rec_data[OF inv d(3)]
    let ?v = "bval (body x) (bytes (datf db)) a"
    have b1: "bytes (datf db1) = bytes (datf db)" using core_ofD(3)[OF d(2)] by (simp add: readw_lock_def)
    define db2 where "db2 = db1\<lparr>datf := (datf db1)\<lparr>pos := idoff r + length ?v + 1\<rparr>, datbuf := ?v\<rparr>"
    have g: "db_readdat db1 = Inr (?v, db2)"
      unfolding db2_def using d(4) rd b1 by (intro readdat_rec) (auto simp: loaded_def)
    have c2: "core_of db2 = core_of ?db0" using d(2) by (simp add: db2_def)
    define db3 where "db3 = un_lock (db2\<lparr>cnt_nextrec := cnt_nextrec db2 + 1\<rparr>) IdxFd FREE_OFF 1"
    have ev: "ent (bytes (datf db)) r = (ikey r, ?v)" using rd(4) by (simp add: ent_def bval_def)
    have ik: "idxbuf db2 = ikey r" using d(4) by (simp add: db2_def loaded_def)
    have run: "db_nextrec db = Inr (Some (ent (bytes (datf db)) r), db3)"
      unfolding ev using d(1) g ik by (simp add: db_nextrec_def db3_def)
    have f3: "db_inv db3 x cs" "locks db3 = []" "same_files db db3"
      using unl[OF c2] by (simp_all add: db3_def db_inv_other un_lock_def same_files_def)
    have "at_rec x (pos (idxf db3)) zs'" using d(5) by (simp add: db3_def db2_def)
    with run f3 show thesis using 2(4) by (intro more[of r zs' db3]) auto
  qed
qed

section \<open>The whole scan\<close>

fun nextrec_all :: "nat \<Rightarrow> db \<Rightarrow> db_error + ((string \<times> string) list \<times> db)" where
  \<comment> \<open>a caller that calls \<open>db_nextrec\<close> until it returns \<open>NULL\<close>\<close>
  "nextrec_all 0 db = Inl Diverge"
| "nextrec_all (Suc fuel) db = bindE (db_nextrec db) (\<lambda>(r, db1).
     case r of None \<Rightarrow> Inr ([], db1)
     | Some e \<Rightarrow> bindE (nextrec_all fuel db1) (\<lambda>(es, db2). Inr (e # es, db2)))"

lemma nextrec_all_vis:
  assumes "db_inv db x cs" "locks db = []" "at_rec x (pos (idxf db)) zs" "length (vis zs) < fuel"
  shows "\<exists>db'. nextrec_all fuel db = Inr (map (ent (bytes (datf db))) (vis zs), db')
    \<and> db_inv db' x cs \<and> locks db' = [] \<and> same_files db db'"
  using assms
proof (induction "length (vis zs)" arbitrary: db zs fuel)
  case 0
  then obtain f where f: "fuel = Suc f" by (cases fuel) auto
  show ?case using 0 by (cases rule: nextrec_step[OF 0(2-4)]) (auto simp: f)
next
  case (Suc n)
  then obtain f where f: "fuel = Suc f" by (cases fuel) auto
  show ?case
  proof (cases rule: nextrec_step[OF Suc(3-5)])
    case (1 db')
    then show ?thesis using Suc(2) by simp
  next
    case more: (2 db' r zs')
    have "\<exists>db''. nextrec_all f db' = Inr (map (ent (bytes (datf db'))) (vis zs'), db'')
      \<and> db_inv db'' x cs \<and> locks db'' = [] \<and> same_files db' db''"
      using Suc more f by (intro Suc(1)) auto
    then show ?thesis using more by (auto simp: f same_files_def)
  qed
qed

lemma vis_offs:
  assumes "at_rec x a zs"
  shows "map (ent d) (vis zs)
     = map (\<lambda>a. (bkey (body x) a, bval (body x) d a)) (filter (\<lambda>a. \<not> blank (bkey (body x) a)) (offs a zs))"
  using assms
proof (induction zs arbitrary: a)
  case (Cons r zs)
  note c = at_rec_Cons[OF Cons.prems]
  have "body x a = Some (ikey r, idoff r, idlen r)" using c(1) by (simp add: body_def)
  then show ?case using Cons.IH[OF c(2)] by (simp add: vis_def ent_def bkey_def bval_def)
qed (simp add: vis_def)

lemma vis_map:
  assumes inv: "db_inv db x cs"
  defines "es \<equiv> map (ent (bytes (datf db))) (vis (recs x))"
  shows "distinct (map fst es)" "map_of es = amap (body x) cs (bytes (datf db)) |` {k. \<not> blank k}"
proof -
  let ?b = "body x" and ?d = "bytes (datf db)"
  note I = db_invD[OF inv]
  define as where "as = filter (\<lambda>a. \<not> blank (bkey ?b a)) (offs (rbase x) (recs x))"
  have es: "es = map (\<lambda>a. (bkey ?b a, bval ?b ?d a)) as"
    unfolding es_def as_def by (rule vis_offs[OF at_rec_start])
  have "set as = {a \<in> dom ?b. \<not> blank (bkey ?b a)}"
    unfolding as_def by (auto simp: set_offs body_def irec_of_def)
  also have "\<dots> = {a \<in> set (live cs). \<not> blank (bkey ?b a)}"
    using chains_live[OF I(5)] I(6) unfolding keys_ok_def blank_def by blast
  finally have sa: "set as = {a \<in> set (live cs). \<not> blank (bkey ?b a)}" .
  have inj: "inj_on (bkey ?b) (set (live cs))" using I(6) by (simp add: keys_ok_def)
  have "distinct as" using distinct_offs by (simp add: as_def)
  moreover have "inj_on (bkey ?b) (set as)" using inj by (rule inj_on_subset) (auto simp: sa)
  ultimately show di: "distinct (map fst es)" by (simp add: es distinct_map o_def)
  show "map_of es = amap ?b cs ?d |` {k. \<not> blank k}"
  proof (rule map_eqI)
    fix k v
    have "map_of es k = Some v \<longleftrightarrow> (k, v) \<in> set es" using di by simp
    also have "\<dots> \<longleftrightarrow> \<not> blank k \<and> (\<exists>a \<in> set (live cs). bkey ?b a = k \<and> bval ?b ?d a = v)"
      by (auto simp: es sa)
    also have "\<dots> \<longleftrightarrow> (amap ?b cs ?d |` {k. \<not> blank k}) k = Some v"
      using amap_Some[OF inj] by (auto simp: restrict_map_def)
    finally show "map_of es k = Some v \<longleftrightarrow> (amap ?b cs ?d |` {k. \<not> blank k}) k = Some v" .
  qed
qed

lemma scan_run:
  assumes ok: "db_ok db m"
  obtains db1 es where "db_rewind db = Inr db1"
    "\<forall>fuel. length es < fuel \<longrightarrow> (\<exists>db2. nextrec_all fuel db1 = Inr (es, db2) \<and> db_ok db2 m)"
    "distinct (map fst es)" "map_of es = m |` {k. \<not> blank k}"
proof -
  obtain x cs where inv: "db_inv db x cs" and m: "m = amap (body x) cs (bytes (datf db))" and lk: "locks db = []"
    using ok by (rule db_okE)
  note I = db_invD[OF inv]
  define db1 where "db1 = db\<lparr>idxoff := int (rbase x), idxf := (idxf db)\<lparr>pos := rbase x\<rparr>\<rparr>"
  have off: "int ((nhash db + 1) * PTR_SZ) + 1 = int (rbase x)" using I(2) by (simp add: rbase_def PTR_SZ_def)
  have rw: "db_rewind db = Inr db1" unfolding db_rewind_def off by (simp add: lseek_set db1_def)
  have "core_of db1 = core_of db" by (simp add: db1_def core_of_def)
  from db_inv_core[OF this, of x cs] have inv1: "db_inv db1 x cs" using inv by simp
  have at: "at_rec x (pos (idxf db1)) (recs x)" using at_rec_start by (simp add: db1_def)
  let ?es = "map (ent (bytes (datf db))) (vis (recs x))"
  have "\<exists>db'. nextrec_all fuel db1 = Inr (?es, db') \<and> db_ok db' m" if "length ?es < fuel" for fuel
    using nextrec_all_vis[OF inv1 _ at, of fuel] that lk m
    by (auto simp: db1_def same_files_def intro!: db_okI)
  then have all: "\<forall>fuel. length ?es < fuel \<longrightarrow> (\<exists>db2. nextrec_all fuel db1 = Inr (?es, db2) \<and> db_ok db2 m)"
    by blast
  show thesis by (rule that[OF rw all]) (use vis_map[OF inv] m in simp_all)
qed

lemma rewind_ok:
  assumes "db_rewind db = Inr db1" "db_ok db m"
  shows "db_ok db1 m"
proof -
  have "core_of db1 = core_of db"
    using assms(1) by (auto simp: db_rewind_def lseek_def Let_def core_of_def split: if_splits)
  then show ?thesis using db_inv_core[of db1 db] core_ofD[of db1 db] assms(2)
    by (auto simp: db_ok_def db_rep_def)
qed

end
