(* ===== verification/DbProps.thy ===== *)
theory DbProps
  imports DbScan
begin

text \<open>
  The database as an instance of the keyed-store contract, and the properties of its interface:
  each operation against the abstract map, sequences of operations, persistence, the sequential
  scan, reuse of space, and the two ways the format can be broken from outside (a key with a
  separator, files that are not a database).
\<close>

section \<open>The database implements the contract\<close>

definition db_budget :: "db \<Rightarrow> nat \<Rightarrow> bool" where
  \<comment> \<open>room in both files, and in the seven digits of a pointer, for so many more records\<close>
  "db_budget db n \<longleftrightarrow> length (bytes (idxf db)) + 1035 * n \<le> room (idxf db)
     \<and> int (length (bytes (idxf db)) + 1035 * n) \<le> PTR_MAX
     \<and> length (bytes (datf db)) + 1024 * n \<le> room (datf db)
     \<and> length (bytes (datf db)) + 1024 * n < 10 ^ 9"

definition db_good :: "string \<Rightarrow> string \<Rightarrow> bool" where
  "db_good key data \<longleftrightarrow> key_ok key \<and> key \<noteq> [] \<and> length key \<le> 1000 \<and> data_valid data"

definition db_step :: "db \<Rightarrow> (string, string) store_op \<Rightarrow> db_error + (string store_res \<times> db)" where
  "db_step db c = (case c of
     OpFetch k \<Rightarrow> bindE (db_fetch db k) (\<lambda>(r, h'). Inr (RFetch r, h'))
   | OpStore k v f \<Rightarrow> bindE (db_store db k v f) (\<lambda>(r, h'). Inr (RCode r, h'))
   | OpDelete k \<Rightarrow> bindE (db_delete db k) (\<lambda>(r, h'). Inr (RCode r, h')))"

lemma db_good_ixlen:
  assumes "db_good key data" "length (bytes (datf db)) < 10 ^ 9"
  shows "IDXLEN_MIN \<le> ixlen db key data" "ixlen db key data \<le> IDXLEN_MAX"
proof -
  have "length (dec (length (bytes (datf db)))) \<le> 9" by (rule length_dec_less) (use assms in simp_all)
  moreover have "length (dec (length data + 1)) \<le> 4"
    by (rule length_dec_less) (use assms(1) in \<open>simp_all add: db_good_def data_valid_def DATLEN_MAX_def\<close>)
  moreover have "1 \<le> length (dec (length (bytes (datf db))))" "1 \<le> length (dec (length data + 1))"
    using length_dec_pos by (simp_all add: Suc_le_eq del: length_dec_pos)
  moreover have "1 \<le> length key" "length key \<le> 1000" using assms(1) by (cases key; simp add: db_good_def)+
  ultimately show "IDXLEN_MIN \<le> ixlen db key data" "ixlen db key data \<le> IDXLEN_MAX"
    by (simp_all add: ixlen_def IDXLEN_MIN_def IDXLEN_MAX_def)
qed

lemma budget_fits: "db_good key data \<Longrightarrow> db_budget db (Suc n) \<Longrightarrow> fits db key data"
  using db_good_ixlen[of key data db]
  by (auto simp: fits_def db_budget_def IDXLEN_MAX_def db_good_def data_valid_def DATLEN_MAX_def)

lemma budget_grown:
  assumes "db_good key data" "db_budget db (Suc n)" "grown db db' (11 + ixlen db key data) (length data + 1)"
  shows "db_budget db' n"
  using db_good_ixlen[of key data db] assms
  by (auto simp: db_budget_def grown_def db_good_def data_valid_def DATLEN_MAX_def IDXLEN_MAX_def)

lemma budget_same: "same_room db db' \<Longrightarrow> db_budget db n \<Longrightarrow> db_budget db' n"
  by (simp add: same_room_def db_budget_def)

lemma delete_run:
  assumes "db_ok db m"
  obtains db' where "db_delete db key = Inr (if m key = None then -1 else 0, db')" "db_ok db' (m(key := None))"
    "same_room db db'"
proof (cases "m key")
  case None
  then have "m(key := None) = m" by auto
  then show thesis
    using delete_run_none[OF assms None] that[unfolded None] same_files_room by (metis (full_types))
next
  case (Some v)
  show thesis by (rule delete_run_some[OF assms Some]) (use Some that in auto)
qed

interpretation dbs: map_store db_ok db_budget db_good spec_store db_fetch db_store db_delete db_step
proof
  fix h m n k
  assume a: "db_ok h m" "db_budget h n"
  show "\<exists>h'. db_fetch h k = Inr (m k, h') \<and> db_ok h' m \<and> db_budget h' n"
    by (rule fetch_run[OF a(1), of k]) (use a(2) in \<open>blast intro: budget_same same_files_room\<close>)
  show "\<exists>h'. db_delete h k = Inr (if m k = None then -1 else 0, h') \<and> db_ok h' (m(k := None)) \<and> db_budget h' n"
    by (rule delete_run[OF a(1), of k]) (use a(2) in \<open>blast intro: budget_same\<close>)
next
  fix h m k v n f
  assume a: "db_ok h m" "db_good k v" "db_budget h (Suc n)"
  have g: "key_ok k" "data_valid v" using a(2) by (simp_all add: db_good_def)
  show "\<exists>h'. db_store h k v f = Inr (fst (spec_store m k v f), h') \<and> db_ok h' (snd (spec_store m k v f)) \<and> db_budget h' n"
    by (rule store_run[OF a(1) g budget_fits[OF a(2,3)], of f]) (use budget_grown[OF a(2,3)] in blast)
qed (simp_all add: db_step_def)

section \<open>The operations that only read\<close>

lemma same_files_refl [simp]: "same_files db db"
  by (simp add: same_files_def)

lemma same_files_trans: "same_files a b \<Longrightarrow> same_files b c \<Longrightarrow> same_files a c"
  by (simp add: same_files_def)

lemma readptr_same_files: "db_readptr db off = Inr (p, db') \<Longrightarrow> same_files db db'"
  by (auto simp: db_readptr_def Let_def same_files_def split: prod.splits dest!: lseek_bytes fread_bytes)

lemma parse_same_files: "db_parse_idx db r = Inr db' \<Longrightarrow> same_files db db'"
  by (auto simp: db_parse_idx_def Let_def same_files_def)

lemma readidx_same_files: "db_readidx db off = Inr (p, db') \<Longrightarrow> same_files db db'"
  by (auto simp: db_readidx_def Let_def same_files_def split: prod.splits if_splits
      dest!: lseek_bytes fread_bytes parse_same_files)

lemma readdat_same_files: "db_readdat db = Inr (s, db') \<Longrightarrow> same_files db db'"
  by (auto simp: db_readdat_def Let_def same_files_def split: prod.splits dest!: lseek_bytes fread_bytes)

lemma find_loop_same_files: "db_find_loop fuel db key off = Inr (p, db') \<Longrightarrow> same_files db db'"
proof (induction fuel db key off arbitrary: p db' rule: db_find_loop.induct)
  case (2 fuel db key off)
  show ?case
  proof (cases "off = 0")
    case False
    with 2(2) obtain n db1 where r: "db_readidx db off = Inr (n, db1)"
      and c: "(if idxbuf db1 = key then Inr (off, db1)
               else db_find_loop fuel (db1\<lparr>ptroff := off\<rparr>) key n) = Inr (p, db')"
      by auto
    have "same_files db1 db'"
    proof (cases "idxbuf db1 = key")
      case ne: False
      then have "same_files (db1\<lparr>ptroff := off\<rparr>) db'" using 2(1)[OF False r refl ne] c ne by simp
      then show ?thesis by (simp add: same_files_def)
    qed (use c in simp)
    with readidx_same_files[OF r] show ?thesis by (rule same_files_trans)
  qed (use 2(2) in simp)
qed simp

lemma find_and_lock_same_files: "db_find_and_lock db key w = Inr (rc, db') \<Longrightarrow> same_files db db'"
  by (auto simp: db_find_and_lock_def Let_def readw_lock_def writew_lock_def same_files_def split: if_splits
      dest!: readptr_same_files find_loop_same_files)

lemma fetch_same_files: "db_fetch db key = Inr (v, db') \<Longrightarrow> same_files db db'"
  by (auto simp: db_fetch_def same_files_def split: if_splits
      dest!: find_and_lock_same_files readdat_same_files)

lemma nextrec_loop_same_files: "db_nextrec_loop fuel db = Inr (g, db') \<Longrightarrow> same_files db db'"
proof (induction fuel arbitrary: db)
  case (Suc fuel)
  then obtain r db1 where r: "db_readidx db 0 = Inr (r, db1)" by auto
  have "same_files db1 db'" using Suc r by (auto split: if_splits)
  with readidx_same_files[OF r] show ?case by (rule same_files_trans)
qed simp

lemma nextrec_same_files: "db_nextrec db = Inr (e, db') \<Longrightarrow> same_files db db'"
  by (auto simp: db_nextrec_def same_files_def readw_lock_def split: if_splits
      dest!: nextrec_loop_same_files readdat_same_files)

section \<open>Properties of the interface\<close>

text \<open>C1. \<open>db_fetch\<close> returns the data stored under the key, or \<open>NULL\<close> when there is none; it never
  aborts, releases its lock, keeps the map and leaves both files as they were.\<close>

theorem db_fetch_correct:
  assumes "db_ok db m"
  shows "\<exists>db'. db_fetch db key = Inr (m key, db') \<and> db_ok db' m \<and> same_files db db'"
  by (rule fetch_run[OF assms, of key]) blast

text \<open>C2. \<open>db_store\<close> implements its specification for every flag, on every branch: the result code, the
  map after it and the lock balance; the files grow by at most one record.\<close>

theorem db_store_refines:
  assumes "db_ok db m" "key_ok key" "data_valid data" "fits db key data"
  shows "\<exists>db'. db_store db key data flag = Inr (fst (spec_store m key data flag), db')
    \<and> db_ok db' (snd (spec_store m key data flag))
    \<and> grown db db' (11 + ixlen db key data) (length data + 1)"
  by (rule store_run[OF assms, of flag]) blast

text \<open>C3. \<open>db_delete\<close> removes the key and returns 0, or returns -1 when it is absent; no file grows.\<close>

theorem db_delete_correct:
  assumes "db_ok db m"
  shows "\<exists>db'. db_delete db key = Inr (if m key = None then -1 else 0, db') \<and> db_ok db' (m(key := None))
    \<and> same_room db db'"
  by (rule delete_run[OF assms, of key]) blast

text \<open>C4. A client that performs any sequence of fetches, stores and deletes sees exactly the results of
  the abstract map, as long as the files have room for the records it stores.\<close>

theorem db_sequence_refines:
  assumes "db_ok db m" "\<forall>c \<in> set cs. good_op db_good c" "db_budget db (sum_list (map op_needs cs))"
  shows "\<exists>db'. run_ops db_step db cs = Inr (fst (spec_ops spec_store m cs), db')
    \<and> db_ok db' (snd (spec_ops spec_store m cs))"
  using dbs.run_refines[OF assms(1,2), of 0] assms(3) by auto

text \<open>C5. A database that is created, written by any sequence of operations, closed and opened again
  (where the device holds its files) has the map those operations made: what was stored persists.\<close>

theorem db_session_persists:
  assumes "open_new fs path fl" "\<forall>c \<in> set cs. good_op db_good c" "sum_list (map op_needs cs) \<le> 9000"
    "967 + 1035 * sum_list (map op_needs cs) \<le> rm" "\<not> o_trunc fl2" "\<not> (o_creat fl2 \<and> o_excl fl2)"
  shows "\<exists>db fs1 db1. db_open fs rm path fl = Inr (Some db, fs1)
    \<and> run_ops db_step db cs = Inr (fst (spec_ops spec_store Map.empty cs), db1)
    \<and> (\<forall>rm2. length (bytes (idxf db1)) \<le> rm2 \<and> length (bytes (datf db1)) \<le> rm2 \<longrightarrow>
        (\<exists>db2 fs2. db_open (db_close db1 path fs1) rm2 path fl2 = Inr (Some db2, fs2)
          \<and> db_ok db2 (snd (spec_ops spec_store Map.empty cs))))"
proof -
  let ?n = "sum_list (map op_needs cs)"
  have rm: "967 \<le> rm" using assms(4) by simp
  obtain db where o: "db_open fs rm path fl = Inr (Some db, fs(path @ ''.idx'' \<mapsto> [], path @ ''.dat'' \<mapsto> []))"
    "db_ok db Map.empty" "length (bytes (idxf db)) = 967" "bytes (datf db) = []" "room (idxf db) = rm" "room (datf db) = rm"
    by (rule open_new_run[OF assms(1) rm])
  have "db_budget db (?n + 0)" using assms(3,4) o by (simp add: db_budget_def PTR_MAX_def)
  from dbs.run_refines[OF o(2) assms(2) this] obtain db1 where
    r: "run_ops db_step db cs = Inr (fst (spec_ops spec_store Map.empty cs), db1)"
    "db_ok db1 (snd (spec_ops spec_store Map.empty cs))" by blast
  have "\<exists>db2 fs2. db_open (db_close db1 path fs1) rm2 path fl2 = Inr (Some db2, fs2)
      \<and> db_ok db2 (snd (spec_ops spec_store Map.empty cs))"
    if "length (bytes (idxf db1)) \<le> rm2 \<and> length (bytes (datf db1)) \<le> rm2" for rm2 fs1
    by (rule reopen_run[OF r(2) assms(5,6), of rm2 path fs1]) (use that in blast)+
  with o(1) r(1) show ?thesis by blast
qed

text \<open>C6. After \<open>db_rewind\<close>, calling \<open>db_nextrec\<close> until it returns \<open>NULL\<close> yields every record once, whatever
  the order of the file: distinct keys, and exactly the stored pairs whose key is not all blanks (a
  key of blanks, or the empty key, is stored and fetched like any other, but the scan takes it for a
  deleted record).\<close>

theorem db_scan_correct:
  assumes "db_ok db m"
  shows "\<exists>db1 es. db_rewind db = Inr db1 \<and> distinct (map fst es) \<and> map_of es = m |` {k. \<not> blank k}
    \<and> (\<forall>fuel. length es < fuel \<longrightarrow> (\<exists>db2. nextrec_all fuel db1 = Inr (es, db2) \<and> db_ok db2 m))"
  by (rule scan_run[OF assms]) blast

text \<open>C7. The space of a deleted record is used again: storing a new key and new data of the same lengths
  succeeds even on a full device, and neither file grows.\<close>

theorem db_space_reused:
  assumes "db_ok db m" "m key = Some v" "length key' = length key" "length v' = length v"
    "key_ok key'" "data_valid v'" "m key' = None \<or> key' = key" "flag = DB_INSERT \<or> flag = DB_STORE"
  shows "\<exists>db1 db2. db_delete db key = Inr (0, db1) \<and> db_store db1 key' v' flag = Inr (0, db2)
    \<and> db_ok db2 (m(key := None, key' \<mapsto> v')) \<and> length (bytes (idxf db2)) \<le> length (bytes (idxf db))
    \<and> length (bytes (datf db2)) \<le> length (bytes (datf db))"
proof -
  obtain db1 x cs where d: "db_delete db key = Inr (0, db1)" "db_ok db1 (m(key := None))" "same_room db db1"
    "db_inv db1 x cs" "amap (body x) cs (bytes (datf db1)) = m(key := None)"
    "\<And>k d. length k = length key \<Longrightarrow> length d = length v \<Longrightarrow> reusable x cs k d"
    by (rule delete_run_some[OF assms(1,2)]) blast
  have l: "locks db1 = []" using d(2) by (simp add: db_ok_def)
  have n: "(m(key := None)) key' = None" using assms(7) by auto
  have r: "reusable x cs key' v'" using d(6) assms(3,4) by blast
  then have sp: "fits db1 key' v' \<or> reusable x cs key' v'" ..
  show ?thesis
    by (rule store_absent[OF d(4,5) l n assms(5,6,8) sp]) (use d(1,3) r in \<open>auto simp: grown_def same_room_def simp del: fun_upd_apply\<close>)
qed

section \<open>Outside the contract\<close>

text \<open>A key that contains the separator is written without complaint, but the record cannot be read
  back: parsing what \<open>_db_writeidx\<close> wrote aborts with "too many separators". Every later search that
  meets the record on its chain aborts the process.\<close>

theorem db_separator_key_unreadable:
  assumes "db_writeidx db key off w ptr = Inr db'" "SEP \<in> set key" "NUL \<notin> set key"
  shows "db_parse_idx db'' (idxbuf db') = Inl (Dump ''_db_readidx: too many separators'')"
proof -
  let ?buf = "key @ [SEP] @ sdec (datoff db) @ [SEP] @ dec (datlen db)"
  have ib: "idxbuf db' = ?buf @ [NL]"
    using assms(1) by (auto simp: db_writeidx_def Let_def un_lock_def writew_lock_def split: prod.splits if_splits)
  have nn: "NUL \<notin> set (sdec i)" "SEP \<notin> set (dec n)" for i n
    by (simp_all add: sdec_def SEP_def)
  have cs: "cstr ?buf = ?buf" using assms(3) nn by (intro cstr_id) (auto simp: SEP_def)
  obtain k1 k2 where k: "key = k1 @ SEP # k2" "SEP \<notin> set k1" using split_list_first[OF assms(2)] by blast
  have tw: "takeWhile (\<lambda>c. c \<noteq> SEP) (s @ SEP # t) = s" "dropWhile (\<lambda>c. c \<noteq> SEP) (s @ SEP # t) = SEP # t"
    if "SEP \<notin> set s" for s t using that by (induction s) auto
  let ?rest = "k2 @ [SEP] @ sdec (datoff db) @ [SEP] @ dec (datlen db)"
  have r1: "tl (dropWhile (\<lambda>c. c \<noteq> SEP) ?buf) = ?rest" using tw[OF k(2), of ?rest] k(1) by simp
  obtain s t where st: "?rest = s @ SEP # t" "SEP \<notin> set s" using split_list_first[of SEP ?rest] by auto
  have "SEP \<in> set t"
  proof (cases "SEP \<in> set k2")
    case True
    then obtain u v where "k2 = u @ SEP # v" "SEP \<notin> set u" using split_list_first by metis
    then have "s = u \<and> t = v @ [SEP] @ sdec (datoff db) @ [SEP] @ dec (datlen db)" using st
      tw[of s t] tw[of u "v @ [SEP] @ sdec (datoff db) @ [SEP] @ dec (datlen db)"] by simp
    then show ?thesis by simp
  next
    case False
    then have "s = k2 \<and> t = sdec (datoff db) @ [SEP] @ dec (datlen db)" using st
      tw[of s t] tw[of k2 "sdec (datoff db) @ [SEP] @ dec (datlen db)"] by simp
    then show ?thesis by simp
  qed
  moreover have bl: "butlast (?buf @ [NL]) = ?buf" "last (?buf @ [NL]) = NL" "?buf @ [NL] \<noteq> []" "SEP \<in> set ?buf"
    by (rule butlast_snoc, rule last_snoc, simp_all)
  moreover have "tl (dropWhile (\<lambda>c. c \<noteq> SEP) ?rest) = t" using tw[OF st(2), of t] st(1) by simp
  ultimately show ?thesis
    using bl cs r1 st by (simp add: db_parse_idx_def ib Let_def del: append_assoc append.simps)
qed

text \<open>Reading never writes: on any handle, over files with any bytes at all, a \<open>db_fetch\<close> or a
  \<open>db_nextrec\<close> that returns has changed neither file.\<close>

theorem db_reads_never_write:
  assumes "db_fetch db key = Inr (v, db1)" "db_nextrec db = Inr (e, db2)"
  shows "same_files db db1 \<and> same_files db db2"
  using fetch_same_files[OF assms(1)] nextrec_same_files[OF assms(2)] by blast

section \<open>Concrete runs\<close>

definition new_flags :: oflags where
  "new_flags = \<lparr>o_creat = True, o_trunc = True, o_excl = True\<rparr>"

definition old_flags :: oflags where
  "old_flags = \<lparr>o_creat = False, o_trunc = False, o_excl = False\<rparr>"

lemma new_db:
  obtains db fs where "db_open Map.empty 20000 ''db'' new_flags = Inr (Some db, fs)" "db_ok db Map.empty"
    "length (bytes (idxf db)) = 967" "bytes (datf db) = []" "room (idxf db) = 20000" "room (datf db) = 20000"
proof -
  have "open_new Map.empty ''db'' new_flags" "967 \<le> (20000::nat)" by (simp_all add: open_new_def new_flags_def)
  then show thesis by (rule open_new_run) (rule that)
qed

lemma key_color: "key_ok ''color''" "db_good ''color'' ''red''" "data_valid ''red''" "\<not> blank ''color''"
  by (simp_all add: key_ok_def SEP_def db_good_def data_valid_def DATLEN_MIN_def DATLEN_MAX_def blank_def SPACE_def)

lemma new_fits:
  "length (bytes (idxf db)) = 967 \<Longrightarrow> bytes (datf db) = [] \<Longrightarrow> room (idxf db) = 20000 \<Longrightarrow> room (datf db) = 20000
     \<Longrightarrow> fits db ''color'' ''red'' \<and> db_budget db 1"
proof -
  assume a: "length (bytes (idxf db)) = 967" "bytes (datf db) = []" "room (idxf db) = 20000" "room (datf db) = 20000"
  then have "db_budget db (Suc 0)" by (simp add: db_budget_def PTR_MAX_def)
  with budget_fits[OF key_color(2) this] show ?thesis by simp
qed

lemma stored_db:
  obtains db fs db1 where "db_open Map.empty 20000 ''db'' new_flags = Inr (Some db, fs)"
    "db_store db ''color'' ''red'' DB_STORE = Inr (0, db1)" "db_ok db1 [''color'' \<mapsto> ''red'']"
proof -
  obtain db fs where o: "db_open Map.empty 20000 ''db'' new_flags = Inr (Some db, fs)" "db_ok db Map.empty"
    "length (bytes (idxf db)) = 967" "bytes (datf db) = []" "room (idxf db) = 20000" "room (datf db) = 20000"
    by (rule new_db)
  have f: "fits db ''color'' ''red''" using new_fits[OF o(3-6)] by blast
  show thesis
    by (rule store_run[OF o(2) key_color(1,3) f, of DB_STORE])
      (use o(1) that in \<open>simp add: spec_store_def db_flags\<close>)
qed

theorem db_fetch_correct_witness:
  "\<exists>db fs db1 db2. db_open Map.empty 20000 ''db'' new_flags = Inr (Some db, fs)
    \<and> db_store db ''color'' ''red'' DB_STORE = Inr (0, db1) \<and> db_fetch db1 ''color'' = Inr (Some ''red'', db2)"
proof -
  obtain db fs db1 where s: "db_open Map.empty 20000 ''db'' new_flags = Inr (Some db, fs)"
    "db_store db ''color'' ''red'' DB_STORE = Inr (0, db1)" "db_ok db1 [''color'' \<mapsto> ''red'']" by (rule stored_db)
  show ?thesis using s db_fetch_correct[OF s(3), of "''color''"] by auto
qed

theorem db_store_refines_witness:
  "\<exists>db fs db1. db_open Map.empty 20000 ''db'' new_flags = Inr (Some db, fs)
    \<and> db_store db ''color'' ''red'' DB_INSERT = Inr (0, db1) \<and> db_ok db1 [''color'' \<mapsto> ''red'']"
proof -
  obtain db fs where o: "db_open Map.empty 20000 ''db'' new_flags = Inr (Some db, fs)" "db_ok db Map.empty"
    "length (bytes (idxf db)) = 967" "bytes (datf db) = []" "room (idxf db) = 20000" "room (datf db) = 20000"
    by (rule new_db)
  have f: "fits db ''color'' ''red''" using new_fits[OF o(3-6)] by blast
  show ?thesis using o(1) db_store_refines[OF o(2) key_color(1,3) f, of DB_INSERT]
    by (auto simp: spec_store_def db_flags)
qed

theorem db_delete_correct_witness:
  "\<exists>db fs db1 db2. db_open Map.empty 20000 ''db'' new_flags = Inr (Some db, fs)
    \<and> db_store db ''color'' ''red'' DB_STORE = Inr (0, db1) \<and> db_delete db1 ''color'' = Inr (0, db2) \<and> db_ok db2 Map.empty"
proof -
  obtain db fs db1 where s: "db_open Map.empty 20000 ''db'' new_flags = Inr (Some db, fs)"
    "db_store db ''color'' ''red'' DB_STORE = Inr (0, db1)" "db_ok db1 [''color'' \<mapsto> ''red'']" by (rule stored_db)
  have e: "[''color'' \<mapsto> ''red''](''color'' := None) = Map.empty" by (rule ext) simp
  show ?thesis using s db_delete_correct[OF s(3), of "''color''"] unfolding e by auto
qed

theorem db_sequence_refines_witness:
  "\<exists>db db1. db_ok db Map.empty \<and> run_ops db_step db
     [OpStore ''color'' ''red'' DB_REPLACE, OpFetch ''color'', OpDelete ''color'']
   = Inr ([RCode (-1), RFetch None, RCode (-1)], db1)"
proof -
  obtain db fs where o: "db_open Map.empty 20000 ''db'' new_flags = Inr (Some db, fs)" "db_ok db Map.empty"
    "length (bytes (idxf db)) = 967" "bytes (datf db) = []" "room (idxf db) = 20000" "room (datf db) = 20000"
    by (rule new_db)
  show ?thesis
    using o(2) db_sequence_refines[OF o(2), of "[OpStore ''color'' ''red'' DB_REPLACE, OpFetch ''color'', OpDelete ''color'']"]
      key_color(2) new_fits[OF o(3-6)]
    by (auto simp: spec_store_def db_flags Let_def)
qed

theorem db_session_persists_witness:
  "\<exists>db fs1 db1. db_open Map.empty 20000 ''db'' new_flags = Inr (Some db, fs1)
    \<and> run_ops db_step db [OpStore ''color'' ''red'' DB_STORE] = Inr ([RCode 0], db1)
    \<and> (\<forall>rm2. length (bytes (idxf db1)) \<le> rm2 \<and> length (bytes (datf db1)) \<le> rm2 \<longrightarrow>
        (\<exists>db2 fs2. db_open (db_close db1 ''db'' fs1) rm2 ''db'' old_flags = Inr (Some db2, fs2)
          \<and> db_ok db2 [''color'' \<mapsto> ''red'']))"
proof -
  have n: "open_new Map.empty ''db'' new_flags" by (simp add: open_new_def new_flags_def)
  show ?thesis
    using db_session_persists[OF n, of "[OpStore ''color'' ''red'' DB_STORE]" 20000 old_flags] key_color(2)
    by (simp add: old_flags_def spec_store_def db_flags Let_def)
qed

theorem db_scan_correct_witness:
  "\<exists>db db1 db2. db_ok db [''color'' \<mapsto> ''red''] \<and> db_rewind db = Inr db1
    \<and> nextrec_all 2 db1 = Inr ([(''color'', ''red'')], db2)"
proof -
  obtain db fs db0 where s: "db_open Map.empty 20000 ''db'' new_flags = Inr (Some db, fs)"
    "db_store db ''color'' ''red'' DB_STORE = Inr (0, db0)" "db_ok db0 [''color'' \<mapsto> ''red'']" by (rule stored_db)
  obtain db1 es where e: "db_rewind db0 = Inr db1" "distinct (map fst es)"
    "map_of es = [''color'' \<mapsto> ''red''] |` {k. \<not> blank k}"
    "\<forall>fuel. length es < fuel \<longrightarrow> (\<exists>db2. nextrec_all fuel db1 = Inr (es, db2))"
    using db_scan_correct[OF s(3)] by blast
  have "map_of es = map_of [(''color'', ''red'')]"
    using e(3) key_color(4) by (auto simp: restrict_map_def fun_eq_iff)
  then have "p \<in> set es \<longleftrightarrow> p = (''color'', ''red'')" for p
    using e(2) map_of_eq_Some_iff[of es "fst p" "snd p"] by (cases p) (auto split: if_splits)
  then have "set es = {(''color'', ''red'')}" by blast
  moreover have "distinct es" using e(2) by (simp add: distinct_map)
  ultimately have "es = [(''color'', ''red'')]" by (cases es; cases "tl es") auto
  then show ?thesis using s(3) e(1,4) by auto
qed

theorem db_space_reused_witness:
  "\<exists>db db1 db2. db_ok db [''color'' \<mapsto> ''red''] \<and> db_delete db ''color'' = Inr (0, db1)
    \<and> db_store db1 ''shape'' ''box'' DB_INSERT = Inr (0, db2)
    \<and> length (bytes (idxf db2)) \<le> length (bytes (idxf db))"
proof -
  obtain db fs db0 where s: "db_open Map.empty 20000 ''db'' new_flags = Inr (Some db, fs)"
    "db_store db ''color'' ''red'' DB_STORE = Inr (0, db0)" "db_ok db0 [''color'' \<mapsto> ''red'']" by (rule stored_db)
  have k: "key_ok ''shape''" "data_valid ''box''"
    by (simp_all add: key_ok_def SEP_def data_valid_def DATLEN_MIN_def DATLEN_MAX_def)
  show ?thesis
    using s(3) db_space_reused[OF s(3), of "''color''" "''red''" "''shape''" "''box''" DB_INSERT] k by auto
qed

definition tiny_db :: db where
  "tiny_db = db_alloc ''t'' \<lparr>bytes = [], pos = 0, room = 100\<rparr> \<lparr>bytes = [], pos = 0, room = 100\<rparr>"

lemma tiny_write: "\<exists>db'. db_writeidx tiny_db ''a:b'' 0 SEEK_SET 0 = Inr db'"
proof -
  have d: "dec 0 = [digit_of 0]" "dec 8 = [digit_of 8]" "sdec 0 = [digit_of 0]" by (simp_all add: sdec_def dec.simps)
  show ?thesis
    by (simp add: db_writeidx_def tiny_db_def db_alloc_def Let_def d padl_def lseek_set fwrite_def db_consts)
qed

theorem db_separator_key_unreadable_witness:
  "\<exists>db'. db_writeidx tiny_db ''a:b'' 0 SEEK_SET 0 = Inr db'
    \<and> db_parse_idx db' (idxbuf db') = Inl (Dump ''_db_readidx: too many separators'')"
proof -
  obtain db' where d: "db_writeidx tiny_db ''a:b'' 0 SEEK_SET 0 = Inr db'" using tiny_write by blast
  have "db_parse_idx db' (idxbuf db') = Inl (Dump ''_db_readidx: too many separators'')"
    by (rule db_separator_key_unreadable[OF d]) (simp_all add: SEP_def)
  with d show ?thesis by blast
qed

theorem db_reads_never_write_witness:
  "\<exists>db v db1 e db2. db_fetch db ''color'' = Inr (v, db1) \<and> db_nextrec db = Inr (e, db2) \<and> same_files db db1"
proof -
  obtain db fs db0 where s: "db_open Map.empty 20000 ''db'' new_flags = Inr (Some db, fs)"
    "db_store db ''color'' ''red'' DB_STORE = Inr (0, db0)" "db_ok db0 [''color'' \<mapsto> ''red'']" by (rule stored_db)
  obtain db1 where r: "db_rewind db0 = Inr db1" "\<exists>es db2. nextrec_all (Suc (length es)) db1 = Inr (es, db2) \<and> db_ok db2 [''color'' \<mapsto> ''red'']"
    by (rule scan_run[OF s(3)]) blast
  then obtain e db2 where n: "db_nextrec db1 = Inr (e, db2)" by auto
  have "db_ok db1 [''color'' \<mapsto> ''red'']" using r(1) s(3) by (rule rewind_ok)
  then obtain v db3 where f: "db_fetch db1 ''color'' = Inr (v, db3)" by (rule fetch_run)
  show ?thesis using db_reads_never_write[OF f n] f n by blast
qed

end
