(* ===== verification/Fs.thy ===== *)
theory Fs
  imports CStd "HOL-Library.Sublist"
begin

text \<open>
  The file system calls of the three synchronisers: path resolution, \<open>stat\<close>, \<open>mkdir\<close>, \<open>open\<close>,
  \<open>read\<close>, \<open>write\<close>, \<open>readdir\<close>, \<open>utimes\<close> and \<open>chmod\<close> over a finite tree of nodes without links. Faults
  are part of the state: locations where permission is denied, files that cannot be read beyond
  some offset, and the number of bytes the device can still take.
\<close>

section \<open>Nodes and paths\<close>

type_synonym loc = "string list"

record fdata =
  content :: string
  mtime :: nat
  atime :: nat
  fmode :: nat

datatype node = DirN "string list" | FileN fdata | OtherN

record fs =
  nodes :: "(loc \<times> node) list"
  cwd :: loc
  denied :: "loc list"
  badblk :: "(loc \<times> nat) list"
  avail :: nat
  clock :: nat

abbreviation SLASH :: char where "SLASH \<equiv> CHR ''/''"

definition look :: "fs \<Rightarrow> loc \<Rightarrow> node option" where
  "look fs l = map_of (nodes fs) l"

definition setn :: "fs \<Rightarrow> loc \<Rightarrow> node \<Rightarrow> fs" where
  "setn fs l n = fs\<lparr>nodes := (l, n) # nodes fs\<rparr>"

lemma look_setn [simp]: "look (setn fs l n) l' = (if l' = l then Some n else look fs l')"
  by (simp add: look_def setn_def)

lemma setn_sel [simp]:
  "cwd (setn fs l n) = cwd fs" "denied (setn fs l n) = denied fs" "badblk (setn fs l n) = badblk fs"
  "avail (setn fs l n) = avail fs" "clock (setn fs l n) = clock fs"
  by (simp_all add: setn_def)

lemma look_upd [simp]:
  "look (fs\<lparr>avail := a\<rparr>) l = look fs l"
  by (simp_all add: look_def)

fun split_slash :: "string \<Rightarrow> string list" where
  "split_slash [] = [[]]"
| "split_slash (c # s) = (if c = SLASH then [] # split_slash s
     else case split_slash s of [] \<Rightarrow> [[c]] | w # ws \<Rightarrow> (c # w) # ws)"

definition comps :: "string \<Rightarrow> string list" where
  "comps p = filter (\<lambda>c. c \<noteq> [] \<and> c \<noteq> ''.'') (split_slash p)"

definition walk :: "string list \<Rightarrow> loc \<Rightarrow> loc" where
  "walk cs l = fold (\<lambda>c l. if c = ''..'' then butlast l else l @ [c]) cs l"

definition locate :: "loc \<Rightarrow> string \<Rightarrow> loc" where
  "locate cw p = walk (comps p) (if p \<noteq> [] \<and> hd p = SLASH then [] else cw)"

definition plain :: "string \<Rightarrow> bool" where
  \<comment> \<open>a file name as it stands in a directory\<close>
  "plain n \<longleftrightarrow> n \<noteq> [] \<and> SLASH \<notin> set n \<and> NUL \<notin> set n \<and> n \<noteq> ''.'' \<and> n \<noteq> ''..''"

lemma split_slash_ne [simp]: "split_slash s \<noteq> []"
  by (induction s) (auto split: list.splits)

lemma split_slash_plain: "SLASH \<notin> set n \<Longrightarrow> split_slash n = [n]"
  by (induction n) auto

lemma split_slash_append: "split_slash (p @ SLASH # q) = split_slash p @ split_slash q"
proof (induction p)
  case (Cons c p)
  then show ?case by (cases "split_slash p") auto
qed simp

lemma comps_join: "plain n \<Longrightarrow> comps (p @ SLASH # n) = comps p @ [n]"
  by (simp add: comps_def split_slash_append split_slash_plain plain_def)

lemma walk_append: "walk (cs @ ds) l = walk ds (walk cs l)"
  by (simp add: walk_def)

lemma walk_plain: "\<forall>c \<in> set cs. c \<noteq> ''..'' \<Longrightarrow> walk cs l = l @ cs"
  by (induction cs arbitrary: l) (auto simp: walk_def)

lemma locate_join: "plain n \<Longrightarrow> p \<noteq> [] \<Longrightarrow> locate cw (p @ SLASH # n) = locate cw p @ [n]"
  using comps_join[of n p] by (cases p) (auto simp: locate_def walk_append walk_plain plain_def)

section \<open>System calls\<close>

datatype fs_errno = E_EXIST | E_NOENT | E_NOTDIR | E_ACCES | E_ISDIR | E_IO

definition is_dirn :: "node option \<Rightarrow> bool" where
  "is_dirn n = (case n of Some (DirN _) \<Rightarrow> True | _ \<Rightarrow> False)"

definition sys_stat :: "fs \<Rightarrow> string \<Rightarrow> node option" where
  "sys_stat fs p = (if p = [] then None else look fs (locate (cwd fs) p))"

definition add_name :: "fs \<Rightarrow> loc \<Rightarrow> fs" where
  \<comment> \<open>enter the last component in the parent directory\<close>
  "add_name fs l = (case look fs (butlast l) of
     Some (DirN ns) \<Rightarrow> setn fs (butlast l) (DirN (ns @ [last l])) | _ \<Rightarrow> fs)"

definition creatable :: "fs \<Rightarrow> loc \<Rightarrow> fs_errno option" where
  \<comment> \<open>why a new node cannot be made at a free location\<close>
  "creatable fs l =
     (case look fs (butlast l) of
        None \<Rightarrow> Some E_NOENT
      | Some (DirN _) \<Rightarrow> if l \<in> set (denied fs) then Some E_ACCES else None
      | Some _ \<Rightarrow> Some E_NOTDIR)"

definition sys_mkdir :: "fs \<Rightarrow> string \<Rightarrow> fs_errno option \<times> fs" where
  "sys_mkdir fs p =
     (let l = locate (cwd fs) p in
      if p = [] then (Some E_NOENT, fs)
      else if look fs l \<noteq> None then (Some E_EXIST, fs)
      else case creatable fs l of
        Some e \<Rightarrow> (Some e, fs)
      | None \<Rightarrow> (None, setn (add_name fs l) l (DirN [])))"

definition sys_open_rd :: "fs \<Rightarrow> string \<Rightarrow> loc option" where
  "sys_open_rd fs p =
     (let l = locate (cwd fs) p in
      if p = [] \<or> look fs l = None \<or> look fs l = Some OtherN \<or> l \<in> set (denied fs) then None else Some l)"

definition new_file :: "nat \<Rightarrow> fdata" where
  "new_file t = \<lparr>content = [], mtime = t, atime = t, fmode = 420\<rparr>"

definition sys_open_wr :: "fs \<Rightarrow> string \<Rightarrow> (loc \<times> fs) option" where
  \<comment> \<open>\<open>open\<close> with \<open>O_WRONLY | O_CREAT | O_TRUNC\<close>\<close>
  "sys_open_wr fs p =
     (let l = locate (cwd fs) p in
      if p = [] then None
      else case look fs l of
        Some (FileN f) \<Rightarrow> if l \<in> set (denied fs) then None
                          else Some (l, setn fs l (FileN (f\<lparr>content := [], mtime := clock fs\<rparr>)))
      | Some _ \<Rightarrow> None
      | None \<Rightarrow> (case creatable fs l of
                  Some _ \<Rightarrow> None
                | None \<Rightarrow> Some (l, setn (add_name fs l) l (FileN (new_file (clock fs))))))"

definition sys_read :: "fs \<Rightarrow> loc \<Rightarrow> nat \<Rightarrow> nat \<Rightarrow> string option" where
  \<comment> \<open>\<open>read\<close> at an offset; None is -1, the empty string the end of the file\<close>
  "sys_read fs l off n =
     (case look fs l of
        Some (FileN f) \<Rightarrow>
          (case map_of (badblk fs) l of
             None \<Rightarrow> Some (take n (drop off (content f)))
           | Some k \<Rightarrow> if off < length (content f) \<and> k \<le> off then None
                       else Some (take (min n (k - off)) (drop off (content f))))
      | _ \<Rightarrow> None)"

definition sys_write :: "fs \<Rightarrow> loc \<Rightarrow> string \<Rightarrow> nat \<times> fs" where
  \<comment> \<open>\<open>write\<close> at the end of a file that this process opened for writing\<close>
  "sys_write fs l s =
     (case look fs l of
        Some (FileN f) \<Rightarrow>
          let n = min (length s) (avail fs) in
          (n, setn (fs\<lparr>avail := avail fs - n\<rparr>) l (FileN (f\<lparr>content := content f @ take n s, mtime := clock fs\<rparr>)))
      | _ \<Rightarrow> (0, fs))"

definition sys_utimes :: "fs \<Rightarrow> string \<Rightarrow> nat \<Rightarrow> nat \<Rightarrow> bool \<times> fs" where
  \<comment> \<open>\<open>utime\<close>, \<open>utimes\<close>: true is a return of 0\<close>
  "sys_utimes fs p at mt =
     (let l = locate (cwd fs) p in
      if p = [] \<or> l \<in> set (denied fs) then (False, fs)
      else case look fs l of
        Some (FileN f) \<Rightarrow> (True, setn fs l (FileN (f\<lparr>atime := at, mtime := mt\<rparr>)))
      | None \<Rightarrow> (False, fs) | Some _ \<Rightarrow> (True, fs))"

definition sys_chmod :: "fs \<Rightarrow> string \<Rightarrow> nat \<Rightarrow> bool \<times> fs" where
  "sys_chmod fs p md =
     (let l = locate (cwd fs) p in
      if p = [] \<or> l \<in> set (denied fs) then (False, fs)
      else case look fs l of
        Some (FileN f) \<Rightarrow> (True, setn fs l (FileN (f\<lparr>fmode := md\<rparr>)))
      | None \<Rightarrow> (False, fs) | Some _ \<Rightarrow> (True, fs))"

definition sys_readdir :: "fs \<Rightarrow> string \<Rightarrow> string list option" where
  \<comment> \<open>the names that \<open>opendir\<close> and \<open>readdir\<close> deliver\<close>
  "sys_readdir fs p =
     (if p = [] \<or> locate (cwd fs) p \<in> set (denied fs) then None
      else case look fs (locate (cwd fs) p) of Some (DirN ns) \<Rightarrow> Some (''.'' # ''..'' # ns) | _ \<Rightarrow> None)"

definition sys_unlink :: "fs \<Rightarrow> string \<Rightarrow> bool \<times> fs" where
  "sys_unlink fs p =
     (let l = locate (cwd fs) p in
      if p = [] \<or> l \<in> set (denied fs) then (False, fs)
      else case look fs l of
        None \<Rightarrow> (False, fs) | Some (DirN _) \<Rightarrow> (False, fs)
      | Some _ \<Rightarrow>
          (let fs1 = fs\<lparr>nodes := filter (\<lambda>x. fst x \<noteq> l) (nodes fs)\<rparr> in
           case look fs1 (butlast l) of
             Some (DirN ns) \<Rightarrow> (True, setn fs1 (butlast l) (DirN (filter (\<lambda>n. n \<noteq> last l) ns)))
           | _ \<Rightarrow> (True, fs1)))"

lemma look_remove: "look (fs\<lparr>nodes := filter (\<lambda>x. fst x \<noteq> l) (nodes fs)\<rparr>) m = (if m = l then None else look fs m)"
proof -
  have "map_of (filter (\<lambda>x. fst x \<noteq> l) xs) m = (if m = l then None else map_of xs m)" for xs :: "(loc \<times> node) list"
    by (induction xs) auto
  then show ?thesis by (simp add: look_def)
qed

definition snprintf_path :: "nat \<Rightarrow> string \<Rightarrow> string" where
  \<comment> \<open>\<open>snprintf\<close> into a buffer of this size\<close>
  "snprintf_path sz s = take (sz - 1) s"

lemma snprintf_short [simp]: "length s < sz \<Longrightarrow> snprintf_path sz s = s"
  by (simp add: snprintf_path_def)

section \<open>Well-formed trees\<close>

definition fs_wf :: "fs \<Rightarrow> bool" where
  "fs_wf fs \<longleftrightarrow> is_dirn (look fs [])
     \<and> (\<forall>l n. look fs (l @ [n]) \<noteq> None \<longrightarrow> (\<exists>ns. look fs l = Some (DirN ns) \<and> n \<in> set ns))
     \<and> (\<forall>l ns n. look fs l = Some (DirN ns) \<longrightarrow> n \<in> set ns \<longrightarrow> look fs (l @ [n]) \<noteq> None \<and> plain n)
     \<and> (\<forall>l ns. look fs l = Some (DirN ns) \<longrightarrow> distinct ns)"

lemma fs_wfD:
  assumes "fs_wf fs"
  shows "look fs (l @ [n]) \<noteq> None \<Longrightarrow> \<exists>ns. look fs l = Some (DirN ns) \<and> n \<in> set ns"
    "look fs l = Some (DirN ns) \<Longrightarrow> n \<in> set ns \<Longrightarrow> look fs (l @ [n]) \<noteq> None"
    "look fs l = Some (DirN ns) \<Longrightarrow> n \<in> set ns \<Longrightarrow> plain n"
    "look fs l = Some (DirN ns) \<Longrightarrow> distinct ns"
  using assms unfolding fs_wf_def by blast+

lemma wf_prefix:
  assumes "fs_wf fs" "look fs (l @ m) \<noteq> None" "m \<noteq> []"
  shows "is_dirn (look fs l)"
  using assms(2,3)
proof (induction m rule: rev_induct)
  case (snoc n m)
  have "look fs ((l @ m) @ [n]) \<noteq> None" using snoc.prems by simp
  then obtain ns where "look fs (l @ m) = Some (DirN ns)" using fs_wfD(1)[OF assms(1)] by blast
  then show ?case using snoc.IH by (cases "m = []") (auto simp: is_dirn_def)
qed simp

lemma wf_setn_file:
  assumes "fs_wf fs" "look fs l = Some (FileN f)"
  shows "fs_wf (setn fs l (FileN g))"
proof -
  have "l \<noteq> []" using assms by (auto simp: fs_wf_def is_dirn_def)
  moreover have "look fs (l @ [n]) = None" for n using fs_wfD(1)[OF assms(1), of l n] assms(2) by force
  ultimately show ?thesis using assms unfolding fs_wf_def
    by (auto simp: is_dirn_def split: if_splits)
qed

lemma wf_avail [simp]: "fs_wf (fs\<lparr>avail := a\<rparr>) = fs_wf fs"
  by (simp add: fs_wf_def)

definition leaf :: "node \<Rightarrow> bool" where
  "leaf n \<longleftrightarrow> (case n of DirN ns \<Rightarrow> ns = [] | _ \<Rightarrow> True)"

lemma creatable_NoneD:
  assumes "creatable fs l = None"
  obtains ns where "look fs (butlast l) = Some (DirN ns)" "l \<notin> set (denied fs)"
  using assms by (auto simp: creatable_def split: option.splits node.splits if_splits)

lemma wf_add:
  assumes wf: "fs_wf fs" and new: "look fs l = None" and cr: "creatable fs l = None" and lf: "leaf n"
    and pl: "l \<noteq> []" "plain (last l)"
  shows "fs_wf (setn (add_name fs l) l n)"
proof -
  obtain p q where l: "l = p @ [q]" using pl(1) by (metis append_butlast_last_id)
  obtain ns where ns: "look fs p = Some (DirN ns)" using creatable_NoneD[OF cr] l by auto
  have q: "q \<notin> set ns" "plain q" using fs_wfD(2)[OF wf ns, of q] new l pl by auto
  have lk: "look (setn (add_name fs l) l n) m
      = (if m = l then Some n else if m = p then Some (DirN (ns @ [q])) else look fs m)" for m
    using ns by (auto simp: add_name_def l)
  have nochild: "look fs (l @ [x]) = None" for x
    using fs_wfD(1)[OF wf, of l x] new by (cases "look fs (l @ [x])") auto
  note W = fs_wfD[OF wf]
  show ?thesis
    unfolding fs_wf_def
  proof (intro conjI allI impI)
    show "is_dirn (look (setn (add_name fs l) l n) [])"
      using wf ns pl(1) unfolding lk by (auto simp: fs_wf_def is_dirn_def)
  next
    fix m x assume a: "look (setn (add_name fs l) l n) (m @ [x]) \<noteq> None"
    show "\<exists>ns. look (setn (add_name fs l) l n) m = Some (DirN ns) \<and> x \<in> set ns"
    proof (cases "m @ [x] = l")
      case True
      then show ?thesis using l unfolding lk by auto
    next
      case False
      then have "look fs (m @ [x]) \<noteq> None" using a ns unfolding lk by (auto split: if_splits)
      then obtain ms where ms: "look fs m = Some (DirN ms)" "x \<in> set ms" using W(1) by blast
      then have "m \<noteq> l" using new by auto
      then show ?thesis using ms ns unfolding lk by auto
    qed
  next
    fix m ms x assume a: "look (setn (add_name fs l) l n) m = Some (DirN ms)" "x \<in> set ms"
    then consider "m = l" "n = DirN ms" | "m = p" "m \<noteq> l" "ms = ns @ [q]" | "m \<noteq> p" "m \<noteq> l" "look fs m = Some (DirN ms)"
      unfolding lk by (auto split: if_splits)
    then have "look (setn (add_name fs l) l n) (m @ [x]) \<noteq> None \<and> plain x"
    proof cases
      case 1
      then show ?thesis using lf a(2) by (simp add: leaf_def)
    next
      case 2
      then show ?thesis using a(2) q(2) W(2,3)[OF ns] l unfolding lk by auto
    next
      case 3
      then show ?thesis using a(2) W(2,3)[OF 3(3)] unfolding lk by auto
    qed
    then show "look (setn (add_name fs l) l n) (m @ [x]) \<noteq> None" "plain x" by simp_all
  next
    fix m ms assume "look (setn (add_name fs l) l n) m = Some (DirN ms)"
    then show "distinct ms" using lf W(4) ns q(1) unfolding lk by (auto simp: leaf_def split: if_splits)
  qed
qed

section \<open>What an operation on one path may change\<close>

definition fs_ok :: "fs \<Rightarrow> bool" where
  "fs_ok fs \<longleftrightarrow> fs_wf fs \<and> (\<forall>c \<in> set (cwd fs). plain c)"

definition chg :: "fs \<Rightarrow> fs \<Rightarrow> loc \<Rightarrow> bool" where
  \<comment> \<open>only the file at \<open>P\<close> and directories on the way to it\<close>
  "chg fs fs' P \<longleftrightarrow> (\<forall>l f. l \<noteq> P \<longrightarrow> look fs l = Some (FileN f) \<longrightarrow> look fs' l = Some (FileN f))
     \<and> (\<forall>l. \<not> prefix l P \<longrightarrow> look fs' l = look fs l)
     \<and> (\<forall>l. is_dirn (look fs l) \<longrightarrow> is_dirn (look fs' l))
     \<and> cwd fs' = cwd fs \<and> denied fs' = denied fs \<and> badblk fs' = badblk fs \<and> clock fs' = clock fs
     \<and> (fs_ok fs \<longrightarrow> fs_ok fs')"

lemma chg_refl [simp]: "chg fs fs P"
  by (simp add: chg_def)

lemma chg_trans: "chg a b P \<Longrightarrow> chg b c P \<Longrightarrow> chg a c P"
  unfolding chg_def by (elim conjE, intro conjI, blast, simp, blast, simp, simp, simp, simp, blast)

lemma chgD:
  assumes "chg fs fs' P"
  shows "l \<noteq> P \<Longrightarrow> look fs l = Some (FileN f) \<Longrightarrow> look fs' l = Some (FileN f)"
    "\<not> prefix l P \<Longrightarrow> look fs' l = look fs l" "is_dirn (look fs l) \<Longrightarrow> is_dirn (look fs' l)"
    "cwd fs' = cwd fs" "denied fs' = denied fs" "badblk fs' = badblk fs" "fs_ok fs \<Longrightarrow> fs_ok fs'"
  using assms unfolding chg_def by blast+

lemma split_slash_parts:
  "c \<in> set (split_slash p) \<Longrightarrow> SLASH \<notin> set c \<and> set c \<subseteq> set p"
proof (induction p arbitrary: c)
  case (Cons a p)
  obtain w ws where w: "split_slash p = w # ws" by (cases "split_slash p") auto
  show ?case using Cons.IH[of c] Cons.IH[of w] Cons.prems w by (auto split: if_splits)
qed simp

lemma walk_plain_elems:
  "\<forall>c \<in> set cs. c = ''..'' \<or> plain c \<Longrightarrow> \<forall>c \<in> set l. plain c \<Longrightarrow> \<forall>c \<in> set (walk cs l). plain c"
proof (induction cs arbitrary: l)
  case (Cons c cs)
  have "\<forall>x \<in> set (if c = ''..'' then butlast l else l @ [c]). plain x"
    using Cons.prems by (auto dest: in_set_butlastD)
  then show ?case using Cons by (simp add: walk_def)
qed (simp add: walk_def)

lemma locate_plain:
  assumes "fs_ok fs" "NUL \<notin> set p" "c \<in> set (locate (cwd fs) p)"
  shows "plain c"
proof -
  have "\<forall>c \<in> set (comps p). c = ''..'' \<or> plain c"
    using split_slash_parts assms(2) by (fastforce simp: comps_def plain_def)
  then have wk: "\<forall>x \<in> set (walk (comps p) l). plain x" if "\<forall>x \<in> set l. plain x" for l
    using walk_plain_elems that by blast
  have "\<forall>x \<in> set (locate (cwd fs) p). plain x"
    unfolding locate_def using assms(1) by (intro wk) (auto simp: fs_ok_def split: if_splits)
  then show ?thesis using assms(3) by blast
qed

lemma add_chg:
  assumes "look fs l = None" "creatable fs l = None" "leaf n" "prefix l P" "\<forall>c \<in> set l. plain c"
  shows "chg fs (setn (add_name fs l) l n) P"
proof -
  obtain ns where ns: "look fs (butlast l) = Some (DirN ns)" using creatable_NoneD[OF assms(2)] by blast
  have pb: "prefix (butlast l) P" using assms(4) prefix_order.trans prefixeq_butlast by blast
  have lne: "l \<noteq> []" if "fs_ok fs" using that assms(1) by (auto simp: fs_ok_def fs_wf_def is_dirn_def)
  have "fs_ok (setn (add_name fs l) l n)" if ok: "fs_ok fs"
  proof -
    have "plain (last l)" using lne[OF ok] assms(5) by simp
    then have "fs_wf (setn (add_name fs l) l n)"
      using ok assms(1-3) lne[OF ok] by (intro wf_add) (auto simp: fs_ok_def)
    then show ?thesis using ok ns by (simp add: fs_ok_def add_name_def)
  qed
  then show ?thesis
    unfolding chg_def add_name_def using ns assms(1,4) pb by (auto simp: is_dirn_def split: option.splits node.splits)
qed

lemma set_chg:
  assumes "look fs l = Some (FileN f)" "l = P"
  shows "chg fs (setn fs l (FileN g)) P"
  using assms wf_setn_file[OF _ assms(1), of g]
  by (auto simp: chg_def fs_ok_def is_dirn_def split: option.splits node.splits)

lemma avail_chg [simp]: "chg fs (fs\<lparr>avail := a\<rparr>) P"
  by (simp add: chg_def fs_ok_def)

lemma mkdir_chg:
  assumes "sys_mkdir fs p = (r, fs')" "fs_ok fs" "NUL \<notin> set p" "prefix (locate (cwd fs) p) P"
  shows "chg fs fs' P"
proof -
  let ?l = "locate (cwd fs) p"
  have "\<forall>c \<in> set ?l. plain c" using locate_plain[OF assms(2,3)] by blast
  then show ?thesis
    using assms(1,4) add_chg[of fs ?l "DirN []" P]
    by (auto simp: sys_mkdir_def Let_def leaf_def split: if_splits option.splits)
qed

lemma mkdir_dir:
  assumes "sys_mkdir fs p = (r, fs')" "r = None \<or> r = Some E_EXIST"
  shows "look fs' (locate (cwd fs) p) \<noteq> None"
  using assms by (auto simp: sys_mkdir_def creatable_def Let_def split: if_splits option.splits node.splits)

lemma open_wr_chg:
  assumes "sys_open_wr fs p = Some (d, fs')" "fs_ok fs" "NUL \<notin> set p" "P = locate (cwd fs) p"
  shows "chg fs fs' P" "d = P" "\<exists>f. look fs' P = Some (FileN f) \<and> content f = []" "P \<notin> set (denied fs)"
proof -
  have pl: "\<forall>c \<in> set P. plain c" using locate_plain[OF assms(2,3)] assms(4) by blast
  show "d = P" "\<exists>f. look fs' P = Some (FileN f) \<and> content f = []" "P \<notin> set (denied fs)"
    using assms(1,4) by (auto simp: sys_open_wr_def Let_def new_file_def creatable_def
        split: if_splits option.splits node.splits)
  show "chg fs fs' P"
  proof (cases "look fs P")
    case None
    then have "creatable fs P = None" "fs' = setn (add_name fs P) P (FileN (new_file (clock fs)))"
      using assms(1,4) by (auto simp: sys_open_wr_def Let_def split: if_splits option.splits)
    then show ?thesis using None pl add_chg[of fs P "FileN (new_file (clock fs))" P] by (simp add: leaf_def)
  next
    case (Some n)
    then obtain f where f: "n = FileN f" "fs' = setn fs P (FileN (f\<lparr>content := [], mtime := clock fs\<rparr>))"
      using assms(1,4) by (auto simp: sys_open_wr_def Let_def split: if_splits node.splits)
    then show ?thesis using Some set_chg[of fs P f P] by simp
  qed
qed

lemma write_chg:
  assumes "sys_write fs P s = (n, fs')"
  shows "chg fs fs' P"
proof (cases "\<exists>f. look fs P = Some (FileN f)")
  case True
  then obtain f where f: "look fs P = Some (FileN f)" by blast
  have "chg (fs\<lparr>avail := a\<rparr>) (setn (fs\<lparr>avail := a\<rparr>) P (FileN g)) P" for a g
    using f by (intro set_chg) simp_all
  then show ?thesis using assms f avail_chg chg_trans
    unfolding sys_write_def by (auto simp: Let_def) (metis avail_chg chg_trans)
next
  case False
  then show ?thesis using assms by (auto simp: sys_write_def split: option.splits node.splits)
qed

lemma utimes_chg: "sys_utimes fs p a m = (b, fs') \<Longrightarrow> P = locate (cwd fs) p \<Longrightarrow> chg fs fs' P"
  using set_chg by (auto simp: sys_utimes_def Let_def split: if_splits option.splits node.splits)

lemma chmod_chg: "sys_chmod fs p m = (b, fs') \<Longrightarrow> P = locate (cwd fs) p \<Longrightarrow> chg fs fs' P"
  using set_chg by (auto simp: sys_chmod_def Let_def split: if_splits option.splits node.splits)

definition chg_dir :: "fs \<Rightarrow> fs \<Rightarrow> loc \<Rightarrow> bool" where
  \<comment> \<open>only files below \<open>D\<close>, and directories below it or on the way to it\<close>
  "chg_dir fs fs' D \<longleftrightarrow> (\<forall>l f. \<not> prefix D l \<longrightarrow> look fs l = Some (FileN f) \<longrightarrow> look fs' l = Some (FileN f))
     \<and> (\<forall>l. \<not> prefix l D \<longrightarrow> \<not> prefix D l \<longrightarrow> look fs' l = look fs l)
     \<and> cwd fs' = cwd fs \<and> (fs_ok fs \<longrightarrow> fs_ok fs')"

lemma chg_dir_refl [simp]: "chg_dir fs fs D"
  by (simp add: chg_dir_def)

lemma chg_dir_trans: "chg_dir a b D \<Longrightarrow> chg_dir b c D \<Longrightarrow> chg_dir a c D"
  unfolding chg_dir_def by (elim conjE, intro conjI, blast, simp, simp, blast)

lemma chg_dirD:
  assumes "chg_dir fs fs' D"
  shows "\<not> prefix D l \<Longrightarrow> look fs l = Some (FileN f) \<Longrightarrow> look fs' l = Some (FileN f)"
    "\<not> prefix l D \<Longrightarrow> \<not> prefix D l \<Longrightarrow> look fs' l = look fs l" "cwd fs' = cwd fs" "fs_ok fs \<Longrightarrow> fs_ok fs'"
  using assms unfolding chg_dir_def by blast+

lemma chg_sub:
  assumes "chg fs fs' P" "prefix D P"
  shows "chg_dir fs fs' D"
proof -
  have "\<not> prefix l D \<Longrightarrow> \<not> prefix D l \<Longrightarrow> \<not> prefix l P" for l
    using assms(2) prefix_same_cases by blast
  moreover have "\<not> prefix D l \<Longrightarrow> l \<noteq> P" for l using assms(2) by blast
  ultimately show ?thesis using assms(1) unfolding chg_dir_def chg_def by metis
qed

lemma chg_dir_sub:
  assumes "chg_dir fs fs' E" "prefix D E"
  shows "chg_dir fs fs' D"
proof -
  have "\<not> prefix l D \<Longrightarrow> \<not> prefix D l \<Longrightarrow> \<not> prefix l E \<and> \<not> prefix E l" for l
    using assms(2) prefix_same_cases prefix_order.trans by blast
  moreover have "\<not> prefix D l \<Longrightarrow> \<not> prefix E l" for l using assms(2) prefix_order.trans by blast
  ultimately show ?thesis using assms(1) unfolding chg_dir_def by metis
qed

definition apart :: "loc \<Rightarrow> loc \<Rightarrow> bool" where
  \<comment> \<open>neither tree contains the other\<close>
  "apart S D \<longleftrightarrow> \<not> prefix S D \<and> \<not> prefix D S"

lemma apart_below: "apart S D \<Longrightarrow> apart (S @ s) (D @ d)"
  by (auto simp: apart_def prefix_def append_eq_append_conv2)

lemma apart_below1: "apart S D \<Longrightarrow> apart S (D @ d)"
  using apart_below[of S D "[]" d] by simp

lemma apart_chg: "chg_dir fs fs' D \<Longrightarrow> apart S D \<Longrightarrow> look fs' (S @ s) = look fs (S @ s)"
  using apart_below[of S D s "[]"] chg_dirD(2) by (auto simp: apart_def)

section \<open>Ancestors of a path\<close>

definition no_dd :: "string \<Rightarrow> bool" where
  "no_dd p \<longleftrightarrow> ''..'' \<notin> set (comps p)"

lemma comps_append: "comps (p @ SLASH # q) = comps p @ comps q"
  by (simp add: comps_def split_slash_append)

lemma comps_Nil [simp]: "comps [] = []"
  by (simp add: comps_def)

lemma locate_no_dd: "no_dd p \<Longrightarrow> locate cw p = (if p \<noteq> [] \<and> hd p = SLASH then [] else cw) @ comps p"
  unfolding locate_def by (rule walk_plain) (auto simp: no_dd_def)

lemma no_dd_append: "no_dd (p @ SLASH # q) \<longleftrightarrow> no_dd p \<and> no_dd q"
  by (auto simp: no_dd_def comps_append)

lemma locate_up:
  assumes "p \<noteq> []" "no_dd (p @ SLASH # q)"
  shows "prefix (locate cw p) (locate cw (p @ SLASH # q))"
  using assms locate_no_dd[of p cw] locate_no_dd[OF assms(2), of cw]
  by (auto simp: no_dd_append comps_append prefix_def)

lemma comps_slashes: "\<forall>c \<in> set t. c = SLASH \<Longrightarrow> comps (s @ t) = comps s"
proof (induction t arbitrary: s)
  case (Cons c t)
  then have "comps ([] @ t) = []" using Cons.IH[of "[]"] by simp
  then show ?case using Cons.prems by (simp add: comps_append)
qed simp

definition rstrip :: "string \<Rightarrow> string" where
  "rstrip s = rev (dropWhile (\<lambda>c. c = SLASH) (rev s))"

lemma rstrip_split: "\<exists>t. s = rstrip s @ t \<and> (\<forall>c \<in> set t. c = SLASH)"
proof -
  have "s = rev (dropWhile (\<lambda>c. c = SLASH) (rev s)) @ rev (takeWhile (\<lambda>c. c = SLASH) (rev s))"
    by (metis rev_append rev_rev_ident takeWhile_dropWhile_id)
  then show ?thesis unfolding rstrip_def by (metis (full_types) set_rev set_takeWhileD)
qed

lemma comps_rstrip [simp]: "comps (rstrip s) = comps s"
  using rstrip_split[of s] comps_slashes by metis

definition dirname_buf :: "string \<Rightarrow> string" where
  \<comment> \<open>what a buffer holds after \<open>dirname\<close>: cut in place at the last slash; without a slash the result
     is a constant elsewhere and the buffer keeps the path\<close>
  "dirname_buf s = (let t = rstrip s in
     if t = [] then (if s = [] then [] else [SLASH])
     else if SLASH \<notin> set t then s
     else let d = rstrip (rev (dropWhile (\<lambda>c. c \<noteq> SLASH) (rev t))) in if d = [] then [SLASH] else d)"

lemma dirname_buf_up:
  assumes "p \<noteq> []" "no_dd p"
  shows "prefix (locate cw (dirname_buf p)) (locate cw p)" "no_dd (dirname_buf p)" "dirname_buf p \<noteq> []"
    "set (dirname_buf p) \<subseteq> insert SLASH (set p)"
proof -
  let ?t = "rstrip p"
  let ?u = "rev (dropWhile (\<lambda>c. c \<noteq> SLASH) (rev ?t))"
  have sub: "set (rstrip q) \<subseteq> set q" for q using rstrip_split[of q] by (metis Un_iff set_append subsetI)
  have "prefix (locate cw (dirname_buf p)) (locate cw p) \<and> no_dd (dirname_buf p) \<and> dirname_buf p \<noteq> []
     \<and> set (dirname_buf p) \<subseteq> insert SLASH (set p)"
  proof (cases "?t = []")
    case True
    have "comps p = []" using comps_rstrip[of p] True by simp
    moreover have "hd p = SLASH" using rstrip_split[of p] True assms(1) by (cases p) auto
    moreover have "comps [SLASH] = []" using comps_append[of "[]" "[]"] by simp
    ultimately show ?thesis using assms True by (simp add: dirname_buf_def locate_no_dd no_dd_def)
  next
    case t: False
    show ?thesis
    proof (cases "SLASH \<in> set ?t")
      case False
      then show ?thesis using assms t by (auto simp: dirname_buf_def Let_def)
    next
      case True
      obtain v w where vw: "?t = v @ SLASH # w" "SLASH \<notin> set w" using split_list_last[OF True] by blast
      have "\<forall>x \<in> set (rev w). x \<noteq> SLASH" using vw(2) by auto
      then have "dropWhile (\<lambda>c. c \<noteq> SLASH) (rev w @ SLASH # rev v) = SLASH # rev v"
        by (subst dropWhile_append2) auto
      then have u: "?u = v @ [SLASH]" using vw(1) by simp
      have cu: "comps (rstrip ?u) = comps v" unfolding u by (simp add: comps_append)
      have ct: "comps p = comps v @ comps w" using comps_rstrip[of p] vw(1) comps_append by metis
      let ?d = "rstrip ?u"
      have hp: "?d \<noteq> [] \<Longrightarrow> hd p = hd ?d"
      proof -
        assume ne: "?d \<noteq> []"
        obtain r where "v @ [SLASH] = ?d @ r" using rstrip_split[of ?u] u by metis
        moreover obtain r2 where "p = ?t @ r2" using rstrip_split[of p] by blast
        ultimately have "p = ?d @ r @ w @ r2" using vw(1) by (metis append.assoc append_Cons append_Nil)
        then show ?thesis using ne by (metis hd_append2)
      qed
      have hs: "?d = [] \<Longrightarrow> hd p = SLASH"
      proof -
        assume e: "?d = []"
        have "\<forall>c \<in> set (v @ [SLASH]). c = SLASH" using rstrip_split[of ?u] e u by (metis append_Nil)
        then have "hd ?t = SLASH" using vw(1) by (cases v) auto
        then show ?thesis using rstrip_split[of p] t by (metis hd_append2)
      qed
      have "set (rstrip (v @ [SLASH])) \<subseteq> set p" using sub[of "v @ [SLASH]"] sub[of p] vw(1) by auto
      then have "set ?d \<subseteq> set p" unfolding u .
      moreover have "comps [SLASH] = []" using comps_append[of "[]" "[]"] by simp
      ultimately show ?thesis
        using assms t True hp hs cu ct
        by (cases "?d = []") (auto simp: dirname_buf_def Let_def locate_no_dd no_dd_def)
    qed
  qed
  then show "prefix (locate cw (dirname_buf p)) (locate cw p)" "no_dd (dirname_buf p)" "dirname_buf p \<noteq> []"
    "set (dirname_buf p) \<subseteq> insert SLASH (set p)" by blast+
qed

lemma rstrip_length: "length (rstrip s) \<le> length s"
proof -
  obtain t where "s = rstrip s @ t" using rstrip_split by blast
  then have "length s = length (rstrip s) + length t" by (metis length_append)
  then show ?thesis by simp
qed

lemma dirname_buf_length: "p \<noteq> [] \<Longrightarrow> length (dirname_buf p) \<le> length p"
proof -
  assume ne: "p \<noteq> []"
  let ?u = "rev (dropWhile (\<lambda>c. c \<noteq> SLASH) (rev (rstrip p)))"
  have "length ?u \<le> length (rstrip p)" using length_dropWhile_le[of _ "rev (rstrip p)"] by simp
  then have "length (rstrip ?u) \<le> length p" using rstrip_length[of ?u] rstrip_length[of p] by linarith
  then show ?thesis using ne by (cases p) (auto simp: dirname_buf_def Let_def)
qed

section \<open>Making a directory and its ancestors\<close>

datatype sync_err =
    NoFuel    \<comment> \<open>the loop has not ended within its fuel\<close>
  | BadMem    \<comment> \<open>an access outside a buffer\<close>

definition slash_prefixes :: "string \<Rightarrow> string list" where
  \<comment> \<open>the prefixes before each slash but a first one\<close>
  "slash_prefixes s = map (\<lambda>i. take i s) (filter (\<lambda>i. s ! i = SLASH) [1..<length s])"

fun mkdirs :: "fs \<Rightarrow> string list \<Rightarrow> bool \<times> fs" where
  "mkdirs fs [] = (True, fs)"
| "mkdirs fs (p # ps) = (case sys_mkdir fs p of
      (None, fs1) \<Rightarrow> mkdirs fs1 ps
    | (Some e, fs1) \<Rightarrow> if e = E_EXIST then mkdirs fs1 ps else (False, fs1))"

definition make_path :: "nat \<Rightarrow> fs \<Rightarrow> string \<Rightarrow> sync_err + (bool \<times> fs)" where
  "make_path sz fs path =
     (let tmp = snprintf_path sz path in
      if tmp = [] then Inl BadMem
      else let tmp1 = (if last tmp = SLASH then butlast tmp else tmp) in
        Inr (mkdirs fs (slash_prefixes tmp1 @ [tmp1])))"

lemma mkdirs_chg:
  assumes "mkdirs fs ps = (b, fs')" "fs_ok fs" "\<forall>p \<in> set ps. NUL \<notin> set p \<and> (p \<noteq> [] \<longrightarrow> prefix (locate (cwd fs) p) P)"
  shows "chg fs fs' P"
  using assms
proof (induction ps arbitrary: fs)
  case (Cons p ps)
  obtain r fs1 where m: "sys_mkdir fs p = (r, fs1)" by (cases "sys_mkdir fs p")
  have c: "chg fs fs1 P"
  proof (cases "p = []")
    case True
    then show ?thesis using m by (simp add: sys_mkdir_def Let_def)
  next
    case False
    then show ?thesis using mkdir_chg[OF m Cons.prems(2)] Cons.prems(3) by simp
  qed
  have "chg fs1 fs' P" if "mkdirs fs1 ps = (b, fs')"
    using Cons.IH[OF that chgD(7)[OF c Cons.prems(2)]] Cons.prems(3) chgD(4)[OF c] by simp
  then show ?case using Cons.prems(1) m c chg_trans by (auto split: option.splits if_splits)
qed simp

lemma slash_prefixesD: "q \<in> set (slash_prefixes s) \<Longrightarrow> q \<noteq> [] \<and> (\<exists>r. s = q @ SLASH # r)"
proof -
  assume "q \<in> set (slash_prefixes s)"
  then obtain i where i: "q = take i s" "s ! i = SLASH" "1 \<le> i" "i < length s" by (auto simp: slash_prefixes_def)
  then have "s = q @ SLASH # drop (Suc i) s" using id_take_nth_drop[of i s] by simp
  then show ?thesis using i by (auto simp: take_eq_Nil)
qed

lemma make_path_chg:
  assumes "make_path sz fs path = Inr (b, fs')" "fs_ok fs" "NUL \<notin> set path" "no_dd path" "length path < sz"
    "prefix (locate (cwd fs) path) P"
  shows "chg fs fs' P"
proof -
  define t where "t = (if last path = SLASH then butlast path else path)"
  have ne: "path \<noteq> []" and m: "mkdirs fs (slash_prefixes t @ [t]) = (b, fs')"
    using assms(1,5) by (auto simp: make_path_def Let_def t_def split: if_splits)
  have tp: "path = t \<or> path = t @ [SLASH]" using ne by (auto simp: t_def) (metis append_butlast_last_id)
  then have nul: "NUL \<notin> set t" and nd: "no_dd t" using assms(3,4) no_dd_append[of t "[]"] by auto
  have up: "t \<noteq> [] \<Longrightarrow> prefix (locate (cwd fs) t) P"
    using tp assms(6) locate_up[of t "[]" "cwd fs"] assms(4) prefix_order.trans by auto
  show ?thesis
  proof (rule mkdirs_chg[OF m assms(2)], rule ballI)
    fix q assume "q \<in> set (slash_prefixes t @ [t])"
    then consider "q = t" | r where "q \<noteq> []" "t = q @ SLASH # r" using slash_prefixesD by auto
    then show "NUL \<notin> set q \<and> (q \<noteq> [] \<longrightarrow> prefix (locate (cwd fs) q) P)"
    proof cases
      case 1
      then show ?thesis using nul up by simp
    next
      case 2
      then show ?thesis using nul up locate_up[OF 2(1), of r "cwd fs"] nd prefix_order.trans by auto
    qed
  qed
qed

end
