(* ===== verification/RsyncSimple.thy ===== *)
theory RsyncSimple
  imports Fs
begin

text \<open>
  \<open>rsync_task/simple_rsync.c\<close>: the synchroniser that copies a tree file by file. Each function takes
  the file system and returns the C result with the new file system; messages are left out.
  The main property is that a run over a directory that returns 0 has mirrored every regular file.
\<close>

section \<open>The program\<close>

definition SR_BUFFER_SIZE :: nat where "SR_BUFFER_SIZE = 4096"
definition SR_MAX_PATH_LEN :: nat where "SR_MAX_PATH_LEN = 1024"

record sync_options_t =
  sr_verbose :: bool
  sr_dry_run :: bool

definition file_len :: "fs \<Rightarrow> loc \<Rightarrow> nat" where
  "file_len fs l = (case look fs l of Some (FileN f) \<Rightarrow> length (content f) | _ \<Rightarrow> 0)"

fun sr_copy_loop :: "nat \<Rightarrow> fs \<Rightarrow> loc \<Rightarrow> loc \<Rightarrow> nat \<Rightarrow> sync_err + (int \<times> fs)" where
  "sr_copy_loop 0 fs src_fd dst_fd pos = Inl NoFuel"
| "sr_copy_loop (Suc fuel) fs src_fd dst_fd pos =
     (case sys_read fs src_fd pos SR_BUFFER_SIZE of
        None \<Rightarrow> Inr (-1, fs)
      | Some buffer \<Rightarrow>
          if buffer = [] then Inr (0, fs)
          else let (bytes_written, fs1) = sys_write fs dst_fd buffer in
            if bytes_written \<noteq> length buffer then Inr (-1, fs1)
            else sr_copy_loop fuel fs1 src_fd dst_fd (pos + length buffer))"

definition copy_file_data :: "fs \<Rightarrow> string \<Rightarrow> string \<Rightarrow> sync_err + (int \<times> fs)" where
  "copy_file_data fs src_path dst_path =
     (case sys_open_rd fs src_path of
        None \<Rightarrow> Inr (-1, fs)
      | Some src_fd \<Rightarrow>
          (case sys_open_wr fs dst_path of
             None \<Rightarrow> Inr (-1, fs)
           | Some (dst_fd, fs1) \<Rightarrow> sr_copy_loop (Suc (file_len fs1 src_fd)) fs1 src_fd dst_fd 0))"

definition copy_file_attributes :: "fs \<Rightarrow> string \<Rightarrow> string \<Rightarrow> int \<times> fs" where
  \<comment> \<open>\<open>chown\<close> gives the owner of the caller or fails with \<open>EPERM\<close>, which the code ignores\<close>
  "copy_file_attributes fs src_path dst_path =
     (case sys_stat fs src_path of
        Some (FileN st) \<Rightarrow>
          (let (ok1, fs1) = sys_chmod fs dst_path (fmode st) in
           if \<not> ok1 then (-1, fs1)
           else let (ok2, fs2) = sys_utimes fs1 dst_path (atime st) (mtime st) in
             if \<not> ok2 then (-1, fs2) else (0, fs2))
      | _ \<Rightarrow> (-1, fs))"

fun sr_compare_loop :: "nat \<Rightarrow> fs \<Rightarrow> loc \<Rightarrow> loc \<Rightarrow> nat \<Rightarrow> sync_err + bool" where
  \<comment> \<open>two failed reads compare as equal lengths; \<open>memcmp\<close> then gets the length -1\<close>
  "sr_compare_loop 0 fs fd1 fd2 pos = Inl NoFuel"
| "sr_compare_loop (Suc fuel) fs fd1 fd2 pos =
     (case (sys_read fs fd1 pos SR_BUFFER_SIZE, sys_read fs fd2 pos SR_BUFFER_SIZE) of
        (None, None) \<Rightarrow> Inl BadMem
      | (Some buf1, Some buf2) \<Rightarrow>
          if length buf1 \<noteq> length buf2 then Inr False
          else if buf1 = [] then Inr True
          else if buf1 \<noteq> buf2 then Inr False
          else sr_compare_loop fuel fs fd1 fd2 (pos + length buf1)
      | _ \<Rightarrow> Inr False)"

definition files_are_identical :: "fs \<Rightarrow> string \<Rightarrow> string \<Rightarrow> sync_err + bool" where
  "files_are_identical fs file1 file2 =
     (case (sys_stat fs file1, sys_stat fs file2) of
        (Some (FileN stat1), Some (FileN stat2)) \<Rightarrow>
          if length (content stat1) \<noteq> length (content stat2) then Inr False
          else if mtime stat1 = mtime stat2 then Inr True
          else (case (sys_open_rd fs file1, sys_open_rd fs file2) of
              (Some fd1, Some fd2) \<Rightarrow> sr_compare_loop (Suc (file_len fs fd1)) fs fd1 fd2 0
            | _ \<Rightarrow> Inr False)
      | _ \<Rightarrow> Inr False)"

definition create_directory_recursive :: "fs \<Rightarrow> string \<Rightarrow> sync_err + (int \<times> fs)" where
  "create_directory_recursive fs path =
     bindE (make_path SR_MAX_PATH_LEN fs path) (\<lambda>(ok, fs1). Inr (if ok then 0 else -1, fs1))"

definition sr_sync_file :: "fs \<Rightarrow> string \<Rightarrow> string \<Rightarrow> sync_options_t \<Rightarrow> sync_err + (int \<times> fs)" where
  "sr_sync_file fs src_path dst_path options =
     (if sys_stat fs src_path = None then Inr (-1, fs)
      else bindE (if sys_stat fs dst_path \<noteq> None then files_are_identical fs src_path dst_path else Inr False)
        (\<lambda>identical.
          if identical then Inr (0, fs)
          else if sr_dry_run options then Inr (0, fs)
          else if length dst_path \<ge> SR_MAX_PATH_LEN then Inl BadMem
          else bindE (create_directory_recursive fs (dirname_buf dst_path)) (\<lambda>(r1, fs1).
            if r1 = -1 then Inr (-1, fs1)
            else bindE (copy_file_data fs1 src_path dst_path) (\<lambda>(r2, fs2).
              if r2 = -1 then Inr (-1, fs2)
              else let (r3, fs3) = copy_file_attributes fs2 src_path dst_path in
                Inr (if r3 = -1 then -1 else 0, fs3)))))"

fun each_entry :: "(fs \<Rightarrow> string \<Rightarrow> sync_err + (int \<times> fs)) \<Rightarrow> fs \<Rightarrow> string list \<Rightarrow> sync_err + (int \<times> fs)" where
  \<comment> \<open>the \<open>readdir\<close> loop of \<open>sync_directory\<close>\<close>
  "each_entry body fs [] = Inr (0, fs)"
| "each_entry body fs (d_name # rest) =
     (if d_name = ''.'' \<or> d_name = ''..'' then each_entry body fs rest
      else bindE (body fs d_name) (\<lambda>(r, fs1). if r = -1 then Inr (-1, fs1) else each_entry body fs1 rest))"

lemma each_entry_cong [fundef_cong]:
  "fs = fs' \<Longrightarrow> ns = ns' \<Longrightarrow> (\<And>f n. n \<in> set ns' \<Longrightarrow> b f n = b' f n) \<Longrightarrow> each_entry b fs ns = each_entry b' fs' ns'"
proof (induction ns arbitrary: fs fs' ns')
  case (Cons n ns)
  then show ?case by (auto intro!: bindE_cong split: prod.splits)
qed simp

fun sr_sync_directory :: "nat \<Rightarrow> fs \<Rightarrow> string \<Rightarrow> string \<Rightarrow> sync_options_t \<Rightarrow> sync_err + (int \<times> fs)" where
  "sr_sync_directory 0 fs src_dir dst_dir options = Inl NoFuel"
| "sr_sync_directory (Suc fuel) fs src_dir dst_dir options =
     (case sys_readdir fs src_dir of
        None \<Rightarrow> Inr (-1, fs)
      | Some entries \<Rightarrow> each_entry (\<lambda>fs d_name.
          let src_path = snprintf_path SR_MAX_PATH_LEN (src_dir @ SLASH # d_name);
              dst_path = snprintf_path SR_MAX_PATH_LEN (dst_dir @ SLASH # d_name) in
          case sys_stat fs src_path of
            None \<Rightarrow> Inr (0, fs)
          | Some (DirN _) \<Rightarrow> sr_sync_directory fuel fs src_path dst_path options
          | Some (FileN _) \<Rightarrow> sr_sync_file fs src_path dst_path options
          | Some OtherN \<Rightarrow> Inr (0, fs)) fs entries)"

definition fs_depth :: "fs \<Rightarrow> nat" where
  \<comment> \<open>more than the number of levels of the tree\<close>
  "fs_depth fs = Suc (Max (set (0 # map (length \<circ> fst) (nodes fs))))"

fun sr_options :: "char list \<Rightarrow> sync_options_t \<Rightarrow> int + sync_options_t" where
  \<comment> \<open>the \<open>getopt\<close> loop of \<open>main\<close> over the option letters it is given; \<open>Inl\<close> is an exit status\<close>
  "sr_options [] options = Inr options"
| "sr_options (opt # opts) options =
     (if opt = CHR ''v'' then sr_options opts (options\<lparr>sr_verbose := True\<rparr>)
      else if opt = CHR ''n'' then sr_options opts (options\<lparr>sr_dry_run := True\<rparr>)
      else if opt = CHR ''h'' then Inl 0
      else Inl 1)"

definition sr_main :: "fs \<Rightarrow> char list \<Rightarrow> string list \<Rightarrow> sync_err + (int \<times> fs)" where
  \<comment> \<open>\<open>main\<close>: the option letters found by \<open>getopt\<close> and the operands after them\<close>
  "sr_main fs opts operands =
     (case sr_options opts \<lparr>sr_verbose = False, sr_dry_run = False\<rparr> of
        Inl status \<Rightarrow> Inr (status, fs)
      | Inr options \<Rightarrow>
          (case operands of
             [source, destination] \<Rightarrow>
               (case sys_stat fs source of
                  None \<Rightarrow> Inr (1, fs)
                | Some (DirN _) \<Rightarrow>
                    bindE (sr_sync_directory (fs_depth fs) fs source destination options) (\<lambda>(r, fs1).
                      Inr (if r = -1 then 1 else 0, fs1))
                | Some (FileN _) \<Rightarrow>
                    bindE (sr_sync_file fs source destination options) (\<lambda>(r, fs1).
                      Inr (if r = -1 then 1 else 0, fs1))
                | Some OtherN \<Rightarrow> Inr (1, fs))
           | _ \<Rightarrow> Inr (1, fs)))"

section \<open>Copying one file\<close>

lemma sys_read_cases:
  assumes "look fs l = Some (FileN f)" "0 < n"
  shows "sys_read fs l off n = None \<or> (sys_read fs l off n = Some [] \<and> length (content f) \<le> off)
    \<or> (\<exists>c. sys_read fs l off n = Some c \<and> c \<noteq> [] \<and> c = take (length c) (drop off (content f))
          \<and> off + length c \<le> length (content f))"
proof (cases "length (content f) \<le> off")
  case True
  then show ?thesis using assms by (auto simp: sys_read_def split: option.splits)
next
  case False
  show ?thesis
  proof (cases "map_of (badblk fs) l")
    case None
    let ?c = "take n (drop off (content f))"
    have "sys_read fs l off n = Some ?c" using None assms by (simp add: sys_read_def)
    moreover have "?c \<noteq> []" "?c = take (length ?c) (drop off (content f))" "off + length ?c \<le> length (content f)"
      using False assms(2) by (auto simp: min_def)
    ultimately show ?thesis by blast
  next
    case (Some k)
    let ?c = "take (min n (k - off)) (drop off (content f))"
    show ?thesis
    proof (cases "k \<le> off")
      case True
      then show ?thesis using Some False assms by (simp add: sys_read_def)
    next
      case lt: False
      then have "sys_read fs l off n = Some ?c" using Some False assms by (simp add: sys_read_def)
      moreover have "?c \<noteq> []" "?c = take (length ?c) (drop off (content f))" "off + length ?c \<le> length (content f)"
        using False lt assms(2) by (auto simp: min_def)
      ultimately show ?thesis by blast
    qed
  qed
qed

lemma sys_write_file:
  assumes "look fs l = Some (FileN g)" "sys_write fs l s = (length s, fs')"
  shows "\<exists>g'. look fs' l = Some (FileN g') \<and> content g' = content g @ s"
  using assms by (auto simp: sys_write_def Let_def)

lemma sr_copy_loop_spec:
  assumes "look fs s = Some (FileN f)" "look fs d = Some (FileN g)" "s \<noteq> d"
    "content g = take pos (content f)" "pos \<le> length (content f)" "length (content f) - pos < fuel"
  shows "\<exists>r fs'. sr_copy_loop fuel fs s d pos = Inr (r, fs') \<and> chg fs fs' d \<and> (r = 0 \<or> r = -1)
    \<and> (\<exists>g'. look fs' d = Some (FileN g') \<and> (r = 0 \<longrightarrow> content g' = content f))"
  using assms
proof (induction fuel arbitrary: fs g pos)
  case (Suc fuel)
  have B: "0 < SR_BUFFER_SIZE" by (simp add: SR_BUFFER_SIZE_def)
  consider "sys_read fs s pos SR_BUFFER_SIZE = None"
    | "sys_read fs s pos SR_BUFFER_SIZE = Some []" "length (content f) \<le> pos"
    | c where "sys_read fs s pos SR_BUFFER_SIZE = Some c" "c \<noteq> []" "c = take (length c) (drop pos (content f))"
        "pos + length c \<le> length (content f)"
    using sys_read_cases[OF Suc.prems(1) B, where off = pos] by metis
  then show ?case
  proof cases
    case 1
    then show ?thesis using Suc.prems by simp
  next
    case 2
    then show ?thesis using Suc.prems by simp
  next
    case 3
    obtain w fs1 where w: "sys_write fs d c = (w, fs1)" by (cases "sys_write fs d c")
    have ch: "chg fs fs1 d" by (rule write_chg[OF w])
    have f1: "look fs1 s = Some (FileN f)" by (rule chgD(1)[OF ch Suc.prems(3,1)])
    show ?thesis
    proof (cases "w = length c")
      case False
      have "\<exists>g'. look fs1 d = Some (FileN g')" using w Suc.prems(2) by (auto simp: sys_write_def Let_def)
      then show ?thesis using 3(1,2) w False ch by auto
    next
      case True
      obtain g' where g': "look fs1 d = Some (FileN g')" "content g' = content g @ c"
        using sys_write_file[OF Suc.prems(2)] w True by auto
      have "content g' = take (pos + length c) (content f)"
        using g'(2) Suc.prems(4,5) 3(3) by (metis take_add)
      moreover have "0 < length c" "length (content f) - (pos + length c) < fuel"
        using 3(2,4) Suc.prems(6) length_greater_0_conv[of c] by linarith+
      ultimately obtain r fs' where "sr_copy_loop fuel fs1 s d (pos + length c) = Inr (r, fs')" "chg fs1 fs' d" "r = 0 \<or> r = -1"
        "\<exists>g'. look fs' d = Some (FileN g') \<and> (r = 0 \<longrightarrow> content g' = content f)"
        using Suc.IH[OF f1 g'(1) Suc.prems(3), of "pos + length c"] 3(4) by auto
      then show ?thesis using 3(1,2) w True chg_trans[OF ch] by auto
    qed
  qed
qed simp

lemma open_rd_loc: "sys_open_rd fs p = Some s \<Longrightarrow> s = locate (cwd fs) p \<and> look fs s \<noteq> None"
  by (auto simp: sys_open_rd_def Let_def split: if_splits)

lemma copy_file_data_spec:
  assumes "fs_ok fs" "NUL \<notin> set dst" "P = locate (cwd fs) dst" "S = locate (cwd fs) src" "S \<noteq> P"
    "look fs S = Some (FileN f)"
  shows "\<exists>r fs'. copy_file_data fs src dst = Inr (r, fs') \<and> chg fs fs' P \<and> (r = 0 \<or> r = -1)
    \<and> (r = 0 \<longrightarrow> (\<exists>g. look fs' P = Some (FileN g) \<and> content g = content f))"
proof (cases "sys_open_rd fs src")
  case None
  then show ?thesis by (simp add: copy_file_data_def)
next
  case (Some s)
  then have s: "s = S" using open_rd_loc assms(4) by blast
  show ?thesis
  proof (cases "sys_open_wr fs dst")
    case None
    then show ?thesis using Some by (simp add: copy_file_data_def)
  next
    case w: (Some df)
    obtain d fs1 where d: "df = (d, fs1)" by (cases df)
    note o = open_wr_chg[OF w[unfolded d] assms(1,2,3)]
    obtain g where g: "look fs1 P = Some (FileN g)" "content g = []" using o(3) by blast
    have f1: "look fs1 S = Some (FileN f)" by (rule chgD(1)[OF o(1) assms(5,6)])
    have "length (content f) - 0 < Suc (file_len fs1 S)" using f1 by (simp add: file_len_def)
    from sr_copy_loop_spec[OF f1 g(1) assms(5) _ _ this] g(2)
    obtain r fs' where "sr_copy_loop (Suc (file_len fs1 S)) fs1 S P 0 = Inr (r, fs')" "chg fs1 fs' P" "r = 0 \<or> r = -1"
      "\<exists>g'. look fs' P = Some (FileN g') \<and> (r = 0 \<longrightarrow> content g' = content f)" by auto
    then show ?thesis using Some w d s o(1,2) chg_trans by (auto simp: copy_file_data_def)
  qed
qed

section \<open>One file\<close>

definition synced :: "fdata \<Rightarrow> node option \<Rightarrow> bool" where
  \<comment> \<open>what the program takes for a copy: the same bytes, or the same size and modification time\<close>
  "synced f n \<longleftrightarrow> (\<exists>g. n = Some (FileN g) \<and> length (content g) = length (content f)
     \<and> (content g = content f \<or> mtime g = mtime f))"

lemma sr_compare_loop_spec:
  assumes "look fs a = Some (FileN f)" "look fs b = Some (FileN g)" "length (content f) = length (content g)"
    "take pos (content f) = take pos (content g)" "length (content f) - pos < fuel"
  shows "sr_compare_loop fuel fs a b pos \<noteq> Inl NoFuel"
    "sr_compare_loop fuel fs a b pos = Inr True \<Longrightarrow> content f = content g"
proof -
  have "sr_compare_loop fuel fs a b pos \<noteq> Inl NoFuel \<and> (sr_compare_loop fuel fs a b pos = Inr True \<longrightarrow> content f = content g)"
    using assms(4,5)
  proof (induction fuel arbitrary: pos)
    case (Suc fuel)
    have B: "0 < SR_BUFFER_SIZE" by (simp add: SR_BUFFER_SIZE_def)
    note ra = sys_read_cases[OF assms(1) B, where off = pos] and rb = sys_read_cases[OF assms(2) B, where off = pos]
    show ?case
    proof (cases "\<exists>c. sys_read fs a pos SR_BUFFER_SIZE = Some c \<and> sys_read fs b pos SR_BUFFER_SIZE = Some c")
      case True
      then obtain c where c: "sys_read fs a pos SR_BUFFER_SIZE = Some c" "sys_read fs b pos SR_BUFFER_SIZE = Some c" by blast
      show ?thesis
      proof (cases "c = []")
        case True
        then have "length (content f) \<le> pos" using ra c by auto
        then show ?thesis using True c Suc.prems(1) assms(3) by simp
      next
        case False
        then have ca: "c = take (length c) (drop pos (content f))" "pos + length c \<le> length (content f)"
          and cb: "c = take (length c) (drop pos (content g))"
          using ra rb c by auto
        have "take (pos + length c) (content f) = take (pos + length c) (content g)"
          using Suc.prems(1) ca(1) cb by (metis take_add)
        moreover have "length (content f) - (pos + length c) < fuel"
          using Suc.prems(2) ca(2) False length_greater_0_conv[of c] by linarith
        ultimately show ?thesis using Suc.IH[of "pos + length c"] c False by simp
      qed
    next
      case False
      then show ?thesis by (auto split: option.splits)
    qed
  qed simp
  then show "sr_compare_loop fuel fs a b pos \<noteq> Inl NoFuel"
    "sr_compare_loop fuel fs a b pos = Inr True \<Longrightarrow> content f = content g" by blast+
qed

lemma stat_look: "p \<noteq> [] \<Longrightarrow> sys_stat fs p = look fs (locate (cwd fs) p)"
  by (simp add: sys_stat_def)

lemma identical_spec:
  assumes "look fs (locate (cwd fs) src) = Some (FileN f)" "src \<noteq> []" "dst \<noteq> []"
  shows "files_are_identical fs src dst \<noteq> Inl NoFuel"
    "files_are_identical fs src dst = Inr True \<Longrightarrow> synced f (look fs (locate (cwd fs) dst))"
proof -
  have "files_are_identical fs src dst \<noteq> Inl NoFuel \<and>
    (files_are_identical fs src dst = Inr True \<longrightarrow> synced f (look fs (locate (cwd fs) dst)))"
  proof (cases "\<exists>g. look fs (locate (cwd fs) dst) = Some (FileN g) \<and> length (content f) = length (content g)
      \<and> mtime f \<noteq> mtime g \<and> sys_open_rd fs src \<noteq> None \<and> sys_open_rd fs dst \<noteq> None")
    case True
    then obtain g a b where g: "look fs (locate (cwd fs) dst) = Some (FileN g)" "length (content f) = length (content g)"
      "mtime f \<noteq> mtime g" "sys_open_rd fs src = Some a" "sys_open_rd fs dst = Some b" by blast
    then have ab: "a = locate (cwd fs) src" "b = locate (cwd fs) dst" using open_rd_loc by blast+
    have fl: "length (content f) - 0 < Suc (file_len fs a)" using assms(1) ab by (simp add: file_len_def)
    note cl = sr_compare_loop_spec[OF assms(1)[folded ab(1)] g(1)[folded ab(2)] g(2) _ fl]
    show ?thesis using cl g assms by (auto simp: files_are_identical_def stat_look synced_def)
  next
    case False
    then show ?thesis using assms
      by (auto simp: files_are_identical_def stat_look synced_def split: option.splits node.splits)
  qed
  then show "files_are_identical fs src dst \<noteq> Inl NoFuel"
    "files_are_identical fs src dst = Inr True \<Longrightarrow> synced f (look fs (locate (cwd fs) dst))" by blast+
qed

lemma attributes_spec:
  assumes "P = locate (cwd fs) dst" "look fs P = Some (FileN g)" "copy_file_attributes fs src dst = (r, fs')"
  shows "chg fs fs' P" "\<exists>g'. look fs' P = Some (FileN g') \<and> content g' = content g"
proof -
  have "chg fs fs' P \<and> (\<exists>g'. look fs' P = Some (FileN g') \<and> content g' = content g)"
  proof (cases "\<exists>st. sys_stat fs src = Some (FileN st)")
    case True
    then obtain st where st: "sys_stat fs src = Some (FileN st)" by blast
    obtain ok1 fs1 where c: "sys_chmod fs dst (fmode st) = (ok1, fs1)" by (cases "sys_chmod fs dst (fmode st)")
    obtain ok2 fs2 where u: "sys_utimes fs1 dst (atime st) (mtime st) = (ok2, fs2)"
      by (cases "sys_utimes fs1 dst (atime st) (mtime st)")
    have c1: "chg fs fs1 P" using chmod_chg[OF c assms(1)] .
    have p1: "P = locate (cwd fs1) dst" using assms(1) chgD(4)[OF c1] by simp
    have c2: "chg fs1 fs2 P" using utimes_chg[OF u p1] .
    obtain g1 where g1: "look fs1 P = Some (FileN g1)" "content g1 = content g"
      using c assms(1,2) by (auto simp: sys_chmod_def Let_def split: if_splits)
    have "\<exists>g2. look fs2 P = Some (FileN g2) \<and> content g2 = content g"
      using u p1 g1 by (auto simp: sys_utimes_def Let_def split: if_splits)
    then show ?thesis using assms(3) st c u c1 c2 g1 chg_trans[OF c1 c2]
      by (auto simp: copy_file_attributes_def split: if_splits)
  next
    case False
    then show ?thesis using assms by (auto simp: copy_file_attributes_def split: option.splits node.splits)
  qed
  then show "chg fs fs' P" "\<exists>g'. look fs' P = Some (FileN g') \<and> content g' = content g" by blast+
qed

lemma sr_sync_file_spec:
  assumes ok: "fs_ok fs" and dst: "NUL \<notin> set dst" "no_dd dst" "dst \<noteq> []" "length dst < SR_MAX_PATH_LEN"
    and loc: "P = locate (cwd fs) dst" "S = locate (cwd fs) src" "src \<noteq> []" "S \<noteq> P" and f: "look fs S = Some (FileN f)"
    and run: "sr_sync_file fs src dst opts = res"
  shows "res \<noteq> Inl NoFuel"
    "res = Inr (r, fs') \<Longrightarrow> chg fs fs' P \<and> (r = 0 \<or> r = -1) \<and> (r = 0 \<and> \<not> sr_dry_run opts \<longrightarrow> synced f (look fs' P))"
proof -
  define ident where "ident = (if sys_stat fs dst \<noteq> None then files_are_identical fs src dst else Inr False)"
  have st: "sys_stat fs src \<noteq> None" using f loc(2,3) by (simp add: stat_look)
  have i1: "ident \<noteq> Inl NoFuel" and i2: "ident = Inr True \<Longrightarrow> synced f (look fs P)"
    using identical_spec[OF f[unfolded loc(2)] loc(3) dst(3)] loc(1) by (auto simp: ident_def split: if_splits)
  have len: "\<not> SR_MAX_PATH_LEN \<le> length dst" using dst(4) by simp
  have main: "res \<noteq> Inl NoFuel \<and> (\<forall>r fs'. res = Inr (r, fs') \<longrightarrow> chg fs fs' P \<and> (r = 0 \<or> r = -1) \<and> (r = 0 \<longrightarrow> synced f (look fs' P)))"
    if nodry: "ident = Inr False" "\<not> sr_dry_run opts"
  proof -
    have res: "res = bindE (create_directory_recursive fs (dirname_buf dst)) (\<lambda>(r1, fs1).
            if r1 = -1 then Inr (-1, fs1)
            else bindE (copy_file_data fs1 src dst) (\<lambda>(r2, fs2).
              if r2 = -1 then Inr (-1, fs2)
              else let (r3, fs3) = copy_file_attributes fs2 src dst in Inr (if r3 = -1 then -1 else 0, fs3)))"
      using run st nodry len unfolding sr_sync_file_def ident_def[symmetric] by simp
    note up = dirname_buf_up(1)[OF dst(3,2), of "cwd fs"] dirname_buf_up(2-4)[OF dst(3,2)]
    have ld: "length (dirname_buf dst) < SR_MAX_PATH_LEN"
      by (rule le_less_trans[OF dirname_buf_length dst(4)]) (rule dst(3))
    show ?thesis
    proof (cases "make_path SR_MAX_PATH_LEN fs (dirname_buf dst)")
      case (Inl e)
      then have "e = BadMem" by (auto simp: make_path_def Let_def split: if_splits)
      then show ?thesis using Inl by (simp add: res create_directory_recursive_def)
    next
      case (Inr p)
      then obtain b fs1 where b: "make_path SR_MAX_PATH_LEN fs (dirname_buf dst) = Inr (b, fs1)" by (cases p) auto
      have c1: "chg fs fs1 P"
        using up dst(1) ld loc(1) ok by (intro make_path_chg[OF b]) auto
      have ok1: "fs_ok fs1" by (rule chgD(7)[OF c1 ok])
      have f1: "look fs1 S = Some (FileN f)" by (rule chgD(1)[OF c1 loc(4) f])
      have lc: "P = locate (cwd fs1) dst" "S = locate (cwd fs1) src" using chgD(4)[OF c1] loc by simp_all
      obtain r2 fs2 where c: "copy_file_data fs1 src dst = Inr (r2, fs2)" "chg fs1 fs2 P" "r2 = 0 \<or> r2 = -1"
        "r2 = 0 \<longrightarrow> (\<exists>g. look fs2 P = Some (FileN g) \<and> content g = content f)"
        using copy_file_data_spec[OF ok1 dst(1) lc loc(4) f1] by blast
      note c2 = chg_trans[OF c1 c(2)]
      obtain r3 fs3 where a: "copy_file_attributes fs2 src dst = (r3, fs3)" by (cases "copy_file_attributes fs2 src dst")
      have l2: "P = locate (cwd fs2) dst" using chgD(4)[OF c2] loc by simp
      show ?thesis
      proof (cases "r2 = 0")
        case True
        then obtain g where g: "look fs2 P = Some (FileN g)" "content g = content f" using c(4) by blast
        note at = attributes_spec[OF l2 g(1) a]
        have "synced f (look fs3 P)" using at(2) g(2) by (auto simp: synced_def)
        then show ?thesis using True b c(1) a chg_trans[OF c2 at(1)] c1 by (auto simp: res create_directory_recursive_def)
      next
        case False
        then show ?thesis using c(1,3) b c1 c2 by (auto simp: res create_directory_recursive_def)
      qed
    qed
  qed
  have other: "res = (case ident of Inl e \<Rightarrow> Inl e | Inr i \<Rightarrow> Inr (0, fs))" if "ident \<noteq> Inr False \<or> sr_dry_run opts"
    using run st that unfolding sr_sync_file_def ident_def[symmetric] by (auto split: sum.splits)
  have "res \<noteq> Inl NoFuel \<and> (\<forall>r fs'. res = Inr (r, fs') \<longrightarrow> chg fs fs' P \<and> (r = 0 \<or> r = -1)
      \<and> (r = 0 \<and> \<not> sr_dry_run opts \<longrightarrow> synced f (look fs' P)))"
  proof (cases "ident = Inr False \<and> \<not> sr_dry_run opts")
    case True
    then show ?thesis using main by blast
  next
    case False
    then show ?thesis using other i1 i2 by (auto split: sum.splits)
  qed
  then show "res \<noteq> Inl NoFuel" "res = Inr (r, fs') \<Longrightarrow> chg fs fs' P \<and> (r = 0 \<or> r = -1)
      \<and> (r = 0 \<and> \<not> sr_dry_run opts \<longrightarrow> synced f (look fs' P))" by blast+
qed

section \<open>A whole directory\<close>

definition mirrored :: "fs \<Rightarrow> fs \<Rightarrow> loc \<Rightarrow> loc \<Rightarrow> bool" where
  \<comment> \<open>every regular file below \<open>S\<close> has its copy below \<open>D\<close>\<close>
  "mirrored fs fs' S D \<longleftrightarrow> (\<forall>rel f. rel \<noteq> [] \<longrightarrow> look fs (S @ rel) = Some (FileN f) \<longrightarrow> synced f (look fs' (D @ rel)))"

definition plen :: "loc \<Rightarrow> nat" where
  "plen rel = sum_list (map (\<lambda>n. Suc (length n)) rel)"

definition paths_fit :: "nat \<Rightarrow> fs \<Rightarrow> loc \<Rightarrow> string \<Rightarrow> string \<Rightarrow> bool" where
  \<comment> \<open>no path of the traversal is cut by a buffer\<close>
  "paths_fit sz fs S src dst \<longleftrightarrow>
     (\<forall>rel. look fs (S @ rel) \<noteq> None \<longrightarrow> length src + plen rel < sz \<and> length dst + plen rel < sz)"

lemma paths_fit_below:
  "paths_fit sz fs S src dst \<Longrightarrow> look fs (S @ [n]) \<noteq> None \<Longrightarrow> paths_fit sz fs (S @ [n]) (src @ SLASH # n) (dst @ SLASH # n)"
  unfolding paths_fit_def plen_def by (auto dest: spec[of _ "n # _"])

lemma mirrored_step: "synced f (look fs (D @ n # rel)) \<Longrightarrow> chg_dir fs fs' (D @ [m]) \<Longrightarrow> m \<noteq> n \<Longrightarrow> synced f (look fs' (D @ n # rel))"
proof -
  assume "synced f (look fs (D @ n # rel))" "chg_dir fs fs' (D @ [m])" "m \<noteq> n"
  moreover have "\<not> prefix (D @ [m]) (D @ n # rel)" using \<open>m \<noteq> n\<close> by simp
  ultimately show ?thesis unfolding synced_def using chg_dirD(1) by blast
qed

lemma each_entry_mirror:
  assumes body: "\<And>fs1 n r fs2. fs_ok fs1 \<Longrightarrow> \<forall>s. look fs1 (S @ s) = look fs (S @ s) \<Longrightarrow> cwd fs1 = cwd fs \<Longrightarrow>
      n \<in> set all \<Longrightarrow> body fs1 n = Inr (r, fs2) \<Longrightarrow> chg_dir fs1 fs2 (D @ [n]) \<and>
      (r \<noteq> -1 \<longrightarrow> (\<forall>rel f. look fs (S @ n # rel) = Some (FileN f) \<longrightarrow> synced f (look fs2 (D @ n # rel))))"
    and ap: "apart S D" and names: "set ns \<subseteq> set all" "distinct ns" "\<forall>n \<in> set ns. plain n"
    and start: "fs_ok fs1" "\<forall>s. look fs1 (S @ s) = look fs (S @ s)" "cwd fs1 = cwd fs"
    and run: "each_entry body fs1 ns = Inr (r, fs')"
  shows "chg_dir fs1 fs' D \<and> (r = 0 \<or> r = -1) \<and>
    (r = 0 \<longrightarrow> (\<forall>n rel f. n \<in> set ns \<longrightarrow> look fs (S @ n # rel) = Some (FileN f) \<longrightarrow> synced f (look fs' (D @ n # rel))))
    \<and> (\<forall>n rel f. n \<notin> set ns \<longrightarrow> synced f (look fs1 (D @ n # rel)) \<longrightarrow> synced f (look fs' (D @ n # rel)))"
  using names start run
proof (induction ns arbitrary: fs1)
  case (Cons n ns)
  have pl: "n \<noteq> ''.''" "n \<noteq> ''..''" using Cons.prems(3) by (auto simp: plain_def)
  then obtain q fs2 where b: "body fs1 n = Inr (q, fs2)"
    and rest: "(if q = -1 then Inr (-1, fs2) else each_entry body fs2 ns) = Inr (r, fs')"
    using Cons.prems(7) by auto
  have bs: "chg_dir fs1 fs2 (D @ [n])"
    "q \<noteq> -1 \<Longrightarrow> look fs (S @ n # rel) = Some (FileN f) \<Longrightarrow> synced f (look fs2 (D @ n # rel))" for rel f
    using body[OF Cons.prems(4-6) _ b] Cons.prems(1) by auto
  have cd: "chg_dir fs1 fs2 D" by (rule chg_dir_sub[OF bs(1)]) simp
  show ?case
  proof (cases "q = -1")
    case True
    then have "r = -1 \<and> fs' = fs2" using rest by simp
    then show ?thesis using cd mirrored_step[OF _ bs(1)] by auto
  next
    case False
    have src: "\<forall>s. look fs2 (S @ s) = look fs (S @ s)" using apart_chg[OF cd ap] Cons.prems(5) by simp
    have ih: "chg_dir fs2 fs' D \<and> (r = 0 \<or> r = -1) \<and>
      (r = 0 \<longrightarrow> (\<forall>n rel f. n \<in> set ns \<longrightarrow> look fs (S @ n # rel) = Some (FileN f) \<longrightarrow> synced f (look fs' (D @ n # rel))))
      \<and> (\<forall>n rel f. n \<notin> set ns \<longrightarrow> synced f (look fs2 (D @ n # rel)) \<longrightarrow> synced f (look fs' (D @ n # rel)))"
      using Cons.prems(1-3) chg_dirD(3,4)[OF cd] Cons.prems(4,6) src rest False by (intro Cons.IH) auto
    have n: "n \<notin> set ns" using Cons.prems(2) by simp
    show ?thesis
    proof (intro conjI impI allI)
      show "chg_dir fs1 fs' D" using cd ih chg_dir_trans by blast
      show "r = 0 \<or> r = -1" using ih by blast
      show "synced f (look fs' (D @ m # rel))"
        if "r = 0" "m \<in> set (n # ns)" "look fs (S @ m # rel) = Some (FileN f)" for m rel f
        using that ih n bs(2)[OF False] by auto
      show "synced f (look fs' (D @ m # rel))"
        if "m \<notin> set (n # ns)" "synced f (look fs1 (D @ m # rel))" for m rel f
        using that ih mirrored_step[OF that(2) bs(1)] by auto
    qed
  qed
qed simp

lemma look_below:
  assumes "fs_wf fs" "look fs S = Some (DirN ns)" "look fs (S @ n # rel) \<noteq> None"
  shows "n \<in> set ns"
proof -
  have "look fs (S @ [n]) \<noteq> None"
  proof (cases "rel = []")
    case False
    then have "is_dirn (look fs (S @ [n]))" using wf_prefix[OF assms(1), of "S @ [n]" rel] assms(3) by simp
    then show ?thesis by (cases "look fs (S @ [n])") (auto simp: is_dirn_def)
  qed (use assms(3) in simp)
  then show ?thesis using fs_wfD(1)[OF assms(1)] assms(2) by fastforce
qed

lemma sr_sync_directory_mirror:
  assumes "fs_ok fs" "src \<noteq> []" "dst \<noteq> []" "NUL \<notin> set dst" "no_dd dst"
    "S = locate (cwd fs) src" "D = locate (cwd fs) dst" "apart S D" "paths_fit SR_MAX_PATH_LEN fs S src dst"
    "\<not> sr_dry_run opts" "sr_sync_directory fuel fs src dst opts = Inr (r, fs')"
  shows "chg_dir fs fs' D \<and> (r = 0 \<or> r = -1) \<and> (r = 0 \<longrightarrow> mirrored fs fs' S D)"
  using assms
proof (induction fuel arbitrary: fs src dst S D r fs')
  case (Suc fuel)
  note p = Suc.prems
  show ?case
  proof (cases "sys_readdir fs src")
    case None
    then show ?thesis using p(11) by simp
  next
    case (Some ents)
    then obtain ns where ns: "look fs S = Some (DirN ns)" "ents = ''.'' # ''..'' # ns"
      using p(2,6) by (auto simp: sys_readdir_def split: if_splits option.splits node.splits)
    have wf: "fs_wf fs" using p(1) by (simp add: fs_ok_def)
    define body where "body = (\<lambda>fs d_name. let src_path = snprintf_path SR_MAX_PATH_LEN (src @ SLASH # d_name);
              dst_path = snprintf_path SR_MAX_PATH_LEN (dst @ SLASH # d_name) in
          case sys_stat fs src_path of None \<Rightarrow> Inr (0, fs)
          | Some (DirN _) \<Rightarrow> sr_sync_directory fuel fs src_path dst_path opts
          | Some (FileN _) \<Rightarrow> sr_sync_file fs src_path dst_path opts | Some OtherN \<Rightarrow> Inr (0, fs))"
    have run: "each_entry body fs ns = Inr (r, fs')"
      using p(11) Some ns(2) by (simp add: body_def)
    have step: "chg_dir fs1 fs2 (D @ [n]) \<and>
        (q \<noteq> -1 \<longrightarrow> (\<forall>rel f. look fs (S @ n # rel) = Some (FileN f) \<longrightarrow> synced f (look fs2 (D @ n # rel))))"
      if a: "fs_ok fs1" "\<forall>s. look fs1 (S @ s) = look fs (S @ s)" "cwd fs1 = cwd fs" "n \<in> set ns" "body fs1 n = Inr (q, fs2)"
      for fs1 n q fs2
    proof -
      have pn: "plain n" and ex: "look fs (S @ [n]) \<noteq> None" using fs_wfD(2,3)[OF wf ns(1) a(4)] by blast+
      let ?sp = "src @ SLASH # n" and ?dp = "dst @ SLASH # n"
      have fit: "length ?sp < SR_MAX_PATH_LEN" "length ?dp < SR_MAX_PATH_LEN"
        using p(9) ex by (auto simp: paths_fit_def plen_def dest!: spec[of _ "[n]"])
      have ls: "locate (cwd fs1) ?sp = S @ [n]" "locate (cwd fs1) ?dp = D @ [n]"
        using locate_join[OF pn p(2)] locate_join[OF pn p(3)] p(6,7) a(3) by simp_all
      have ap: "apart (S @ [n]) (D @ [n])" by (rule apart_below[OF p(8)])
      have nn: "NUL \<notin> set ?dp" "no_dd ?dp" using p(4,5) pn split_slash_plain[of n]
        by (auto simp: plain_def no_dd_append) (auto simp: no_dd_def comps_def)
      have cs: "sys_stat fs1 ?sp = look fs (S @ [n])" using stat_look[of ?sp fs1] ls(1) a(2) by simp
      show ?thesis
      proof (cases "look fs (S @ [n])")
        case (Some nd)
        show ?thesis
        proof (cases nd)
          case (DirN ms)
          have "paths_fit SR_MAX_PATH_LEN fs1 (S @ [n]) ?sp ?dp"
            using paths_fit_below[OF p(9) ex] a(2) by (simp add: paths_fit_def)
          then have "chg_dir fs1 fs2 (D @ [n]) \<and> (q = 0 \<or> q = -1) \<and> (q = 0 \<longrightarrow> mirrored fs1 fs2 (S @ [n]) (D @ [n]))"
            using a p(10) ls ap nn cs Some DirN fit by (intro Suc.IH) (auto simp: body_def)
          moreover have "synced f (look fs2 (D @ n # rel))"
            if "mirrored fs1 fs2 (S @ [n]) (D @ [n])" "look fs (S @ n # rel) = Some (FileN f)" for rel f
          proof (cases "rel = []")
            case True
            then show ?thesis using that(2) Some DirN by simp
          next
            case False
            have "look fs1 ((S @ [n]) @ rel) = Some (FileN f)" using that(2) a(2) by simp
            then show ?thesis using that(1) False unfolding mirrored_def by force
          qed
          ultimately show ?thesis by blast
        next
          case (FileN g)
          have sf: "sr_sync_file fs1 ?sp ?dp opts = Inr (q, fs2)" using a(5) cs Some FileN fit by (simp add: body_def)
          have l1: "look fs1 (S @ [n]) = Some (FileN g)" using a(2) Some FileN by simp
          have ne: "S @ [n] \<noteq> D @ [n]" using ap by (auto simp: apart_def)
          have c: "chg fs1 fs2 (D @ [n])" "q = 0 \<or> q = -1" "q = 0 \<Longrightarrow> synced g (look fs2 (D @ [n]))"
            using sr_sync_file_spec(2)[OF a(1) nn _ fit(2) ls(2)[symmetric] ls(1)[symmetric] _ ne l1 sf refl] p(10) by auto
          have leaf: "rel = [] \<and> f = g" if "look fs (S @ n # rel) = Some (FileN f)" for rel f
          proof (cases "rel = []")
            case False
            then have "is_dirn (look fs (S @ [n]))" using wf_prefix[OF wf, of "S @ [n]" rel] that by simp
            then show ?thesis using Some FileN by (simp add: is_dirn_def)
          qed (use that Some FileN in simp)
          show ?thesis using chg_sub[OF c(1)] c(2,3) leaf by auto
        next
          case OtherN
          have leaf: "look fs (S @ n # rel) \<noteq> Some (FileN f)" for rel f
          proof (cases "rel = []")
            case False
            then show ?thesis using wf_prefix[OF wf, of "S @ [n]" rel] Some OtherN by (auto simp: is_dirn_def)
          qed (use Some OtherN in simp)
          then show ?thesis using a(5) cs Some OtherN fit by (simp add: body_def)
        qed
      qed (use ex in simp)
    qed
    have em: "chg_dir fs fs' D \<and> (r = 0 \<or> r = -1) \<and>
      (r = 0 \<longrightarrow> (\<forall>n rel f. n \<in> set ns \<longrightarrow> look fs (S @ n # rel) = Some (FileN f) \<longrightarrow> synced f (look fs' (D @ n # rel))))"
      using each_entry_mirror[of S fs ns body D ns fs r fs'] step p(1,8) fs_wfD(3,4)[OF wf ns(1)] run by blast
    have "mirrored fs fs' S D" if "r = 0"
      unfolding mirrored_def
    proof (intro allI impI)
      fix rel f assume rel: "rel \<noteq> []" "look fs (S @ rel) = Some (FileN f)"
      then obtain n rel' where n: "rel = n # rel'" by (cases rel) auto
      have "n \<in> set ns" using look_below[OF wf ns(1), of n rel'] rel(2) n by simp
      then show "synced f (look fs' (D @ rel))" using em that rel(2) n by auto
    qed
    then show ?thesis using em by blast
  qed
qed simp

section \<open>Termination and dry runs\<close>

lemma each_entry_total:
  assumes "\<And>fs1 n. I fs1 \<Longrightarrow> n \<in> set ns \<Longrightarrow> body fs1 n \<noteq> Inl NoFuel \<and> (\<forall>r fs2. body fs1 n = Inr (r, fs2) \<longrightarrow> I fs2)"
    "I fs1"
  shows "each_entry body fs1 ns \<noteq> Inl NoFuel"
  using assms
proof (induction ns arbitrary: fs1)
  case (Cons n ns)
  have ih: "I fs2 \<Longrightarrow> each_entry body fs2 ns \<noteq> Inl NoFuel" for fs2
    by (rule Cons.IH[OF Cons.prems(1)]) simp_all
  show ?case
  proof (cases "body fs1 n")
    case (Inr p)
    then show ?thesis using ih Cons.prems(1)[of fs1 n] Cons.prems(2) by (cases p) auto
  qed (use ih Cons.prems(1)[of fs1 n] Cons.prems(2) in auto)
qed simp

lemma sr_sync_directory_total:
  assumes "fs_ok fs" "src \<noteq> []" "dst \<noteq> []" "NUL \<notin> set dst" "no_dd dst"
    "S = locate (cwd fs) src" "D = locate (cwd fs) dst" "apart S D" "paths_fit SR_MAX_PATH_LEN fs S src dst"
    "\<not> sr_dry_run opts" "\<forall>s. look fs (S @ s) \<noteq> None \<longrightarrow> length s < fuel" "0 < fuel"
  shows "sr_sync_directory fuel fs src dst opts \<noteq> Inl NoFuel"
  using assms
proof (induction fuel arbitrary: fs src dst S D)
  case (Suc fuel)
  note p = Suc.prems
  show ?case
  proof (cases "sys_readdir fs src")
    case (Some ents)
    then obtain ns where ns: "look fs S = Some (DirN ns)" "ents = ''.'' # ''..'' # ns"
      using p(2,6) by (auto simp: sys_readdir_def split: if_splits option.splits node.splits)
    have wf: "fs_wf fs" using p(1) by (simp add: fs_ok_def)
    define body where "body = (\<lambda>fs d_name. let src_path = snprintf_path SR_MAX_PATH_LEN (src @ SLASH # d_name);
              dst_path = snprintf_path SR_MAX_PATH_LEN (dst @ SLASH # d_name) in
          case sys_stat fs src_path of None \<Rightarrow> Inr (0, fs)
          | Some (DirN _) \<Rightarrow> sr_sync_directory fuel fs src_path dst_path opts
          | Some (FileN _) \<Rightarrow> sr_sync_file fs src_path dst_path opts | Some OtherN \<Rightarrow> Inr (0, fs))"
    define I where "I fs1 \<longleftrightarrow> fs_ok fs1 \<and> (\<forall>s. look fs1 (S @ s) = look fs (S @ s)) \<and> cwd fs1 = cwd fs" for fs1
    have keep: "I fs1 \<Longrightarrow> chg_dir fs1 fs2 D \<Longrightarrow> I fs2" for fs1 fs2
      unfolding I_def using apart_chg[OF _ p(8)] chg_dirD(3,4) by metis
    have step: "body fs1 n \<noteq> Inl NoFuel \<and> (\<forall>q fs2. body fs1 n = Inr (q, fs2) \<longrightarrow> I fs2)"
      if inv: "I fs1" and nin: "n \<in> set ns" for fs1 n
    proof -
      have a: "fs_ok fs1" "\<forall>s. look fs1 (S @ s) = look fs (S @ s)" "cwd fs1 = cwd fs" using inv by (simp_all add: I_def)
      have pn: "plain n" and ex: "look fs (S @ [n]) \<noteq> None" using fs_wfD(2,3)[OF wf ns(1) nin] by blast+
      let ?sp = "src @ SLASH # n" and ?dp = "dst @ SLASH # n"
      have fit: "length ?sp < SR_MAX_PATH_LEN" "length ?dp < SR_MAX_PATH_LEN"
        using p(9) ex by (auto simp: paths_fit_def plen_def dest!: spec[of _ "[n]"])
      have ls: "locate (cwd fs1) ?sp = S @ [n]" "locate (cwd fs1) ?dp = D @ [n]"
        using locate_join[OF pn p(2)] locate_join[OF pn p(3)] p(6,7) a(3) by simp_all
      have ap: "apart (S @ [n]) (D @ [n])" by (rule apart_below[OF p(8)])
      have nn: "NUL \<notin> set ?dp" "no_dd ?dp" using p(4,5) pn split_slash_plain[of n]
        by (auto simp: plain_def no_dd_append) (auto simp: no_dd_def comps_def)
      have cs: "sys_stat fs1 ?sp = look fs (S @ [n])" using stat_look[of ?sp fs1] ls(1) a(2) by simp
      have pf: "paths_fit SR_MAX_PATH_LEN fs1 (S @ [n]) ?sp ?dp"
        using paths_fit_below[OF p(9) ex] a(2) by (simp add: paths_fit_def)
      have below: "prefix D (D @ [n])" by simp
      have dp: "length s < fuel" if "look fs1 ((S @ [n]) @ s) \<noteq> None" for s
      proof -
        have "look fs (S @ n # s) \<noteq> None" using that a(2) by simp
        then show ?thesis using p(11) by fastforce
      qed
      show ?thesis
      proof (cases "look fs (S @ [n])")
        case (Some nd)
        show ?thesis
        proof (cases nd)
          case (DirN ms)
          have b: "body fs1 n = sr_sync_directory fuel fs1 ?sp ?dp opts" using cs Some DirN fit by (simp add: body_def)
          have "0 < fuel" using p(11) ex by fastforce
          then have "sr_sync_directory fuel fs1 ?sp ?dp opts \<noteq> Inl NoFuel"
            using a(1) p(10) ls ap nn pf dp by (intro Suc.IH) auto
          moreover have "I fs2" if "sr_sync_directory fuel fs1 ?sp ?dp opts = Inr (q, fs2)" for q fs2
            using sr_sync_directory_mirror[OF a(1) _ _ nn ls[symmetric] ap pf p(10) that]
              chg_dir_sub[OF _ below] keep[OF inv] by simp
          ultimately show ?thesis using b by simp
        next
          case (FileN g)
          have b: "body fs1 n = sr_sync_file fs1 ?sp ?dp opts" using cs Some FileN fit by (simp add: body_def)
          have l1: "look fs1 (S @ [n]) = Some (FileN g)" using a(2) Some FileN by simp
          have ne: "S @ [n] \<noteq> D @ [n]" using ap by (auto simp: apart_def)
          note sf = sr_sync_file_spec[OF a(1) nn _ fit(2) ls(2)[symmetric] ls(1)[symmetric] _ ne l1 refl]
          show ?thesis unfolding b using sf chg_sub[OF _ below] keep[OF inv] by simp
        next
          case OtherN
          then show ?thesis using inv cs Some fit by (simp add: body_def)
        qed
      qed (use ex in simp)
    qed
    have "each_entry body fs ns \<noteq> Inl NoFuel"
    proof (rule each_entry_total[where I = I])
      show "I fs" using p(1) by (simp add: I_def)
    qed (rule step)
    then show ?thesis using Some ns(2) by (simp add: body_def)
  qed simp
qed simp

lemma look_length: "look fs l \<noteq> None \<Longrightarrow> length l < fs_depth fs"
proof -
  assume "look fs l \<noteq> None"
  then have "l \<in> fst ` set (nodes fs)" by (simp add: look_def map_of_eq_None_iff)
  then have "length l \<in> set (0 # map (length \<circ> fst) (nodes fs))" by auto
  then have "length l \<le> Max (set (0 # map (length \<circ> fst) (nodes fs)))" by (intro Max_ge) auto
  then show ?thesis by (simp add: fs_depth_def)
qed

lemma dry_sync_file: "sr_dry_run opts \<Longrightarrow> sr_sync_file fs src dst opts = Inr (r, fs') \<Longrightarrow> fs' = fs"
  by (auto simp: sr_sync_file_def split: if_splits)

lemma each_entry_dry:
  "(\<And>f n r f'. b f n = Inr (r, f') \<Longrightarrow> f' = f) \<Longrightarrow> each_entry b fs ns = Inr (r, fs') \<Longrightarrow> fs' = fs"
proof (induction ns arbitrary: fs)
  case (Cons n ns)
  show ?case
  proof (cases "n = ''.'' \<or> n = ''..''")
    case True
    then show ?thesis using Cons by auto
  next
    case False
    then obtain q f where q: "b fs n = Inr (q, f)" "(if q = -1 then Inr (-1, f) else each_entry b f ns) = Inr (r, fs')"
      using Cons.prems(2) by auto
    then show ?thesis using Cons.IH[of f] Cons.prems(1)[OF q(1)] Cons.prems(1) by (auto split: if_splits)
  qed
qed simp

lemma dry_sync_directory: "sr_dry_run opts \<Longrightarrow> sr_sync_directory fuel fs src dst opts = Inr (r, fs') \<Longrightarrow> fs' = fs"
proof (induction fuel arbitrary: fs src dst r fs')
  case (Suc fuel)
  show ?case
  proof (cases "sys_readdir fs src")
    case (Some ents)
    have "each_entry (\<lambda>fs d_name.
          let src_path = snprintf_path SR_MAX_PATH_LEN (src @ SLASH # d_name);
              dst_path = snprintf_path SR_MAX_PATH_LEN (dst @ SLASH # d_name) in
          case sys_stat fs src_path of None \<Rightarrow> Inr (0, fs)
          | Some (DirN _) \<Rightarrow> sr_sync_directory fuel fs src_path dst_path opts
          | Some (FileN _) \<Rightarrow> sr_sync_file fs src_path dst_path opts | Some OtherN \<Rightarrow> Inr (0, fs)) fs ents = Inr (r, fs')"
      using Suc.prems(2) Some by simp
    then show ?thesis
      by (rule each_entry_dry[rotated])
        (use Suc.IH[OF Suc.prems(1)] dry_sync_file[OF Suc.prems(1)] in \<open>auto simp: Let_def split: option.splits node.splits\<close>)
  qed (use Suc.prems in simp)
qed simp

section \<open>Properties\<close>

text \<open>C8. A run over a directory that does not contain the destination, nor is inside it, always ends; and
  if it returns 0 then every regular file of the tree, at every depth, has its copy at the same place
  below the destination (equal bytes, or the same size and modification time, which the program takes
  for equal), while the source tree and every file outside the destination are as before.\<close>

theorem sr_sync_directory_mirrors:
  assumes "fs_ok fs" "src \<noteq> []" "dst \<noteq> []" "NUL \<notin> set dst" "no_dd dst"
    "S = locate (cwd fs) src" "D = locate (cwd fs) dst" "apart S D" "paths_fit SR_MAX_PATH_LEN fs S src dst"
    "\<not> sr_dry_run opts" "sr_sync_directory (fs_depth fs) fs src dst opts = res"
  shows "res \<noteq> Inl NoFuel \<and> (\<forall>r fs'. res = Inr (r, fs') \<longrightarrow>
      (r = 0 \<longrightarrow> mirrored fs fs' S D) \<and> (\<forall>s. look fs' (S @ s) = look fs (S @ s))
      \<and> (\<forall>l f. \<not> prefix D l \<longrightarrow> look fs l = Some (FileN f) \<longrightarrow> look fs' l = Some (FileN f)))"
proof -
  have "length s < fs_depth fs" if "look fs (S @ s) \<noteq> None" for s
    using look_length[OF that] by simp
  then have "res \<noteq> Inl NoFuel"
    using sr_sync_directory_total[OF assms(1-10), of "fs_depth fs"] assms(11) by (auto simp: fs_depth_def)
  moreover have "(r = 0 \<longrightarrow> mirrored fs fs' S D) \<and> (\<forall>s. look fs' (S @ s) = look fs (S @ s))
      \<and> (\<forall>l f. \<not> prefix D l \<longrightarrow> look fs l = Some (FileN f) \<longrightarrow> look fs' l = Some (FileN f))"
    if "res = Inr (r, fs')" for r fs'
  proof -
    have c: "chg_dir fs fs' D" "r = 0 \<longrightarrow> mirrored fs fs' S D"
      using sr_sync_directory_mirror[OF assms(1-10)] assms(11) that by blast+
    then show ?thesis using apart_chg[OF c(1) assms(8)] chg_dirD(1)[OF c(1)] by blast
  qed
  ultimately show ?thesis by blast
qed

lemma sr_copy_loop_complete:
  assumes "look fs s = Some (FileN f)" "look fs d = Some (FileN g)" "s \<noteq> d" "map_of (badblk fs) s = None"
    "content g = take pos (content f)" "pos \<le> length (content f)" "length (content f) - pos < fuel"
    "length (content f) - pos \<le> avail fs"
  shows "\<exists>fs'. sr_copy_loop fuel fs s d pos = Inr (0, fs')"
  using assms
proof (induction fuel arbitrary: fs g pos)
  case (Suc fuel)
  let ?c = "take SR_BUFFER_SIZE (drop pos (content f))"
  have rd: "sys_read fs s pos SR_BUFFER_SIZE = Some ?c" using Suc.prems(1,4) by (simp add: sys_read_def)
  show ?case
  proof (cases "?c = []")
    case False
    define fs1 where "fs1 = setn (fs\<lparr>avail := avail fs - length ?c\<rparr>) d (FileN (g\<lparr>content := content g @ ?c, mtime := clock fs\<rparr>))"
    have le: "length ?c \<le> avail fs" using Suc.prems(8) by simp
    have w: "sys_write fs d ?c = (length ?c, fs1)"
      using Suc.prems(2) le by (simp add: sys_write_def fs1_def Let_def min_def)
    have eq: "content g @ ?c = take (pos + length ?c) (content f)"
    proof -
      have "?c = take (length ?c) (drop pos (content f))" by (simp add: min_def)
      then show ?thesis unfolding Suc.prems(5) take_add by simp
    qed
    have ps: "pos + length ?c \<le> length (content f)" "length (content f) - (pos + length ?c) < fuel"
      "length (content f) - (pos + length ?c) \<le> avail fs - length ?c"
      using False Suc.prems(6-8) length_greater_0_conv[of ?c] by (auto simp: min_def)
    have "\<exists>fs'. sr_copy_loop fuel fs1 s d (pos + length ?c) = Inr (0, fs')"
      using Suc.prems(1-4) eq ps
      by (intro Suc.IH[of fs1 "g\<lparr>content := content g @ ?c, mtime := clock fs\<rparr>"]) (simp_all add: fs1_def)
    then show ?thesis using rd False w by simp
  qed (use rd in simp)
qed simp

text \<open>Copying the data of a file succeeds whenever it can: the source opens and has no bad block, the
  destination opens for writing, and the device has room. The copy then has exactly the bytes of the
  source, for any file size, and no other file changes.\<close>

theorem copy_file_data_complete:
  assumes "fs_ok fs" "NUL \<notin> set dst" "P = locate (cwd fs) dst" "S = locate (cwd fs) src" "S \<noteq> P"
    "look fs S = Some (FileN f)" "sys_open_rd fs src \<noteq> None" "sys_open_wr fs dst \<noteq> None"
    "map_of (badblk fs) S = None" "length (content f) \<le> avail fs"
  shows "\<exists>fs' g. copy_file_data fs src dst = Inr (0, fs') \<and> look fs' P = Some (FileN g) \<and> content g = content f
    \<and> (\<forall>l h. l \<noteq> P \<longrightarrow> look fs l = Some (FileN h) \<longrightarrow> look fs' l = Some (FileN h))"
proof -
  have s: "sys_open_rd fs src = Some S" using assms(4,7) open_rd_loc by blast
  obtain d fs1 where w: "sys_open_wr fs dst = Some (d, fs1)" using assms(8) by auto
  note o = open_wr_chg[OF w assms(1,2,3)]
  obtain g where g: "look fs1 P = Some (FileN g)" "content g = []" using o(3) by blast
  have f1: "look fs1 S = Some (FileN f)" by (rule chgD(1)[OF o(1) assms(5,6)])
  have "avail fs1 = avail fs" using w
    by (auto simp: sys_open_wr_def Let_def add_name_def split: if_splits option.splits node.splits)
  then have "\<exists>fs'. sr_copy_loop (Suc (file_len fs1 S)) fs1 S P 0 = Inr (0, fs')"
    using f1 g assms(5,9,10) chgD(6)[OF o(1)] by (intro sr_copy_loop_complete) (auto simp: file_len_def)
  then obtain fs' where run: "copy_file_data fs src dst = Inr (0, fs')" using s w o(2) by (auto simp: copy_file_data_def)
  obtain g' where "chg fs fs' P" "look fs' P = Some (FileN g')" "content g' = content f"
    using copy_file_data_spec[OF assms(1-6)] run by auto
  then show ?thesis using run chgD(1) by blast
qed

text \<open>With \<open>-n\<close> a run changes nothing in the file system, whatever it finds and returns.\<close>

theorem sr_dry_run_pure:
  assumes "CHR ''n'' \<in> set opts" "sr_main fs opts operands = Inr (status, fs')"
  shows "fs' = fs"
proof -
  have keep: "sr_options os o' = Inr o2 \<Longrightarrow> sr_dry_run o' \<or> CHR ''n'' \<in> set os \<Longrightarrow> sr_dry_run o2" for os o' o2
    by (induction os arbitrary: o') (auto split: if_splits)
  show ?thesis
  proof (cases "sr_options opts \<lparr>sr_verbose = False, sr_dry_run = False\<rparr>")
    case (Inr o2)
    then have "sr_dry_run o2" using keep assms(1) by blast
    then show ?thesis using assms(2) Inr dry_sync_file dry_sync_directory
      by (auto simp: sr_main_def split: list.splits option.splits node.splits)
  qed (use assms(2) in \<open>simp add: sr_main_def\<close>)
qed

text \<open>When a single file is copied to a new name without a slash, \<open>dirname\<close> leaves the buffer as it
  is, so the program makes a directory with the name of the destination, cannot open it for writing and
  fails.\<close>

theorem sr_plain_destination_fails:
  assumes "plain dst" "length dst < SR_MAX_PATH_LEN" "look fs (cwd fs) = Some (DirN ns)" "look fs (cwd fs @ [dst]) = None"
    "cwd fs @ [dst] \<notin> set (denied fs)" "sys_stat fs src = Some (FileN f)" "\<not> sr_dry_run opts"
  shows "\<exists>fs'. sr_sync_file fs src dst opts = Inr (-1, fs') \<and> look fs' (cwd fs @ [dst]) = Some (DirN [])"
proof -
  have ne: "dst \<noteq> []" "SLASH \<notin> set dst" using assms(1) by (auto simp: plain_def)
  have cp: "comps dst = [dst]" using assms(1) split_slash_plain[of dst] by (simp add: comps_def plain_def)
  have "hd dst \<noteq> SLASH" using ne by (cases dst) auto
  then have loc: "locate (cwd fs) dst = cwd fs @ [dst]"
    using assms(1) cp by (simp add: locate_def walk_def plain_def)
  have rs: "rstrip dst = dst"
  proof -
    have "hd (rev dst) \<noteq> SLASH" "rev dst \<noteq> []" using ne by (metis hd_in_set set_rev rev_is_Nil_conv)+
    then have "dropWhile (\<lambda>c. c = SLASH) (rev dst) = rev dst" by (cases "rev dst") auto
    then show ?thesis by (simp add: rstrip_def)
  qed
  have db: "dirname_buf dst = dst" using ne rs by (simp add: dirname_buf_def)
  have sp: "slash_prefixes dst = []"
    using ne(2) by (auto simp: slash_prefixes_def filter_empty_conv) (metis nth_mem)
  have "last dst \<noteq> SLASH" using ne last_in_set by metis
  then have mk: "make_path SR_MAX_PATH_LEN fs dst = Inr (mkdirs fs [dst])"
    using ne assms(2) sp by (simp add: make_path_def Let_def)
  define fs1 where "fs1 = setn (add_name fs (cwd fs @ [dst])) (cwd fs @ [dst]) (DirN [])"
  have "creatable fs (cwd fs @ [dst]) = None" using assms(3,5) by (simp add: creatable_def)
  then have md: "mkdirs fs [dst] = (True, fs1)"
    using ne loc assms(4) by (simp add: sys_mkdir_def Let_def fs1_def)
  have l1: "look fs1 (cwd fs @ [dst]) = Some (DirN [])" by (simp add: fs1_def)
  have "cwd fs1 = cwd fs" using assms(3) by (simp add: fs1_def add_name_def)
  then have "sys_open_wr fs1 dst = None" using l1 loc ne by (simp add: sys_open_wr_def)
  then have "copy_file_data fs1 src dst = Inr (-1, fs1)" by (simp add: copy_file_data_def split: option.splits)
  moreover have "sys_stat fs dst = None" using assms(4) loc ne by (simp add: stat_look)
  ultimately show ?thesis using assms(2,6,7) l1 db mk md
    by (simp add: sr_sync_file_def create_directory_recursive_def)
qed

section \<open>Concrete runs\<close>

definition demo_fs :: fs where
  "demo_fs = \<lparr>nodes = [([], DirN [''s'']), ([''s''], DirN [''f'', ''d'']), ([''s'', ''d''], DirN []),
      ([''s'', ''f''], FileN \<lparr>content = ''hello'', mtime = 7, atime = 7, fmode = 420\<rparr>)],
     cwd = [], denied = [], badblk = [], avail = 100, clock = 9\<rparr>"

lemma demo_look: "look demo_fs l = (if l = [] then Some (DirN [''s'']) else if l = [''s''] then Some (DirN [''f'', ''d''])
    else if l = [''s'', ''d''] then Some (DirN [])
    else if l = [''s'', ''f''] then Some (FileN \<lparr>content = ''hello'', mtime = 7, atime = 7, fmode = 420\<rparr>) else None)"
  by (simp add: look_def demo_fs_def)

lemma demo_ok: "fs_ok demo_fs"
  unfolding fs_ok_def fs_wf_def demo_look
  by (auto simp: is_dirn_def plain_def demo_fs_def split: if_splits)

lemma demo_locs: "locate (cwd demo_fs) ''/s'' = [''s'']" "locate (cwd demo_fs) ''/t'' = [''t'']" "no_dd ''/t''"
  "locate (cwd demo_fs) ''/s/f'' = [''s'', ''f'']" "locate (cwd demo_fs) ''g'' = [''g'']"
  by (simp_all add: demo_fs_def locate_def comps_def walk_def no_dd_def)

lemma demo_fit: "paths_fit SR_MAX_PATH_LEN demo_fs [''s''] ''/s'' ''/t''"
  unfolding paths_fit_def demo_look by (auto simp: plen_def SR_MAX_PATH_LEN_def split: if_splits)

lemma demo_run: "\<exists>fs'. sr_sync_directory (fs_depth demo_fs) demo_fs ''/s'' ''/t'' \<lparr>sr_verbose = False, sr_dry_run = False\<rparr>
    = Inr (0, fs')"
proof -
  have "case sr_sync_directory (fs_depth demo_fs) demo_fs ''/s'' ''/t'' \<lparr>sr_verbose = False, sr_dry_run = False\<rparr>
    of Inr (r, fs') \<Rightarrow> r = 0 | _ \<Rightarrow> False" by code_simp
  then show ?thesis by (auto split: sum.splits)
qed

theorem sr_sync_directory_mirrors_witness:
  "\<exists>fs' g. sr_sync_directory (fs_depth demo_fs) demo_fs ''/s'' ''/t'' \<lparr>sr_verbose = False, sr_dry_run = False\<rparr>
      = Inr (0, fs') \<and> look fs' [''t'', ''f''] = Some (FileN g) \<and> length (content g) = 5"
proof -
  obtain fs' where r: "sr_sync_directory (fs_depth demo_fs) demo_fs ''/s'' ''/t'' \<lparr>sr_verbose = False, sr_dry_run = False\<rparr>
    = Inr (0, fs')" using demo_run by blast
  have ap: "apart [''s''] [''t'']" by (simp add: apart_def)
  have "mirrored demo_fs fs' [''s''] [''t'']"
    using sr_sync_directory_mirrors[OF demo_ok _ _ _ demo_locs(3) demo_locs(1)[symmetric] demo_locs(2)[symmetric] ap demo_fit _ r]
    by simp
  then have "synced \<lparr>content = ''hello'', mtime = 7, atime = 7, fmode = 420\<rparr> (look fs' ([''t''] @ [''f'']))"
    unfolding mirrored_def by (auto simp: demo_look dest!: spec[of _ "[''f'']"])
  with r show ?thesis by (auto simp: synced_def)
qed

theorem copy_file_data_complete_witness:
  "\<exists>fs' g. copy_file_data demo_fs ''/s/f'' ''g'' = Inr (0, fs') \<and> look fs' [''g''] = Some (FileN g) \<and> content g = ''hello''"
proof -
  have l: "look demo_fs [''s'', ''f''] = Some (FileN \<lparr>content = ''hello'', mtime = 7, atime = 7, fmode = 420\<rparr>)" by (simp add: demo_look)
  have o: "sys_open_rd demo_fs ''/s/f'' \<noteq> None" "sys_open_wr demo_fs ''g'' \<noteq> None"
    unfolding sys_open_rd_def sys_open_wr_def Let_def demo_locs
    by (simp_all add: demo_look creatable_def) (simp_all add: demo_fs_def)
  have d: "badblk demo_fs = []" "avail demo_fs = 100" by (simp_all add: demo_fs_def)
  show ?thesis
    using copy_file_data_complete[OF demo_ok _ demo_locs(5)[symmetric] demo_locs(4)[symmetric] _ l o] d
    by auto
qed

theorem sr_dry_run_pure_witness:
  "\<exists>status. sr_main demo_fs ''n'' [''/s/f'', ''g''] = Inr (status, demo_fs)"
proof -
  have "sys_stat demo_fs ''/s/f'' = Some (FileN \<lparr>content = ''hello'', mtime = 7, atime = 7, fmode = 420\<rparr>)" "sys_stat demo_fs ''g'' = None"
    unfolding sys_stat_def demo_locs by (simp_all add: demo_look)
  then obtain status fs' where r: "sr_main demo_fs ''n'' [''/s/f'', ''g''] = Inr (status, fs')"
    by (simp add: sr_main_def sr_sync_file_def)
  have "fs' = demo_fs" by (rule sr_dry_run_pure[OF _ r]) simp
  with r show ?thesis by blast
qed

theorem sr_plain_destination_fails_witness:
  "\<exists>fs'. sr_sync_file demo_fs ''/s/f'' ''g'' \<lparr>sr_verbose = False, sr_dry_run = False\<rparr> = Inr (-1, fs')
    \<and> look fs' [''g''] = Some (DirN [])"
proof -
  have st: "sys_stat demo_fs ''/s/f'' = Some (FileN \<lparr>content = ''hello'', mtime = 7, atime = 7, fmode = 420\<rparr>)"
    unfolding sys_stat_def demo_locs by (simp add: demo_look)
  have c: "cwd demo_fs = []" "denied demo_fs = []" by (simp_all add: demo_fs_def)
  have "plain ''g''" "length ''g'' < SR_MAX_PATH_LEN" "look demo_fs (cwd demo_fs) = Some (DirN [''s''])"
    "look demo_fs (cwd demo_fs @ [''g'']) = None" "cwd demo_fs @ [''g''] \<notin> set (denied demo_fs)"
    by (simp_all add: plain_def SR_MAX_PATH_LEN_def demo_look c)
  from sr_plain_destination_fails[OF this st, of "\<lparr>sr_verbose = False, sr_dry_run = False\<rparr>"] show ?thesis
    by (simp add: c)
qed

end
