(* ===== verification/RsyncThreads.thy ===== *)
theory RsyncThreads
  imports RsyncSimple "HOL-Library.Multiset"
begin

text \<open>
  \<open>Multi_thread_rsync_task/sync_util.c\<close> and its \<open>main\<close>: a shared file list with a cursor, worker
  threads that take one file after another, and counters. The threads run interleaved: a schedule
  names the thread that makes the next step, and a step is one critical section or one file. Every
  property of the workers holds for every schedule.
\<close>

section \<open>The file list\<close>

definition MT_MAX_PATH_LEN :: nat where "MT_MAX_PATH_LEN = 1024"
definition MT_BUFFER_SIZE :: nat where "MT_BUFFER_SIZE = 8192"
definition MT_MAX_THREADS :: nat where "MT_MAX_THREADS = 64"

record file_info_t =
  source_path :: string
  target_path :: string
  fsize :: int
  needs_sync :: bool

record file_list_t =
  files :: "file_info_t list"   \<comment> \<open>the first \<open>count\<close> entries of the array\<close>
  count :: nat
  capacity :: nat
  current_index :: nat

definition init_file_list :: file_list_t where
  "init_file_list = \<lparr>files = [], count = 0, capacity = 100, current_index = 0\<rparr>"

definition free_file_list :: "file_list_t \<Rightarrow> file_list_t" where
  "free_file_list list = \<lparr>files = [], count = 0, capacity = 0, current_index = 0\<rparr>"

definition add_file_to_list :: "file_list_t \<Rightarrow> string \<Rightarrow> string \<Rightarrow> int \<Rightarrow> sync_err + file_list_t" where
  "add_file_to_list list src tgt sz =
     (let list1 = (if count list \<ge> capacity list then list\<lparr>capacity := capacity list * 2\<rparr> else list) in
      if count list1 \<ge> capacity list1 then Inl BadMem
      else Inr (list1\<lparr>files := files list1 @ [\<lparr>source_path = take (MT_MAX_PATH_LEN - 1) src,
                  target_path = take (MT_MAX_PATH_LEN - 1) tgt, fsize = sz, needs_sync = True\<rparr>],
                count := count list1 + 1\<rparr>))"

definition get_next_file :: "file_list_t \<Rightarrow> nat option \<times> file_list_t" where
  \<comment> \<open>the index of the entry that the pointer returned points to\<close>
  "get_next_file list =
     (if current_index list \<ge> count list then (None, list)
      else (Some (current_index list), list\<lparr>current_index := current_index list + 1\<rparr>))"

definition fl_inv :: "file_list_t \<Rightarrow> bool" where
  "fl_inv l \<longleftrightarrow> length (files l) = count l \<and> count l \<le> capacity l \<and> 0 < capacity l \<and> current_index l \<le> count l"

lemma fl_inv_init: "fl_inv init_file_list"
  by (simp add: fl_inv_def init_file_list_def)

lemma add_file_inv:
  assumes "fl_inv l"
  obtains l' where "add_file_to_list l src tgt sz = Inr l'" "fl_inv l'" "count l' = count l + 1"
    "files l' = files l @ [\<lparr>source_path = take (MT_MAX_PATH_LEN - 1) src,
        target_path = take (MT_MAX_PATH_LEN - 1) tgt, fsize = sz, needs_sync = True\<rparr>]"
    "current_index l' = current_index l"
proof -
  have i: "length (files l) = count l" "count l \<le> capacity l" "0 < capacity l" "current_index l \<le> count l"
    using assms by (simp_all add: fl_inv_def)
  show thesis
  proof (cases "count l \<ge> capacity l")
    case True
    then have "count l < capacity l * 2" using i by linarith
    then show thesis using True i that by (auto simp: add_file_to_list_def Let_def fl_inv_def)
  next
    case False
    then show thesis using i that by (auto simp: add_file_to_list_def Let_def fl_inv_def)
  qed
qed

section \<open>Files and directories\<close>

definition is_directory :: "fs \<Rightarrow> string \<Rightarrow> bool" where
  "is_directory fs path = is_dirn (sys_stat fs path)"

definition file_exists :: "fs \<Rightarrow> string \<Rightarrow> bool" where
  "file_exists fs path = (sys_stat fs path \<noteq> None)"

definition get_file_size :: "fs \<Rightarrow> string \<Rightarrow> int" where
  "get_file_size fs path = (case sys_stat fs path of None \<Rightarrow> -1 | Some (FileN f) \<Rightarrow> int (length (content f)) | Some _ \<Rightarrow> 0)"

definition get_file_mtime :: "fs \<Rightarrow> string \<Rightarrow> nat" where
  "get_file_mtime fs path = (case sys_stat fs path of Some (FileN f) \<Rightarrow> mtime f | _ \<Rightarrow> 0)"

definition std_fread :: "fs \<Rightarrow> loc \<Rightarrow> nat \<Rightarrow> nat \<Rightarrow> string" where
  \<comment> \<open>\<open>fread\<close> at an offset: an error ends the data early\<close>
  "std_fread fs l off n =
     (case look fs l of
        Some (FileN f) \<Rightarrow> take n (drop off (case map_of (badblk fs) l of None \<Rightarrow> content f | Some k \<Rightarrow> take k (content f)))
      | _ \<Rightarrow> [])"

fun std_compare :: "nat \<Rightarrow> nat \<Rightarrow> fs \<Rightarrow> loc \<Rightarrow> loc \<Rightarrow> nat \<Rightarrow> sync_err + bool" where
  \<comment> \<open>the \<open>do ... while (bytes_read1 > 0)\<close> loop of \<open>compare_files\<close>, for a buffer size\<close>
  "std_compare B 0 fs f1 f2 pos = Inl NoFuel"
| "std_compare B (Suc fuel) fs f1 f2 pos =
     (let buffer1 = std_fread fs f1 pos B; buffer2 = std_fread fs f2 pos B in
      if length buffer1 \<noteq> length buffer2 \<or> buffer1 \<noteq> buffer2 then Inr False
      else if length buffer1 > 0 then std_compare B fuel fs f1 f2 (pos + length buffer1)
      else Inr True)"

definition mt_compare_files :: "fs \<Rightarrow> string \<Rightarrow> string \<Rightarrow> sync_err + bool" where
  "mt_compare_files fs file1 file2 =
     (if \<not> file_exists fs file2 then Inr False
      else let size1 = get_file_size fs file1; size2 = get_file_size fs file2 in
        if size1 \<noteq> size2 then Inr False
        else if get_file_mtime fs file1 = get_file_mtime fs file2 \<and> size1 = size2 then Inr True
        else if size1 < 1024 * 1024 then
          (case (sys_open_rd fs file1, sys_open_rd fs file2) of
             (Some f1, Some f2) \<Rightarrow> std_compare MT_BUFFER_SIZE (file_len fs f1 + 2) fs f1 f2 0
           | _ \<Rightarrow> Inr False)
        else Inr False)"

definition mt_create_directory :: "fs \<Rightarrow> string \<Rightarrow> sync_err + (bool \<times> fs)" where
  "mt_create_directory fs path =
     (if file_exists fs path then Inr (True, fs) else make_path MT_MAX_PATH_LEN fs path)"

definition upto_slash :: "string \<Rightarrow> string option" where
  \<comment> \<open>the part before the last slash, if there is one (\<open>strrchr\<close>)\<close>
  "upto_slash s = (if SLASH \<in> set s then Some (butlast (rev (dropWhile (\<lambda>c. c \<noteq> SLASH) (rev s)))) else None)"

fun mt_copy_loop :: "nat \<Rightarrow> fs \<Rightarrow> loc \<Rightarrow> loc \<Rightarrow> nat \<Rightarrow> sync_err + (bool \<times> fs)" where
  \<comment> \<open>a failed read ends the loop as the end of the file does\<close>
  "mt_copy_loop 0 fs source_fd target_fd pos = Inl NoFuel"
| "mt_copy_loop (Suc fuel) fs source_fd target_fd pos =
     (case sys_read fs source_fd pos MT_BUFFER_SIZE of
        None \<Rightarrow> Inr (True, fs)
      | Some buffer \<Rightarrow>
          if buffer = [] then Inr (True, fs)
          else let (bytes_written, fs1) = sys_write fs target_fd buffer in
            if bytes_written \<noteq> length buffer then Inr (False, fs1)
            else mt_copy_loop fuel fs1 source_fd target_fd (pos + length buffer))"

definition mt_sync_file :: "fs \<Rightarrow> string \<Rightarrow> string \<Rightarrow> bool \<Rightarrow> sync_err + (bool \<times> fs)" where
  "mt_sync_file fs source_file target_file dry_run =
     bindE (mt_compare_files fs source_file target_file) (\<lambda>same.
       if same then Inr (True, fs)
       else if dry_run then Inr (True, fs)
       else bindE (case upto_slash target_file of
                     None \<Rightarrow> Inr (True, fs)
                   | Some target_dir \<Rightarrow>
                       if length target_dir \<ge> MT_MAX_PATH_LEN then Inl BadMem else mt_create_directory fs target_dir)
         (\<lambda>(made, fs1).
           if \<not> made then Inr (False, fs1)
           else case sys_open_rd fs1 source_file of
             None \<Rightarrow> Inr (False, fs1)
           | Some source_fd \<Rightarrow>
               (case sys_open_wr fs1 target_file of
                  None \<Rightarrow> Inr (False, fs1)
                | Some (target_fd, fs2) \<Rightarrow>
                    bindE (mt_copy_loop (Suc (file_len fs2 source_fd)) fs2 source_fd target_fd 0) (\<lambda>(success, fs3).
                      if \<not> success then Inr (False, fs3)
                      else case look fs3 source_fd of
                        Some (FileN st) \<Rightarrow>
                          (let (_, fs4) = sys_utimes fs3 target_file (atime st) (mtime st) in Inr (True, fs4))
                      | _ \<Rightarrow> Inr (True, fs3)))))"

definition mt_relative_path :: "string \<Rightarrow> string \<Rightarrow> string" where
  \<comment> \<open>\<open>get_relative_path\<close>\<close>
  "mt_relative_path base full_path =
     (if take (length base) full_path = base then
        let relative_start = drop (length base) full_path;
            rel = (if relative_start \<noteq> [] \<and> hd relative_start = SLASH then tl relative_start else relative_start) in
        if rel = [] then [] else take (MT_MAX_PATH_LEN - 1) rel
      else take (MT_MAX_PATH_LEN - 1) full_path)"

fun mt_each :: "('s \<Rightarrow> string \<Rightarrow> sync_err + 's) \<Rightarrow> 's \<Rightarrow> string list \<Rightarrow> sync_err + 's" where
  \<comment> \<open>a \<open>readdir\<close> loop that skips the two dot entries\<close>
  "mt_each body s [] = Inr s"
| "mt_each body s (d_name # rest) =
     (if d_name = ''.'' \<or> d_name = ''..'' then mt_each body s rest
      else bindE (body s d_name) (\<lambda>s1. mt_each body s1 rest))"

lemma mt_each_cong [fundef_cong]:
  "s = s' \<Longrightarrow> ns = ns' \<Longrightarrow> (\<And>t n. n \<in> set ns' \<Longrightarrow> b t n = b' t n) \<Longrightarrow> mt_each b s ns = mt_each b' s' ns'"
proof (induction ns arbitrary: s s' ns')
  case (Cons n ns)
  then show ?case by (auto intro!: bindE_cong)
qed simp

fun mt_traverse_directory :: "nat \<Rightarrow> fs \<Rightarrow> string \<Rightarrow> string \<Rightarrow> file_list_t \<Rightarrow> sync_err + file_list_t" where
  "mt_traverse_directory 0 fs src tgt list = Inl NoFuel"
| "mt_traverse_directory (Suc fuel) fs src tgt list =
     (case sys_readdir fs src of
        None \<Rightarrow> Inr list
      | Some entries \<Rightarrow> mt_each (\<lambda>list d_name.
          let source_full_path = snprintf_path (MT_MAX_PATH_LEN - 1) (src @ SLASH # d_name);
              target_full_path = snprintf_path (MT_MAX_PATH_LEN - 1) (tgt @ SLASH # d_name) in
          if is_directory fs source_full_path
          then mt_traverse_directory fuel fs source_full_path target_full_path list
          else add_file_to_list list source_full_path target_full_path (get_file_size fs source_full_path))
        list entries)"

record sync_config_t =
  source_dir :: string
  target_dir :: string
  thread_count :: nat
  cfg_dry_run :: bool

fun mt_sync_directory_structure :: "nat \<Rightarrow> fs \<Rightarrow> string \<Rightarrow> sync_config_t \<Rightarrow> sync_err + fs" where
  "mt_sync_directory_structure 0 fs path config = Inl NoFuel"
| "mt_sync_directory_structure (Suc fuel) fs path config =
     (case sys_readdir fs path of
        None \<Rightarrow> Inr fs
      | Some entries \<Rightarrow>
          (let relative = mt_relative_path (source_dir config) path in
           bindE (if relative \<noteq> [] then
                    bindE (mt_create_directory fs (snprintf_path (MT_MAX_PATH_LEN - 1) (target_dir config @ SLASH # relative)))
                      (\<lambda>(_, fs1). Inr fs1)
                  else Inr fs)
             (\<lambda>fs1. mt_each (\<lambda>fs d_name.
                let source_full_path = snprintf_path (MT_MAX_PATH_LEN - 1) (path @ SLASH # d_name) in
                if is_directory fs source_full_path
                then mt_sync_directory_structure fuel fs source_full_path config
                else Inr fs) fs1 entries)))"

section \<open>The worker threads\<close>

text \<open>Where a thread is between two of its atomic sections: before \<open>get_next_file\<close>, before the counting
  of the file it holds, before \<open>sync_file\<close>, before the section that records the result, or past the
  loop.\<close>

datatype wpc = WNext | WCount nat | WSync nat | WResult bool | WDone

record mt_state =
  flist :: file_list_t
  mfs :: fs
  files_processed :: nat
  files_synced :: nat
  errors :: nat
  pcs :: "wpc list"

definition mt_step :: "bool \<Rightarrow> mt_state \<Rightarrow> nat \<Rightarrow> sync_err + (nat list \<times> mt_state)" where
  \<comment> \<open>the next section of \<open>worker_thread\<close> in a thread; the list holds the index of the file it synchronises, if any\<close>
  "mt_step dry_run s t =
     (case pcs s ! t of
        WNext \<Rightarrow> (case get_next_file (flist s) of
            (None, l) \<Rightarrow> Inr ([], s\<lparr>flist := l, pcs := (pcs s)[t := WDone]\<rparr>)
          | (Some i, l) \<Rightarrow> Inr ([], s\<lparr>flist := l, pcs := (pcs s)[t := WCount i]\<rparr>))
      | WCount i \<Rightarrow> Inr ([], s\<lparr>files_processed := files_processed s + 1,
            pcs := (pcs s)[t := (if needs_sync (files (flist s) ! i) then WSync i else WNext)]\<rparr>)
      | WSync i \<Rightarrow> bindE (mt_sync_file (mfs s) (source_path (files (flist s) ! i)) (target_path (files (flist s) ! i)) dry_run)
            (\<lambda>(result, fs1). Inr ([i], s\<lparr>mfs := fs1, pcs := (pcs s)[t := WResult result]\<rparr>))
      | WResult result \<Rightarrow> Inr ([], (if result then s\<lparr>files_synced := files_synced s + 1\<rparr> else s\<lparr>errors := errors s + 1\<rparr>)
            \<lparr>pcs := (pcs s)[t := WNext]\<rparr>)
      | WDone \<Rightarrow> Inr ([], s))"

fun mt_exec :: "bool \<Rightarrow> nat list \<Rightarrow> mt_state \<Rightarrow> sync_err + (nat list \<times> mt_state)" where
  "mt_exec dry_run [] s = Inr ([], s)"
| "mt_exec dry_run (t # sched) s =
     bindE (mt_step dry_run s t) (\<lambda>(e, s1). bindE (mt_exec dry_run sched s1) (\<lambda>(es, s2). Inr (e @ es, s2)))"

definition mt_start :: "fs \<Rightarrow> file_list_t \<Rightarrow> nat \<Rightarrow> mt_state" where
  "mt_start fs l n = \<lparr>flist = l, mfs = fs, files_processed = 0, files_synced = 0, errors = 0, pcs = replicate n WNext\<rparr>"

definition mt_perform_sync :: "fs \<Rightarrow> sync_config_t \<Rightarrow> nat list \<Rightarrow> sync_err + (bool \<times> fs)" where
  \<comment> \<open>the schedule is the order in which the threads make their steps until all are joined\<close>
  "mt_perform_sync fs config sched =
     (if \<not> is_directory fs (source_dir config) then Inr (False, fs)
      else bindE (if cfg_dry_run config then Inr (True, fs) else mt_create_directory fs (target_dir config)) (\<lambda>(made, fs1).
        if \<not> made then Inr (False, fs1)
        else bindE (if cfg_dry_run config then Inr fs1
                    else mt_sync_directory_structure (fs_depth fs1) fs1 (source_dir config) config) (\<lambda>fs2.
        bindE (mt_traverse_directory (fs_depth fs2) fs2 (source_dir config) (target_dir config) init_file_list) (\<lambda>l.
        if count l = 0 then Inr (True, fs2)
        else if cfg_dry_run config then Inr (True, fs2)
        else bindE (mt_exec (cfg_dry_run config) sched (mt_start fs2 l (thread_count config))) (\<lambda>(_, s).
          if \<forall>pc \<in> set (pcs s). pc = WDone then Inr (\<not> errors s > 0, mfs s) else Inl NoFuel)))))"

fun mt_options :: "(char \<times> string) list \<Rightarrow> nat \<times> bool \<Rightarrow> int + (nat \<times> bool)" where
  \<comment> \<open>the \<open>getopt\<close> loop of \<open>main\<close>: option letters with their arguments\<close>
  "mt_options [] c = Inr c"
| "mt_options ((opt, optarg) # opts) (threads, dry) =
     (if opt = CHR ''t'' then
        (if atol optarg \<le> 0 \<or> atol optarg > int MT_MAX_THREADS then Inl 1
         else mt_options opts (nat (atol optarg), dry))
      else if opt = CHR ''v'' then mt_options opts (threads, dry)
      else if opt = CHR ''n'' then mt_options opts (threads, True)
      else if opt = CHR ''h'' then Inl 0
      else Inl 1)"

definition cut_slash :: "string \<Rightarrow> string" where
  "cut_slash s = (if s \<noteq> [] \<and> last s = SLASH then butlast s else s)"

definition mt_main :: "fs \<Rightarrow> (char \<times> string) list \<Rightarrow> string list \<Rightarrow> nat list \<Rightarrow> sync_err + (int \<times> fs)" where
  "mt_main fs opts operands sched =
     (case mt_options opts (4, False) of
        Inl status \<Rightarrow> Inr (status, fs)
      | Inr (threads, dry) \<Rightarrow>
          (case operands of
             [src, tgt] \<Rightarrow>
               bindE (mt_perform_sync fs \<lparr>source_dir = cut_slash (snprintf_path MT_MAX_PATH_LEN src),
                   target_dir = cut_slash (snprintf_path MT_MAX_PATH_LEN tgt), thread_count = threads, cfg_dry_run = dry\<rparr> sched)
                 (\<lambda>(ok, fs1). Inr (if ok then 0 else 1, fs1))
           | _ \<Rightarrow> Inr (1, fs)))"

section \<open>Every file once, every count right\<close>

lemma sum_list_update: "t < length xs \<Longrightarrow> sum_list (map f (xs[t := x])) + f (xs ! t) = sum_list (map f xs) + f x"
  for f :: "'a \<Rightarrow> 'b::comm_monoid_add"
proof (induction xs arbitrary: t)
  case (Cons y ys)
  show ?case
  proof (cases t)
    case 0
    then show ?thesis by (simp add: ac_simps)
  next
    case (Suc k)
    then have "sum_list (map f (ys[k := x])) + f (ys ! k) = sum_list (map f ys) + f x" using Cons by simp
    then show ?thesis using Suc by (simp add: add.assoc)
  qed
qed simp

definition holds :: "wpc \<Rightarrow> nat multiset" where
  "holds pc = (case pc of WCount i \<Rightarrow> {#i#} | WSync i \<Rightarrow> {#i#} | _ \<Rightarrow> {#})"

definition uncounted :: "wpc \<Rightarrow> nat" where
  "uncounted pc = (case pc of WCount _ \<Rightarrow> 1 | _ \<Rightarrow> 0)"

definition unrecorded :: "wpc \<Rightarrow> nat" where
  "unrecorded pc = (case pc of WResult _ \<Rightarrow> 1 | _ \<Rightarrow> 0)"

definition in_range :: "nat \<Rightarrow> wpc \<Rightarrow> bool" where
  "in_range n pc = (case pc of WCount i \<Rightarrow> i < n | WSync i \<Rightarrow> i < n | _ \<Rightarrow> True)"

definition mt_inv :: "file_info_t list \<Rightarrow> nat \<Rightarrow> mt_state \<Rightarrow> nat list \<Rightarrow> bool" where
  "mt_inv F n s h \<longleftrightarrow> fl_inv (flist s) \<and> files (flist s) = F \<and> (\<forall>f \<in> set F. needs_sync f) \<and> length (pcs s) = n
     \<and> mset h + sum_list (map holds (pcs s)) = mset [0..<current_index (flist s)]
     \<and> files_processed s + sum_list (map uncounted (pcs s)) = current_index (flist s)
     \<and> files_synced s + errors s + sum_list (map unrecorded (pcs s)) = length h
     \<and> (\<forall>pc \<in> set (pcs s). in_range (length F) pc)
     \<and> (WDone \<in> set (pcs s) \<longrightarrow> current_index (flist s) = count (flist s))"

lemma in_range_upd: "\<forall>pc \<in> set ps. in_range m pc \<Longrightarrow> in_range m x \<Longrightarrow> \<forall>pc \<in> set (ps[t := x]). in_range m pc"
  using set_update_subset_insert[of ps t x] by auto

lemma done_upd: "WDone \<in> set (ps[t := x]) \<Longrightarrow> x \<noteq> WDone \<Longrightarrow> WDone \<in> set ps"
  using set_update_subset_insert by fastforce

lemma mt_step_inv:
  assumes inv: "mt_inv F n s h" and t: "t < n" and step: "mt_step dry s t = Inr (e, s')"
  shows "mt_inv F n s' (h @ e)"
proof -
  note I = inv[unfolded mt_inv_def]
  have tl: "t < length (pcs s)" using I t by simp
  note H = sum_list_update[OF tl, of holds] and U = sum_list_update[OF tl, of uncounted]
    and R = sum_list_update[OF tl, of unrecorded]
  have rng: "in_range (length F) (pcs s ! t)" using I tl by simp
  have fi: "length (files (flist s)) = count (flist s)" "files (flist s) = F" using I unfolding fl_inv_def by blast+
  then have cnt: "count (flist s) = length F" by simp
  show ?thesis
  proof (cases "pcs s ! t")
    case WNext
    show ?thesis
    proof (cases "current_index (flist s) \<ge> count (flist s)")
      case True
      then have eq: "current_index (flist s) = count (flist s)" using I by (auto simp: fl_inv_def)
      have "e = [] \<and> s' = s\<lparr>pcs := (pcs s)[t := WDone]\<rparr>" using step WNext True by (auto simp: mt_step_def get_next_file_def)
      moreover have "sum_list (map holds ((pcs s)[t := WDone])) = sum_list (map holds (pcs s))"
        using H[of WDone] WNext by (simp add: holds_def)
      moreover have "sum_list (map uncounted ((pcs s)[t := WDone])) = sum_list (map uncounted (pcs s))"
        using U[of WDone] WNext by (simp add: uncounted_def)
      moreover have "sum_list (map unrecorded ((pcs s)[t := WDone])) = sum_list (map unrecorded (pcs s))"
        using R[of WDone] WNext by (simp add: unrecorded_def)
      moreover have "\<forall>pc \<in> set ((pcs s)[t := WDone]). in_range (length F) pc"
        by (rule in_range_upd) (use I in \<open>simp_all add: in_range_def\<close>)
      ultimately show ?thesis using I eq by (simp add: mt_inv_def)
    next
      case False
      let ?i = "current_index (flist s)"
      have lt: "?i < length F" using False cnt by simp
      have es: "e = [] \<and> s' = s\<lparr>flist := (flist s)\<lparr>current_index := ?i + 1\<rparr>, pcs := (pcs s)[t := WCount ?i]\<rparr>"
        using step WNext False by (auto simp: mt_step_def get_next_file_def)
      have nd: "WDone \<notin> set (pcs s)" using I False by auto
      have "WDone \<notin> set ((pcs s)[t := WCount ?i])" using nd done_upd by blast
      moreover have "fl_inv ((flist s)\<lparr>current_index := ?i + 1\<rparr>)" using I cnt lt fi unfolding fl_inv_def by simp
      moreover have "mset h + sum_list (map holds ((pcs s)[t := WCount ?i])) = mset [0..<?i + 1]"
        using I H[of "WCount ?i"] WNext by (simp add: holds_def)
      moreover have "files_processed s + sum_list (map uncounted ((pcs s)[t := WCount ?i])) = ?i + 1"
        using I U[of "WCount ?i"] WNext by (simp add: uncounted_def)
      moreover have "sum_list (map unrecorded ((pcs s)[t := WCount ?i])) = sum_list (map unrecorded (pcs s))"
        using R[of "WCount ?i"] WNext by (simp add: unrecorded_def)
      moreover have "\<forall>pc \<in> set ((pcs s)[t := WCount ?i]). in_range (length F) pc"
        by (rule in_range_upd) (use I lt in \<open>simp_all add: in_range_def\<close>)
      ultimately show ?thesis using I es by (simp add: mt_inv_def)
    qed
  next
    case (WCount i)
    have ns: "needs_sync (files (flist s) ! i)" using I rng WCount by (simp add: in_range_def)
    have es: "e = [] \<and> s' = s\<lparr>files_processed := files_processed s + 1, pcs := (pcs s)[t := WSync i]\<rparr>"
      using step WCount ns by (simp add: mt_step_def)
    have "mset h + sum_list (map holds ((pcs s)[t := WSync i])) = mset [0..<current_index (flist s)]"
      using I H[of "WSync i"] WCount by (simp add: holds_def)
    moreover have "Suc (files_processed s) + sum_list (map uncounted ((pcs s)[t := WSync i])) = current_index (flist s)"
      using I U[of "WSync i"] WCount by (simp add: uncounted_def)
    moreover have "sum_list (map unrecorded ((pcs s)[t := WSync i])) = sum_list (map unrecorded (pcs s))"
      using R[of "WSync i"] WCount by (simp add: unrecorded_def)
    moreover have "\<forall>pc \<in> set ((pcs s)[t := WSync i]). in_range (length F) pc"
      by (rule in_range_upd) (use I rng WCount in \<open>simp_all add: in_range_def\<close>)
    ultimately show ?thesis using I es done_upd[of "pcs s" t "WSync i"] by (auto simp: mt_inv_def)
  next
    case (WSync i)
    obtain b fs1 where sf: "mt_sync_file (mfs s) (source_path (files (flist s) ! i)) (target_path (files (flist s) ! i)) dry = Inr (b, fs1)"
      using step WSync by (auto simp: mt_step_def)
    have es: "e = [i] \<and> s' = s\<lparr>mfs := fs1, pcs := (pcs s)[t := WResult b]\<rparr>" using step WSync sf by (simp add: mt_step_def)
    have hx: "add_mset i (sum_list (map holds ((pcs s)[t := WResult b]))) = sum_list (map holds (pcs s))"
      using H[of "WResult b"] WSync by (simp add: holds_def)
    have "add_mset i (mset h + sum_list (map holds ((pcs s)[t := WResult b]))) = mset h + sum_list (map holds (pcs s))"
      unfolding hx[symmetric] by simp
    then have "add_mset i (mset h + sum_list (map holds ((pcs s)[t := WResult b]))) = mset [0..<current_index (flist s)]"
      using I by simp
    moreover have "sum_list (map uncounted ((pcs s)[t := WResult b])) = sum_list (map uncounted (pcs s))"
      using U[of "WResult b"] WSync by (simp add: uncounted_def)
    moreover have "sum_list (map unrecorded ((pcs s)[t := WResult b])) = Suc (sum_list (map unrecorded (pcs s)))"
      using R[of "WResult b"] WSync by (simp add: unrecorded_def)
    moreover have "\<forall>pc \<in> set ((pcs s)[t := WResult b]). in_range (length F) pc"
      by (rule in_range_upd) (use I in \<open>simp_all add: in_range_def\<close>)
    ultimately show ?thesis using I es done_upd[of "pcs s" t "WResult b"] by (auto simp: mt_inv_def)
  next
    case (WResult b)
    have es: "e = [] \<and> s' = (if b then s\<lparr>files_synced := files_synced s + 1\<rparr> else s\<lparr>errors := errors s + 1\<rparr>)\<lparr>pcs := (pcs s)[t := WNext]\<rparr>"
      using step WResult by (simp add: mt_step_def)
    have "sum_list (map holds ((pcs s)[t := WNext])) = sum_list (map holds (pcs s))"
      using H[of WNext] WResult by (simp add: holds_def)
    moreover have "sum_list (map uncounted ((pcs s)[t := WNext])) = sum_list (map uncounted (pcs s))"
      using U[of WNext] WResult by (simp add: uncounted_def)
    moreover have "Suc (sum_list (map unrecorded ((pcs s)[t := WNext]))) = sum_list (map unrecorded (pcs s))"
      using R[of WNext] WResult by (simp add: unrecorded_def)
    moreover have "\<forall>pc \<in> set ((pcs s)[t := WNext]). in_range (length F) pc"
      by (rule in_range_upd) (use I in \<open>simp_all add: in_range_def\<close>)
    ultimately show ?thesis using I es done_upd[of "pcs s" t WNext] by (auto simp: mt_inv_def)
  next
    case WDone
    then show ?thesis using step inv by (simp add: mt_step_def)
  qed
qed

lemma mt_exec_inv:
  assumes "mt_inv F n s h" "set sched \<subseteq> {..<n}" "mt_exec dry sched s = Inr (es, s')"
  shows "mt_inv F n s' (h @ es)"
  using assms
proof (induction sched arbitrary: s h es)
  case (Cons t sched)
  then obtain e s1 es1 where st: "mt_step dry s t = Inr (e, s1)" "mt_exec dry sched s1 = Inr (es1, s')" "es = e @ es1"
    by auto
  have "mt_inv F n s1 (h @ e)" using mt_step_inv[OF Cons.prems(1) _ st(1)] Cons.prems(2) by simp
  then show ?case using Cons.IH st Cons.prems(2) by fastforce
qed simp

lemma sum_list_const0: "\<forall>x \<in> set xs. f x = 0 \<Longrightarrow> sum_list (map f xs) = 0"
  for f :: "'a \<Rightarrow> 'b::comm_monoid_add"
  by (induction xs) auto

lemma mt_start_inv:
  assumes "fl_inv l" "current_index l = 0" "\<forall>f \<in> set (files l). needs_sync f"
  shows "mt_inv (files l) n (mt_start fs l n) []"
proof -
  have "sum_list (map holds (replicate n WNext)) = 0" "sum_list (map uncounted (replicate n WNext)) = 0"
    "sum_list (map unrecorded (replicate n WNext)) = 0"
    by (rule sum_list_const0, simp add: holds_def uncounted_def unrecorded_def)+
  then show ?thesis using assms by (simp add: mt_inv_def mt_start_def in_range_def)
qed

lemma mt_inv_done:
  assumes "mt_inv F n s h" "\<forall>pc \<in> set (pcs s). pc = WDone" "0 < n"
  shows "mset h = mset [0..<length F]" "files_processed s = length F" "files_synced s + errors s = length F"
proof -
  note I = assms(1)[unfolded mt_inv_def]
  have z: "sum_list (map holds (pcs s)) = 0" "sum_list (map uncounted (pcs s)) = 0" "sum_list (map unrecorded (pcs s)) = 0"
    by (rule sum_list_const0, use assms(2) in \<open>auto simp: holds_def uncounted_def unrecorded_def\<close>)+
  have "pcs s \<noteq> []" using I assms(3) by auto
  then have "WDone \<in> set (pcs s)" using assms(2) by (cases "pcs s") auto
  then have ci: "current_index (flist s) = length F" using I by (auto simp: fl_inv_def)
  show m: "mset h = mset [0..<length F]" using I z(1) ci by simp
  show "files_processed s = length F" using I z(2) ci by simp
  have "length h = length F" using arg_cong[OF m, of size] by simp
  then show "files_synced s + errors s = length F" using I z(3) by simp
qed

section \<open>The threads finish\<close>

definition wt :: "wpc \<Rightarrow> nat" where
  "wt pc = (case pc of WDone \<Rightarrow> 0 | WNext \<Rightarrow> 1 | WResult _ \<Rightarrow> 2 | WSync _ \<Rightarrow> 3 | WCount _ \<Rightarrow> 4)"

definition work :: "mt_state \<Rightarrow> nat" where
  "work s = 4 * (count (flist s) - current_index (flist s)) + sum_list (map wt (pcs s))"

lemma mt_step_work:
  assumes "t < length (pcs s)" "mt_step dry s t = Inr (e, s')"
  shows "work s' \<le> work s" "pcs s ! t \<noteq> WDone \<Longrightarrow> work s' < work s" "\<And>u. u \<noteq> t \<Longrightarrow> pcs s' ! u = pcs s ! u"
    "length (pcs s') = length (pcs s)"
proof -
  note W = sum_list_update[OF assms(1), of wt]
  have "work s' \<le> work s \<and> (pcs s ! t \<noteq> WDone \<longrightarrow> work s' < work s) \<and> (\<forall>u. u \<noteq> t \<longrightarrow> pcs s' ! u = pcs s ! u)
    \<and> length (pcs s') = length (pcs s)"
  proof (cases "pcs s ! t")
    case WNext
    then show ?thesis using assms(2) W[of WDone] W[of "WCount (current_index (flist s))"]
      by (auto simp: mt_step_def get_next_file_def work_def wt_def split: if_splits)
  next
    case (WCount i)
    then show ?thesis using assms(2) W[of "WSync i"] W[of WNext]
      by (auto simp: mt_step_def work_def wt_def)
  next
    case (WSync i)
    then obtain b where "pcs s' = (pcs s)[t := WResult b]" "flist s' = flist s" using assms(2) by (auto simp: mt_step_def)
    then show ?thesis using W[of "WResult b"] WSync by (simp add: work_def wt_def)
  next
    case (WResult b)
    then show ?thesis using assms(2) W[of WNext] by (auto simp: mt_step_def work_def wt_def)
  next
    case WDone
    then show ?thesis using assms(2) by (simp add: mt_step_def)
  qed
  then show "work s' \<le> work s" "pcs s ! t \<noteq> WDone \<Longrightarrow> work s' < work s" "\<And>u. u \<noteq> t \<Longrightarrow> pcs s' ! u = pcs s ! u"
    "length (pcs s') = length (pcs s)" by blast+
qed

lemma mt_exec_append: "mt_exec dry (a @ b) s = bindE (mt_exec dry a s) (\<lambda>(e1, s1). bindE (mt_exec dry b s1) (\<lambda>(e2, s2). Inr (e1 @ e2, s2)))"
proof (induction a arbitrary: s)
  case Nil
  then show ?case by (cases "mt_exec dry b s") auto
next
  case (Cons t a)
  show ?case
  proof (cases "mt_step dry s t")
    case (Inr p)
    then show ?thesis using Cons.IH[of "snd p"]
      by (cases p; cases "mt_exec dry a (snd p)") (auto simp: bindE_def split: sum.splits prod.splits)
  qed simp
qed

lemma mt_exec_work:
  assumes "set sched \<subseteq> {..<length (pcs s)}" "mt_exec dry sched s = Inr (e, s')"
  shows "work s' \<le> work s \<and> length (pcs s') = length (pcs s) \<and>
    ((\<exists>t \<in> set sched. pcs s ! t \<noteq> WDone) \<longrightarrow> work s' < work s)"
  using assms
proof (induction sched arbitrary: s e)
  case (Cons u sched)
  then obtain e1 s1 e2 where st: "mt_step dry s u = Inr (e1, s1)" "mt_exec dry sched s1 = Inr (e2, s')" by auto
  have ul: "u < length (pcs s)" using Cons.prems(1) by simp
  note w = mt_step_work[OF ul st(1)]
  have sub: "set sched \<subseteq> {..<length (pcs s1)}" using Cons.prems(1) w(4) by simp
  note ih = Cons.IH[OF sub st(2)]
  show ?case
  proof (cases "pcs s ! u = WDone")
    case False
    then show ?thesis using ih w by auto
  next
    case True
    then have "s1 = s" using st(1) by (simp add: mt_step_def)
    then show ?thesis using ih True by auto
  qed
qed simp

lemma atLeast_upt_le: "set [0..<n] \<subseteq> {..<n}"
  by auto

lemma mt_rounds_done:
  assumes "mt_exec dry (concat (replicate k [0..<length (pcs s)])) s = Inr (e, s')" "work s \<le> k"
  shows "\<forall>pc \<in> set (pcs s'). pc = WDone"
  using assms
proof (induction k arbitrary: s e)
  case 0
  have z0: "wt (pcs s ! t) = 0" if "t < length (pcs s)" for t
    using 0 that by (auto simp: work_def)
  have "pcs s ! t = WDone" if "t < length (pcs s)" for t
    using z0[OF that] by (cases "pcs s ! t") (simp_all add: wt_def)
  then show ?case using 0 by (auto simp: in_set_conv_nth)
next
  case (Suc k)
  obtain e1 s1 e2 where r: "mt_exec dry [0..<length (pcs s)] s = Inr (e1, s1)"
    "mt_exec dry (concat (replicate k [0..<length (pcs s)])) s1 = Inr (e2, s')"
    using Suc.prems(1) by (auto simp: mt_exec_append)
  have w: "work s1 \<le> work s" "length (pcs s1) = length (pcs s)" "(\<exists>t < length (pcs s). pcs s ! t \<noteq> WDone) \<Longrightarrow> work s1 < work s"
    using mt_exec_work[OF atLeast_upt_le r(1)] by auto
  show ?case
  proof (cases "\<exists>t < length (pcs s). pcs s ! t \<noteq> WDone")
    case True
    then show ?thesis using w Suc.prems(2) r(2) by (intro Suc.IH[of s1 e2]) auto
  next
    case False
    then have "work s = 4 * (count (flist s) - current_index (flist s))"
      using sum_list_const0[of "pcs s" wt] by (auto simp: work_def wt_def in_set_conv_nth)
    have alld: "mt_step dry s t = Inr ([], s)" if "t < length (pcs s)" for t using False that by (simp add: mt_step_def)
    have "mt_exec dry ts s = Inr (e', s'') \<Longrightarrow> set ts \<subseteq> {..<length (pcs s)} \<Longrightarrow> s'' = s" for ts e' s''
      by (induction ts arbitrary: e') (auto simp: alld)
    from this[OF Suc.prems(1)] have "s' = s" by (auto simp: atLeast_upt_le[simplified])
    then show ?thesis using False by (auto simp: in_set_conv_nth)
  qed
qed

section \<open>One file\<close>

lemma std_fread_len: "off + length (std_fread fs l off n) \<le> file_len fs l \<or> std_fread fs l off n = []"
proof (cases "std_fread fs l off n = []")
  case False
  then show ?thesis by (auto simp: std_fread_def file_len_def split: option.splits node.splits)
qed simp

lemma std_compare_total: "0 < B \<Longrightarrow> file_len fs a - pos + 1 < fuel \<Longrightarrow> std_compare B fuel fs a b pos \<noteq> Inl e"
proof (induction fuel arbitrary: pos)
  case (Suc fuel)
  let ?c = "std_fread fs a pos B"
  show ?case
  proof (cases "?c = []")
    case False
    then have "0 < length ?c" "pos + length ?c \<le> file_len fs a" using std_fread_len[of pos fs a B] by auto
    then have "file_len fs a - (pos + length ?c) + 1 < fuel" using Suc.prems(2) by linarith
    from Suc.IH[OF Suc.prems(1) this] show ?thesis by (auto simp: Let_def)
  qed (auto simp: Let_def)
qed simp

lemma std_compare_sound:
  assumes "look fs a = Some (FileN f)" "look fs b = Some (FileN g)" "badblk fs = []" "0 < B"
    "take pos (content f) = take pos (content g)" "length (content f) = length (content g)"
    "std_compare B fuel fs a b pos = Inr True"
  shows "content f = content g"
  using assms(5,7)
proof (induction fuel arbitrary: pos)
  case (Suc fuel)
  have r: "std_fread fs a pos B = take B (drop pos (content f))" "std_fread fs b pos B = take B (drop pos (content g))"
    using assms(1-3) by (simp_all add: std_fread_def)
  let ?c = "take B (drop pos (content f))"
  have eq: "take B (drop pos (content g)) = ?c" using Suc.prems(2) r by (auto simp: Let_def split: if_splits)
  show ?case
  proof (cases "?c = []")
    case True
    then have "length (content f) \<le> pos" using assms(4) by auto
    then show ?thesis using Suc.prems(1) assms(6) by simp
  next
    case False
    have lc: "length ?c = min B (length (content f) - pos)" by simp
    have tl: "take (length (take B xs)) xs = take B xs" for xs :: string by (simp add: min_def)
    have "take (length ?c) (drop pos (content f)) = ?c" "take (length ?c) (drop pos (content g)) = ?c"
      using tl[of "drop pos (content f)"] tl[of "drop pos (content g)"] unfolding eq by blast+
    then have "take (pos + length ?c) (content f) = take (pos + length ?c) (content g)"
      using Suc.prems(1) by (simp add: take_add)
    moreover have "std_compare B fuel fs a b (pos + length ?c) = Inr True"
      using Suc.prems(2) r eq False by (simp add: Let_def split: if_splits)
    ultimately show ?thesis by (rule Suc.IH)
  qed
qed simp

lemma mt_compare_total: "mt_compare_files fs src dst \<noteq> Inl e"
proof -
  have "std_compare MT_BUFFER_SIZE (file_len fs a + 2) fs a b 0 \<noteq> Inl e" for a b
    by (rule std_compare_total) (simp_all add: MT_BUFFER_SIZE_def)
  then show ?thesis by (auto simp: mt_compare_files_def Let_def split: option.splits)
qed

lemma mt_compare_sound:
  assumes "look fs (locate (cwd fs) src) = Some (FileN f)" "src \<noteq> []" "dst \<noteq> []" "badblk fs = []"
    "is_dirn (look fs (locate (cwd fs) dst)) = False" "look fs (locate (cwd fs) dst) \<noteq> Some OtherN"
    "mt_compare_files fs src dst = Inr True"
  shows "synced f (look fs (locate (cwd fs) dst))"
proof -
  have ex: "file_exists fs dst" using assms(7) by (auto simp: mt_compare_files_def split: if_splits)
  then obtain g where g: "look fs (locate (cwd fs) dst) = Some (FileN g)"
    using assms(3,5,6) by (cases "look fs (locate (cwd fs) dst)"; cases "the (look fs (locate (cwd fs) dst))")
      (auto simp: file_exists_def stat_look is_dirn_def)
  have sz: "get_file_size fs src = int (length (content f))" "get_file_size fs dst = int (length (content g))"
    "get_file_mtime fs src = mtime f" "get_file_mtime fs dst = mtime g"
    using assms(1-3) g by (simp_all add: get_file_size_def get_file_mtime_def stat_look)
  have len: "length (content f) = length (content g)"
    using assms(7) sz by (auto simp: mt_compare_files_def Let_def split: if_splits)
  show ?thesis
  proof (cases "mtime f = mtime g")
    case True
    then show ?thesis using g len by (simp add: synced_def)
  next
    case False
    then obtain a b where ab: "sys_open_rd fs src = Some a" "sys_open_rd fs dst = Some b"
      "std_compare MT_BUFFER_SIZE (file_len fs a + 2) fs a b 0 = Inr True"
      using assms(7) sz len ex by (auto simp: mt_compare_files_def Let_def split: if_splits option.splits)
    then have l: "look fs a = Some (FileN f)" "look fs b = Some (FileN g)" using open_rd_loc assms(1) g by blast+
    have "content f = content g"
      by (rule std_compare_sound[OF l assms(4) _ _ len ab(3)]) (simp_all add: MT_BUFFER_SIZE_def)
    then show ?thesis using g by (simp add: synced_def)
  qed
qed

lemma mt_copy_loop_spec:
  assumes "look fs d = Some (FileN g)" "s \<noteq> d" "look fs s = Some (FileN f) \<longrightarrow> content g = take pos (content f)"
    "file_len fs s - pos < fuel"
  shows "\<exists>b fs'. mt_copy_loop fuel fs s d pos = Inr (b, fs') \<and> chg fs fs' d
    \<and> (\<exists>g'. look fs' d = Some (FileN g') \<and> (b \<longrightarrow> look fs s = Some (FileN f) \<longrightarrow> badblk fs = [] \<longrightarrow> content g' = content f))"
  using assms
proof (induction fuel arbitrary: fs g pos)
  case (Suc fuel)
  have B: "0 < MT_BUFFER_SIZE" by (simp add: MT_BUFFER_SIZE_def)
  show ?case
  proof (cases "\<exists>h. look fs s = Some (FileN h)")
    case False
    then have "sys_read fs s pos MT_BUFFER_SIZE = None" by (auto simp: sys_read_def split: option.splits node.splits)
    then show ?thesis using Suc.prems(1) False by auto
  next
    case True
    then obtain h where h: "look fs s = Some (FileN h)" by blast
    consider "sys_read fs s pos MT_BUFFER_SIZE = None"
      | "sys_read fs s pos MT_BUFFER_SIZE = Some []" "length (content h) \<le> pos"
      | c where "sys_read fs s pos MT_BUFFER_SIZE = Some c" "c \<noteq> []" "c = take (length c) (drop pos (content h))"
          "pos + length c \<le> length (content h)"
      using sys_read_cases[OF h B, where off = pos] by metis
    then show ?thesis
    proof cases
      case 1
      then have "badblk fs \<noteq> []" using h by (auto simp: sys_read_def)
      then show ?thesis using 1 Suc.prems(1) by auto
    next
      case 2
      then show ?thesis using Suc.prems(1,3) h by auto
    next
      case 3
      obtain w fs1 where w: "sys_write fs d c = (w, fs1)" by (cases "sys_write fs d c")
      have ch: "chg fs fs1 d" by (rule write_chg[OF w])
      have h1: "look fs1 s = Some (FileN h)" by (rule chgD(1)[OF ch Suc.prems(2) h])
      show ?thesis
      proof (cases "w = length c")
        case False
        have "\<exists>g'. look fs1 d = Some (FileN g')" using w Suc.prems(1) by (auto simp: sys_write_def Let_def)
        then show ?thesis using 3(1,2) w False ch by auto
      next
        case True
        obtain g' where g': "look fs1 d = Some (FileN g')" "content g' = content g @ c"
          using sys_write_file[OF Suc.prems(1)] w True by auto
        have "look fs1 s = Some (FileN f) \<longrightarrow> content g' = take (pos + length c) (content f)"
        proof
          assume "look fs1 s = Some (FileN f)"
          then have hf: "h = f" using h1 by simp
          then have "content g = take pos (content h)" using Suc.prems(3) h by simp
          then show "content g' = take (pos + length c) (content f)"
            using g'(2) 3(3) hf by (metis take_add)
        qed
        moreover have "file_len fs1 s - (pos + length c) < fuel"
        proof -
          have "0 < length c" using 3(2) by simp
          moreover have "file_len fs s = length (content h)" "file_len fs1 s = length (content h)"
            using h h1 by (simp_all add: file_len_def)
          ultimately show ?thesis using 3(4) Suc.prems(4) by linarith
        qed
        ultimately obtain b fs' where r: "mt_copy_loop fuel fs1 s d (pos + length c) = Inr (b, fs')" "chg fs1 fs' d"
          "\<exists>g'. look fs' d = Some (FileN g') \<and> (b \<longrightarrow> look fs1 s = Some (FileN f) \<longrightarrow> badblk fs1 = [] \<longrightarrow> content g' = content f)"
          using Suc.IH[OF g'(1) Suc.prems(2)] by blast
        have "badblk fs1 = badblk fs" "look fs s = Some (FileN f) \<longrightarrow> look fs1 s = Some (FileN f)"
          using chgD(6)[OF ch] h h1 by simp_all
        then show ?thesis using r 3(1,2) w True chg_trans[OF ch r(2)] by auto
      qed
    qed
  qed
qed simp

lemma upto_slash_eq: "SLASH \<notin> set n \<Longrightarrow> upto_slash (d @ SLASH # n) = Some d"
proof -
  assume "SLASH \<notin> set n"
  then have "\<forall>x \<in> set (rev n). x \<noteq> SLASH" by auto
  then have "dropWhile (\<lambda>c. c \<noteq> SLASH) (rev n @ SLASH # rev d) = SLASH # rev d"
    by (subst dropWhile_append2) auto
  then show ?thesis by (simp add: upto_slash_def butlast_append)
qed

lemma mt_sync_tail:
  assumes "mt_compare_files fs src dst = Inr same" "upto_slash dst = Some d" "length d < MT_MAX_PATH_LEN"
    "mt_create_directory fs d = Inr (made, fs1) \<and> made \<and> \<not> same"
    "sys_open_rd fs1 src = Some s" "sys_open_wr fs1 dst = Some (t, fs2)"
    "mt_copy_loop (Suc (file_len fs2 s)) fs2 s t 0 = Inr (b, fs3)"
  shows "mt_sync_file fs src dst False = (if \<not> b then Inr (False, fs3) else case look fs3 s of
          Some (FileN st) \<Rightarrow> (let (_, fs4) = sys_utimes fs3 dst (atime st) (mtime st) in Inr (True, fs4))
        | _ \<Rightarrow> Inr (True, fs3))"
  using assms by (simp add: mt_sync_file_def)

lemma mt_sync_file_spec:
  assumes ok: "fs_ok fs" and dst: "NUL \<notin> set dst" "no_dd dst" "length dst < MT_MAX_PATH_LEN" "dst = d @ SLASH # n" "d \<noteq> []" "plain n"
    and loc: "P = locate (cwd fs) dst" "S = locate (cwd fs) src" "src \<noteq> []" "S \<noteq> P"
  shows "\<exists>b fs'. mt_sync_file fs src dst False = Inr (b, fs') \<and> chg fs fs' P
    \<and> (b \<longrightarrow> badblk fs = [] \<longrightarrow> (\<forall>f. look fs S = Some (FileN f) \<longrightarrow> \<not> is_dirn (look fs P) \<longrightarrow> look fs P \<noteq> Some OtherN \<longrightarrow> synced f (look fs' P)))"
proof -
  have ne: "dst \<noteq> []" using dst(4) by simp
  obtain same where same: "mt_compare_files fs src dst = Inr same"
    using mt_compare_total[of fs src dst] by (cases "mt_compare_files fs src dst") auto
  show ?thesis
  proof (cases same)
    case True
    then show ?thesis using same mt_compare_sound[of fs src _ dst] loc(1-3) ne by (auto simp: mt_sync_file_def)
  next
    case False
    have us: "upto_slash dst = Some d" using upto_slash_eq[of n d] dst(4,6) by (simp add: plain_def)
    have ld: "length d < MT_MAX_PATH_LEN" using dst(3,4) by simp
    have dd: "NUL \<notin> set d" "no_dd d" "prefix (locate (cwd fs) d) P"
      using dst(1,2,4,5) loc(1) locate_up[of d n "cwd fs"] by (auto simp: no_dd_append)
    obtain made fs1 where mk: "mt_create_directory fs d = Inr (made, fs1)" "chg fs fs1 P"
    proof (cases "file_exists fs d")
      case True
      then show thesis using that by (simp add: mt_create_directory_def)
    next
      case nf: False
      obtain b fs1 where mp: "make_path MT_MAX_PATH_LEN fs d = Inr (b, fs1)"
        using ld dst(5) by (auto simp: make_path_def Let_def split: if_splits) (metis surj_pair)+
      then show thesis using that nf make_path_chg[OF mp ok dd(1,2) ld dd(3)] by (simp add: mt_create_directory_def)
    qed
    note head = same us ld mk(1) False
    have ok1: "fs_ok fs1" by (rule chgD(7)[OF mk(2) ok])
    have lc: "P = locate (cwd fs1) dst" "S = locate (cwd fs1) src" using chgD(4)[OF mk(2)] loc by simp_all
    show ?thesis
    proof (cases "made \<and> sys_open_rd fs1 src \<noteq> None \<and> sys_open_wr fs1 dst \<noteq> None")
      case bad: False
      then have "mt_sync_file fs src dst False = Inr (False, fs1)"
        using head by (auto simp: mt_sync_file_def split: option.splits)
      then show ?thesis using mk(2) by auto
    next
      case good: True
      then obtain s t fs2 where o: "sys_open_rd fs1 src = Some s" "sys_open_wr fs1 dst = Some (t, fs2)" by auto
      have s: "s = S" using open_rd_loc[OF o(1)] lc(2) by simp
      note w = open_wr_chg[OF o(2) ok1 dst(1) lc(1)]
      obtain g where g: "look fs2 P = Some (FileN g)" "content g = []" using w(3) by blast
      have c2: "chg fs fs2 P" by (rule chg_trans[OF mk(2) w(1)])
      have sp: "\<exists>b fs'. mt_copy_loop (Suc (file_len fs2 S)) fs2 S P 0 = Inr (b, fs') \<and> chg fs2 fs' P
        \<and> (\<exists>g'. look fs' P = Some (FileN g') \<and> (b \<longrightarrow> look fs2 S = Some (FileN f) \<longrightarrow> badblk fs2 = [] \<longrightarrow> content g' = content f))" for f
        using mt_copy_loop_spec[OF g(1) loc(4), where f = f and pos = 0 and fuel = "Suc (file_len fs2 S)"] g(2) by simp
      obtain b fs3 where l: "mt_copy_loop (Suc (file_len fs2 S)) fs2 S P 0 = Inr (b, fs3)" "chg fs2 fs3 P"
        "\<exists>g'. look fs3 P = Some (FileN g')"
        using sp[of undefined] by (elim exE conjE) blast
      have lf: "\<exists>g'. look fs3 P = Some (FileN g') \<and> content g' = content f"
        if "b" "look fs2 S = Some (FileN f)" "badblk fs2 = []" for f
        using sp[of f] that l(1) by (elim exE conjE) simp
      have c3: "chg fs fs3 P" by (rule chg_trans[OF c2 l(2)])
      have l3: "P = locate (cwd fs3) dst" using chgD(4)[OF c3] loc by simp
      have tail: "mt_sync_file fs src dst False = (if \<not> b then Inr (False, fs3) else case look fs3 S of
          Some (FileN st) \<Rightarrow> (let (_, fs4) = sys_utimes fs3 dst (atime st) (mtime st) in Inr (True, fs4))
        | _ \<Rightarrow> Inr (True, fs3))"
        using mt_sync_tail[OF same us ld _ o, of made b fs3] mk(1) good l(1) False s w(2) by simp
      obtain fs4 where r: "mt_sync_file fs src dst False = Inr (b, fs4)" "chg fs3 fs4 P"
        "\<And>g'. look fs3 P = Some (FileN g') \<Longrightarrow> \<exists>g''. look fs4 P = Some (FileN g'') \<and> content g'' = content g'"
      proof (cases "b \<and> (\<exists>st. look fs3 S = Some (FileN st))")
        case True
        then obtain st where st: "look fs3 S = Some (FileN st)" by blast
        obtain u fs4 where ut: "sys_utimes fs3 dst (atime st) (mtime st) = (u, fs4)" by (cases "sys_utimes fs3 dst (atime st) (mtime st)")
        have "mt_sync_file fs src dst False = Inr (b, fs4)"
          unfolding tail using st ut True by simp
        moreover have "\<exists>g''. look fs4 P = Some (FileN g'') \<and> content g'' = content g'" if "look fs3 P = Some (FileN g')" for g'
          using ut l3 that by (auto simp: sys_utimes_def Let_def split: if_splits)
        ultimately show thesis using that utimes_chg[OF ut l3] by blast
      next
        case nb: False
        have "mt_sync_file fs src dst False = Inr (b, fs3)"
        proof (cases "look fs3 S")
          case None
          then show ?thesis unfolding tail by simp
        next
          case (Some nd)
          then show ?thesis unfolding tail using nb by (cases nd) auto
        qed
        then show thesis using that by auto
      qed
      have "synced f (look fs4 P)" if bf: "b" "badblk fs = []" "look fs S = Some (FileN f)" for f
      proof -
        have "look fs2 S = Some (FileN f)" by (rule chgD(1)[OF c2 loc(4) bf(3)])
        then obtain g' where "look fs3 P = Some (FileN g')" "content g' = content f"
          using lf[of f] bf(1,2) chgD(6)[OF c2] by auto
        then show ?thesis using r(3) by (fastforce simp: synced_def)
      qed
      then show ?thesis using r(1) chg_trans[OF c3 r(2)] by blast
    qed
  qed
qed

end
