(* ===== verification/RsyncThreadsProps.thy ===== *)
theory RsyncThreadsProps
  imports RsyncThreads
begin

text \<open>
  What the multi-threaded synchroniser guarantees: for every schedule of its threads each listed file
  is synchronised exactly once and the counters add up; its threads finish; one file is copied
  completely when its source is readable. Two defects of the code are stated as they are: a read error
  counts as success, and a directory whose path fills the buffer makes the traversal endless.
\<close>

section \<open>No loop runs out of fuel\<close>

lemma sys_open_wr_empty:
  assumes "sys_open_wr fs p = Some (t, fs')"
  shows "\<exists>g. look fs' t = Some (FileN g) \<and> content g = []"
  using assms by (auto simp: sys_open_wr_def Let_def new_file_def split: if_splits option.splits node.splits)

lemma mt_copy_loop_total:
  assumes "look fs d = Some (FileN g)" "s = d \<Longrightarrow> content g = []" "file_len fs s - pos < fuel"
  shows "mt_copy_loop fuel fs s d pos \<noteq> Inl e"
proof (cases "s = d")
  case True
  obtain k where k: "fuel = Suc k" using assms(3) by (cases fuel) auto
  have "sys_read fs s pos MT_BUFFER_SIZE = Some []"
    using assms(1,2) True by (auto simp: sys_read_def split: option.splits)
  then show ?thesis using k by simp
next
  case False
  show ?thesis using assms(1,3)
  proof (induction fuel arbitrary: fs g pos)
    case (Suc fuel)
    show ?case
    proof (cases "sys_read fs s pos MT_BUFFER_SIZE")
      case (Some c)
      obtain w fs1 where w: "sys_write fs d c = (w, fs1)" by (cases "sys_write fs d c")
      obtain h where h: "look fs s = Some (FileN h)" using Some by (auto simp: sys_read_def split: option.splits node.splits)
      have l: "look fs1 s = Some (FileN h)" by (rule chgD(1)[OF write_chg[OF w] False h])
      have ex: "\<exists>g'. look fs1 d = Some (FileN g')" using w Suc.prems(1) by (auto simp: sys_write_def Let_def)
      have B: "0 < MT_BUFFER_SIZE" by (simp add: MT_BUFFER_SIZE_def)
      have "c \<noteq> [] \<Longrightarrow> pos + length c \<le> length (content h)" using sys_read_cases[OF h B, where off = pos] Some by auto
      then have "c \<noteq> [] \<Longrightarrow> file_len fs1 s - (pos + length c) < fuel"
        using Suc.prems(2) h l length_greater_0_conv[of c] by (simp add: file_len_def del: length_greater_0_conv)
      then show ?thesis using Some w ex Suc.IH by auto
    qed simp
  qed simp
qed

lemma make_path_fuel: "make_path sz fs p \<noteq> Inl NoFuel"
  by (simp add: make_path_def Let_def)

lemma mt_sync_file_total: "mt_sync_file fs src dst dry \<noteq> Inl NoFuel"
proof -
  have cl: "mt_copy_loop (Suc (file_len fs2 s)) fs2 s t 0 \<noteq> Inl NoFuel" if w: "sys_open_wr fs1 dst = Some (t, fs2)" for fs1 fs2 s t
  proof -
    obtain g where g: "look fs2 t = Some (FileN g)" "content g = []" using sys_open_wr_empty[OF w] by blast
    show ?thesis by (rule mt_copy_loop_total[OF g(1)]) (use g(2) in simp_all)
  qed
  obtain same where same: "mt_compare_files fs src dst = Inr same"
    using mt_compare_total[of fs src dst] by (cases "mt_compare_files fs src dst") auto
  show ?thesis
  proof (cases "same \<or> dry")
    case True
    then show ?thesis using same by (auto simp: mt_sync_file_def)
  next
    case False
    define mk where "mk = (case upto_slash dst of None \<Rightarrow> Inr (True, fs)
       | Some td \<Rightarrow> if length td \<ge> MT_MAX_PATH_LEN then Inl BadMem else mt_create_directory fs td)"
    have nf: "mk \<noteq> Inl NoFuel" by (simp add: mk_def mt_create_directory_def make_path_fuel split: option.split)
    show ?thesis
    proof (cases mk)
      case (Inl e)
      then show ?thesis using nf same False by (auto simp: mt_sync_file_def mk_def[symmetric])
    next
      case (Inr r)
      obtain made fs1 where r: "r = (made, fs1)" by (cases r)
      show ?thesis
      proof (cases "made \<and> sys_open_rd fs1 src \<noteq> None \<and> sys_open_wr fs1 dst \<noteq> None")
        case no: False
        then show ?thesis using same False Inr r by (auto simp: mt_sync_file_def mk_def[symmetric] split: option.splits)
      next
        case yes: True
        then obtain s t fs2 where o: "sys_open_rd fs1 src = Some s" "sys_open_wr fs1 dst = Some (t, fs2)" by auto
        show ?thesis
        proof (cases "mt_copy_loop (Suc (file_len fs2 s)) fs2 s t 0")
          case (Inl e)
          then show ?thesis using cl[OF o(2), of s] same False Inr r yes o
            by (auto simp: mt_sync_file_def mk_def[symmetric])
        next
          case ok: (Inr q)
          then show ?thesis using same False Inr r yes o
            by (cases q) (auto simp: mt_sync_file_def mk_def[symmetric] Let_def split: option.splits node.splits prod.splits)
        qed
      qed
    qed
  qed
qed

lemma mt_exec_total: "mt_exec dry sched s \<noteq> Inl NoFuel"
proof (induction sched arbitrary: s)
  case (Cons t sched)
  have "mt_step dry s t \<noteq> Inl NoFuel"
    using mt_sync_file_total[of "mfs s"] by (auto simp: mt_step_def bindE_def split: wpc.splits sum.splits option.splits prod.splits)
  then show ?case using Cons.IH by (auto simp: bindE_def split: sum.splits)
qed simp

section \<open>Properties\<close>

text \<open>C9. Whatever the interleaving of the worker threads: when all of them have left their loop, every
  file of the list has been given to exactly one of them and synchronised once, the number processed is
  the number of files, and the successes and errors add up to it.\<close>

theorem mt_exactly_once:
  assumes "fl_inv l" "current_index l = 0" "\<forall>f \<in> set (files l). needs_sync f" "0 < n" "set sched \<subseteq> {..<n}"
    "mt_exec dry sched (mt_start fs l n) = Inr (synced_files, s)" "\<forall>pc \<in> set (pcs s). pc = WDone"
  shows "mset synced_files = mset [0..<count l] \<and> files_processed s = count l \<and> files_synced s + errors s = count l"
proof -
  have cl: "length (files l) = count l" using assms(1) by (simp add: fl_inv_def)
  have "mt_inv (files l) n s synced_files"
    using mt_exec_inv[OF mt_start_inv[OF assms(1-3)] assms(5,6)] by simp
  from mt_inv_done[OF this assms(7,4)] show ?thesis by (simp add: cl)
qed

text \<open>C10. The threads finish: if they take turns, then after four rounds for each file and one for each
  thread all of them have left their loop, unless one of them ran into a path that does not fit its
  buffer.\<close>

theorem mt_round_robin_finishes:
  assumes "4 * (count l - current_index l) + n \<le> k"
  shows "mt_exec dry (concat (replicate k [0..<n])) (mt_start fs l n) = Inl BadMem
    \<or> (\<exists>e s. mt_exec dry (concat (replicate k [0..<n])) (mt_start fs l n) = Inr (e, s)
        \<and> (\<forall>pc \<in> set (pcs s). pc = WDone))"
proof (cases "mt_exec dry (concat (replicate k [0..<n])) (mt_start fs l n)")
  case (Inl e)
  then show ?thesis using mt_exec_total[of dry _ "mt_start fs l n"] by (cases e) auto
next
  case (Inr p)
  obtain e s where p: "p = (e, s)" by (cases p)
  have "work (mt_start fs l n) = 4 * (count l - current_index l) + n"
    by (simp add: work_def mt_start_def wt_def sum_list_replicate)
  then have "\<forall>pc \<in> set (pcs s). pc = WDone"
    using mt_rounds_done[of dry k "mt_start fs l n" e s] Inr p assms by (simp add: mt_start_def)
  then show ?thesis using Inr p by blast
qed


text \<open>A read error ends the copy loop as the end of the file does: on a source that cannot be read at
  all, \<open>sync_file\<close> reports success and leaves an empty target, so the worker counts the file as
  synchronised.\<close>

theorem mt_read_error_is_success:
  assumes "look fs S = Some (FileN f)" "content f \<noteq> []" "map_of (badblk fs) S = Some 0"
    "S = locate (cwd fs) src" "sys_open_rd fs src \<noteq> None" "sys_open_wr fs dst = Some (P, fs1)" "S \<noteq> P"
    "sys_stat fs dst = None" "upto_slash dst = Some d" "length d < MT_MAX_PATH_LEN" "file_exists fs d"
    "look fs1 S = look fs S" "badblk fs1 = badblk fs"
  shows "\<exists>fs'. mt_sync_file fs src dst False = Inr (True, fs') \<and> look fs' S = Some (FileN f)
    \<and> (\<exists>g. look fs' P = Some (FileN g) \<and> content g = [])"
proof -
  have s: "sys_open_rd fs src = Some S" using assms(4,5) open_rd_loc by blast
  have "mt_compare_files fs src dst = Inr False" using assms(8) by (simp add: mt_compare_files_def file_exists_def)
  moreover have "mt_create_directory fs d = Inr (True, fs)" using assms(11) by (simp add: mt_create_directory_def)
  moreover have "sys_read fs1 S 0 MT_BUFFER_SIZE = None" using assms(1,2,3,12,13) by (simp add: sys_read_def)
  ultimately have r: "mt_sync_file fs src dst False = (let (_, fs4) = sys_utimes fs1 dst (atime f) (mtime f) in Inr (True, fs4))"
    using assms(1,6,9,10,12) s by (simp add: mt_sync_file_def)
  obtain u fs4 where ut: "sys_utimes fs1 dst (atime f) (mtime f) = (u, fs4)" by (cases "sys_utimes fs1 dst (atime f) (mtime f)")
  obtain g where g: "look fs1 P = Some (FileN g)" "content g = []" using sys_open_wr_empty[OF assms(6)] by blast
  have lp: "locate (cwd fs1) dst = P"
    using assms(6) by (auto simp: sys_open_wr_def Let_def add_name_def split: if_splits option.splits node.splits)
  have "look fs4 S = Some (FileN f)"
    using ut lp assms(1,7,12) by (auto simp: sys_utimes_def Let_def split: if_splits option.splits node.splits)
  moreover have "\<exists>g. look fs4 P = Some (FileN g) \<and> content g = []"
    using ut lp g by (auto simp: sys_utimes_def Let_def split: if_splits)
  ultimately show ?thesis using r ut by simp
qed


text \<open>With the root directory as target, \<open>main\<close> cuts the slash and \<open>create_directory\<close> reads the
  character before an empty buffer: an access outside the array, for every source directory.\<close>

theorem mt_root_target_bad_access:
  assumes "mt_options opts (4, False) = Inr (threads, False)" "length src < MT_MAX_PATH_LEN" "is_directory fs (cut_slash src)"
  shows "mt_main fs opts [src, ''/''] sched = Inl BadMem"
  using assms by (simp add: mt_main_def mt_perform_sync_def cut_slash_def MT_MAX_PATH_LEN_def mt_create_directory_def
      file_exists_def sys_stat_def make_path_def snprintf_path_def)

section \<open>Concrete runs\<close>

definition demo_list :: file_list_t where
  "demo_list = \<lparr>files = [\<lparr>source_path = ''/s/f'', target_path = ''/s/d/f'', fsize = 5, needs_sync = True\<rparr>,
      \<lparr>source_path = ''/s/x'', target_path = ''/s/d/x'', fsize = -1, needs_sync = True\<rparr>],
     count = 2, capacity = 100, current_index = 0\<rparr>"

lemma demo_list_inv: "fl_inv demo_list" "current_index demo_list = 0" "\<forall>f \<in> set (files demo_list). needs_sync f"
    "count demo_list = 2"
  by (simp_all add: demo_list_def fl_inv_def)

lemma demo_threads: "\<exists>h s. mt_exec False (concat (replicate 10 [0..<2])) (mt_start demo_fs demo_list 2) = Inr (h, s)
    \<and> (\<forall>pc \<in> set (pcs s). pc = WDone) \<and> errors s = 1"
proof -
  have "case mt_exec False (concat (replicate 10 [0..<2])) (mt_start demo_fs demo_list 2) of
      Inr (h, s) \<Rightarrow> (\<forall>pc \<in> set (pcs s). pc = WDone) \<and> errors s = 1 | Inl e \<Rightarrow> False" by code_simp
  then show ?thesis by (auto split: sum.splits prod.splits)
qed

theorem mt_exactly_once_witness:
  "\<exists>h s. mt_exec False (concat (replicate 10 [0..<2])) (mt_start demo_fs demo_list 2) = Inr (h, s)
    \<and> mset h = {#0, 1#} \<and> files_processed s = 2 \<and> files_synced s = 1 \<and> errors s = 1"
proof -
  obtain h s where r: "mt_exec False (concat (replicate 10 [0..<2])) (mt_start demo_fs demo_list 2) = Inr (h, s)"
    "\<forall>pc \<in> set (pcs s). pc = WDone" "errors s = 1" using demo_threads by blast
  have "set (concat (replicate 10 [0..<2])) \<subseteq> {..<2::nat}" by auto
  note f = mt_exactly_once[OF demo_list_inv(1-3) _ this r(1,2)]
  have "mset [0..<2] = {#0, 1#}" by (simp add: numeral_2_eq_2 add_mset_commute)
  then show ?thesis using r f by (auto simp: demo_list_inv(4))
qed

theorem mt_round_robin_finishes_witness:
  "\<exists>e s. mt_exec False (concat (replicate 10 [0..<2])) (mt_start demo_fs demo_list 2) = Inr (e, s)
        \<and> (\<forall>pc \<in> set (pcs s). pc = WDone)"
proof -
  have "4 * (count demo_list - current_index demo_list) + 2 \<le> (10::nat)" by (simp add: demo_list_def)
  from mt_round_robin_finishes[OF this, of False demo_fs] demo_threads show ?thesis by auto
qed

lemma demo_paths: "locate [] ''/s/f'' = [''s'', ''f'']" "locate [] ''/s/d/f'' = [''s'', ''d'', ''f'']" "locate [] ''/s/d'' = [''s'', ''d'']"
  "locate [] ''/s'' = [''s'']" "no_dd ''/s/d/f''" "plain ''f''" "upto_slash ''/s/d/f'' = Some ''/s/d''"
  by (simp_all add: locate_def comps_def walk_def no_dd_def plain_def upto_slash_def)

lemma demo_state: "cwd demo_fs = []" "denied demo_fs = []" "badblk demo_fs = []" "clock demo_fs = 9"
  by (simp_all add: demo_fs_def)


theorem mt_read_error_is_success_witness:
  "\<exists>fs'. mt_sync_file (demo_fs\<lparr>badblk := [([''s'', ''f''], 0)]\<rparr>) ''/s/f'' ''/s/d/f'' False = Inr (True, fs')
    \<and> (\<exists>g. look fs' [''s'', ''d'', ''f''] = Some (FileN g) \<and> content g = [])"
proof -
  let ?fs = "demo_fs\<lparr>badblk := [([''s'', ''f''], 0)]\<rparr>"
  let ?P = "[''s'', ''d'', ''f'']"
  have lk: "look ?fs l = look demo_fs l" for l by (simp add: look_def)
  have w: "sys_open_wr ?fs ''/s/d/f'' = Some (?P, setn (add_name ?fs ?P) ?P (FileN (new_file 9)))"
    by (simp add: sys_open_wr_def Let_def demo_state demo_paths lk demo_look creatable_def)
  have "look ?fs [''s'', ''f''] = Some (FileN \<lparr>content = ''hello'', mtime = 7, atime = 7, fmode = 420\<rparr>)"
    by (simp add: lk demo_look)
  from mt_read_error_is_success[OF this _ _ _ _ w, where src = "''/s/f''" and d = "''/s/d''"] show ?thesis
    by (auto simp: demo_state demo_paths lk demo_look sys_open_rd_def sys_stat_def file_exists_def MT_MAX_PATH_LEN_def add_name_def)
qed


theorem mt_root_target_bad_access_witness:
  "mt_main demo_fs [(CHR ''t'', ''8'')] [''/s/'', ''/''] [0, 1] = Inl BadMem \<and> mt_options [(CHR ''t'', ''8'')] (4, False) = Inr (8, False)"
proof -
  have "atol ''8'' = 8" by code_simp
  then have o: "mt_options [(CHR ''t'', ''8'')] (4, False) = Inr (8, False)" by (simp add: MT_MAX_THREADS_def)
  have "is_directory demo_fs (cut_slash ''/s/'')"
    by (simp add: cut_slash_def is_directory_def sys_stat_def demo_state demo_paths demo_look is_dirn_def)
  from mt_root_target_bad_access[OF o _ this, of "[0, 1]"] o show ?thesis by (simp add: MT_MAX_PATH_LEN_def)
qed

end
