(* ===== verification/RsyncProcs.thy ===== *)
theory RsyncProcs
  imports RsyncThreadsProps
begin

text \<open>
  \<open>Multi_process_rsync_task/sync_util.c\<close> and its \<open>main\<close>: the list of files is cut into one slice for
  each process, every process works through its own slice, and the parent waits for the exit statuses.
  The processes share only the file system; a schedule names the process that makes the next step, and a
  step is one file. Streams are fully buffered: what \<open>fwrite\<close> has not yet passed on is written by
  \<open>fclose\<close>, whose result the program does not look at.
\<close>

section \<open>Files, directories and the list\<close>

definition MP_MAX_PATH_LEN :: nat where "MP_MAX_PATH_LEN = 1024"
definition MP_BUFFER_SIZE :: nat where "MP_BUFFER_SIZE = 4096"

record mp_file_info =
  mp_path :: string
  mp_size :: int

record mp_file_list =
  mp_files :: "mp_file_info list"   \<comment> \<open>the first \<open>count\<close> entries of the array\<close>
  mp_count :: nat
  mp_capacity :: nat

record mp_config =
  mp_source :: string
  mp_target :: string
  process_count :: nat

definition mp_init_list :: mp_file_list where
  "mp_init_list = \<lparr>mp_files = [], mp_count = 0, mp_capacity = 100\<rparr>"

definition mp_free_list :: "mp_file_list \<Rightarrow> mp_file_list" where
  "mp_free_list l = \<lparr>mp_files = [], mp_count = 0, mp_capacity = 0\<rparr>"

definition mp_is_directory :: "fs \<Rightarrow> string \<Rightarrow> bool" where
  "mp_is_directory fs path = is_dirn (sys_stat fs path)"

definition mp_file_exists :: "fs \<Rightarrow> string \<Rightarrow> bool" where
  "mp_file_exists fs path = (sys_stat fs path \<noteq> None)"

definition mp_get_file_size :: "fs \<Rightarrow> string \<Rightarrow> int" where
  "mp_get_file_size fs path =
     (case sys_stat fs path of None \<Rightarrow> -1 | Some (FileN f) \<Rightarrow> int (length (content f)) | Some _ \<Rightarrow> 0)"

definition mp_add_file :: "fs \<Rightarrow> mp_file_list \<Rightarrow> string \<Rightarrow> sync_err + mp_file_list" where
  "mp_add_file fs l path =
     (let l1 = (if mp_count l \<ge> mp_capacity l then l\<lparr>mp_capacity := mp_capacity l * 2\<rparr> else l) in
      if mp_count l1 \<ge> mp_capacity l1 then Inl BadMem
      else Inr (l1\<lparr>mp_files := mp_files l1 @ [\<lparr>mp_path = take (MP_MAX_PATH_LEN - 1) path, mp_size = mp_get_file_size fs path\<rparr>],
                mp_count := mp_count l1 + 1\<rparr>))"

fun mp_traverse :: "nat \<Rightarrow> fs \<Rightarrow> string \<Rightarrow> mp_file_list \<Rightarrow> sync_err + mp_file_list" where
  "mp_traverse 0 fs path l = Inl NoFuel"
| "mp_traverse (Suc fuel) fs path l =
     (case sys_readdir fs path of
        None \<Rightarrow> Inr l
      | Some entries \<Rightarrow> mt_each (\<lambda>l d_name.
          let full_path = snprintf_path (MP_MAX_PATH_LEN - 1) (path @ SLASH # d_name) in
          if mp_is_directory fs full_path then mp_traverse fuel fs full_path l
          else mp_add_file fs l full_path) l entries)"

definition mp_compare_files :: "fs \<Rightarrow> string \<Rightarrow> string \<Rightarrow> sync_err + bool" where
  "mp_compare_files fs file1 file2 =
     (if \<not> mp_file_exists fs file2 then Inr False
      else if mp_get_file_size fs file1 \<noteq> mp_get_file_size fs file2 then Inr False
      else (case (sys_open_rd fs file1, sys_open_rd fs file2) of
              (Some f1, Some f2) \<Rightarrow> std_compare MP_BUFFER_SIZE (file_len fs f1 + 2) fs f1 f2 0
            | _ \<Rightarrow> Inr False))"

definition mp_create_directory :: "fs \<Rightarrow> string \<Rightarrow> sync_err + (bool \<times> fs)" where
  "mp_create_directory fs path =
     (if mp_file_exists fs path then Inr (True, fs) else make_path MP_MAX_PATH_LEN fs path)"

section \<open>Copying a file through buffered streams\<close>

definition std_fwrite :: "nat \<Rightarrow> fs \<Rightarrow> loc \<Rightarrow> string \<Rightarrow> string \<Rightarrow> nat \<times> string \<times> fs" where
  \<comment> \<open>\<open>fwrite\<close> with a stream buffer of this size and this pending data: whole blocks go to the file; the
     number of bytes accepted, the data still pending, and the file system\<close>
  "std_fwrite bs fs l pend s =
     (let whole = pend @ s; k = (length whole div bs) * bs in
      if k = 0 then (length s, whole, fs)
      else let (n, fs1) = sys_write fs l (take k whole) in
        if n = k then (length s, drop k whole, fs1) else (n - length pend, [], fs1))"

definition std_fclose :: "fs \<Rightarrow> loc \<Rightarrow> string \<Rightarrow> bool \<times> fs" where
  \<comment> \<open>true is a return of 0\<close>
  "std_fclose fs l pend = (let (n, fs1) = sys_write fs l pend in (n = length pend, fs1))"

fun mp_copy_loop :: "nat \<Rightarrow> nat \<Rightarrow> fs \<Rightarrow> loc \<Rightarrow> loc \<Rightarrow> string \<Rightarrow> nat \<Rightarrow> sync_err + (bool \<times> string \<times> fs)" where
  "mp_copy_loop 0 bs fs source_fp target_fp pend pos = Inl NoFuel"
| "mp_copy_loop (Suc fuel) bs fs source_fp target_fp pend pos =
     (let buffer = std_fread fs source_fp pos MP_BUFFER_SIZE in
      if buffer = [] then Inr (True, pend, fs)
      else let (n, pend1, fs1) = std_fwrite bs fs target_fp pend buffer in
        if n \<noteq> length buffer then Inr (False, pend1, fs1)
        else mp_copy_loop fuel bs fs1 source_fp target_fp pend1 (pos + length buffer))"

definition mp_sync_file :: "nat \<Rightarrow> fs \<Rightarrow> string \<Rightarrow> string \<Rightarrow> sync_err + (bool \<times> fs)" where
  \<comment> \<open>the first argument is the size of a stream buffer\<close>
  "mp_sync_file bs fs source_file target_file =
     bindE (mp_compare_files fs source_file target_file) (\<lambda>same.
       if same then Inr (True, fs)
       else bindE (case upto_slash target_file of
                     None \<Rightarrow> Inr (True, fs)
                   | Some dir \<Rightarrow>
                       if length dir \<ge> MP_MAX_PATH_LEN then Inl BadMem else mp_create_directory fs dir)
         (\<lambda>(made, fs1).
           if \<not> made then Inr (False, fs1)
           else case sys_open_rd fs1 source_file of
             None \<Rightarrow> Inr (False, fs1)
           | Some source_fp \<Rightarrow>
               (case sys_open_wr fs1 target_file of
                  None \<Rightarrow> Inr (False, fs1)
                | Some (target_fp, fs2) \<Rightarrow>
                    bindE (mp_copy_loop (Suc (file_len fs2 source_fp)) bs fs2 source_fp target_fp [] 0)
                      (\<lambda>(success, pend, fs3). let (_, fs4) = std_fclose fs3 target_fp pend in Inr (success, fs4)))))"

definition mp_relative_path :: "string \<Rightarrow> string \<Rightarrow> string" where
  \<comment> \<open>\<open>get_relative_path\<close>: \<open>strstr\<close> returns the start exactly for a prefix\<close>
  "mp_relative_path base full_path =
     (if prefix base full_path then take (MP_MAX_PATH_LEN - 1) (drop (length base) full_path)
      else take (MP_MAX_PATH_LEN - 1) full_path)"

fun mp_sync_directory_structure :: "nat \<Rightarrow> fs \<Rightarrow> string \<Rightarrow> mp_config \<Rightarrow> sync_err + fs" where
  "mp_sync_directory_structure 0 fs path config = Inl NoFuel"
| "mp_sync_directory_structure (Suc fuel) fs path config =
     (case sys_readdir fs path of
        None \<Rightarrow> Inr fs
      | Some entries \<Rightarrow>
          (let relative = mp_relative_path (mp_source config) path in
           bindE (if relative \<noteq> [] then
                    bindE (mp_create_directory fs (snprintf_path (MP_MAX_PATH_LEN - 1) (mp_target config @ SLASH # relative)))
                      (\<lambda>(_, fs1). Inr fs1)
                  else Inr fs)
             (\<lambda>fs1. mt_each (\<lambda>fs d_name.
                let full_path = snprintf_path (MP_MAX_PATH_LEN - 1) (path @ SLASH # d_name) in
                if mp_is_directory fs full_path then mp_sync_directory_structure fuel fs full_path config
                else Inr fs) fs1 entries)))"

section \<open>The worker processes\<close>

definition mp_target_path :: "mp_config \<Rightarrow> string \<Rightarrow> string" where
  "mp_target_path config source_file =
     snprintf_path MP_MAX_PATH_LEN (mp_target config @ mp_relative_path (mp_source config) source_file)"

fun mp_copy_slice :: "fs \<Rightarrow> mp_file_info list \<Rightarrow> mp_file_list \<Rightarrow> sync_err + mp_file_list" where
  "mp_copy_slice fs [] l = Inr l"
| "mp_copy_slice fs (f # rest) l = bindE (mp_add_file fs l (mp_path f)) (mp_copy_slice fs rest)"

fun mp_fork_loop :: "mp_file_list \<Rightarrow> nat \<Rightarrow> nat \<Rightarrow> nat \<Rightarrow> (mp_file_info list) list" where
  \<comment> \<open>the slice of the array that each child copies: processes left to create, the index of the next, its
     start index\<close>
  "mp_fork_loop l n 0 start_index = []"
| "mp_fork_loop l n (Suc k) start_index =
     (let files_per_process = mp_count l div n; remaining_files = mp_count l mod n;
          end_index = start_index + files_per_process + (if k = 0 then remaining_files else 0) in
      take (end_index - start_index) (drop start_index (mp_files l)) # mp_fork_loop l n k (start_index + files_per_process))"

fun mp_children :: "fs \<Rightarrow> (mp_file_info list) list \<Rightarrow> sync_err + (mp_file_info list) list" where
  "mp_children fs [] = Inr []"
| "mp_children fs (sl # rest) =
     bindE (mp_copy_slice fs sl mp_init_list) (\<lambda>l. bindE (mp_children fs rest) (\<lambda>ls. Inr (mp_files l # ls)))"

record mp_state =
  mpfs :: fs
  todo :: "(mp_file_info list) list"   \<comment> \<open>what each process still has to do\<close>

definition mp_step :: "nat \<Rightarrow> mp_config \<Rightarrow> mp_state \<Rightarrow> nat \<Rightarrow> sync_err + (string list \<times> mp_state)" where
  \<comment> \<open>one iteration of the loop of \<open>worker_process\<close> in a process; the result of \<open>sync_file\<close> is only printed\<close>
  "mp_step bs config s w =
     (case todo s ! w of
        [] \<Rightarrow> Inr ([], s)
      | f # rest \<Rightarrow> bindE (mp_sync_file bs (mpfs s) (mp_path f) (mp_target_path config (mp_path f))) (\<lambda>(_, fs1).
          Inr ([mp_path f], s\<lparr>mpfs := fs1, todo := (todo s)[w := rest]\<rparr>)))"

fun mp_exec :: "nat \<Rightarrow> mp_config \<Rightarrow> nat list \<Rightarrow> mp_state \<Rightarrow> sync_err + (string list \<times> mp_state)" where
  "mp_exec bs config [] s = Inr ([], s)"
| "mp_exec bs config (w # sched) s =
     bindE (mp_step bs config s w) (\<lambda>(e, s1). bindE (mp_exec bs config sched s1) (\<lambda>(es, s2). Inr (e @ es, s2)))"

definition mp_perform_sync :: "nat \<Rightarrow> fs \<Rightarrow> mp_config \<Rightarrow> nat \<Rightarrow> nat list \<Rightarrow> sync_err + (bool \<times> fs)" where
  \<comment> \<open>\<open>forks\<close>: how many processes the system lets it create. Every child ends with \<open>exit(0)\<close>.\<close>
  "mp_perform_sync bs fs config forks sched =
     (if \<not> mp_is_directory fs (mp_source config) then Inr (False, fs)
      else bindE (mp_create_directory fs (mp_target config)) (\<lambda>(made, fs1).
        if \<not> made then Inr (False, fs1)
        else bindE (mp_sync_directory_structure (fs_depth fs1) fs1 (mp_source config) config) (\<lambda>fs2.
        bindE (mp_traverse (fs_depth fs2) fs2 (mp_source config) mp_init_list) (\<lambda>l.
        if mp_count l = 0 then Inr (True, fs2)
        else bindE (mp_children fs2 (take forks (mp_fork_loop l (process_count config) (process_count config) 0))) (\<lambda>wrk.
          bindE (mp_exec bs config sched \<lparr>mpfs = fs2, todo = wrk\<rparr>) (\<lambda>(_, s).
          if forks < process_count config then Inr (False, mpfs s)
          else if \<forall>fs \<in> set (todo s). fs = [] then Inr (\<forall>status \<in> set (replicate (process_count config) (0::nat)). \<not> status \<noteq> 0, mpfs s)
          else Inl NoFuel))))))"

fun mp_options :: "(char \<times> string) list \<Rightarrow> nat \<Rightarrow> int + nat" where
  \<comment> \<open>the \<open>getopt\<close> loop of \<open>main\<close>: option letters with their arguments\<close>
  "mp_options [] n = Inr n"
| "mp_options ((opt, optarg) # opts) n =
     (if opt = CHR ''p'' then (if atol optarg \<le> 0 then Inl 1 else mp_options opts (nat (atol optarg)))
      else if opt = CHR ''h'' then Inl 0
      else Inl 1)"

definition mp_main :: "nat \<Rightarrow> fs \<Rightarrow> (char \<times> string) list \<Rightarrow> string list \<Rightarrow> nat \<Rightarrow> nat list \<Rightarrow> sync_err + (int \<times> fs)" where
  "mp_main bs fs opts operands forks sched =
     (case mp_options opts 4 of
        Inl status \<Rightarrow> Inr (status, fs)
      | Inr n \<Rightarrow>
          (case operands of
             [src, tgt] \<Rightarrow>
               bindE (mp_perform_sync bs fs \<lparr>mp_source = cut_slash (snprintf_path MP_MAX_PATH_LEN src),
                   mp_target = cut_slash (snprintf_path MP_MAX_PATH_LEN tgt), process_count = n\<rparr> forks sched)
                 (\<lambda>(ok, fs1). Inr (if ok then 0 else 1, fs1))
           | _ \<Rightarrow> Inr (1, fs)))"

end
