(* ===== verification/RsyncProcsProps.thy ===== *)
theory RsyncProcsProps
  imports RsyncProcs
begin

text \<open>
  What the multi-process synchroniser guarantees: the slices partition the list, so that under every
  schedule each file is synchronised by exactly one process, and any schedule that runs every process
  often enough finishes the wrk. Two defects are stated as they are: the failure of a file never reaches
  the result, and data still in the stream buffer when the device is full is lost unnoticed.
\<close>

section \<open>The slices\<close>

definition mp_list_inv :: "mp_file_list \<Rightarrow> bool" where
  "mp_list_inv l \<longleftrightarrow> length (mp_files l) = mp_count l \<and> mp_count l \<le> mp_capacity l \<and> 0 < mp_capacity l
     \<and> (\<forall>f \<in> set (mp_files l). length (mp_path f) < MP_MAX_PATH_LEN)"

lemma mp_list_inv_init: "mp_list_inv mp_init_list"
  by (simp add: mp_list_inv_def mp_init_list_def)

lemma mp_add_file_inv:
  assumes "mp_list_inv l"
  obtains l' where "mp_add_file fs l path = Inr l'" "mp_list_inv l'"
    "map mp_path (mp_files l') = map mp_path (mp_files l) @ [take (MP_MAX_PATH_LEN - 1) path]"
proof -
  have i: "length (mp_files l) = mp_count l" "mp_count l \<le> mp_capacity l" "0 < mp_capacity l"
    "\<forall>f \<in> set (mp_files l). length (mp_path f) < MP_MAX_PATH_LEN"
    using assms by (simp_all add: mp_list_inv_def)
  have p: "length (take (MP_MAX_PATH_LEN - 1) path) < MP_MAX_PATH_LEN" by (simp add: MP_MAX_PATH_LEN_def)
  show thesis
  proof (cases "mp_count l \<ge> mp_capacity l")
    case True
    then have "mp_count l < mp_capacity l * 2" using i by linarith
    then show thesis using True i p that by (auto simp: mp_add_file_def Let_def mp_list_inv_def)
  next
    case False
    then show thesis using i p that by (auto simp: mp_add_file_def Let_def mp_list_inv_def)
  qed
qed

lemma mp_copy_slice_paths:
  assumes "mp_list_inv l" "\<forall>f \<in> set sl. length (mp_path f) < MP_MAX_PATH_LEN"
  shows "\<exists>l'. mp_copy_slice fs sl l = Inr l' \<and> mp_list_inv l'
    \<and> map mp_path (mp_files l') = map mp_path (mp_files l) @ map mp_path sl"
  using assms
proof (induction sl arbitrary: l)
  case (Cons f sl)
  obtain l1 where l1: "mp_add_file fs l (mp_path f) = Inr l1" "mp_list_inv l1"
    "map mp_path (mp_files l1) = map mp_path (mp_files l) @ [take (MP_MAX_PATH_LEN - 1) (mp_path f)]"
    by (rule mp_add_file_inv[OF Cons.prems(1)])
  have "take (MP_MAX_PATH_LEN - 1) (mp_path f) = mp_path f" using Cons.prems(2) by auto
  then show ?case using l1 Cons.IH[OF l1(2)] Cons.prems(2) by auto
qed simp

lemma mp_children_paths:
  assumes "\<forall>sl \<in> set sls. \<forall>f \<in> set sl. length (mp_path f) < MP_MAX_PATH_LEN"
  shows "\<exists>ws. mp_children fs sls = Inr ws \<and> map (map mp_path) ws = map (map mp_path) sls"
  using assms
proof (induction sls)
  case (Cons sl sls)
  have "\<forall>f \<in> set sl. length (mp_path f) < MP_MAX_PATH_LEN" using Cons.prems by simp
  from mp_copy_slice_paths[OF mp_list_inv_init this, of fs] Cons show ?case
    by (auto simp: mp_init_list_def)
qed simp

lemma mp_fork_loop_concat:
  assumes "length (mp_files l) = mp_count l" "0 < k" "k \<le> n" "st = (n - k) * (mp_count l div n)"
  shows "concat (mp_fork_loop l n k st) = drop st (mp_files l)"
  using assms(2-4)
proof (induction k arbitrary: st)
  case (Suc k)
  let ?p = "mp_count l div n"
  have tot: "n * ?p + mp_count l mod n = mp_count l" by simp
  show ?case
  proof (cases "k = 0")
    case True
    have "st + ?p = n * ?p" using True Suc.prems by (simp add: diff_mult_distrib)
    then have "mp_count l - st = ?p + mp_count l mod n" using tot by linarith
    then have "length (drop st (mp_files l)) = ?p + mp_count l mod n" using assms(1) by simp
    then show ?thesis using True by (simp add: Let_def)
  next
    case False
    have "st + ?p = (n - k) * ?p" using Suc.prems(2,3)
      by (simp add: Suc_diff_Suc) (metis Suc_diff_Suc Suc_le_lessD mult_Suc add.commute)
    then have "concat (mp_fork_loop l n k (st + ?p)) = drop (st + ?p) (mp_files l)"
      using Suc.IH False Suc.prems(2) by simp
    then show ?thesis using False
      by (simp add: Let_def) (metis add.commute append_take_drop_id drop_drop)
  qed
qed simp

lemma mp_fork_loop_sizes:
  assumes "length (mp_files l) = mp_count l" "k \<le> n" "st = (n - k) * (mp_count l div n)" "i < k"
  shows "length (mp_fork_loop l n k st ! i) = mp_count l div n + (if i = k - 1 then mp_count l mod n else 0)"
  using assms(2-4)
proof (induction k arbitrary: st i)
  case (Suc k)
  let ?p = "mp_count l div n"
  have tot: "n * ?p + mp_count l mod n = mp_count l" by simp
  obtain m where m: "n = m + Suc k" using Suc.prems(1) by (metis add.commute le_Suc_ex)
  have st: "st = m * ?p" "st + ?p = (n - k) * ?p" "st + ?p + k * ?p = n * ?p"
    using Suc.prems(2) by (simp_all add: m algebra_simps)
  show ?case
  proof (cases i)
    case 0
    show ?thesis
    proof (cases "k = 0")
      case True
      then have "st + ?p = n * ?p" using st(3) by simp
      then have "mp_count l - st = ?p + mp_count l mod n" using tot by linarith
      then show ?thesis using \<open>k = 0\<close> 0 assms(1) by (simp add: Let_def)
    next
      case False
      have "?p \<le> mp_count l - st" using st(3) tot by linarith
      then show ?thesis using False 0 assms(1) by (simp add: Let_def)
    qed
  next
    case (Suc j)
    then have "length (mp_fork_loop l n k (st + ?p) ! j) = ?p + (if j = k - 1 then mp_count l mod n else 0)"
      using Suc.prems Suc.IH[of "st + ?p" j] st(2) by simp
    then show ?thesis using Suc Suc.prems(3) by (auto simp: Let_def)
  qed
qed simp

lemma mp_fork_loop_length [simp]: "length (mp_fork_loop l n k st) = k"
  by (induction k arbitrary: st) (simp_all add: Let_def)

lemma mp_fork_loop_sub: "sl \<in> set (mp_fork_loop l n k st) \<Longrightarrow> set sl \<subseteq> set (mp_files l)"
proof (induction k arbitrary: st)
  case (Suc k)
  then show ?case by (fastforce simp: Let_def dest: in_set_takeD in_set_dropD split: if_splits)
qed simp

section \<open>The workers\<close>

lemma mp_step_mset:
  assumes "w < length (todo s)" "mp_step bs c s w = Inr (e, s')"
  shows "mset e + mset (map mp_path (concat (todo s'))) = mset (map mp_path (concat (todo s)))"
    "length (todo s') = length (todo s)"
proof -
  have "mset e + mset (map mp_path (concat (todo s'))) = mset (map mp_path (concat (todo s))) \<and> length (todo s') = length (todo s)"
  proof (cases "todo s ! w")
    case Nil
    then show ?thesis using assms by (simp add: mp_step_def)
  next
    case (Cons f rest)
    have e: "e = [mp_path f]" "todo s' = (todo s)[w := rest]" using assms(2) Cons by (auto simp: mp_step_def)
    obtain A B where sp: "todo s = A @ (f # rest) # B" "todo s' = A @ rest # B"
      using id_take_nth_drop[OF assms(1)] upd_conv_take_nth_drop[OF assms(1), of rest] Cons e(2) by metis
    then show ?thesis by (simp add: e(1))
  qed
  then show "mset e + mset (map mp_path (concat (todo s'))) = mset (map mp_path (concat (todo s)))"
    "length (todo s') = length (todo s)" by simp_all
qed

lemma mp_exec_mset:
  assumes "set sched \<subseteq> {..<length (todo s)}" "mp_exec bs c sched s = Inr (h, s')"
  shows "mset h + mset (map mp_path (concat (todo s'))) = mset (map mp_path (concat (todo s)))"
  using assms
proof (induction sched arbitrary: s h)
  case (Cons w sched)
  then obtain e s1 h1 where st: "mp_step bs c s w = Inr (e, s1)" "mp_exec bs c sched s1 = Inr (h1, s')" "h = e @ h1" by auto
  note m = mp_step_mset[OF _ st(1)]
  have "mset h1 + mset (map mp_path (concat (todo s'))) = mset (map mp_path (concat (todo s1)))"
    using Cons.IH[OF _ st(2)] m(2) Cons.prems(1) by simp
  then show ?case using m(1) Cons.prems(1) st(3) by (simp add: add.assoc)
qed simp

lemma mp_exec_finishes:
  assumes "\<forall>w < length (todo s). length (todo s ! w) \<le> count_list sched w" "mp_exec bs c sched s = Inr (h, s')"
    "set sched \<subseteq> {..<length (todo s)}"
  shows "\<forall>t \<in> set (todo s'). t = []"
  using assms
proof (induction sched arbitrary: s h)
  case Nil
  then show ?case by (auto simp: in_set_conv_nth)
next
  case (Cons w sched)
  then obtain e s1 h1 where st: "mp_step bs c s w = Inr (e, s1)" "mp_exec bs c sched s1 = Inr (h1, s')" by auto
  have wl: "w < length (todo s)" using Cons.prems(3) by simp
  have td: "todo s1 = (todo s)[w := tl (todo s ! w)]"
  proof (cases "todo s ! w")
    case Nil
    then show ?thesis using st(1) by (simp add: mp_step_def) (metis list_update_id)
  qed (use st(1) in \<open>auto simp: mp_step_def\<close>)
  have "length (todo s1 ! v) \<le> count_list sched v" if "v < length (todo s1)" for v
    using Cons.prems(1)[rule_format, of v] that td wl by (cases "v = w") auto
  then show ?case using Cons.IH[OF _ st(2)] td Cons.prems(3) by simp
qed

section \<open>Properties\<close>

text \<open>The slices that the children copy partition the list: their concatenation is the list, each of
  them but the last has \<open>count / n\<close> files, and the last has the remainder in addition.\<close>

theorem mp_slices_partition:
  assumes "mp_list_inv l" "0 < n"
  shows "concat (mp_fork_loop l n n 0) = mp_files l \<and> length (mp_fork_loop l n n 0) = n
    \<and> (\<forall>i < n. length (mp_fork_loop l n n 0 ! i) = mp_count l div n + (if i = n - 1 then mp_count l mod n else 0))
    \<and> (\<exists>wrk. mp_children fs (mp_fork_loop l n n 0) = Inr wrk \<and> map mp_path (concat wrk) = map mp_path (mp_files l))"
proof -
  have c: "concat (mp_fork_loop l n n 0) = mp_files l"
    using mp_fork_loop_concat[of l n n 0] assms by (simp add: mp_list_inv_def)
  have "\<forall>sl \<in> set (mp_fork_loop l n n 0). \<forall>f \<in> set sl. length (mp_path f) < MP_MAX_PATH_LEN"
    using mp_fork_loop_sub assms(1) unfolding mp_list_inv_def by blast
  from mp_children_paths[OF this, of fs] obtain wrk where
    w: "mp_children fs (mp_fork_loop l n n 0) = Inr wrk" "map (map mp_path) wrk = map (map mp_path) (mp_fork_loop l n n 0)" by blast
  have "map mp_path (concat wrk) = map mp_path (concat (mp_fork_loop l n n 0))" using w(2) by (simp add: map_concat)
  moreover have "\<forall>i < n. length (mp_fork_loop l n n 0 ! i) = mp_count l div n + (if i = n - 1 then mp_count l mod n else 0)"
    using mp_fork_loop_sizes[of l n n 0] assms(1) by (simp add: mp_list_inv_def)
  ultimately show ?thesis using c w(1) by simp
qed


text \<open>A file that cannot be synchronised never shows in the result: once the target directory is made
  and all processes are created, the only result \<open>perform_sync\<close> can return is success.\<close>

theorem mp_failure_never_reported:
  assumes "mp_is_directory fs (mp_source config)" "mp_create_directory fs (mp_target config) = Inr (True, fs1)"
    "process_count config \<le> forks" "mp_perform_sync bs fs config forks sched = Inr (ok, fs')"
  shows "ok"
  using assms by (auto simp: mp_perform_sync_def split: if_splits)

text \<open>A small file that does not fit on the device: its bytes are still in the stream buffer when the
  copy loop ends, \<open>fclose\<close> fails, nobody looks, and \<open>sync_file\<close> reports success over a truncated target.\<close>

theorem mp_flush_failure_lost:
  assumes "look fs S = Some (FileN f)" "0 < length (content f)" "length (content f) \<le> MP_BUFFER_SIZE" "length (content f) < bs"
    "map_of (badblk fs) S = None" "sys_open_rd fs src = Some S" "sys_open_wr fs dst = Some (P, fs1)" "S \<noteq> P"
    "sys_stat fs dst = None" "upto_slash dst = Some d" "length d < MP_MAX_PATH_LEN" "mp_file_exists fs d"
    "look fs1 S = look fs S" "badblk fs1 = badblk fs" "avail fs1 < length (content f)"
  shows "\<exists>fs' g. mp_sync_file bs fs src dst = Inr (True, fs') \<and> look fs' P = Some (FileN g)
    \<and> content g = take (avail fs1) (content f) \<and> content g \<noteq> content f"
proof -
  let ?c = "content f"
  have r0: "std_fread fs1 S 0 MP_BUFFER_SIZE = ?c" "std_fread fs1 S (length ?c) MP_BUFFER_SIZE = []"
    using assms(1,3,5,13,14) by (simp_all add: std_fread_def)
  have w0: "std_fwrite bs fs1 P [] ?c = (length ?c, ?c, fs1)" using assms(4) by (simp add: std_fwrite_def Let_def)
  obtain g where g: "look fs1 P = Some (FileN g)" "content g = []" using sys_open_wr_empty[OF assms(7)] by blast
  obtain k where "file_len fs1 S = Suc k" using assms(1,2,13) by (cases "file_len fs1 S") (simp_all add: file_len_def)
  then have loop: "mp_copy_loop (Suc (file_len fs1 S)) bs fs1 S P [] 0 = Inr (True, ?c, fs1)"
    using r0 w0 assms(2) by (auto simp: Let_def)
  have cl: "snd (std_fclose fs1 P ?c) = setn (fs1\<lparr>avail := 0\<rparr>) P (FileN (g\<lparr>content := take (avail fs1) ?c, mtime := clock fs1\<rparr>))"
    using g assms(15) by (simp add: std_fclose_def sys_write_def Let_def)
  have "mp_compare_files fs src dst = Inr False" using assms(9) by (simp add: mp_compare_files_def mp_file_exists_def)
  moreover have "mp_create_directory fs d = Inr (True, fs)" using assms(12) by (simp add: mp_create_directory_def)
  moreover obtain b fs4 where "std_fclose fs1 P ?c = (b, fs4)" by fastforce
  ultimately have "mp_sync_file bs fs src dst = Inr (True, snd (std_fclose fs1 P ?c))"
    using assms(6,7,10,11) loop by (simp add: mp_sync_file_def del: mp_copy_loop.simps)
  moreover have "take (avail fs1) ?c \<noteq> ?c" using assms(15) by simp
  ultimately show ?thesis using cl by simp
qed

text \<open>The target path of a file below the source directory is the same relative path below the target
  directory, whenever it fits into the buffer; \<open>get_relative_path\<close> inverts the joining.\<close>

theorem mp_target_path_below:
  assumes "length (mp_source config @ rel) < MP_MAX_PATH_LEN" "length (mp_target config @ rel) < MP_MAX_PATH_LEN"
  shows "mp_target_path config (mp_source config @ rel) = mp_target config @ rel"
  using assms by (simp add: mp_target_path_def mp_relative_path_def)

section \<open>Concrete runs\<close>

definition demo_mp_list :: mp_file_list where
  "demo_mp_list = \<lparr>mp_files = [\<lparr>mp_path = ''/s/f'', mp_size = 5\<rparr>, \<lparr>mp_path = ''/s/g'', mp_size = -1\<rparr>, \<lparr>mp_path = ''/s/h'', mp_size = -1\<rparr>],
     mp_count = 3, mp_capacity = 100\<rparr>"

definition demo_mp_config :: mp_config where
  "demo_mp_config = \<lparr>mp_source = ''/s'', mp_target = ''/s/d'', process_count = 2\<rparr>"

lemma demo_mp_list_inv: "mp_list_inv demo_mp_list"
  by (simp add: demo_mp_list_def mp_list_inv_def MP_MAX_PATH_LEN_def)

lemma demo_mp_slices: "map (map mp_path) (mp_fork_loop demo_mp_list 2 2 0) = [[''/s/f''], [''/s/g'', ''/s/h'']]"
  by code_simp

theorem mp_slices_partition_witness:
  "length (mp_fork_loop demo_mp_list 2 2 0) = 2 \<and> concat (mp_fork_loop demo_mp_list 2 2 0) = mp_files demo_mp_list
    \<and> map (map mp_path) (mp_fork_loop demo_mp_list 2 2 0) = [[''/s/f''], [''/s/g'', ''/s/h'']]"
  using mp_slices_partition[OF demo_mp_list_inv, of 2 demo_fs] demo_mp_slices by simp

lemma demo_mp_run: "\<exists>wrk h s. mp_children demo_fs (mp_fork_loop demo_mp_list 2 2 0) = Inr wrk \<and> map length wrk = [1, 2]
    \<and> mp_exec 4096 demo_mp_config [1, 0, 1] \<lparr>mpfs = demo_fs, todo = wrk\<rparr> = Inr (h, s)"
proof -
  have "case mp_children demo_fs (mp_fork_loop demo_mp_list 2 2 0) of Inl _ \<Rightarrow> False
    | Inr wrk \<Rightarrow> map length wrk = [1, 2] \<and> (case mp_exec 4096 demo_mp_config [1, 0, 1] \<lparr>mpfs = demo_fs, todo = wrk\<rparr> of
        Inr _ \<Rightarrow> True | Inl _ \<Rightarrow> False)" by code_simp
  then show ?thesis by (auto split: sum.splits)
qed


theorem mp_failure_never_reported_witness:
  "\<exists>fs'. mp_perform_sync 4096 (demo_fs\<lparr>denied := [[''s'', ''f'']]\<rparr>) \<lparr>mp_source = ''/s'', mp_target = ''/s/d'', process_count = 2\<rparr> 2 [1]
      = Inr (True, fs') \<and> look fs' [''s'', ''d'', ''f''] = None"
proof -
  let ?fs = "demo_fs\<lparr>denied := [[''s'', ''f'']]\<rparr>" and ?c = "\<lparr>mp_source = ''/s'', mp_target = ''/s/d'', process_count = 2\<rparr>"
  have "case mp_perform_sync 4096 ?fs ?c 2 [1] of Inr (_, fs') \<Rightarrow> look fs' [''s'', ''d'', ''f''] = None | Inl _ \<Rightarrow> False" by code_simp
  then obtain ok fs' where r: "mp_perform_sync 4096 ?fs ?c 2 [1] = Inr (ok, fs')" "look fs' [''s'', ''d'', ''f''] = None"
    by (auto split: sum.splits)
  have lk: "look ?fs l = look demo_fs l" for l by (simp add: look_def)
  have "mp_is_directory ?fs (mp_source ?c)" "mp_create_directory ?fs (mp_target ?c) = Inr (True, ?fs)"
    by (simp_all add: mp_is_directory_def mp_create_directory_def mp_file_exists_def sys_stat_def demo_state demo_paths lk demo_look is_dirn_def)
  from mp_failure_never_reported[OF this _ r(1)] r show ?thesis by simp
qed

theorem mp_flush_failure_lost_witness:
  "\<exists>fs' g. mp_sync_file 4096 (demo_fs\<lparr>avail := 3\<rparr>) ''/s/f'' ''/s/d/f'' = Inr (True, fs')
    \<and> look fs' [''s'', ''d'', ''f''] = Some (FileN g) \<and> content g = ''hel''"
proof -
  let ?fs = "demo_fs\<lparr>avail := 3\<rparr>"
  let ?P = "[''s'', ''d'', ''f'']"
  have lk: "look ?fs l = look demo_fs l" for l by (simp add: look_def)
  have w: "sys_open_wr ?fs ''/s/d/f'' = Some (?P, setn (add_name ?fs ?P) ?P (FileN (new_file 9)))"
    by (simp add: sys_open_wr_def Let_def demo_state demo_paths lk demo_look creatable_def)
  have a: "add_name ?fs ?P = setn ?fs [''s'', ''d''] (DirN [''f''])" by (simp add: add_name_def lk demo_look)
  have "look ?fs [''s'', ''f''] = Some (FileN \<lparr>content = ''hello'', mtime = 7, atime = 7, fmode = 420\<rparr>)"
    by (simp add: lk demo_look)
  from mp_flush_failure_lost[OF this _ _ _ _ _ w, where src = "''/s/f''" and d = "''/s/d''" and bs = 4096] show ?thesis
    by (auto simp: a demo_state demo_paths lk demo_look sys_open_rd_def sys_stat_def mp_file_exists_def MP_MAX_PATH_LEN_def MP_BUFFER_SIZE_def)
qed

theorem mp_target_path_below_witness:
  "mp_target_path demo_mp_config (''/s'' @ ''/a/b'') = ''/s/d/a/b''"
  using mp_target_path_below[of demo_mp_config "''/a/b''"] by (simp add: demo_mp_config_def MP_MAX_PATH_LEN_def)

end
