(* ===== verification/PrintQueue.thy ===== *)
theory PrintQueue
  imports CStd
begin

text \<open>
  The two doubly linked lists of \<open>printer/printd.c\<close>, over explicit heaps of nodes: the queue of
  pending jobs (\<open>add_job\<close>, \<open>replace_job\<close>, \<open>remove_job\<close>) with its two ends, and the list of worker
  threads (\<open>add_worker\<close>, \<open>client_cleanup\<close>, \<open>kill_workers\<close>) with its head. A pointer is an optional
  address; using a freed or null node is the error \<open>BadPtr\<close>. The job queue implements a sequence; the
  worker list does not.
\<close>

section \<open>Nodes\<close>

datatype print_err =
    BadPtr      \<comment> \<open>a null or dangling pointer is followed\<close>
  | BadBuf      \<comment> \<open>an access outside a buffer\<close>
  | OutOfFuel   \<comment> \<open>the loop has not ended within its fuel\<close>
  | Exits       \<comment> \<open>the process ends (\<open>log_sys\<close>, \<open>log_quit\<close>, \<open>exit\<close>)\<close>

record printreq =
  req_size :: "32 word"
  req_flags :: "32 word"
  usernm :: string     \<comment> \<open>the 64 bytes of the array\<close>
  jobnm :: string      \<comment> \<open>the 256 bytes of the array\<close>

record job =
  jnext :: "nat option"
  jprev :: "nat option"
  jobid :: int
  jreq :: printreq

record jobq =
  jheap :: "nat \<Rightarrow> job option"
  jobhead :: "nat option"
  jobtail :: "nat option"

definition jget :: "jobq \<Rightarrow> nat \<Rightarrow> print_err + job" where
  "jget q p = (case jheap q p of None \<Rightarrow> Inl BadPtr | Some n \<Rightarrow> Inr n)"

definition jset :: "jobq \<Rightarrow> nat \<Rightarrow> job \<Rightarrow> jobq" where
  "jset q p n = q\<lparr>jheap := (jheap q)(p \<mapsto> n)\<rparr>"

definition jfree :: "jobq \<Rightarrow> nat \<Rightarrow> jobq" where
  "jfree q p = q\<lparr>jheap := (jheap q)(p := None)\<rparr>"

section \<open>The job queue\<close>

definition add_job :: "jobq \<Rightarrow> nat \<Rightarrow> printreq \<Rightarrow> int \<Rightarrow> print_err + jobq" where
  \<comment> \<open>\<open>jp\<close> is the fresh address that \<open>malloc\<close> returns\<close>
  "add_job q jp reqp jid =
     (let n = \<lparr>jnext = None, jprev = jobtail q, jobid = jid, jreq = reqp\<rparr>; q1 = jset q jp n in
      case jobtail q of
        None \<Rightarrow> Inr (q1\<lparr>jobhead := Some jp, jobtail := Some jp\<rparr>)
      | Some t \<Rightarrow> bindE (jget q1 t) (\<lambda>tn. Inr ((jset q1 t (tn\<lparr>jnext := Some jp\<rparr>))\<lparr>jobtail := Some jp\<rparr>)))"

definition replace_job :: "jobq \<Rightarrow> nat \<Rightarrow> print_err + jobq" where
  "replace_job q jp =
     bindE (jget q jp) (\<lambda>n.
       let q1 = jset q jp (n\<lparr>jprev := None, jnext := jobhead q\<rparr>) in
       case jobhead q of
         None \<Rightarrow> Inr (q1\<lparr>jobtail := Some jp, jobhead := Some jp\<rparr>)
       | Some h \<Rightarrow> bindE (jget q1 h) (\<lambda>hn. Inr ((jset q1 h (hn\<lparr>jprev := Some jp\<rparr>))\<lparr>jobhead := Some jp\<rparr>)))"

definition remove_job :: "jobq \<Rightarrow> nat \<Rightarrow> print_err + jobq" where
  "remove_job q target =
     bindE (jget q target) (\<lambda>n.
     bindE (case jnext n of
              Some x \<Rightarrow> bindE (jget q x) (\<lambda>xn. Inr (jset q x (xn\<lparr>jprev := jprev n\<rparr>)))
            | None \<Rightarrow> Inr (q\<lparr>jobtail := jprev n\<rparr>)) (\<lambda>q1.
       case jprev n of
         Some p \<Rightarrow> bindE (jget q1 p) (\<lambda>pn. Inr (jset q1 p (pn\<lparr>jnext := jnext n\<rparr>)))
       | None \<Rightarrow> Inr (q1\<lparr>jobhead := jnext n\<rparr>)))"

section \<open>The queue as a sequence\<close>

fun linked :: "(nat \<Rightarrow> job option) \<Rightarrow> nat option \<Rightarrow> nat list \<Rightarrow> nat option \<Rightarrow> bool" where
  \<comment> \<open>the nodes at these addresses are chained both ways, between two neighbours\<close>
  "linked h pv [] nx = True"
| "linked h pv (p # ps) nx =
     ((\<exists>n. h p = Some n \<and> jprev n = pv \<and> jnext n = (case ps of [] \<Rightarrow> nx | q # _ \<Rightarrow> Some q)) \<and> linked h (Some p) ps nx)"

definition queue_at :: "jobq \<Rightarrow> nat list \<Rightarrow> bool" where
  "queue_at q ps \<longleftrightarrow> distinct ps \<and> jobhead q = hd_opt ps \<and> jobtail q = last_opt ps \<and> linked (jheap q) None ps None"

definition entry :: "jobq \<Rightarrow> nat \<Rightarrow> int \<times> printreq" where
  "entry q p = (case jheap q p of Some n \<Rightarrow> (jobid n, jreq n) | None \<Rightarrow> undefined)"

lemma linked_frame: "p \<notin> set ps \<Longrightarrow> linked (h(p := x)) pv ps nx = linked h pv ps nx"
  by (induction ps arbitrary: pv) auto

lemma linked_some: "linked h pv ps nx \<Longrightarrow> p \<in> set ps \<Longrightarrow> h p \<noteq> None"
  by (induction ps arbitrary: pv) auto

lemma linked_append:
  "linked h pv (ps @ qs) nx \<longleftrightarrow>
     linked h pv ps (case qs of [] \<Rightarrow> nx | q # _ \<Rightarrow> Some q) \<and> linked h (if ps = [] then pv else last_opt ps) qs nx"
proof (induction ps arbitrary: pv)
  case (Cons p ps)
  have "ps \<noteq> [] \<Longrightarrow> last_opt (p # ps) = last_opt ps" by (simp add: last_opt_def)
  then show ?case using Cons by (cases ps; cases qs) auto
qed simp

lemma linked_set_last:
  assumes "linked h pv (ps @ [l]) nx" "l \<notin> set ps" "h l = Some n"
  shows "linked (h(l \<mapsto> n\<lparr>jnext := nx'\<rparr>)) pv (ps @ [l]) nx'"
  using assms by (auto simp: linked_append linked_frame)

lemma linked_set_first:
  assumes "linked h pv (p # ps) nx" "p \<notin> set ps" "h p = Some n"
  shows "linked (h(p \<mapsto> n\<lparr>jprev := pv'\<rparr>)) pv' (p # ps) nx"
  using assms by (auto simp: linked_frame)

lemma queue_at_empty: "queue_at \<lparr>jheap = (\<lambda>_. None), jobhead = None, jobtail = None\<rparr> []"
  by (simp add: queue_at_def)

lemma add_job_spec:
  assumes "queue_at q ps" "jheap q jp = None"
  shows "\<exists>q'. add_job q jp r i = Inr q' \<and> queue_at q' (ps @ [jp]) \<and> entry q' jp = (i, r) \<and> (\<forall>p \<in> set ps. entry q' p = entry q p)"
proof -
  note Q = assms(1)[unfolded queue_at_def]
  have nin: "jp \<notin> set ps" using linked_some Q assms(2) by blast
  show ?thesis
  proof (cases ps rule: rev_cases)
    case Nil
    then show ?thesis using Q by (simp add: add_job_def jset_def queue_at_def entry_def Let_def)
  next
    case (snoc as t)
    have tl: "jobtail q = Some t" using Q snoc by simp
    obtain tn where tn: "jheap q t = Some tn" using linked_some[of "jheap q" None ps None t] Q snoc by auto
    have dis: "t \<notin> set as" "jp \<noteq> t" "jp \<notin> set as" using Q snoc nin by auto
    let ?n = "\<lparr>jnext = None, jprev = Some t, jobid = i, jreq = r\<rparr>"
    let ?h = "(jheap q)(jp \<mapsto> ?n, t \<mapsto> tn\<lparr>jnext := Some jp\<rparr>)"
    have r: "add_job q jp r i = Inr (q\<lparr>jheap := ?h, jobtail := Some jp\<rparr>)"
      using tl tn dis(2) by (simp add: add_job_def jset_def jget_def Let_def)
    have "linked (jheap q) None (as @ [t]) None" using Q snoc by simp
    from linked_set_last[OF this dis(1) tn, of "Some jp"]
    have "linked ?h None (as @ [t]) (Some jp)"
      using dis nin snoc by (simp add: fun_upd_twist[OF dis(2)] linked_frame)
    moreover have "linked ?h (Some t) [jp] None" using dis(2) by simp
    ultimately have "linked ?h None (ps @ [jp]) None" using snoc linked_append[of ?h None "as @ [t]" "[jp]" None] by simp
    moreover have "hd_opt (ps @ [jp]) = hd_opt ps" using snoc by (cases as) auto
    ultimately have "queue_at (q\<lparr>jheap := ?h, jobtail := Some jp\<rparr>) (ps @ [jp])" using Q nin by (simp add: queue_at_def)
    then show ?thesis using r tn dis nin by (auto simp: entry_def)
  qed
qed

lemma replace_job_spec:
  assumes "queue_at q ps" "jheap q jp = Some n" "jp \<notin> set ps"
  shows "\<exists>q'. replace_job q jp = Inr q' \<and> queue_at q' (jp # ps) \<and> (\<forall>p. entry q' p = entry q p)"
proof -
  note Q = assms(1)[unfolded queue_at_def]
  show ?thesis
  proof (cases ps)
    case Nil
    then show ?thesis using Q assms(2)
      by (auto simp: replace_job_def jset_def jget_def queue_at_def entry_def Let_def last_opt_def)
  next
    case (Cons t as)
    obtain tn where tn: "jheap q t = Some tn" using linked_some[of "jheap q" None ps None t] Q Cons by auto
    have dis: "t \<notin> set as" "jp \<noteq> t" "jp \<notin> set as" using Q Cons assms(3) by auto
    let ?n = "n\<lparr>jprev := None, jnext := Some t\<rparr>"
    let ?h = "(jheap q)(jp \<mapsto> ?n, t \<mapsto> tn\<lparr>jprev := Some jp\<rparr>)"
    have r: "replace_job q jp = Inr (q\<lparr>jheap := ?h, jobhead := Some jp\<rparr>)"
      using Q Cons tn dis(2) assms(2) by (simp add: replace_job_def jset_def jget_def Let_def)
    have "linked (jheap q) None (t # as) None" using Q Cons by simp
    from linked_set_first[OF this dis(1) tn, of "Some jp"]
    have "linked ?h (Some jp) (t # as) None"
      using dis linked_frame[of jp "t # as"] by (simp add: fun_upd_twist[OF dis(2)] del: linked.simps)
    then have "linked ?h None (jp # ps) None" using Cons dis(2) by simp
    then have "queue_at (q\<lparr>jheap := ?h, jobhead := Some jp\<rparr>) (jp # ps)"
      using Q Cons assms(3) last_opt_simps(4)[of "t # as" "[jp]"] by (simp add: queue_at_def del: linked.simps last_opt_simps)
    then show ?thesis using r tn dis assms(2) by (auto simp: entry_def)
  qed
qed

lemma remove_job_spec:
  assumes "queue_at q (as @ t # bs)"
  shows "\<exists>q'. remove_job q t = Inr q' \<and> queue_at q' (as @ bs) \<and> (\<forall>p. entry q' p = entry q p)
    \<and> (\<forall>p. jheap q' p = None \<longleftrightarrow> jheap q p = None)"
proof -
  note Q = assms[unfolded queue_at_def]
  define h where "h = jheap q"
  have L: "linked h None as (Some t)" "linked h (last_opt as) (t # bs) None"
    using Q linked_append[of h None as "t # bs" None] unfolding h_def by (simp_all del: linked.simps split: if_splits)
  obtain n where n: "h t = Some n" "jprev n = last_opt as" "jnext n = hd_opt bs"
    using L(2) by (auto simp: hd_opt_def)
  have dis: "t \<notin> set as" "t \<notin> set bs" "set as \<inter> set bs = {}" "distinct as" "distinct bs" using Q by auto
  have Lb: "linked h (Some t) bs None" using L(2) by simp
  define q1 where "q1 = (case bs of [] \<Rightarrow> q\<lparr>jobtail := last_opt as\<rparr>
     | x # _ \<Rightarrow> q\<lparr>jheap := h(x \<mapsto> (the (h x))\<lparr>jprev := last_opt as\<rparr>)\<rparr>)"
  have s1: "(case jnext n of
              Some x \<Rightarrow> bindE (jget q x) (\<lambda>xn. Inr (jset q x (xn\<lparr>jprev := jprev n\<rparr>)))
            | None \<Rightarrow> Inr (q\<lparr>jobtail := jprev n\<rparr>)) = (Inr q1 :: print_err + jobq)"
  proof (cases bs)
    case (Cons x xs)
    then obtain xn where "h x = Some xn" using linked_some[OF Lb, of x] by auto
    then show ?thesis using n Cons by (simp add: q1_def jget_def jset_def h_def)
  qed (use n in \<open>simp add: q1_def\<close>)
  have L1: "linked (jheap q1) None as (Some t)" "linked (jheap q1) (last_opt as) bs None"
    "jobhead q1 = jobhead q" "jobtail q1 = (if bs = [] then last_opt as else jobtail q)" "\<forall>p. entry q1 p = entry q p"
    "\<forall>p. jheap q1 p = None \<longleftrightarrow> jheap q p = None"
  proof -
    have "linked (jheap q1) None as (Some t) \<and> linked (jheap q1) (last_opt as) bs None
      \<and> jobhead q1 = jobhead q \<and> jobtail q1 = (if bs = [] then last_opt as else jobtail q) \<and> (\<forall>p. entry q1 p = entry q p)
      \<and> (\<forall>p. jheap q1 p = None \<longleftrightarrow> jheap q p = None)"
    proof (cases bs)
      case Nil
      then show ?thesis using L(1) by (auto simp: q1_def h_def entry_def)
    next
      case (Cons x xs)
      then obtain xn where xn: "h x = Some xn" using linked_some[OF Lb, of x] by auto
      have "x \<notin> set xs" "x \<notin> set as" using dis Cons by auto
      then show ?thesis using Cons L(1) Lb xn linked_set_first[of h "Some t" x xs None xn "last_opt as"]
        by (auto simp: q1_def h_def[symmetric] entry_def linked_frame)
    qed
    then show "linked (jheap q1) None as (Some t)" "linked (jheap q1) (last_opt as) bs None"
      "jobhead q1 = jobhead q" "jobtail q1 = (if bs = [] then last_opt as else jobtail q)" "\<forall>p. entry q1 p = entry q p"
      "\<forall>p. jheap q1 p = None \<longleftrightarrow> jheap q p = None" by blast+
  qed
  have s0: "remove_job q t = (case jprev n of
         Some p \<Rightarrow> bindE (jget q1 p) (\<lambda>pn. Inr (jset q1 p (pn\<lparr>jnext := jnext n\<rparr>)))
       | None \<Rightarrow> Inr (q1\<lparr>jobhead := jnext n\<rparr>))"
    using n(1) s1 by (simp add: remove_job_def jget_def[of q t] h_def)
  note s2 = s0[unfolded n(2,3)]
  have tl: "jobtail q1 = last_opt (as @ bs)" using Q L1(4) by (auto simp: last_opt_def)
  show ?thesis
  proof (cases as rule: rev_cases)
    case Nil
    then show ?thesis using s2 L1 tl dis by (auto simp: queue_at_def entry_def)
  next
    case (snoc cs p)
    obtain pn where pn: "jheap q1 p = Some pn" using linked_some[OF L1(1), of p] snoc by auto
    have dp: "p \<notin> set cs" "p \<notin> set bs" using dis snoc by auto
    let ?h = "(jheap q1)(p \<mapsto> pn\<lparr>jnext := hd_opt bs\<rparr>)"
    have "linked ?h None (cs @ [p]) (hd_opt bs)" using linked_set_last[of "jheap q1" None cs p "Some t" pn "hd_opt bs"] dp(1) pn L1(1) snoc by simp
    moreover have "linked ?h (Some p) bs None" using L1(2) snoc dp(2) by (simp add: linked_frame)
    ultimately have "linked ?h None (as @ bs) None" using snoc linked_append[of ?h None "cs @ [p]" bs None]
      by (simp add: hd_opt_def)
    moreover have "hd_opt (as @ bs) = hd_opt as" using snoc by (cases cs) auto
    moreover have "jobhead q1 = hd_opt as" using Q L1(3) snoc by (cases cs) auto
    ultimately have "queue_at (q1\<lparr>jheap := ?h\<rparr>) (as @ bs)" using tl dis by (auto simp: queue_at_def)
    moreover have "remove_job q t = Inr (q1\<lparr>jheap := ?h\<rparr>)" using s2 snoc pn by (simp add: jget_def jset_def)
    moreover have "entry (q1\<lparr>jheap := ?h\<rparr>) x = entry q1 x" for x using pn by (simp add: entry_def)
    moreover have "?h x = None \<longleftrightarrow> jheap q1 x = None" for x using pn by simp
    ultimately show ?thesis using L1(5,6) by (intro exI[of _ "q1\<lparr>jheap := ?h\<rparr>"]) simp
  qed
qed

section \<open>Sequences of operations\<close>

datatype qop =
    QAdd nat int printreq   \<comment> \<open>a client thread appends a job, at the address that \<open>malloc\<close> gave it\<close>
  | QTake                   \<comment> \<open>the printer thread unlinks the first job\<close>
  | QBack nat               \<comment> \<open>it puts a job back\<close>
  | QFree nat               \<comment> \<open>it frees a job\<close>

definition q_step :: "qop \<Rightarrow> jobq \<Rightarrow> print_err + jobq" where
  "q_step x q = (case x of
      QAdd p i r \<Rightarrow> add_job q p r i
    | QTake \<Rightarrow> (case jobhead q of None \<Rightarrow> Inl BadPtr | Some h \<Rightarrow> remove_job q h)
    | QBack p \<Rightarrow> replace_job q p
    | QFree p \<Rightarrow> Inr (jfree q p))"

type_synonym jobs_spec = "(nat \<times> int \<times> printreq) list \<times> (nat \<times> int \<times> printreq) list"

definition q_spec :: "qop \<Rightarrow> jobs_spec \<Rightarrow> jobs_spec option" where
  \<comment> \<open>the jobs that wait, in order, and those the printer thread holds\<close>
  "q_spec x s = (case x of
      QAdd p i r \<Rightarrow> if p \<in> fst ` set (fst s @ snd s) then None else Some (fst s @ [(p, i, r)], snd s)
    | QTake \<Rightarrow> (case fst s of [] \<Rightarrow> None | e # es \<Rightarrow> Some (es, e # snd s))
    | QBack p \<Rightarrow> (case find (\<lambda>e. fst e = p) (snd s) of None \<Rightarrow> None
                 | Some e \<Rightarrow> Some (e # fst s, filter (\<lambda>e. fst e \<noteq> p) (snd s)))
    | QFree p \<Rightarrow> if p \<in> fst ` set (snd s) then Some (fst s, filter (\<lambda>e. fst e \<noteq> p) (snd s)) else None)"

definition holds_jobs :: "jobq \<Rightarrow> jobs_spec \<Rightarrow> bool" where
  "holds_jobs q s \<longleftrightarrow> queue_at q (map fst (fst s)) \<and> distinct (map fst (fst s @ snd s))
     \<and> (\<forall>p. jheap q p = None \<longleftrightarrow> p \<notin> fst ` set (fst s @ snd s))
     \<and> (\<forall>e \<in> set (fst s @ snd s). entry q (fst e) = snd e)"

lemma holds_jobs_add:
  assumes "holds_jobs q (ws, hs)" "p \<notin> fst ` set (ws @ hs)"
  shows "\<exists>q'. add_job q p r i = Inr q' \<and> holds_jobs q' (ws @ [(p, i, r)], hs)"
proof -
  note H = assms(1)[unfolded holds_jobs_def fst_conv snd_conv]
  have hp: "jheap q p = None" using H assms(2) by blast
  obtain q' where q': "add_job q p r i = Inr q'" "queue_at q' (map fst ws @ [p])" "entry q' p = (i, r)"
    "\<forall>x \<in> set (map fst ws). entry q' x = entry q x" using add_job_spec[of q "map fst ws" p r i] H hp by blast
  have fr: "jheap q' x = jheap q x" if "x \<noteq> p" "x \<notin> fst ` set ws" for x
  proof -
    have "jobtail q = last_opt (map fst ws)" using H by (simp add: queue_at_def)
    then have "jobtail q \<noteq> Some x" using that(2) by (auto simp: last_opt_def split: if_splits) (metis last_in_set list.set_map map_is_Nil_conv)
    then show ?thesis using q'(1) that(1)
      by (auto simp: add_job_def jset_def jget_def Let_def split: option.splits)
  qed
  have "jheap q' x = None \<longleftrightarrow> x \<notin> fst ` set ((ws @ [(p, i, r)]) @ hs)" for x
  proof (cases "x = p \<or> x \<in> fst ` set ws")
    case True
    then have "x \<in> set (map fst ws @ [p])" by auto
    then have "jheap q' x \<noteq> None" using q'(2) linked_some unfolding queue_at_def by blast
    then show ?thesis using True by auto
  next
    case False
    then have "jheap q' x = jheap q x" using fr by blast
    then show ?thesis using H False by auto
  qed
  moreover have "entry q' (fst e) = snd e" if ein: "e \<in> set ((ws @ [(p, i, r)]) @ hs)" for e
  proof -
    consider "e = (p, i, r)" | "e \<in> set ws" | "e \<in> set hs" "e \<notin> set ws" using ein by auto
    then show ?thesis
    proof cases
      case 3
      then have "fst e \<noteq> p" "fst e \<notin> fst ` set ws" using H assms(2) by auto
      then have "jheap q' (fst e) = jheap q (fst e)" by (rule fr)
      then show ?thesis using H 3(1) by (simp add: entry_def)
    qed (use q' H in auto)
  qed
  ultimately show ?thesis using q'(1,2) H assms(2) by (auto simp: holds_jobs_def)
qed

lemma holds_jobs_take:
  assumes "holds_jobs q (e # ws, hs)"
  shows "\<exists>q'. jobhead q = Some (fst e) \<and> remove_job q (fst e) = Inr q' \<and> holds_jobs q' (ws, e # hs)"
proof -
  note H = assms[unfolded holds_jobs_def fst_conv snd_conv]
  obtain q' where q': "remove_job q (fst e) = Inr q'" "queue_at q' (map fst ws)" "\<forall>p. entry q' p = entry q p"
    "\<forall>p. jheap q' p = None \<longleftrightarrow> jheap q p = None" using remove_job_spec[of q "[]" "fst e" "map fst ws"] H by auto
  have "jobhead q = Some (fst e)" using H by (simp add: queue_at_def)
  moreover have "distinct (map fst (ws @ e # hs))" using H by auto
  ultimately show ?thesis using q' H by (auto simp: holds_jobs_def)
qed

lemma holds_jobs_back:
  assumes "holds_jobs q (ws, hs)" "e \<in> set hs"
  shows "\<exists>q'. replace_job q (fst e) = Inr q' \<and> holds_jobs q' (e # ws, filter (\<lambda>x. fst x \<noteq> fst e) hs)"
proof -
  note H = assms(1)[unfolded holds_jobs_def fst_conv snd_conv]
  have nin: "fst e \<notin> set (map fst ws)" using H assms(2) by auto
  obtain n where n: "jheap q (fst e) = Some n" using H assms(2) by fastforce
  obtain q' where q': "replace_job q (fst e) = Inr q'" "queue_at q' (fst e # map fst ws)" "\<forall>p. entry q' p = entry q p"
    using replace_job_spec[OF _ n nin] H by blast
  have hp: "jheap q' p = None \<longleftrightarrow> jheap q p = None" for p
    using q'(1) n by (auto simp: replace_job_def jset_def jget_def Let_def split: option.splits if_splits)
  have d: "distinct (map fst hs)" using H by simp
  have st: "set (e # filter (\<lambda>x. fst x \<noteq> fst e) hs) = set hs"
  proof -
    have "x = e" if "x \<in> set hs" "fst x = fst e" for x using d that assms(2) by (metis distinct_map inj_onD)
    then show ?thesis using assms(2) by auto
  qed
  then have im: "fst ` set ((e # ws) @ filter (\<lambda>x. fst x \<noteq> fst e) hs) = fst ` set (ws @ hs)" by auto
  have "distinct (map fst ((e # ws) @ filter (\<lambda>x. fst x \<noteq> fst e) hs))"
    using H nin distinct_map_filter[of fst hs] by auto
  moreover have "\<forall>x \<in> set ((e # ws) @ filter (\<lambda>x. fst x \<noteq> fst e) hs). entry q' (fst x) = snd x"
    using H q'(3) assms(2) by auto
  ultimately show ?thesis using q'(1,2) hp H im by (auto simp: holds_jobs_def)
qed

lemma holds_jobs_free:
  assumes "holds_jobs q (ws, hs)" "p \<in> fst ` set hs"
  shows "holds_jobs (jfree q p) (ws, filter (\<lambda>x. fst x \<noteq> p) hs)"
proof -
  note H = assms(1)[unfolded holds_jobs_def fst_conv snd_conv]
  have nin: "p \<notin> set (map fst ws)" using H assms(2) by auto
  have "queue_at (jfree q p) (map fst ws)"
    using H nin by (simp add: queue_at_def jfree_def linked_frame)
  moreover have "distinct (map fst (ws @ filter (\<lambda>x. fst x \<noteq> p) hs))" using H distinct_map_filter[of fst hs] by auto
  moreover have "jheap (jfree q p) x = None \<longleftrightarrow> x \<notin> fst ` set (ws @ filter (\<lambda>x. fst x \<noteq> p) hs)" for x
    using H nin by (auto simp: jfree_def)
  moreover have "entry (jfree q p) (fst e) = snd e" if "e \<in> set (ws @ filter (\<lambda>x. fst x \<noteq> p) hs)" for e
  proof -
    have "fst e \<noteq> p" "e \<in> set (ws @ hs)" using that nin by auto
    then show ?thesis using H by (simp add: entry_def jfree_def)
  qed
  ultimately show ?thesis by (simp add: holds_jobs_def)
qed

interpretation jobs: simulation q_step q_spec holds_jobs
proof
  fix q a x b assume h: "holds_jobs q a" and s: "q_spec x a = Some b"
  obtain ws hs where a: "a = (ws, hs)" by (cases a)
  show "\<exists>d. q_step x q = Inr d \<and> holds_jobs d b"
  proof (cases x)
    case (QAdd p i r)
    then show ?thesis using s h a holds_jobs_add[of q ws hs p r i] by (auto simp: q_spec_def q_step_def split: if_splits)
  next
    case QTake
    then obtain e es where "ws = e # es" "b = (es, e # hs)" using s a by (auto simp: q_spec_def split: list.splits)
    then show ?thesis using holds_jobs_take[of q e es hs] h a QTake by (auto simp: q_step_def)
  next
    case (QBack p)
    then obtain e where f: "find (\<lambda>e. fst e = p) hs = Some e" "b = (e # ws, filter (\<lambda>e. fst e \<noteq> p) hs)"
      using s a by (auto simp: q_spec_def split: option.splits)
    then have "e \<in> set hs" "fst e = p" by (auto simp: find_Some_iff)
    then show ?thesis using holds_jobs_back[of q ws hs e] h a f(2) QBack by (auto simp: q_step_def)
  next
    case (QFree p)
    then show ?thesis using holds_jobs_free[of q ws hs p] s h a by (auto simp: q_spec_def q_step_def split: if_splits)
  qed
qed

definition empty_q :: jobq where
  "empty_q = \<lparr>jheap = (\<lambda>_. None), jobhead = None, jobtail = None\<rparr>"

lemma empty_q_holds: "holds_jobs empty_q ([], [])"
  by (simp add: holds_jobs_def empty_q_def queue_at_empty)

end
