(* ===== verification/PrintWorkers.thy ===== *)
theory PrintWorkers
  imports PrintQueue
begin

text \<open>
  The list of worker threads of \<open>printer/printd.c\<close>. \<open>add_worker\<close> links a new node before the first one
  but moves the head only when the list was empty; \<open>client_cleanup\<close> and \<open>kill_workers\<close> start from the
  head. The loops over the list carry fuel.
\<close>

record wnode =
  wnext :: "nat option"
  wprev :: "nat option"
  wtid :: nat
  wsock :: int

record wlist =
  wheap :: "nat \<Rightarrow> wnode option"
  workers :: "nat option"
  wclosed :: "int list"    \<comment> \<open>the sockets closed so far\<close>

definition wget :: "wlist \<Rightarrow> nat \<Rightarrow> print_err + wnode" where
  "wget w p = (case wheap w p of None \<Rightarrow> Inl BadPtr | Some n \<Rightarrow> Inr n)"

definition wset :: "wlist \<Rightarrow> nat \<Rightarrow> wnode \<Rightarrow> wlist" where
  "wset w p n = w\<lparr>wheap := (wheap w)(p \<mapsto> n)\<rparr>"

definition add_worker :: "wlist \<Rightarrow> nat \<Rightarrow> nat \<Rightarrow> int \<Rightarrow> print_err + wlist" where
  \<comment> \<open>\<open>wtp\<close> is the fresh address that \<open>malloc\<close> returns\<close>
  "add_worker w wtp tid sockfd =
     (let w1 = wset w wtp \<lparr>wnext = workers w, wprev = None, wtid = tid, wsock = sockfd\<rparr> in
      case workers w of
        None \<Rightarrow> Inr (w1\<lparr>workers := Some wtp\<rparr>)
      | Some h \<Rightarrow> bindE (wget w1 h) (\<lambda>hn. Inr (wset w1 h (hn\<lparr>wprev := Some wtp\<rparr>))))"

fun kill_loop :: "nat \<Rightarrow> wlist \<Rightarrow> nat option \<Rightarrow> print_err + nat list" where
  "kill_loop 0 w wtp = Inl OutOfFuel"
| "kill_loop (Suc fuel) w wtp =
     (case wtp of None \<Rightarrow> Inr []
      | Some p \<Rightarrow> bindE (wget w p) (\<lambda>n. bindE (kill_loop fuel w (wnext n)) (\<lambda>ts. Inr (wtid n # ts))))"

definition kill_workers :: "nat \<Rightarrow> wlist \<Rightarrow> print_err + nat list" where
  \<comment> \<open>the threads cancelled, in order\<close>
  "kill_workers fuel w = kill_loop fuel w (workers w)"

fun find_worker :: "nat \<Rightarrow> wlist \<Rightarrow> nat option \<Rightarrow> nat \<Rightarrow> print_err + nat option" where
  "find_worker 0 w wtp tid = Inl OutOfFuel"
| "find_worker (Suc fuel) w wtp tid =
     (case wtp of None \<Rightarrow> Inr None
      | Some p \<Rightarrow> bindE (wget w p) (\<lambda>n. if wtid n = tid then Inr (Some p) else find_worker fuel w (wnext n) tid))"

definition client_cleanup :: "nat \<Rightarrow> wlist \<Rightarrow> nat \<Rightarrow> print_err + wlist" where
  "client_cleanup fuel w tid =
     bindE (find_worker fuel w (workers w) tid) (\<lambda>r.
       case r of None \<Rightarrow> Inr w
       | Some p \<Rightarrow> bindE (wget w p) (\<lambda>n.
           bindE (case wnext n of Some x \<Rightarrow> bindE (wget w x) (\<lambda>xn. Inr (wset w x (xn\<lparr>wprev := wprev n\<rparr>))) | None \<Rightarrow> Inr w) (\<lambda>w1.
           bindE (case wprev n of Some x \<Rightarrow> bindE (wget w1 x) (\<lambda>xn. Inr (wset w1 x (xn\<lparr>wnext := wnext n\<rparr>)))
                  | None \<Rightarrow> Inr (w1\<lparr>workers := wnext n\<rparr>)) (\<lambda>w2.
           Inr (w2\<lparr>wheap := (wheap w2)(p := None), wclosed := wclosed w2 @ [wsock n]\<rparr>)))))"

definition empty_w :: wlist where
  "empty_w = \<lparr>wheap = (\<lambda>_. None), workers = None, wclosed = []\<rparr>"

lemma one_worker:
  assumes "workers w = None"
  shows "\<exists>w1 w2. add_worker w p t s = Inr w1 \<and> client_cleanup (Suc fuel) w1 t = Inr w2
    \<and> workers w2 = None \<and> wclosed w2 = wclosed w @ [s]"
  using assms by (auto simp: add_worker_def client_cleanup_def wget_def wset_def Let_def)

lemma kill_loop_frame:
  "kill_loop fuel w start = Inr ts \<Longrightarrow> wheap w p = None \<Longrightarrow>
     (\<And>x n. wheap w x = Some n \<Longrightarrow> \<exists>n'. wheap w' x = Some n' \<and> wnext n' = wnext n \<and> wtid n' = wtid n) \<Longrightarrow>
     kill_loop fuel w' start = Inr ts"
proof (induction fuel arbitrary: start ts)
  case (Suc fuel)
  show ?case
  proof (cases start)
    case (Some x)
    then obtain n ts1 where n: "wheap w x = Some n" "kill_loop fuel w (wnext n) = Inr ts1" "ts = wtid n # ts1"
      using Suc.prems(1) by (auto simp: wget_def split: option.splits)
    obtain n' where "wheap w' x = Some n'" "wnext n' = wnext n" "wtid n' = wtid n" using Suc.prems(3)[OF n(1)] by blast
    then show ?thesis using Some n Suc.IH[OF n(2) Suc.prems(2,3)] by (simp add: wget_def)
  qed (use Suc.prems in simp)
qed simp

lemma add_worker_unseen:
  assumes "workers w = Some h" "wheap w p = None" "kill_workers fuel w = Inr ts" "add_worker w p t s = Inr w'"
  shows "kill_workers fuel w' = Inr ts \<and> workers w' = workers w"
proof -
  obtain hn where hn: "wheap w h = Some hn"
    using assms(1,3) by (cases fuel) (auto simp: kill_workers_def wget_def split: option.splits)
  have ph: "p \<noteq> h" using hn assms(2) by auto
  have w': "w' = wset (wset w p \<lparr>wnext = Some h, wprev = None, wtid = t, wsock = s\<rparr>) h (hn\<lparr>wprev := Some p\<rparr>)"
    using assms(1,4) hn ph by (simp add: add_worker_def wget_def wset_def Let_def)
  have "kill_loop fuel w' (Some h) = Inr ts"
  proof (rule kill_loop_frame[of fuel w "Some h" ts p])
    show "kill_loop fuel w (Some h) = Inr ts" using assms(1,3) by (simp add: kill_workers_def)
    fix x n assume "wheap w x = Some n"
    then show "\<exists>n'. wheap w' x = Some n' \<and> wnext n' = wnext n \<and> wtid n' = wtid n"
      using assms(2) hn ph by (auto simp: w' wset_def)
  qed (rule assms(2))
  then show ?thesis using assms(1) w' by (simp add: kill_workers_def wset_def)
qed

lemma head_cleanup_dangles:
  assumes "a \<noteq> b" "t1 \<noteq> t2"
  shows "\<exists>w1 w2 w3. add_worker empty_w a t1 s1 = Inr w1 \<and> add_worker w1 b t2 s2 = Inr w2
    \<and> client_cleanup (Suc (Suc fuel)) w2 t1 = Inr w3 \<and> workers w3 = Some a \<and> wheap w3 a = None"
  using assms by (auto simp: add_worker_def client_cleanup_def wget_def wset_def empty_w_def Let_def)

end
