(* ===== verification/SockIO.thy ===== *)
theory SockIO
  imports CStd
begin

text \<open>
  Descriptors that deliver and accept data piecemeal, and the loops of the library over them:
  \<open>readn\<close> (\<open>lib/readn.c\<close>), \<open>writen\<close> (\<open>lib/writen.c\<close>), \<open>tread\<close> and \<open>treadn\<close> (\<open>printer/util.c\<close>), and the
  bytes of integers in network order. What the peer does is a list of events: the chunks that
  arrive, a wait longer than the time limit, an error, and how much each \<open>write\<close> takes.
\<close>

section \<open>Network byte order\<close>

definition be16 :: "nat \<Rightarrow> string" where
  \<comment> \<open>the two bytes of \<open>htons\<close>\<close>
  "be16 n = [char_of (n div 256), char_of n]"

definition get_be16 :: "string \<Rightarrow> nat" where
  "get_be16 s = of_char (s ! 0) * 256 + of_char (s ! 1)"

definition be32 :: "32 word \<Rightarrow> string" where
  \<comment> \<open>the four bytes of \<open>htonl\<close>\<close>
  "be32 w = [char_of (unat w div 16777216), char_of (unat w div 65536), char_of (unat w div 256), char_of (unat w)]"

definition get_be32 :: "string \<Rightarrow> 32 word" where
  "get_be32 s = of_nat (of_char (s ! 0) * 16777216 + of_char (s ! 1) * 65536 + of_char (s ! 2) * 256 + of_char (s ! 3))"

lemma length_be [simp]: "length (be16 n) = 2" "length (be32 w) = 4"
  by (simp_all add: be16_def be32_def)

lemma get_be16_be16: "n < 65536 \<Longrightarrow> get_be16 (be16 n @ r) = n"
  by (simp add: get_be16_def be16_def)

lemma nat_digits256:
  fixes n :: nat
  assumes "n < 4294967296"
  shows "n div 16777216 * 16777216 + n div 65536 mod 256 * 65536 + n div 256 mod 256 * 256 + n mod 256 = n"
    "n div 16777216 mod 256 = n div 16777216"
proof -
  have a: "n = n div 256 * 256 + n mod 256" by simp
  have b: "n div 256 = n div 65536 * 256 + n div 256 mod 256"
    using div_mult_mod_eq[of "n div 256" 256] by (simp add: div_mult2_eq[symmetric])
  have c: "n div 65536 = n div 16777216 * 256 + n div 65536 mod 256"
    using div_mult_mod_eq[of "n div 65536" 256] by (simp add: div_mult2_eq[symmetric])
  show "n div 16777216 mod 256 = n div 16777216" using assms by (intro mod_less) (simp add: less_mult_imp_div_less)
  show "n div 16777216 * 16777216 + n div 65536 mod 256 * 65536 + n div 256 mod 256 * 256 + n mod 256 = n"
    using a b c by linarith
qed

lemma get_be32_be32 [simp]: "get_be32 (be32 w @ r) = w"
proof -
  have "unat w < 4294967296" using unsigned_less[of w] by simp
  from nat_digits256[OF this] have "get_be32 (be32 w @ r) = of_nat (unat w)"
    unfolding get_be32_def be32_def by (simp del: of_nat_add of_nat_mult)
  then show ?thesis by simp
qed

section \<open>Reading and writing\<close>

datatype rd = RData string | RTimeout | RErr

datatype wr = WTake nat | WErr

record sock =
  inq :: "rd list"      \<comment> \<open>what arrives; the end of the list is the end of the stream\<close>
  outq :: string        \<comment> \<open>what was written\<close>
  wrq :: "wr list"      \<comment> \<open>how much each coming \<open>write\<close> takes; all of it past the end of the list\<close>

fun sock_read :: "rd list \<Rightarrow> nat \<Rightarrow> string option \<times> rd list" where
  \<comment> \<open>\<open>read\<close>, which waits as long as it takes; \<open>None\<close> is -1\<close>
  "sock_read [] n = (Some [], [])"
| "sock_read (RData s # q) n = (if length s \<le> n then (Some s, q) else (Some (take n s), RData (drop n s) # q))"
| "sock_read (RTimeout # q) n = sock_read q n"
| "sock_read (RErr # q) n = (None, q)"

definition read_fd :: "sock \<Rightarrow> nat \<Rightarrow> string option \<times> sock" where
  "read_fd sk n = (let (r, q) = sock_read (inq sk) n in (r, sk\<lparr>inq := q\<rparr>))"

definition write_fd :: "sock \<Rightarrow> string \<Rightarrow> nat option \<times> sock" where
  \<comment> \<open>\<open>write\<close>; \<open>None\<close> is -1\<close>
  "write_fd sk s =
     (case wrq sk of
        [] \<Rightarrow> (Some (length s), sk\<lparr>outq := outq sk @ s\<rparr>)
      | WTake k # q \<Rightarrow> (Some (min k (length s)), sk\<lparr>outq := outq sk @ take k s, wrq := q\<rparr>)
      | WErr # q \<Rightarrow> (None, sk\<lparr>wrq := q\<rparr>))"

definition tread :: "sock \<Rightarrow> nat \<Rightarrow> string option \<times> sock" where
  \<comment> \<open>\<open>select\<close> with a time limit, then \<open>read\<close>\<close>
  "tread sk n = (case inq sk of RTimeout # q \<Rightarrow> (None, sk\<lparr>inq := q\<rparr>) | _ \<Rightarrow> read_fd sk n)"

fun readn_loop :: "(sock \<Rightarrow> nat \<Rightarrow> string option \<times> sock) \<Rightarrow> sock \<Rightarrow> nat \<Rightarrow> nat \<Rightarrow> string \<Rightarrow> int \<times> string \<times> sock" where
  "readn_loop rdf sk n nleft ptr =
     (if nleft = 0 then (int n, ptr, sk)
      else case rdf sk nleft of
        (None, sk1) \<Rightarrow> if nleft = n then (-1, ptr, sk1) else (int (n - nleft), ptr, sk1)
      | (Some s, sk1) \<Rightarrow> if s = [] then (int (n - nleft), ptr, sk1)
                        else readn_loop rdf sk1 n (nleft - length s) (ptr @ s))"

declare readn_loop.simps [simp del]

definition readn :: "sock \<Rightarrow> nat \<Rightarrow> int \<times> string \<times> sock" where
  \<comment> \<open>the result, the bytes stored at \<open>ptr\<close>, and the descriptor\<close>
  "readn sk n = readn_loop read_fd sk n n []"

definition treadn :: "sock \<Rightarrow> nat \<Rightarrow> int \<times> string \<times> sock" where
  "treadn sk n = readn_loop tread sk n n []"

fun writen_loop :: "sock \<Rightarrow> nat \<Rightarrow> string \<Rightarrow> int \<times> sock" where
  "writen_loop sk n ptr =
     (if ptr = [] then (int n, sk)
      else case write_fd sk ptr of
        (None, sk1) \<Rightarrow> if length ptr = n then (-1, sk1) else (int (n - length ptr), sk1)
      | (Some k, sk1) \<Rightarrow> if k = 0 then (int (n - length ptr), sk1) else writen_loop sk1 n (drop k ptr))"

declare writen_loop.simps [simp del]

definition writen :: "sock \<Rightarrow> string \<Rightarrow> int \<times> sock" where
  "writen sk ptr = writen_loop sk (length ptr) ptr"

section \<open>What the loops do\<close>

fun arrives :: "rd list \<Rightarrow> string" where
  \<comment> \<open>the bytes before the first event that ends a timed read\<close>
  "arrives (RData s # q) = (if s = [] then [] else s @ arrives q)"
| "arrives _ = []"

fun stream :: "rd list \<Rightarrow> string" where
  \<comment> \<open>the bytes before the end or an error, however long they take\<close>
  "stream (RData s # q) = (if s = [] then [] else s @ stream q)"
| "stream (RTimeout # q) = stream q"
| "stream _ = []"

text \<open>The contract of a function that reads once: what it returns is the front of the pending bytes, and an
  end or an error means that nothing is pending.\<close>

locale reader =
  fixes rdf :: "sock \<Rightarrow> nat \<Rightarrow> string option \<times> sock" and pending :: "sock \<Rightarrow> string"
  assumes got: "rdf sk n = (Some s, sk') \<Longrightarrow> 0 < n \<Longrightarrow> s \<noteq> [] \<Longrightarrow> length s \<le> n \<and> pending sk = s @ pending sk'"
    and over: "rdf sk n = (r, sk') \<Longrightarrow> 0 < n \<Longrightarrow> r = None \<or> r = Some [] \<Longrightarrow> pending sk = []"
    and quiet: "rdf sk n = (r, sk') \<Longrightarrow> outq sk' = outq sk"
begin

lemma loop_outq: "readn_loop rdf sk n m ptr = (r, p, sk') \<Longrightarrow> outq sk' = outq sk"
proof (induction m arbitrary: sk ptr rule: less_induct)
  case (less m)
  obtain t sk1 where t: "rdf sk m = (t, sk1)" by (cases "rdf sk m")
  note o = quiet[OF t]
  show ?case
  proof (cases "m = 0 \<or> t = None \<or> t = Some []")
    case True
    then show ?thesis using less.prems t o by (auto simp: readn_loop.simps[of rdf sk] split: if_splits)
  next
    case False
    then obtain s where s: "t = Some s" "s \<noteq> []" "0 < m" by auto
    have "m - length s < m" using s(2,3) by simp
    moreover have "readn_loop rdf sk1 n (m - length s) (ptr @ s) = (r, p, sk')"
      using less.prems s t by (simp add: readn_loop.simps[of rdf sk])
    ultimately show ?thesis using less.IH o by metis
  qed
qed

lemma loop_reads:
  assumes "readn_loop rdf sk n nleft ptr = (r, p, sk')" "nleft \<le> n" "length ptr = n - nleft"
  shows "p = ptr @ take nleft (pending sk) \<and> (r = int (length p) \<or> r = -1 \<and> p = [])
    \<and> (length p = n \<longrightarrow> r = int n \<and> pending sk' = drop nleft (pending sk))"
  using assms
proof (induction nleft arbitrary: sk ptr rule: less_induct)
  case (less nleft)
  obtain t sk1 where t: "rdf sk nleft = (t, sk1)" by (cases "rdf sk nleft")
  consider "nleft = 0" | "0 < nleft" "t = None \<or> t = Some []" | s where "0 < nleft" "t = Some s" "s \<noteq> []" by (cases t) auto
  then show ?case
  proof cases
    case 1
    then show ?thesis using less.prems by (simp add: readn_loop.simps)
  next
    case 2
    then show ?thesis using less.prems t over[OF t] by (auto simp: readn_loop.simps[of rdf sk] split: if_splits)
  next
    case 3
    note g = got[OF t[unfolded 3(2)] 3(1,3)]
    have "readn_loop rdf sk1 n (nleft - length s) (ptr @ s) = (r, p, sk')"
      using less.prems(1) 3 t by (simp add: readn_loop.simps[of rdf sk])
    moreover have "nleft - length s < nleft" "nleft - length s \<le> n" "length (ptr @ s) = n - (nleft - length s)"
      using less.prems(2,3) 3(1,3) g length_greater_0_conv[of s] by (simp_all del: length_greater_0_conv)
    ultimately have "p = (ptr @ s) @ take (nleft - length s) (pending sk1) \<and> (r = int (length p) \<or> r = -1 \<and> p = [])
      \<and> (length p = n \<longrightarrow> r = int n \<and> pending sk' = drop (nleft - length s) (pending sk1))"
      using less.IH[of "nleft - length s" sk1 "ptr @ s"] by blast
    moreover have "s @ take (nleft - length s) (pending sk1) = take nleft (pending sk)" using g by simp
    moreover have "drop (nleft - length s) (pending sk1) = drop nleft (pending sk)" using g by simp
    ultimately show ?thesis unfolding append_assoc by argo
  qed
qed

lemma reads:
  "readn_loop rdf sk n n [] = (r, p, sk') \<Longrightarrow> p = take n (pending sk) \<and> (r = int (length p) \<or> r = -1 \<and> p = [])
    \<and> (length p = n \<longrightarrow> r = int n \<and> pending sk' = drop n (pending sk))"
  using loop_reads[of sk n n "[]" r p sk'] by auto

end

lemma sock_read_cases:
  assumes "sock_read q n = (r, q')" "0 < n"
  shows "(\<forall>s. r = Some s \<longrightarrow> s \<noteq> [] \<longrightarrow> length s \<le> n \<and> stream q = s @ stream q') \<and> (r = None \<or> r = Some [] \<longrightarrow> stream q = [])"
  using assms by (induction q n rule: sock_read.induct) (auto split: if_splits)

interpretation plain_reader: reader read_fd "\<lambda>sk. stream (inq sk)"
  by unfold_locales (auto simp: read_fd_def split: prod.splits dest: sock_read_cases)

interpretation timed_reader: reader tread "\<lambda>sk. arrives (inq sk)"
  by unfold_locales (auto simp: tread_def read_fd_def split: list.splits rd.splits if_splits prod.splits)

lemma readn_spec:
  "readn sk n = (r, p, sk') \<Longrightarrow> p = take n (stream (inq sk)) \<and> (r = int (length p) \<or> r = -1 \<and> p = [])
    \<and> (length p = n \<longrightarrow> r = int n \<and> stream (inq sk') = drop n (stream (inq sk)))"
  unfolding readn_def by (rule plain_reader.reads)

lemma treadn_spec:
  "treadn sk n = (r, p, sk') \<Longrightarrow> p = take n (arrives (inq sk)) \<and> (r = int (length p) \<or> r = -1 \<and> p = [])
    \<and> (length p = n \<longrightarrow> r = int n \<and> arrives (inq sk') = drop n (arrives (inq sk)))"
  unfolding treadn_def by (rule timed_reader.reads)

lemma readn_outq: "readn sk n = (r, p, sk') \<Longrightarrow> outq sk' = outq sk"
  unfolding readn_def by (rule plain_reader.loop_outq)

lemma treadn_outq: "treadn sk n = (r, p, sk') \<Longrightarrow> outq sk' = outq sk"
  unfolding treadn_def by (rule timed_reader.loop_outq)

lemma writen_loop_spec:
  assumes "writen_loop sk n ptr = (r, sk')" "length ptr \<le> n"
  shows "\<exists>k \<le> length ptr. outq sk' = outq sk @ take k ptr \<and> inq sk' = inq sk
    \<and> (r = int (n - length ptr + k) \<or> r = -1 \<and> k = 0 \<and> length ptr = n)"
  using assms
proof (induction "length ptr" arbitrary: sk ptr rule: less_induct)
  case less
  obtain t sk1 where t: "write_fd sk ptr = (t, sk1)" by (cases "write_fd sk ptr")
  consider "ptr = []" | "ptr \<noteq> []" "t = None \<or> t = Some 0" | m where "ptr \<noteq> []" "t = Some m" "0 < m" by (cases t) auto
  then show ?case
  proof cases
    case 1
    then show ?thesis using less.prems by (auto simp: writen_loop.simps[of sk] intro: exI[of _ 0])
  next
    case 2
    have "outq sk1 = outq sk \<and> inq sk1 = inq sk" using t 2
      by (auto simp: write_fd_def min_def split: list.splits wr.splits if_splits)
    then show ?thesis using less.prems t 2 by (intro exI[of _ 0]) (auto simp: writen_loop.simps[of sk] split: if_splits)
  next
    case 3
    have w: "outq sk1 = outq sk @ take m ptr" "inq sk1 = inq sk" "m \<le> length ptr" using t 3
      by (auto simp: write_fd_def min_def split: list.splits wr.splits if_splits)
    have "writen_loop sk1 n (drop m ptr) = (r, sk')" using less.prems(1) t 3 by (simp add: writen_loop.simps[of sk])
    moreover have "length (drop m ptr) < length ptr" using 3 w(3) by simp
    ultimately obtain k where k: "k \<le> length (drop m ptr)" "outq sk' = outq sk1 @ take k (drop m ptr)" "inq sk' = inq sk1"
      "r = int (n - length (drop m ptr) + k) \<or> r = -1 \<and> k = 0 \<and> length (drop m ptr) = n"
      using less.hyps[of "drop m ptr" sk1] less.prems(2) by auto
    have "outq sk' = outq sk @ take (m + k) ptr" using k(2) w(1) by (simp add: take_add)
    moreover have "n - length (drop m ptr) + k = n - length ptr + (m + k)" using less.prems(2) w(3) by simp
    moreover have "length (drop m ptr) \<noteq> n" using less.prems(2) \<open>length (drop m ptr) < length ptr\<close> by linarith
    ultimately show ?thesis using k w by (intro exI[of _ "m + k"]) auto
  qed
qed

lemma writen_spec:
  assumes "writen sk s = (r, sk')"
  obtains k where "k \<le> length s" "outq sk' = outq sk @ take k s" "inq sk' = inq sk" "r = int k \<or> r = -1 \<and> k = 0"
  using writen_loop_spec[of sk "length s" s r sk'] assms unfolding writen_def by auto

lemma writen_all [simp]: "wrq sk = [] \<Longrightarrow> writen sk s = (int (length s), sk\<lparr>outq := outq sk @ s\<rparr>)"
  by (cases s) (auto simp: writen_def writen_loop.simps write_fd_def)

end
