(* ===== verification/PrintSpool.thy ===== *)
theory PrintSpool
  imports PrintWorkers SockIO PosixFile RsyncSimple
begin

unbundle bit_operations_syntax

text \<open>
  The spooling half of \<open>printer/printd.c\<close>: job numbers and the file that keeps them (\<open>init_request\<close>,
  \<open>update_jobno\<close>, \<open>get_newjobno\<close>), the thread that takes a job from a client (\<open>client_thread\<close>), the
  queue rebuilt at start (\<open>build_qonstart\<close>) and the signals (\<open>signal_thread\<close>), with the layout of the
  request and the response (\<open>print.h\<close>) in the memory of a little-endian host. \<open>malloc\<close> hands out the
  addresses in order. The value of \<open>errno\<close> after a failed call and the text of \<open>strerror\<close> are arguments.
\<close>

section \<open>Layout of the messages\<close>

definition USERNM_MAX :: nat where "USERNM_MAX = 64"
definition JOBNM_MAX :: nat where "JOBNM_MAX = 256"
definition MSGLEN_MAX :: nat where "MSGLEN_MAX = 512"
definition FILENMSZ :: nat where "FILENMSZ = 64"
definition IOBUFSZ :: nat where "IOBUFSZ = 8192"
definition PR_TEXT :: "32 word" where "PR_TEXT = 1"
definition PRINTREQ_SZ :: nat where "PRINTREQ_SZ = 8 + USERNM_MAX + JOBNM_MAX"
definition EIO :: "32 word" where "EIO = 5"
definition SPOOLDIR :: string where "SPOOLDIR = ''/var/spool/printer''"
definition DATADIR :: string where "DATADIR = ''data''"
definition REQDIR :: string where "REQDIR = ''reqs''"
definition JOBFILE :: string where "JOBFILE = ''jobno''"

definition mem32 :: "32 word \<Rightarrow> string" where
  \<comment> \<open>a \<open>uint32_t\<close> in memory\<close>
  "mem32 w = rev (be32 w)"

definition get_mem32 :: "string \<Rightarrow> 32 word" where
  "get_mem32 s = get_be32 (rev (take 4 s))"

definition htonl :: "32 word \<Rightarrow> 32 word" where
  "htonl w = get_mem32 (be32 w)"

lemma get_mem32_mem32 [simp]: "get_mem32 (mem32 w @ r) = w"
  using get_be32_be32[of w "[]"] by (simp add: get_mem32_def mem32_def)

lemma length_mem32 [simp]: "length (mem32 w) = 4"
  by (simp add: mem32_def)

lemma of_char_nth: "of_char (char_of (n :: nat) :: char) = n mod 256"
  by simp

lemma be32_get: "length s = 4 \<Longrightarrow> be32 (get_be32 s) = s"
proof -
  assume l: "length s = 4"
  obtain a b c d where s: "s = [a, b, c, d]" using l by (auto simp: numeral_eq_Suc length_Suc_conv)
  have lt: "(of_char x :: nat) < 256" for x :: char by (simp add: of_char_def)
  define n2 n3 n :: nat where "n2 = of_char a * 256 + of_char b" and "n3 = n2 * 256 + of_char c" and "n = n3 * 256 + of_char d"
  have n: "of_char a * 16777216 + of_char b * 65536 + of_char c * 256 + of_char d = n" by (simp add: n2_def n3_def n_def)
  have le: "(of_char x :: nat) \<le> 255" for x :: char using lt[of x] by linarith
  have "n2 \<le> 65535" using le[of a] le[of b] unfolding n2_def by linarith
  then have "n3 \<le> 16777215" using le[of c] unfolding n3_def by linarith
  then have b: "n < 4294967296" using le[of d] unfolding n_def by linarith
  then have u: "unat (of_nat n :: 32 word) = n" by (simp add: unat_of_nat)
  have dm: "(x * 256 + y) div 256 = x" "(x * 256 + y) mod 256 = y" if "y < 256" for x y :: nat using that by simp_all
  have q: "n div 256 = n3" "n3 div 256 = n2" "n2 div 256 = of_char a"
    unfolding n_def n3_def n2_def by (rule dm(1)[OF lt])+
  have d1: "n div 65536 = n2" "n div 16777216 = of_char a"
    using div_mult2_eq[of n 256 256] div_mult2_eq[of n 65536 256] q by simp_all
  have m: "n mod 256 = of_char d" "n3 mod 256 = of_char c" "n2 mod 256 = of_char b"
    unfolding n_def n3_def n2_def by (rule dm(2)[OF lt])+
  have ch: "char_of n = x" if "n mod 256 = of_char x" for n :: nat and x :: char
    using that by (simp add: char_of_eq_iff take_bit_eq_mod)
  have "get_be32 s = of_nat n" unfolding s get_be32_def by (simp add: n[symmetric])
  then show ?thesis unfolding be32_def using u d1 q(1) m lt[of a] by (simp add: ch s)
qed

lemma mem32_htonl [simp]: "mem32 (htonl w) = be32 w"
  using be32_get[of "rev (be32 w)"] by (simp add: htonl_def get_mem32_def mem32_def)

lemma htonl_htonl [simp]: "htonl (htonl w) = w"
proof -
  have "be32 (htonl w) = rev (be32 w)" using mem32_htonl[of w] by (metis mem32_def rev_rev_ident)
  then show ?thesis using get_be32_be32[of w "[]"] by (simp add: htonl_def[of "htonl w"] get_mem32_def)
qed

definition enc_req :: "printreq \<Rightarrow> string" where
  \<comment> \<open>\<open>struct printreq\<close> in memory\<close>
  "enc_req r = mem32 (req_size r) @ mem32 (req_flags r) @ usernm r @ jobnm r"

definition dec_req :: "string \<Rightarrow> printreq" where
  "dec_req s = \<lparr>req_size = get_mem32 s, req_flags = get_mem32 (drop 4 s),
     usernm = take USERNM_MAX (drop 8 s), jobnm = take JOBNM_MAX (drop (8 + USERNM_MAX) s)\<rparr>"

lemma dec_enc_req:
  "length (usernm r) = USERNM_MAX \<Longrightarrow> length (jobnm r) = JOBNM_MAX \<Longrightarrow> dec_req (enc_req r) = r"
  by (simp add: dec_req_def enc_req_def)

lemma length_enc_req: "length (usernm r) = USERNM_MAX \<Longrightarrow> length (jobnm r) = JOBNM_MAX \<Longrightarrow> length (enc_req r) = PRINTREQ_SZ"
  by (simp add: enc_req_def mem32_def PRINTREQ_SZ_def)

definition strncpy_buf :: "nat \<Rightarrow> string \<Rightarrow> string" where
  \<comment> \<open>what \<open>strncpy\<close> leaves in a buffer of this size\<close>
  "strncpy_buf n s = take n s @ replicate (n - length s) NUL"

record printresp =
  retcode :: "32 word"
  resp_jobid :: "32 word"
  msg :: string

definition enc_resp :: "printresp \<Rightarrow> string" where
  "enc_resp r = mem32 (retcode r) @ mem32 (resp_jobid r) @ msg r"

section \<open>The state of the daemon\<close>

record printd =
  spool :: fs
  jobfd :: ofile
  nextjob :: "32 word"
  jobs :: jobq
  wl :: wlist
  reread :: bool
  brk :: nat              \<comment> \<open>the next address that \<open>malloc\<close> returns\<close>
  printer_name :: string

definition to_int32 :: "int \<Rightarrow> int" where
  "to_int32 i = sint (word_of_int i :: 32 word)"

definition init_request :: "bool \<Rightarrow> printd \<Rightarrow> print_err + printd" where
  \<comment> \<open>whether another daemon holds the lock; the name buffer holds the path when the number is read into it\<close>
  "init_request locked d =
     (if locked then Inl Exits
      else let path = SPOOLDIR @ SLASH # JOBFILE; (s, f1) = fread (jobfd d) FILENMSZ in
        if length s > length path then Inl BadBuf
        else Inr (d\<lparr>jobfd := f1, nextjob := (if s = [] then 1 else word_of_int (atol (cstr (splice 0 s path))))\<rparr>))"

definition update_jobno :: "printd \<Rightarrow> print_err + printd" where
  "update_jobno d =
     (let (p, f1) = lseek (jobfd d) 0 SEEK_SET in
      if p = -1 then Inl Exits
      else let (n, f2) = fwrite f1 (sdec (sint (nextjob d))) in Inr (d\<lparr>jobfd := f2\<rparr>))"

definition get_newjobno :: "printd \<Rightarrow> int \<times> printd" where
  "get_newjobno d =
     (let jid = nextjob d; nx = nextjob d + 1 in
      (sint jid, d\<lparr>nextjob := (if sint nx \<le> 0 then 1 else nx)\<rparr>))"

definition enqueue :: "printd \<Rightarrow> printreq \<Rightarrow> int \<Rightarrow> print_err + printd" where
  \<comment> \<open>\<open>malloc\<close> and \<open>add_job\<close>\<close>
  "enqueue d reqp jid = bindE (add_job (jobs d) (brk d) reqp jid) (\<lambda>q. Inr (d\<lparr>jobs := q, brk := brk d + 1\<rparr>))"

section \<open>Taking a job from a client\<close>

definition spool_path :: "string \<Rightarrow> int \<Rightarrow> string" where
  "spool_path dir jid = SPOOLDIR @ SLASH # dir @ SLASH # sdec jid"

definition reject :: "(32 word \<Rightarrow> string) \<Rightarrow> 32 word \<Rightarrow> sock \<Rightarrow> sock" where
  \<comment> \<open>the response to a failed request; the text is that of the swapped error number\<close>
  "reject strerror err sk =
     snd (writen sk (enc_resp \<lparr>retcode = htonl err, resp_jobid = 0, msg = strncpy_buf MSGLEN_MAX (strerror (htonl err))\<rparr>))"

definition inq_size :: "rd list \<Rightarrow> nat" where
  "inq_size q = sum_list (map (\<lambda>e. case e of RData s \<Rightarrow> Suc (length s) | _ \<Rightarrow> 1) q)"

lemma inq_size_simps [simp]:
  "inq_size [] = 0" "inq_size (RData s # q) = Suc (length s + inq_size q)"
  "inq_size (RTimeout # q) = Suc (inq_size q)" "inq_size (RErr # q) = Suc (inq_size q)"
  by (simp_all add: inq_size_def)

lemma sock_read_shrinks: "sock_read q n = (Some s, q') \<Longrightarrow> s \<noteq> [] \<Longrightarrow> inq_size q' < inq_size q"
  by (induction q n rule: sock_read.induct) (auto split: if_splits)

lemma tread_shrinks: "tread sk n = (Some s, sk1) \<Longrightarrow> s \<noteq> [] \<Longrightarrow> inq_size (inq sk1) < inq_size (inq sk)"
  using sock_read_shrinks[of "inq sk" n s]
  by (auto simp: tread_def read_fd_def simp del: sock_read.simps inq_size_simps split: list.splits rd.splits prod.splits)

function spool_loop :: "string \<Rightarrow> sock \<Rightarrow> fs \<Rightarrow> loc \<Rightarrow> bool \<Rightarrow> 32 word \<Rightarrow> (nat + 32 word) \<times> sock \<times> fs" where
  \<comment> \<open>the loop that stores the file: \<open>Inl\<close> the result of the failed \<open>write\<close>, \<open>Inr\<close> the flags; \<open>junk\<close> is what
     the buffer held before\<close>
  "spool_loop junk sk fs fd first flags =
     (case tread sk IOBUFSZ of
        (Some buf, sk1) \<Rightarrow>
          if buf = [] then (Inr flags, sk1, fs)
          else let flags1 = (if first \<and> take 4 (buf @ junk) \<noteq> ''%!PS'' then flags OR PR_TEXT else flags);
                   (nw, fs1) = sys_write fs fd buf in
            if nw \<noteq> length buf then (Inl nw, sk1, fs1)
            else spool_loop junk sk1 fs1 fd False flags1
      | (None, sk1) \<Rightarrow> (Inr flags, sk1, fs))"
  by pat_completeness auto
termination
  by (relation "measure (\<lambda>(_, sk, _). inq_size (inq sk))") (auto dest: tread_shrinks[OF sym])

declare spool_loop.simps [simp del]

definition client_body :: "(32 word \<Rightarrow> string) \<Rightarrow> 32 word \<Rightarrow> string \<Rightarrow> sock \<Rightarrow> printd \<Rightarrow> print_err + (int \<times> sock \<times> printd)" where
  \<comment> \<open>the exit code of the thread, the socket and the daemon\<close>
  "client_body strerror errno junk sk d =
     (let (n, bs, sk1) = treadn sk PRINTREQ_SZ in
      if n \<noteq> int PRINTREQ_SZ then Inr (1, reject strerror (if n < 0 then errno else EIO) sk1, d)
      else
        let r0 = dec_req bs;
            r1 = r0\<lparr>req_size := htonl (req_size r0), req_flags := htonl (req_flags r0)\<rparr>;
            (jid, d1) = get_newjobno d;
            name = spool_path DATADIR jid;
            rname = spool_path REQDIR jid in
        case sys_open_wr (spool d1) name of
          None \<Rightarrow> Inr (1, reject strerror errno sk1, d1)
        | Some (fd, fs1) \<Rightarrow>
            (case spool_loop junk sk1 fs1 fd True (req_flags r1) of
               (Inl nw, sk2, fs2) \<Rightarrow>
                 Inr (1, reject strerror (if nw = 0 then errno else EIO) sk2, d1\<lparr>spool := snd (sys_unlink fs2 name)\<rparr>)
             | (Inr flags, sk2, fs2) \<Rightarrow>
                 (let req = r1\<lparr>req_flags := flags\<rparr> in
                  case sys_open_wr fs2 rname of
                    None \<Rightarrow> Inr (1, reject strerror errno sk2, d1\<lparr>spool := snd (sys_unlink fs2 name)\<rparr>)
                  | Some (cfd, fs3) \<Rightarrow>
                      (let (nw, fs4) = sys_write fs3 cfd (enc_req req) in
                       if nw \<noteq> PRINTREQ_SZ then
                         Inr (1, reject strerror (if nw = 0 then errno else EIO) sk2,
                              d1\<lparr>spool := snd (sys_unlink (snd (sys_unlink fs4 rname)) name)\<rparr>)
                       else
                         let sk3 = snd (writen sk2 (enc_resp \<lparr>retcode = 0, resp_jobid = htonl (word_of_int jid),
                                          msg = strncpy_buf MSGLEN_MAX (''request ID '' @ sdec jid)\<rparr>)) in
                         bindE (enqueue (d1\<lparr>spool := fs4\<rparr>) req jid) (\<lambda>d2. Inr (0, sk3, d2))))))"

definition client_thread :: "(32 word \<Rightarrow> string) \<Rightarrow> 32 word \<Rightarrow> string \<Rightarrow> nat \<Rightarrow> int \<Rightarrow> sock \<Rightarrow> printd \<Rightarrow> print_err + (int \<times> sock \<times> printd)" where
  \<comment> \<open>the cleanup handler runs at every exit\<close>
  "client_thread strerror errno junk tid sockfd sk d =
     bindE (add_worker (wl d) (brk d) tid sockfd) (\<lambda>w1.
     bindE (client_body strerror errno junk sk (d\<lparr>wl := w1, brk := brk d + 1\<rparr>)) (\<lambda>(code, sk1, d1).
     bindE (client_cleanup (brk d1 + 1) (wl d1) tid) (\<lambda>w2. Inr (code, sk1, d1\<lparr>wl := w2\<rparr>))))"

section \<open>Start-up and signals\<close>

fun qonstart_loop :: "printd \<Rightarrow> string list \<Rightarrow> print_err + printd" where
  "qonstart_loop d [] = Inr d"
| "qonstart_loop d (d_name # rest) =
     (if d_name = ''.'' \<or> d_name = ''..'' then qonstart_loop d rest
      else let fname = SPOOLDIR @ SLASH # REQDIR @ SLASH # d_name; dname = SPOOLDIR @ SLASH # DATADIR @ SLASH # d_name in
        if length fname \<ge> FILENMSZ then Inl BadBuf
        else case sys_open_rd (spool d) fname of
          None \<Rightarrow> qonstart_loop d rest
        | Some fd \<Rightarrow>
            (case sys_read (spool d) fd 0 PRINTREQ_SZ of
               Some bs \<Rightarrow>
                 if length bs \<noteq> PRINTREQ_SZ
                 then qonstart_loop (d\<lparr>spool := snd (sys_unlink (snd (sys_unlink (spool d) fname)) dname)\<rparr>) rest
                 else bindE (enqueue d (dec_req bs) (to_int32 (atol d_name))) (\<lambda>d1. qonstart_loop d1 rest)
             | None \<Rightarrow> qonstart_loop (d\<lparr>spool := snd (sys_unlink (snd (sys_unlink (spool d) fname)) dname)\<rparr>) rest))"

definition build_qonstart :: "printd \<Rightarrow> print_err + printd" where
  "build_qonstart d =
     (case sys_readdir (spool d) (SPOOLDIR @ SLASH # REQDIR) of None \<Rightarrow> Inr d | Some es \<Rightarrow> qonstart_loop d es)"

datatype signo = SIGHUP | SIGTERM | SIGOTHER

definition signal_step :: "printd \<Rightarrow> signo \<Rightarrow> print_err + (nat list \<times> bool \<times> printd)" where
  \<comment> \<open>one round of \<open>signal_thread\<close>: the threads cancelled, and whether the process ends\<close>
  "signal_step d s =
     (case s of
        SIGHUP \<Rightarrow> Inr ([], False, d\<lparr>reread := True\<rparr>)
      | _ \<Rightarrow> bindE (kill_workers (brk d + 1) (wl d)) (\<lambda>ts. Inr (ts, True, d)))"

end
