(* ===== verification/PrintStatus.thy ===== *)
theory PrintStatus
  imports PrintSpool
begin

text \<open>
  The reading of the printer's answer in \<open>printer/printd.c\<close>: \<open>readmore\<close> and \<open>printer_status\<close>. The buffer is
  its bytes, so that its length is its size; every access is checked against it (\<open>BadBuf\<close>). Fresh memory
  holds arbitrary bytes, an argument. The loops that need not end carry fuel.
\<close>

section \<open>The buffer\<close>

definition fresh_mem :: "string \<Rightarrow> nat \<Rightarrow> string" where
  "fresh_mem junk n = take n (junk @ replicate n NUL)"

lemma length_fresh_mem [simp]: "length (fresh_mem junk n) = n"
  by (simp add: fresh_mem_def)

definition peek :: "string \<Rightarrow> nat \<Rightarrow> print_err + char" where
  "peek bp i = (if i < length bp then Inr (bp ! i) else Inl BadBuf)"

definition poke :: "string \<Rightarrow> nat \<Rightarrow> char \<Rightarrow> print_err + string" where
  "poke bp i c = (if i < length bp then Inr (bp[i := c]) else Inl BadBuf)"

function skip_while :: "(char \<Rightarrow> bool) \<Rightarrow> string \<Rightarrow> nat \<Rightarrow> print_err + nat" where
  "skip_while P bp i = (if i < length bp then if P (bp ! i) then skip_while P bp (Suc i) else Inr i else Inl BadBuf)"
  by pat_completeness auto
termination by (relation "measure (\<lambda>(_, bp, i). length bp - i)") auto

declare skip_while.simps [simp del]

definition tolower :: "char \<Rightarrow> char" where
  "tolower c = (if of_char c \<in> {65..90 :: nat} then char_of (of_char c + 32 :: nat) else c)"

fun casecmp_at :: "string \<Rightarrow> nat \<Rightarrow> string \<Rightarrow> print_err + bool" where
  \<comment> \<open>\<open>strncasecmp\<close> with a lower-case text and its length\<close>
  "casecmp_at bp i [] = Inr True"
| "casecmp_at bp i (c # cs) = bindE (peek bp i) (\<lambda>x. if tolower x = c then casecmp_at bp (Suc i) cs else Inr False)"

definition readmore :: "string \<Rightarrow> sock \<Rightarrow> string \<Rightarrow> nat \<Rightarrow> print_err + (int \<times> sock \<times> string)" where
  \<comment> \<open>the result, the socket and the buffer, which grows when it is full\<close>
  "readmore junk sk bp off =
     (let bp1 = (if off \<ge> length bp then bp @ fresh_mem junk IOBUFSZ else bp) in
      if off \<ge> length bp1 then Inl BadBuf
      else case tread sk (length bp1 - off) of
        (Some s, sk1) \<Rightarrow> if s = [] then Inr (-1, sk1, bp1) else Inr (int (off + length s), sk1, splice off s bp1)
      | (None, sk1) \<Rightarrow> Inr (-1, sk1, bp1))"

section \<open>Parsing the response\<close>

function cl_skip :: "string \<Rightarrow> nat \<Rightarrow> nat \<Rightarrow> print_err + nat" where
  \<comment> \<open>to the next C or c, or the end of the data\<close>
  "cl_skip bp i datsz =
     (if i < length bp
      then if bp ! i \<noteq> CHR ''C'' \<and> bp ! i \<noteq> CHR ''c'' \<and> i < datsz then cl_skip bp (Suc i) datsz else Inr i
      else Inl BadBuf)"
  by pat_completeness auto
termination by (relation "measure (\<lambda>(bp, i, _). length bp - i)") auto

declare cl_skip.simps [simp del]

definition more_header :: "string \<Rightarrow> sock \<Rightarrow> string \<Rightarrow> nat \<Rightarrow> nat \<Rightarrow> bool \<Rightarrow> print_err + (sock \<times> (string \<times> nat) option)" where
  \<comment> \<open>the blocks marked \<open>get more header\<close>: under the condition, read on and add the result of \<open>readmore\<close>, an
     offset, to the size of the data; \<open>None\<close> is \<open>goto out\<close>\<close>
  "more_header junk sk bp i datsz cond =
     (if \<not> cond then Inr (sk, Some (bp, datsz))
      else bindE (readmore junk sk bp i) (\<lambda>(nr, sk1, bp1).
        if nr < 0 then Inr (sk1, None) else Inr (sk1, Some (bp1, datsz + nat nr))))"

fun cl_loop :: "nat \<Rightarrow> string \<Rightarrow> sock \<Rightarrow> string \<Rightarrow> nat \<Rightarrow> nat \<Rightarrow> print_err + (sock \<times> (string \<times> nat \<times> nat \<times> int) option)" where
  \<comment> \<open>search for \<open>Content-Length\<close>: the buffer, the index behind the number, the size of the data, the number\<close>
  "cl_loop 0 junk sk bp i datsz = Inl OutOfFuel"
| "cl_loop (Suc fuel) junk sk bp i datsz =
     bindE (cl_skip bp i datsz) (\<lambda>i1.
     bindE (more_header junk sk bp i1 datsz (i1 \<ge> datsz)) (\<lambda>(sk1, r).
       case r of None \<Rightarrow> Inr (sk1, None)
       | Some (bp1, datsz1) \<Rightarrow>
           bindE (casecmp_at bp1 i1 ''content-length:'') (\<lambda>eq.
             if eq then bindE (skip_while isspace bp1 (i1 + 15)) (\<lambda>j. bindE (skip_while isdigit bp1 j) (\<lambda>k.
                        bindE (poke bp1 k NUL) (\<lambda>bp2. Inr (sk1, Some (bp2, k + 1, datsz1, atol (cstr (drop j bp2)))))))
             else cl_loop fuel junk sk1 bp1 (Suc i1) datsz1)))"

function hdr_scan :: "string \<Rightarrow> nat \<Rightarrow> nat \<Rightarrow> print_err + (bool \<times> nat)" where
  \<comment> \<open>the inner loop for the end of the HTTP header\<close>
  "hdr_scan bp i datsz =
     (if i + 2 < datsz then
        if i < length bp then
          bindE (if bp ! i = NL then bindE (peek bp (i + 1)) (\<lambda>c. if c = CHR 0x0D then bindE (peek bp (i + 2)) (\<lambda>d. Inr (d = NL)) else Inr False)
                 else Inr False)
            (\<lambda>found. if found then Inr (True, i + 3) else hdr_scan bp (Suc i) datsz)
        else Inl BadBuf
      else Inr (False, i))"
  by pat_completeness auto
termination by (relation "measure (\<lambda>(bp, i, _). length bp - i)") auto

declare hdr_scan.simps [simp del]

fun hdr_loop :: "nat \<Rightarrow> string \<Rightarrow> sock \<Rightarrow> string \<Rightarrow> nat \<Rightarrow> nat \<Rightarrow> print_err + (sock \<times> (string \<times> nat \<times> nat) option)" where
  "hdr_loop 0 junk sk bp i datsz = Inl OutOfFuel"
| "hdr_loop (Suc fuel) junk sk bp i datsz =
     bindE (hdr_scan bp i datsz) (\<lambda>(found, i1).
     bindE (more_header junk sk bp i1 datsz (i1 \<ge> datsz)) (\<lambda>(sk1, r).
       case r of None \<Rightarrow> Inr (sk1, None)
       | Some (bp1, datsz1) \<Rightarrow> if found then Inr (sk1, Some (bp1, i1, datsz1)) else hdr_loop fuel junk sk1 bp1 i1 datsz1))"

definition ipp_status :: "sock \<Rightarrow> string \<Rightarrow> nat \<Rightarrow> int \<Rightarrow> print_err + (bool \<times> sock)" where
  \<comment> \<open>the status and the request number of the IPP header at this index\<close>
  "ipp_status sk bp i jid =
     (if i + 8 > length bp then Inl BadBuf
      else let st = get_be16 (take 2 (drop (i + 2) bp)); rid = sint (get_be32 (take 4 (drop (i + 4) bp))) in
        Inr (rid = jid \<and> st \<le> 255, sk))"

definition ok_response :: "nat \<Rightarrow> string \<Rightarrow> sock \<Rightarrow> string \<Rightarrow> nat \<Rightarrow> nat \<Rightarrow> int \<Rightarrow> print_err + (bool \<times> sock)" where
  \<comment> \<open>the part of \<open>printer_status\<close> behind a good HTTP status; the index stands at the end of the reason\<close>
  "ok_response fuel junk sk bp i datsz jid =
     bindE (cl_loop fuel junk sk bp i datsz) (\<lambda>(sk1, r1). case r1 of None \<Rightarrow> Inr (False, sk1)
     | Some (bp1, i1, datsz1, len) \<Rightarrow>
     bindE (more_header junk sk1 bp1 i1 datsz1 (i1 \<ge> datsz1)) (\<lambda>(sk2, r2). case r2 of None \<Rightarrow> Inr (False, sk2)
     | Some (bp2, datsz2) \<Rightarrow>
     bindE (hdr_loop fuel junk sk2 bp2 i1 datsz2) (\<lambda>(sk3, r3). case r3 of None \<Rightarrow> Inr (False, sk3)
     | Some (bp3, i3, datsz3) \<Rightarrow>
     bindE (more_header junk sk3 bp3 i3 datsz3 (int datsz3 - int i3 < len)) (\<lambda>(sk4, r4). case r4 of None \<Rightarrow> Inr (False, sk4)
     | Some (bp4, datsz4) \<Rightarrow> ipp_status sk4 bp4 i3 jid))))"

fun status_loop :: "nat \<Rightarrow> string \<Rightarrow> sock \<Rightarrow> string \<Rightarrow> int \<Rightarrow> print_err + (bool \<times> sock)" where
  "status_loop 0 junk sk bp jid = Inl OutOfFuel"
| "status_loop (Suc fuel) junk sk bp jid =
     (case tread sk (length bp) of
        (None, sk1) \<Rightarrow> Inr (False, sk1)
      | (Some s, sk1) \<Rightarrow>
          if s = [] then Inr (False, sk1)
          else let bp1 = splice 0 s bp; datsz = length s in
            bindE (skip_while isspace bp1 8) (\<lambda>statcode.
            bindE (skip_while isdigit bp1 statcode) (\<lambda>e.
            if e = statcode then status_loop fuel junk sk1 bp1 jid
            else bindE (poke bp1 e NUL) (\<lambda>bp2.
              bindE (skip_while (\<lambda>c. c \<noteq> CHR 0x0D \<and> c \<noteq> NL) bp2 (e + 1)) (\<lambda>i.
              bindE (poke bp2 i NUL) (\<lambda>bp3.
                let code = atol (cstr (drop statcode bp3)) in
                if 100 \<le> code \<and> code \<le> 199 then status_loop fuel junk sk1 bp3 jid
                else if \<not> (200 \<le> code \<and> code \<le> 299) then bindE (poke bp3 datsz NUL) (\<lambda>_. Inr (False, sk1))
                else ok_response fuel junk sk1 bp3 i datsz jid))))))"

definition printer_status :: "nat \<Rightarrow> string \<Rightarrow> sock \<Rightarrow> int \<Rightarrow> print_err + (bool \<times> sock)" where
  "printer_status fuel junk sk jid = status_loop fuel junk sk (fresh_mem junk IOBUFSZ) jid"

section \<open>Scanning lemmas\<close>

lemma skip_while_run:
  assumes "i = length a" "\<forall>x \<in> set u. P x" "\<not> P c"
  shows "skip_while P (a @ u @ c # r) i = Inr (i + length u)"
  using assms
proof (induction u arbitrary: a i)
  case Nil
  then show ?case by (simp add: skip_while.simps)
next
  case (Cons x u)
  have "skip_while P ((a @ [x]) @ u @ c # r) (Suc i) = Inr (Suc i + length u)"
    using Cons.prems by (intro Cons.IH) auto
  then show ?case using Cons.prems by (subst skip_while.simps) (simp add: nth_append)
qed

lemma cl_skip_run:
  assumes "i = length a" "\<forall>x \<in> set u. x \<noteq> CHR ''C'' \<and> x \<noteq> CHR ''c''" "i + length u < datsz"
  shows "cl_skip (a @ u @ CHR ''C'' # r) i datsz = Inr (i + length u)"
  using assms
proof (induction u arbitrary: a i)
  case Nil
  then show ?case by (simp add: cl_skip.simps)
next
  case (Cons x u)
  have "cl_skip ((a @ [x]) @ u @ CHR ''C'' # r) (Suc i) datsz = Inr (Suc i + length u)"
    using Cons.prems by (intro Cons.IH) auto
  then show ?case using Cons.prems by (subst cl_skip.simps) (simp add: nth_append)
qed

lemma casecmp_run: "i = length a \<Longrightarrow> map tolower u = t \<Longrightarrow> casecmp_at (a @ u @ r) i t = Inr True"
proof (induction u arbitrary: a i t)
  case (Cons x u)
  have "casecmp_at ((a @ [x]) @ u @ r) (Suc i) (map tolower u) = Inr True" using Cons.prems by (intro Cons.IH) auto
  then show ?case using Cons.prems by (auto simp: peek_def nth_append)
qed simp

lemma poke_at: "i = length a \<Longrightarrow> poke (a @ c # r) i x = Inr (a @ x # r)"
  by (simp add: poke_def)

lemma content_length_lower: "map tolower ''Content-Length:'' = ''content-length:''"
  by code_simp

section \<open>A response in one piece\<close>

abbreviation CR :: char where "CR \<equiv> CHR 0x0D"

definition http_head :: "string \<Rightarrow> nat \<Rightarrow> string \<Rightarrow> string \<Rightarrow> nat \<Rightarrow> string" where
  \<comment> \<open>version, status code, reason, other header lines, and the content length up to the end of its line\<close>
  "http_head ver code reason hdrs len =
     ver @ '' '' @ dec code @ '' '' @ reason @ [CR, NL] @ hdrs @ ''Content-Length: '' @ dec len @ [CR, NL]"

definition plain_head :: "string \<Rightarrow> nat \<Rightarrow> string \<Rightarrow> string \<Rightarrow> bool" where
  "plain_head ver code reason hdrs \<longleftrightarrow> length ver = 8 \<and> 200 \<le> code \<and> code \<le> 299 \<and> CR \<notin> set reason \<and> NL \<notin> set reason
     \<and> (\<forall>x \<in> set hdrs. x \<noteq> CHR ''C'' \<and> x \<noteq> CHR ''c'')"

lemma dec_digits: "\<forall>x \<in> set (dec n). isdigit x"
  using isdigit_dec by blast

lemma not_space_dec: "\<exists>c r. dec n = c # r \<and> \<not> isspace c"
  by (cases "dec n") (use dec_digits[of n] isdigit_not(3) in auto)

lemma splice_0: "splice 0 s bp = s @ drop (length s) bp"
  by (simp add: splice_def)

lemma blank_space: "isspace (CHR '' '')" "\<not> isdigit (CHR '' '')" "\<not> isdigit CR"
  by (simp_all add: isspace_def isdigit_def)

lemma skip_blank_digits:
  assumes "i = length a" "\<not> isdigit c"
  shows "skip_while isspace (a @ CHR '' '' # dec n @ c # r) i = Inr (i + 1)"
    "skip_while isdigit (a @ CHR '' '' # dec n @ c # r) (i + 1) = Inr (i + 1 + length (dec n))"
proof -
  obtain d ds where d: "dec n = d # ds" "\<not> isspace d" using not_space_dec by blast
  show "skip_while isspace (a @ CHR '' '' # dec n @ c # r) i = Inr (i + 1)"
    using skip_while_run[of i a "[CHR '' '']" isspace d "ds @ c # r"] assms(1) d blank_space by simp
  show "skip_while isdigit (a @ CHR '' '' # dec n @ c # r) (i + 1) = Inr (i + 1 + length (dec n))"
    using skip_while_run[of "i + 1" "a @ [CHR '' '']" "dec n" isdigit c r] assms dec_digits by simp
qed

lemma head_code:
  assumes h: "plain_head ver code reason hdrs"
    and rd: "tread sk (length bp) = (Some (http_head ver code reason hdrs len @ tail), sk1)"
    and fits: "length (http_head ver code reason hdrs len @ tail) \<le> length bp"
  shows "status_loop (Suc fuel) junk sk bp jid = ok_response fuel junk sk1
      (ver @ CHR '' '' # dec code @ NUL # reason @ NUL # NL # hdrs @ ''Content-Length: '' @ dec len @ [CR, NL] @ tail
         @ drop (length (http_head ver code reason hdrs len @ tail)) bp)
      (10 + length (dec code) + length reason) (length (http_head ver code reason hdrs len @ tail)) jid"
proof -
  let ?R = "http_head ver code reason hdrs len @ tail"
  let ?z = "drop (length ?R) bp"
  let ?t = "NL # hdrs @ ''Content-Length: '' @ dec len @ [CR, NL] @ tail @ ?z"
  note H = h[unfolded plain_head_def]
  have ne: "?R \<noteq> []" by (simp add: http_head_def)
  have b1: "splice 0 ?R bp = ver @ CHR '' '' # dec code @ CHR '' '' # reason @ CR # ?t"
    by (simp add: splice_0 http_head_def)
  have s1: "skip_while isspace (ver @ CHR '' '' # dec code @ CHR '' '' # reason @ CR # ?t) 8 = Inr 9"
    "skip_while isdigit (ver @ CHR '' '' # dec code @ CHR '' '' # reason @ CR # ?t) 9 = Inr (9 + length (dec code))"
    using skip_blank_digits[of 8 ver "CHR '' ''" code "reason @ CR # ?t"] H blank_space(2) by simp_all
  have p1: "poke (ver @ CHR '' '' # dec code @ CHR '' '' # reason @ CR # ?t) (9 + length (dec code)) NUL
      = Inr (ver @ CHR '' '' # dec code @ NUL # reason @ CR # ?t)"
    using poke_at[of "9 + length (dec code)" "ver @ CHR '' '' # dec code"] H by simp
  have s2: "skip_while (\<lambda>c. c \<noteq> CR \<and> c \<noteq> NL) (ver @ CHR '' '' # dec code @ NUL # reason @ CR # ?t) (9 + length (dec code) + 1)
      = Inr (10 + length (dec code) + length reason)"
  proof -
    have "\<forall>x \<in> set reason. x \<noteq> CR \<and> x \<noteq> NL" using H by auto
    then show ?thesis
      using skip_while_run[of "10 + length (dec code)" "ver @ CHR '' '' # dec code @ [NUL]" reason "\<lambda>c. c \<noteq> CR \<and> c \<noteq> NL" CR ?t] H
      by simp
  qed
  have p2: "poke (ver @ CHR '' '' # dec code @ NUL # reason @ CR # ?t) (10 + length (dec code) + length reason) NUL
      = Inr (ver @ CHR '' '' # dec code @ NUL # reason @ NUL # ?t)"
    using poke_at[of "10 + length (dec code) + length reason" "ver @ CHR '' '' # dec code @ NUL # reason"] H by simp
  have c: "atol (cstr (drop 9 (ver @ CHR '' '' # dec code @ NUL # reason @ NUL # ?t))) = int code"
  proof -
    have "drop 9 (ver @ CHR '' '' # dec code @ NUL # reason @ NUL # ?t) = dec code @ NUL # reason @ NUL # ?t" using H by simp
    then show ?thesis by (simp add: cstr_append_NUL)
  qed
  have dl: "0 < length (dec code)" by simp
  then have nz: "9 + length (dec code) \<noteq> 9" by linarith
  have cd: "\<not> (100 \<le> int code \<and> int code \<le> 199)" "\<not> \<not> (200 \<le> int code \<and> int code \<le> 299)" using H by auto
  show ?thesis
    unfolding status_loop.simps rd prod.case option.case Let_def b1 s1(1) bindE_simps s1(2) p1 s2 p2 c
      if_not_P[OF ne] if_not_P[OF nz] if_not_P[OF cd(1)] if_not_P[OF cd(2)] ..
qed

lemma head_length:
  assumes "plain_head ver code reason hdrs"
  defines "A \<equiv> ver @ CHR '' '' # dec code @ NUL # reason @ NUL # NL # hdrs"
  assumes "length (A @ ''Content-Length: '' @ dec len) < datsz"
  shows "cl_loop (Suc fuel) junk sk (A @ ''Content-Length: '' @ dec len @ [CR, NL] @ r) (10 + length (dec code) + length reason) datsz
    = Inr (sk, Some (A @ ''Content-Length: '' @ dec len @ [NUL, NL] @ r, length (A @ ''Content-Length: '' @ dec len) + 1, datsz, int len))"
proof -
  note H = assms(1)[unfolded plain_head_def]
  let ?i = "10 + length (dec code) + length reason"
  let ?B = "A @ ''Content-Length: '' @ dec len @ [CR, NL] @ r"
  let ?a = "ver @ CHR '' '' # dec code @ NUL # reason"
  have la: "?i = length ?a" "length A = ?i + length (NUL # NL # hdrs)" using H by (simp_all add: A_def)
  have "cl_skip (?a @ (NUL # NL # hdrs) @ CHR ''C'' # (''ontent-Length: '' @ dec len @ [CR, NL] @ r)) ?i datsz
      = Inr (?i + length (NUL # NL # hdrs))"
    using assms(3) la(2) H by (intro cl_skip_run[OF la(1)]) auto
  moreover have "?a @ (NUL # NL # hdrs) @ CHR ''C'' # (''ontent-Length: '' @ dec len @ [CR, NL] @ r) = ?B" by (simp add: A_def)
  ultimately have k: "cl_skip ?B ?i datsz = Inr (length A)" unfolding la(2) by (simp only:)
  have m: "more_header junk sk ?B (length A) datsz (length A \<ge> datsz) = Inr (sk, Some (?B, datsz))"
    using assms(3) by (simp add: more_header_def)
  have c: "casecmp_at ?B (length A) ''content-length:'' = Inr True"
    using casecmp_run[of "length A" A "''Content-Length:''" _ "CHR '' '' # dec len @ [CR, NL] @ r", OF refl content_length_lower] by simp
  have e: "?B = (A @ ''Content-Length:'') @ CHR '' '' # dec len @ CR # NL # r" by simp
  have l15: "length A + 15 = length (A @ ''Content-Length:'')" by simp
  have l16: "length A + 16 = length A + 15 + 1" by simp
  have s: "skip_while isspace ?B (length A + 15) = Inr (length A + 16)"
    "skip_while isdigit ?B (length A + 16) = Inr (length A + 16 + length (dec len))"
    unfolding e l16 by (rule skip_blank_digits[OF l15 blank_space(3)])+
  have p: "poke ?B (length A + 16 + length (dec len)) NUL = Inr (A @ ''Content-Length: '' @ dec len @ [NUL, NL] @ r)"
    using poke_at[of "length A + 16 + length (dec len)" "A @ ''Content-Length: '' @ dec len" CR "NL # r"] by simp
  have d: "atol (cstr (drop (length A + 16) (A @ ''Content-Length: '' @ dec len @ [NUL, NL] @ r))) = int len"
    by (simp add: cstr_append_NUL)
  show ?thesis
    unfolding cl_loop.simps k bindE_simps m prod.case option.case c if_True s(1) s(2) p d by simp
qed

lemma status_whole:
  assumes h: "plain_head ver code reason hdrs"
    and rd: "tread sk IOBUFSZ = (Some (http_head ver code reason hdrs len @ [CR, NL] @ body), sk1)"
    and fits: "length (http_head ver code reason hdrs len @ [CR, NL] @ body) \<le> IOBUFSZ"
    and body: "8 \<le> length body" "len \<le> length body"
  shows "printer_status (Suc (Suc fuel)) junk sk jid
    = Inr (sint (get_be32 (take 4 (drop 4 body))) = jid \<and> get_be16 (take 2 (drop 2 body)) \<le> 255, sk1)"
proof -
  let ?R = "http_head ver code reason hdrs len @ [CR, NL] @ body"
  let ?z = "drop (length ?R) (fresh_mem junk IOBUFSZ)"
  define A where "A = ver @ CHR '' '' # dec code @ NUL # reason @ NUL # NL # hdrs"
  define C where "C = A @ ''Content-Length: '' @ dec len"
  let ?B = "C @ [NUL, NL] @ [CR, NL] @ body @ ?z"
  let ?d = "length ?R"
  have lR: "?d = length C + 4 + length body" by (simp add: http_head_def A_def C_def)
  have o: "printer_status (Suc (Suc fuel)) junk sk jid = ok_response (Suc fuel) junk sk1
      (A @ ''Content-Length: '' @ dec len @ [CR, NL] @ ([CR, NL] @ body) @ ?z) (10 + length (dec code) + length reason) ?d jid"
    unfolding printer_status_def using head_code[OF h, of sk "fresh_mem junk IOBUFSZ" len "[CR, NL] @ body" sk1 "Suc fuel" junk jid] rd fits
    by (simp add: A_def)
  have cl: "cl_loop (Suc fuel) junk sk1 (A @ ''Content-Length: '' @ dec len @ [CR, NL] @ ([CR, NL] @ body) @ ?z)
      (10 + length (dec code) + length reason) ?d = Inr (sk1, Some (?B, length C + 1, ?d, int len))"
    using head_length[OF h, of len ?d fuel junk sk1 "([CR, NL] @ body) @ ?z"] lR unfolding A_def[symmetric] C_def by simp
  have m1: "more_header junk sk1 ?B (length C + 1) ?d (length C + 1 \<ge> ?d) = Inr (sk1, Some (?B, ?d))"
    using lR by (simp add: more_header_def)
  have sc: "hdr_scan ?B (length C + 1) ?d = Inr (True, length C + 4)"
    using lR body(1) by (subst hdr_scan.simps) (simp add: nth_append peek_def)
  have m2: "more_header junk sk1 ?B (length C + 4) ?d (length C + 4 \<ge> ?d) = Inr (sk1, Some (?B, ?d))"
  proof -
    have "\<not> (length C + 4 \<ge> ?d)" using lR body(1) by linarith
    then show ?thesis by (simp only: more_header_def if_True not_False_eq_True)
  qed
  have hl: "hdr_loop (Suc fuel) junk sk1 ?B (length C + 1) ?d = Inr (sk1, Some (?B, length C + 4, ?d))"
    unfolding hdr_loop.simps sc bindE_simps prod.case m2 option.case by simp
  have m3: "more_header junk sk1 ?B (length C + 4) ?d (int ?d - int (length C + 4) < int len) = Inr (sk1, Some (?B, ?d))"
    using lR body(2) by (simp add: more_header_def)
  have dp: "drop (length p + n) (p @ w) = drop n w" for p w :: string and n by simp
  have e: "?B = (C @ [NUL, NL, CR, NL]) @ body @ ?z" by simp
  have "length C + 4 = length (C @ [NUL, NL, CR, NL])" by simp
  then have dr: "drop (length C + 4 + n) ?B = drop n (body @ ?z)" for n unfolding e by (simp only: dp)
  have ip: "ipp_status sk1 ?B (length C + 4) jid
      = Inr (sint (get_be32 (take 4 (drop 4 body))) = jid \<and> get_be16 (take 2 (drop 2 body)) \<le> 255, sk1)"
    unfolding ipp_status_def dr using body(1) by (simp add: Let_def)
  show ?thesis
    unfolding o ok_response_def cl bindE_simps prod.case option.case m1 hl m3 ip ..
qed

lemma status_split:
  assumes h: "plain_head ver code reason hdrs"
    and rd: "tread sk IOBUFSZ = (Some (http_head ver code reason hdrs len), sk1)"
    and fits: "length (http_head ver code reason hdrs len) \<le> IOBUFSZ"
  shows "printer_status fuel junk sk jid = Inl OutOfFuel"
proof -
  let ?R = "http_head ver code reason hdrs len"
  let ?z = "drop (length ?R) (fresh_mem junk IOBUFSZ)"
  define A where "A = ver @ CHR '' '' # dec code @ NUL # reason @ NUL # NL # hdrs"
  define C where "C = A @ ''Content-Length: '' @ dec len"
  let ?B = "C @ [NUL, NL] @ ?z"
  have lR: "length ?R = length C + 2" by (simp add: http_head_def A_def C_def)
  have stuck: "hdr_loop n junk sk1 ?B (length C + 1) (length ?R) = Inl OutOfFuel" for n
  proof (induction n)
    case (Suc n)
    have "hdr_scan ?B (length C + 1) (length ?R) = Inr (False, length C + 1)" using lR by (subst hdr_scan.simps) simp
    then show ?case using Suc lR by (simp add: more_header_def)
  qed simp
  show ?thesis
  proof (cases fuel)
    case (Suc n)
    have o: "printer_status (Suc n) junk sk jid = ok_response n junk sk1
      (A @ ''Content-Length: '' @ dec len @ [CR, NL] @ ?z) (10 + length (dec code) + length reason) (length ?R) jid"
      unfolding printer_status_def using head_code[OF h, of sk "fresh_mem junk IOBUFSZ" len "[]" sk1 n junk jid] rd fits
      by (simp add: A_def)
    show ?thesis
    proof (cases n)
      case 0
      then show ?thesis using o Suc by (simp add: ok_response_def)
    next
      case (Suc m)
      have cl: "cl_loop n junk sk1 (A @ ''Content-Length: '' @ dec len @ [CR, NL] @ ?z) (10 + length (dec code) + length reason) (length ?R)
        = Inr (sk1, Some (?B, length C + 1, length ?R, int len))"
        using head_length[OF h, of len "length ?R" m junk sk1 ?z] lR unfolding A_def[symmetric] C_def Suc by simp
      have m1: "more_header junk sk1 ?B (length C + 1) (length ?R) (length C + 1 \<ge> length ?R) = Inr (sk1, Some (?B, length ?R))"
        using lR by (simp add: more_header_def)
      show ?thesis unfolding \<open>fuel = Suc n\<close> o ok_response_def cl bindE_simps prod.case option.case m1 stuck by simp
    qed
  qed (simp add: printer_status_def)
qed

end
