(* ===== verification/PrintThread.thy ===== *)
theory PrintThread
  imports PrintStatus
begin

text \<open>
  The printing half of \<open>printer/printd.c\<close>: the IPP header (\<open>add_option\<close>, \<open>ipp.h\<close>), the HTTP header and
  one round of \<open>printer_thread\<close>, with the configuration file (\<open>scan_configfile\<close> and its callers in
  \<open>printer/util.c\<close>). Connecting to the printer is an argument: the connected socket or none.
\<close>

section \<open>The configuration file\<close>

definition MAXCFGLINE :: nat where "MAXCFGLINE = 512"
definition MAXKWLEN :: nat where "MAXKWLEN = 16"

definition sscanf2 :: "nat \<Rightarrow> nat \<Rightarrow> string \<Rightarrow> (string \<times> string) option" where
  \<comment> \<open>\<open>sscanf\<close> with two width-limited \<open>%s\<close>; \<open>None\<close> when it stores fewer than two\<close>
  "sscanf2 n m line =
     (let a = dropWhile isspace (cstr line); k = take n (takeWhile (\<lambda>c. \<not> isspace c) a);
          b = dropWhile isspace (drop (length k) a); v = take m (takeWhile (\<lambda>c. \<not> isspace c) b) in
      if k = [] \<or> v = [] then None else Some (k, v))"

function scan_configfile :: "string \<Rightarrow> string \<Rightarrow> string option" where
  \<comment> \<open>over the rest of the file\<close>
  "scan_configfile keyword fp =
     (if fp = [] then None
      else let line = fgets_line MAXCFGLINE fp in
        case sscanf2 (MAXKWLEN - 1) (MAXCFGLINE - 1) line of
          Some (keybuf, valbuf) \<Rightarrow> if keyword = keybuf then Some valbuf else scan_configfile keyword (drop (length line) fp)
        | None \<Rightarrow> scan_configfile keyword (drop (length line) fp))"
  by pat_completeness auto
termination
proof (relation "measure (\<lambda>(_, fp). length fp)")
  have "0 < length (fgets_line MAXCFGLINE fp)" if "fp \<noteq> []" for fp
    using that by (cases fp) (auto simp: fgets_line_def MAXCFGLINE_def Let_def)
  then show "\<And>keyword fp line x2 x y. fp \<noteq> [] \<Longrightarrow> line = fgets_line MAXCFGLINE fp \<Longrightarrow>
      sscanf2 (MAXKWLEN - 1) (MAXCFGLINE - 1) line = Some x2 \<Longrightarrow> (x, y) = x2 \<Longrightarrow> keyword \<noteq> x \<Longrightarrow>
      ((keyword, drop (length line) fp), keyword, fp) \<in> measure (\<lambda>(_, fp). length fp)"
    "\<And>keyword fp line. fp \<noteq> [] \<Longrightarrow> line = fgets_line MAXCFGLINE fp \<Longrightarrow>
      sscanf2 (MAXKWLEN - 1) (MAXCFGLINE - 1) line = None \<Longrightarrow>
      ((keyword, drop (length line) fp), keyword, fp) \<in> measure (\<lambda>(_, fp). length fp)"
    by auto
qed simp

declare scan_configfile.simps [simp del]

definition get_printserver :: "string \<Rightarrow> string option" where
  "get_printserver conf = scan_configfile ''printserver'' conf"

definition get_printaddr :: "(string \<Rightarrow> string option option) \<Rightarrow> string \<Rightarrow> string option option" where
  \<comment> \<open>\<open>getaddrlist\<close> maps a host to an address with its canonical name, if it has one\<close>
  "get_printaddr getaddrlist conf = (case scan_configfile ''printer'' conf of Some p \<Rightarrow> getaddrlist p | None \<Rightarrow> None)"

definition init_printer :: "string option option \<Rightarrow> printd \<Rightarrow> print_err + printd" where
  "init_printer addr d =
     (case addr of None \<Rightarrow> Inl Exits
      | Some canonname \<Rightarrow> Inr (d\<lparr>printer_name := (case canonname of None \<Rightarrow> ''printer'' | Some n \<Rightarrow> n)\<rparr>))"

section \<open>The IPP header\<close>

definition IBUFSZ :: nat where "IBUFSZ = 512"
definition HBUFSZ :: nat where "HBUFSZ = 512"
definition IPP_PORT :: nat where "IPP_PORT = 631"
definition OP_PRINT_JOB :: nat where "OP_PRINT_JOB = 2"
definition TAG_OPERATION_ATTR :: nat where "TAG_OPERATION_ATTR = 1"
definition TAG_END_OF_ATTR :: nat where "TAG_END_OF_ATTR = 3"
definition TAG_NAMEWOLANG :: nat where "TAG_NAMEWOLANG = 66"
definition TAG_URI :: nat where "TAG_URI = 69"
definition TAG_CHARSET :: nat where "TAG_CHARSET = 71"
definition TAG_NATULANG :: nat where "TAG_NATULANG = 72"
definition TAG_MIMETYPE :: nat where "TAG_MIMETYPE = 73"

lemmas ipp_tags = TAG_OPERATION_ATTR_def TAG_END_OF_ATTR_def TAG_NAMEWOLANG_def TAG_URI_def TAG_CHARSET_def
  TAG_NATULANG_def TAG_MIMETYPE_def

definition add_option :: "string \<Rightarrow> nat \<Rightarrow> string \<Rightarrow> string \<Rightarrow> string" where
  \<comment> \<open>the bytes written so far, then the option\<close>
  "add_option buf tag optname optval =
     buf @ char_of tag # be16 (length optname) @ optname @ be16 (length optval) @ optval"

definition c_field :: "string \<Rightarrow> print_err + string" where
  \<comment> \<open>the C string at the start of this memory\<close>
  "c_field s = (if NUL \<in> set s then Inr (cstr s) else Inl BadBuf)"

definition doc_format :: "printreq \<Rightarrow> string" where
  "doc_format r = (if req_flags r AND PR_TEXT \<noteq> 0 then ''text/plain'' else ''application/postscript'')"

definition ipp_header :: "string \<Rightarrow> printreq \<Rightarrow> int \<Rightarrow> print_err + string" where
  "ipp_header pname r jid =
     bindE (c_field (usernm r @ jobnm r)) (\<lambda>user. bindE (c_field (jobnm r)) (\<lambda>job.
       let str = ''http://'' @ pname @ ''/ipp'';
           i0 = [char_of (1::nat), char_of (1::nat)] @ be16 OP_PRINT_JOB @ be32 (word_of_int jid);
           i1 = i0 @ [char_of TAG_OPERATION_ATTR];
           i2 = add_option i1 TAG_CHARSET ''attributes-charset'' ''utf-8'';
           i3 = add_option i2 TAG_NATULANG ''attributes-natural-language'' ''en-us'';
           i4 = add_option i3 TAG_URI ''printer-uri'' str;
           i5 = add_option i4 TAG_NAMEWOLANG ''requesting-user-name'' user;
           i6 = add_option i5 TAG_NAMEWOLANG ''job-name'' job;
           i7 = add_option i6 TAG_MIMETYPE ''document-format'' (doc_format r);
           ibuf = i7 @ [char_of TAG_END_OF_ATTR] in
       if length str \<ge> 64 \<or> length ibuf > IBUFSZ then Inl BadBuf else Inr ibuf))"

definition http_header :: "string \<Rightarrow> nat \<Rightarrow> print_err + string" where
  "http_header pname clen =
     (let hbuf = ''POST /ipp HTTP/1.1'' @ [CR, NL] @ ''Content-Length: '' @ dec clen @ [CR, NL]
         @ ''Content-Type: application/ipp'' @ [CR, NL] @ ''Host: '' @ pname @ '':'' @ dec IPP_PORT @ [CR, NL] @ [CR, NL] in
      if length hbuf > HBUFSZ then Inl BadBuf else Inr hbuf)"

section \<open>Sending a job\<close>

fun send_loop :: "nat \<Rightarrow> fs \<Rightarrow> loc \<Rightarrow> nat \<Rightarrow> sock \<Rightarrow> print_err + (bool \<times> sock)" where
  "send_loop 0 fs fd off sk = Inl OutOfFuel"
| "send_loop (Suc fuel) fs fd off sk =
     (case sys_read fs fd off IOBUFSZ of
        None \<Rightarrow> Inr (False, sk)
      | Some buf \<Rightarrow>
          if buf = [] then Inr (True, sk)
          else let (nw, sk1) = writen sk buf in
            if nw \<noteq> int (length buf) then Inr (False, sk1) else send_loop fuel fs fd (off + length buf) sk1)"

definition send_job :: "nat \<Rightarrow> string \<Rightarrow> printd \<Rightarrow> job \<Rightarrow> loc \<Rightarrow> sock \<Rightarrow> print_err + (bool \<times> sock)" where
  \<comment> \<open>headers, file and answer; true when the printer has taken the job\<close>
  "send_job fuel junk d jp fd sk =
     bindE (ipp_header (printer_name d) (jreq jp) (jobid jp)) (\<lambda>ibuf.
       let text = req_flags (jreq jp) AND PR_TEXT \<noteq> 0; extra = (if text then 1 else 0) in
       bindE (http_header (printer_name d) (file_len (spool d) fd + length ibuf + extra)) (\<lambda>hbuf.
         let (n, sk1) = write_fd sk (hbuf @ ibuf) in
         if n \<noteq> Some (length hbuf + length ibuf) then Inr (False, sk1)
         else let (m, sk2) = (if text then write_fd sk1 [CHR 0x08] else (Some 1, sk1)) in
           if m \<noteq> Some 1 then Inr (False, sk2)
           else bindE (send_loop (Suc (file_len (spool d) fd)) (spool d) fd 0 sk2) (\<lambda>(sent, sk3).
             if \<not> sent then Inr (False, sk3) else printer_status fuel junk sk3 (jobid jp))))"

definition printer_step :: "nat \<Rightarrow> string \<Rightarrow> string option option \<Rightarrow> sock option \<Rightarrow> printd \<Rightarrow> print_err + (sock option \<times> printd)" where
  \<comment> \<open>one round of the loop of \<open>printer_thread\<close>; with an empty queue it waits\<close>
  "printer_step fuel junk addr conn d =
     (case jobhead (jobs d) of
        None \<Rightarrow> Inr (None, d)
      | Some jp \<Rightarrow>
          bindE (remove_job (jobs d) jp) (\<lambda>q1.
          bindE (update_jobno (d\<lparr>jobs := q1\<rparr>)) (\<lambda>d1.
          bindE (if reread d1 then init_printer addr (d1\<lparr>reread := False\<rparr>) else Inr d1) (\<lambda>d2.
          bindE (jget (jobs d2) jp) (\<lambda>n.
            let name = spool_path DATADIR (jobid n) in
            case sys_open_rd (spool d2) name of
              None \<Rightarrow> Inr (None, d2\<lparr>jobs := jfree (jobs d2) jp\<rparr>)
            | Some fd \<Rightarrow>
                bindE (case conn of None \<Rightarrow> Inr (False, None)
                       | Some sk \<Rightarrow> bindE (send_job fuel junk d2 n fd sk) (\<lambda>(ok, sk1). Inr (ok, Some sk1))) (\<lambda>(ok, conn1).
                  if ok then
                    Inr (conn1, d2\<lparr>spool := snd (sys_unlink (snd (sys_unlink (spool d2) name)) (spool_path REQDIR (jobid n))),
                                  jobs := jfree (jobs d2) jp\<rparr>)
                  else bindE (replace_job (jobs d2) jp) (\<lambda>q2. Inr (conn1, d2\<lparr>jobs := q2\<rparr>))))))))"

end
