(* ===== verification/PrintClient.thy ===== *)
theory PrintClient
  imports PrintThread
begin

text \<open>
  The client command \<open>printer/print.c\<close> (\<open>submit_file\<close> and \<open>main\<close>) and \<open>connect_retry\<close>
  (\<open>sockets/clconn2.c\<close>). The process ending with a message is the error \<open>Exits\<close>. A call of \<open>writen\<close> with
  the length -1, which follows a failed \<open>read\<close>, reads past the buffer and is the error \<open>BadBuf\<close>.
\<close>

definition MAXSLEEP :: nat where "MAXSLEEP = 128"

datatype attempt = NoSocket | NoConnect | Connected sock

function connect_retry :: "nat \<Rightarrow> attempt list \<Rightarrow> sock option \<times> nat" where
  \<comment> \<open>from this delay on: the socket, and the seconds slept; the list says how each attempt ends, and past
     its end none succeeds\<close>
  "connect_retry numsec att =
     (if numsec = 0 \<or> numsec > MAXSLEEP then (None, 0)
      else case att of
        NoSocket # _ \<Rightarrow> (None, 0)
      | Connected sk # _ \<Rightarrow> (Some sk, 0)
      | _ \<Rightarrow> (let delay = (if numsec \<le> MAXSLEEP div 2 then numsec else 0);
                  (r, slept) = connect_retry (2 * numsec) (tl att) in (r, delay + slept)))"
  by pat_completeness auto
termination by (relation "measure (\<lambda>(numsec, _). Suc MAXSLEEP - numsec)") auto

declare connect_retry.simps [simp del]

definition set_cstr :: "string \<Rightarrow> nat \<Rightarrow> string \<Rightarrow> string" where
  \<comment> \<open>\<open>strcpy\<close> into an array of this size that held \<open>junk\<close>\<close>
  "set_cstr junk n s = splice 0 (s @ [NUL]) (fresh_mem junk n)"

definition build_req :: "string \<Rightarrow> string option \<Rightarrow> string \<Rightarrow> nat \<Rightarrow> bool \<Rightarrow> printreq" where
  \<comment> \<open>the header that \<open>submit_file\<close> builds, with its integers in network order; \<open>pw\<close> is the name that
     \<open>getpwuid\<close> finds\<close>
  "build_req junk pw fname nbytes text =
     \<lparr>req_size = htonl (of_nat nbytes), req_flags = (if text then htonl PR_TEXT else 0),
      usernm = (case pw of None \<Rightarrow> set_cstr junk USERNM_MAX ''unknown''
                | Some nm \<Rightarrow> (strncpy_buf (USERNM_MAX - 1) nm) @ [NUL]),
      jobnm = set_cstr junk JOBNM_MAX
        (if length fname \<ge> JOBNM_MAX then ''... '' @ take (JOBNM_MAX - 5) (drop (length fname - JOBNM_MAX + 5) fname) else fname)\<rparr>"

fun submit_loop :: "nat \<Rightarrow> fs \<Rightarrow> loc \<Rightarrow> nat \<Rightarrow> sock \<Rightarrow> print_err + sock" where
  "submit_loop 0 fs fd off sk = Inl OutOfFuel"
| "submit_loop (Suc fuel) fs fd off sk =
     (case sys_read fs fd off IOBUFSZ of
        None \<Rightarrow> Inl BadBuf
      | Some buf \<Rightarrow>
          if buf = [] then Inr sk
          else let (nw, sk1) = writen sk buf in
            if nw \<noteq> int (length buf) then Inl Exits else submit_loop fuel fs fd (off + length buf) sk1)"

definition submit_file :: "string \<Rightarrow> string option \<Rightarrow> fs \<Rightarrow> loc \<Rightarrow> sock \<Rightarrow> string \<Rightarrow> nat \<Rightarrow> bool \<Rightarrow> print_err + (int option \<times> sock)" where
  \<comment> \<open>the job number, or none when the server rejects the job\<close>
  "submit_file junk pw fs fd sk fname nbytes text =
     (let (nw, sk1) = writen sk (enc_req (build_req junk pw fname nbytes text)) in
      if nw \<noteq> int PRINTREQ_SZ then Inl Exits
      else bindE (submit_loop (Suc (file_len fs fd)) fs fd 0 sk1) (\<lambda>sk2.
        let (nr, res, sk3) = readn sk2 (8 + MSGLEN_MAX) in
        if nr \<noteq> int (8 + MSGLEN_MAX) then Inl Exits
        else if get_mem32 res \<noteq> 0 then Inr (None, sk3)
        else Inr (Some (uint (htonl (get_mem32 (drop 4 res)))), sk3)))"

fun first_connect :: "attempt list list \<Rightarrow> sock option" where
  \<comment> \<open>the loop over the addresses of the server\<close>
  "first_connect [] = None"
| "first_connect (att # rest) = (case fst (connect_retry 1 att) of None \<Rightarrow> first_connect rest | Some sk \<Rightarrow> Some sk)"

fun client_options :: "char list \<Rightarrow> bool \<times> bool \<Rightarrow> bool \<times> bool" where
  \<comment> \<open>the \<open>getopt\<close> loop: whether \<open>-t\<close> was given, and whether an option was wrong\<close>
  "client_options [] p = p"
| "client_options (c # cs) (text, err) =
     (if c = CHR ''t'' then client_options cs (True, err)
      else if c = CHR ''?'' then client_options cs (text, True) else client_options cs (text, err))"

definition print_main :: "string \<Rightarrow> string option \<Rightarrow> string \<Rightarrow> (string \<Rightarrow> (attempt list) list option) \<Rightarrow> fs \<Rightarrow> char list \<Rightarrow> string list
    \<Rightarrow> print_err + (int option \<times> sock)" where
  "print_main junk pw conf getaddrlist fs opts operands =
     (let (text, err) = client_options opts (False, False) in
      if err then Inl Exits
      else case operands of
        [fname] \<Rightarrow>
          (case (sys_open_rd fs fname, sys_stat fs fname) of
             (Some fd, Some (FileN f)) \<Rightarrow>
               (case get_printserver conf of None \<Rightarrow> Inl Exits
                | Some host \<Rightarrow> (case getaddrlist host of None \<Rightarrow> Inl Exits
                   | Some addrs \<Rightarrow> (case first_connect addrs of None \<Rightarrow> Inl Exits
                       | Some sk \<Rightarrow> submit_file junk pw fs fd sk fname (length (content f)) text)))
           | _ \<Rightarrow> Inl Exits)
      | _ \<Rightarrow> Inl Exits)"

section \<open>What the client sends\<close>

lemma set_cstr_spec:
  assumes "length s < n" "NUL \<notin> set s"
  shows "length (set_cstr junk n s) = n" "cstr (set_cstr junk n s @ r) = s"
  using assms by (simp_all add: set_cstr_def splice_def cstr_append_NUL)

lemma submit_loop_spec:
  assumes "submit_loop fuel fs fd off sk = Inr sk'" "look fs fd = Some (FileN f)"
  shows "outq sk' = outq sk @ drop off (content f) \<and> inq sk' = inq sk"
  using assms
proof (induction fuel arbitrary: off sk)
  case (Suc fuel)
  have B: "0 < IOBUFSZ" by (simp add: IOBUFSZ_def)
  obtain buf where buf: "sys_read fs fd off IOBUFSZ = Some buf" using Suc.prems(1) by (auto split: option.splits)
  consider "buf = []" "length (content f) \<le> off"
    | "buf \<noteq> []" "buf = take (length buf) (drop off (content f))" using sys_read_cases[OF Suc.prems(2) B, of off] buf by auto
  then show ?case
  proof cases
    case 1
    then show ?thesis using Suc.prems buf by simp
  next
    case 2
    obtain nw sk1 where w: "writen sk buf = (nw, sk1)" by (cases "writen sk buf")
    have r: "nw = int (length buf)" "submit_loop fuel fs fd (off + length buf) sk1 = Inr sk'"
      using Suc.prems(1) buf 2(1) w by (auto split: if_splits)
    obtain k where k: "k \<le> length buf" "outq sk1 = outq sk @ take k buf" "inq sk1 = inq sk" "nw = int k \<or> nw = -1 \<and> k = 0"
      by (rule writen_spec[OF w])
    have o1: "outq sk1 = outq sk @ buf" using k r(1) by auto
    have "buf @ drop (off + length buf) (content f) = drop off (content f)"
      using 2(2) by (metis append_take_drop_id drop_drop add.commute)
    then show ?thesis using Suc.IH[OF r(2) Suc.prems(2)] o1 k(3) by simp
  qed
qed simp

lemma connect_retry_sleep: "snd (connect_retry numsec att) \<le> 128 - numsec"
proof (induction numsec att rule: connect_retry.induct)
  case (1 numsec att)
  show ?case
  proof (cases "numsec = 0 \<or> numsec > MAXSLEEP")
    case True
    then show ?thesis by (auto simp: connect_retry.simps)
  next
    case False
    then have n: "0 < numsec" "numsec \<le> 128" by (auto simp: MAXSLEEP_def)
    have ih: "snd (connect_retry (2 * numsec) (tl att)) \<le> 128 - 2 * numsec" if "att = [] \<or> hd att = NoConnect"
      using "1.IH" False that by (cases att) auto
    obtain r z where rz: "connect_retry (2 * numsec) (tl att) = (r, z)" by (cases "connect_retry (2 * numsec) (tl att)")
    show ?thesis
    proof (cases "att = [] \<or> hd att = NoConnect")
      case True
      then have e: "connect_retry numsec att = (r, (if numsec \<le> 64 then numsec else 0) + z)"
        using False rz by (cases att) (auto simp: connect_retry.simps[of numsec] MAXSLEEP_def)
      show ?thesis using ih[OF True] rz n unfolding e by (cases "numsec \<le> 64"; simp; linarith)
    next
      case no: False
      then show ?thesis using False by (cases att; cases "hd att") (auto simp: connect_retry.simps[of numsec])
    qed
  qed
qed

end
