(* ===== verification/PrintProps.thy ===== *)
theory PrintProps
  imports PrintSpool
begin

text \<open>
  What the spooling half of the print daemon guarantees: the job queue is a sequence whatever the
  threads do to it, job numbers follow a closed form and survive a restart through their file, an
  accepted job is stored byte for byte. Two defects are stated as they are: the worker list loses every
  worker but the first, and a restart hands out the number of a job that still waits.
\<close>

section \<open>Job numbers\<close>

fun new_jobnos :: "nat \<Rightarrow> printd \<Rightarrow> int list" where
  "new_jobnos 0 d = []"
| "new_jobnos (Suc n) d = (let (jid, d1) = get_newjobno d in jid # new_jobnos n d1)"

lemma sint_range32: "-2147483648 \<le> sint w" "sint w < 2147483648" for w :: "32 word"
  using sint_ge[of w] sint_lt[of w] by simp_all

lemma sint_next:
  fixes w :: "32 word"
  assumes "0 < sint w"
  shows "sint (w + 1) = (if sint w = 2147483647 then -2147483648 else sint w + 1)"
proof -
  have "sint (w + 1) = (sint w + 1 + 2147483648) mod 4294967296 - 2147483648"
    by (simp add: sint_word_ariths signed_take_bit_eq_take_bit_shift take_bit_eq_mod)
  then show ?thesis using sint_range32[of w] assms by (cases "sint w = 2147483647") auto
qed

lemma get_newjobno_next:
  assumes "0 < sint (nextjob d)" "get_newjobno d = (jid, d1)"
  shows "jid = sint (nextjob d)" "sint (nextjob d1) - 1 = sint (nextjob d) mod 2147483647"
    "0 < sint (nextjob d1)"
proof -
  note s = sint_next[OF assms(1)] sint_range32[of "nextjob d"]
  show "jid = sint (nextjob d)" using assms(2) by (auto simp: get_newjobno_def Let_def)
  have "sint (nextjob d1) = (if sint (nextjob d) = 2147483647 then 1 else sint (nextjob d) + 1)"
    using assms s by (auto simp: get_newjobno_def Let_def)
  then show "sint (nextjob d1) - 1 = sint (nextjob d) mod 2147483647" "0 < sint (nextjob d1)"
    using assms(1) s(2,3) by auto
qed

lemma new_jobnos_form:
  "0 < sint (nextjob d) \<Longrightarrow> new_jobnos n d = map (\<lambda>i. (sint (nextjob d) - 1 + int i) mod 2147483647 + 1) [0..<n]"
proof (induction n arbitrary: d)
  case (Suc n)
  obtain jid d1 where g: "get_newjobno d = (jid, d1)" by (cases "get_newjobno d")
  note N = get_newjobno_next[OF Suc.prems g]
  have "new_jobnos n d1 = map (\<lambda>i. (sint (nextjob d) - 1 + int (Suc i)) mod 2147483647 + 1) [0..<n]"
    unfolding Suc.IH[OF N(3)] N(2) by (simp add: mod_add_left_eq mod_add_right_eq algebra_simps)
  moreover have "(sint (nextjob d) - 1) mod 2147483647 + 1 = sint (nextjob d)"
    using Suc.prems sint_range32[of "nextjob d"] by simp
  ultimately show ?case using g N(1) by (simp only: new_jobnos.simps Let_def prod.case upt_rec[of 0 "Suc n"] map_Suc_upt[symmetric])
      (simp add: map_Suc_upt[symmetric] del: upt_Suc)
qed simp

text \<open>Job numbers follow a closed form for as many calls as one likes: they count up from the start
  value and wrap from 2147483647 to 1, so that 2147483647 calls in a row give different, positive numbers.\<close>
theorem jobnos_distinct:
  assumes "0 < sint (nextjob d)"
  shows "new_jobnos n d = map (\<lambda>i. (sint (nextjob d) - 1 + int i) mod 2147483647 + 1) [0..<n]
    \<and> (\<forall>j \<in> set (new_jobnos n d). 0 < j \<and> j \<le> 2147483647) \<and> (n \<le> 2147483647 \<longrightarrow> distinct (new_jobnos n d))"
proof -
  define a where "a = sint (nextjob d) - 1"
  have e: "new_jobnos n d = map (\<lambda>i. (a + int i) mod 2147483647 + 1) [0..<n]"
    unfolding a_def by (rule new_jobnos_form[OF assms])
  have "i = j" if n: "n \<le> 2147483647" and ij: "i < n" "j < n" "(a + int i) mod 2147483647 = (a + int j) mod 2147483647" for i j
  proof -
    have "(a + int i - (a + int j)) mod 2147483647 = 0" using ij(3) by (metis mod_eq_dvd_iff dvd_eq_mod_eq_0)
    then have "2147483647 dvd int i - int j" by (simp add: dvd_eq_mod_eq_0)
    then have "int i - int j = 0" using n ij(1,2) zdvd_not_zless[of "\<bar>int i - int j\<bar>" 2147483647] by (cases "int i = int j") auto
    then show "i = j" by simp
  qed
  then have "n \<le> 2147483647 \<longrightarrow> distinct (new_jobnos n d)" unfolding e by (auto simp: distinct_map inj_on_def)
  moreover have "0 < x mod 2147483647 + 1 \<and> x mod 2147483647 + 1 \<le> 2147483647" for x :: int
    using pos_mod_bound[of 2147483647 x] pos_mod_sign[of 2147483647 x] by linarith
  ultimately show ?thesis using e unfolding a_def by auto
qed

section \<open>Storing a job\<close>

lemma spool_loc:
  "locate cw (spool_path DATADIR jid) = [''var'', ''spool'', ''printer'', ''data'', sdec jid]"
  "locate cw (spool_path REQDIR jid) = [''var'', ''spool'', ''printer'', ''reqs'', sdec jid]"
proof -
  have d: "isdigit c \<Longrightarrow> c \<noteq> SLASH \<and> c \<noteq> NUL \<and> c \<noteq> CHR ''.''" for c by (auto simp: isdigit_def)
  have ne: "sdec jid \<noteq> []" by (simp add: sdec_def)
  have "\<forall>c \<in> set (sdec jid). isdigit c \<or> c = CHR ''-''" using isdigit_dec by (auto simp: sdec_def split: if_splits)
  then have s: "\<forall>c \<in> set (sdec jid). c \<noteq> SLASH \<and> c \<noteq> NUL \<and> c \<noteq> CHR ''.''" using d by fastforce
  have "sdec jid \<noteq> ''.''" "sdec jid \<noteq> ''..''" using s by (metis list.set_intros(1))+
  then have "plain (sdec jid)" using ne s unfolding plain_def by blast
  then have j: "locate cw (p @ SLASH # sdec jid) = locate cw p @ [sdec jid]" if "p \<noteq> []" for p
    using locate_join that by blast
  have b: "locate cw (SPOOLDIR @ SLASH # DATADIR) = [''var'', ''spool'', ''printer'', ''data'']"
    "locate cw (SPOOLDIR @ SLASH # REQDIR) = [''var'', ''spool'', ''printer'', ''reqs'']"
    by (simp_all add: SPOOLDIR_def DATADIR_def REQDIR_def locate_def comps_def walk_def)
  have "spool_path x jid = (SPOOLDIR @ SLASH # x) @ SLASH # sdec jid" for x by (simp add: spool_path_def)
  then show "locate cw (spool_path DATADIR jid) = [''var'', ''spool'', ''printer'', ''data'', sdec jid]"
    "locate cw (spool_path REQDIR jid) = [''var'', ''spool'', ''printer'', ''reqs'', sdec jid]"
    using j[of "SPOOLDIR @ SLASH # DATADIR"] j[of "SPOOLDIR @ SLASH # REQDIR"] b by simp_all
qed

lemma open_wr_look:
  assumes "sys_open_wr fs p = Some (l, fs')"
  shows "l = locate (cwd fs) p" "\<exists>f. look fs' l = Some (FileN f) \<and> content f = []" "cwd fs' = cwd fs"
    "m \<noteq> l \<Longrightarrow> m \<noteq> butlast l \<Longrightarrow> look fs' m = look fs m"
  using assms by (auto simp: sys_open_wr_def Let_def new_file_def add_name_def
      split: if_splits option.splits node.splits)

lemma write_look:
  assumes "sys_write fs l s = (n, fs')" "look fs l = Some (FileN f)"
  shows "n \<le> length s" "\<exists>g. look fs' l = Some (FileN g) \<and> content g = content f @ take n s" "cwd fs' = cwd fs"
    "m \<noteq> l \<Longrightarrow> look fs' m = look fs m"
  using assms by (auto simp: sys_write_def Let_def)

lemma tread_arrives:
  assumes "tread sk IOBUFSZ = (r, sk1)"
  shows "r = Some s \<Longrightarrow> s \<noteq> [] \<Longrightarrow> arrives (inq sk) = s @ arrives (inq sk1)"
    "r = None \<or> r = Some [] \<Longrightarrow> arrives (inq sk) = []" "outq sk1 = outq sk"
proof -
  have B: "0 < IOBUFSZ" by (simp add: IOBUFSZ_def)
  show "r = Some s \<Longrightarrow> s \<noteq> [] \<Longrightarrow> arrives (inq sk) = s @ arrives (inq sk1)" using timed_reader.got[OF _ B] assms by blast
  show "r = None \<or> r = Some [] \<Longrightarrow> arrives (inq sk) = []" using timed_reader.over[OF assms B] by blast
  show "outq sk1 = outq sk" using assms by (auto simp: tread_def read_fd_def split: list.splits rd.splits prod.splits)
qed

lemma spool_loop_spec:
  assumes "spool_loop junk sk fs fd first flags = (r, sk', fs')" "look fs fd = Some (FileN f)"
  shows "(\<exists>g. look fs' fd = Some (FileN g) \<and> (\<forall>fl. r = Inr fl \<longrightarrow> content g = content f @ arrives (inq sk)))
    \<and> cwd fs' = cwd fs \<and> (\<forall>m. m \<noteq> fd \<longrightarrow> look fs' m = look fs m) \<and> outq sk' = outq sk
    \<and> (\<forall>fl. r = Inr fl \<longrightarrow> fl = flags \<or> first \<and> fl = flags OR PR_TEXT)"
  using assms
proof (induction junk sk fs fd first flags arbitrary: f rule: spool_loop.induct)
  case (1 junk sk fs fd first flags)
  obtain t sk1 where t: "tread sk IOBUFSZ = (t, sk1)" by (cases "tread sk IOBUFSZ")
  note T = tread_arrives[OF t]
  consider "t = None \<or> t = Some []" | buf where "t = Some buf" "buf \<noteq> []" by (cases t) auto
  then show ?case
  proof cases
    case 1
    then show ?thesis using "1.prems" t T(2,3) by (auto simp: spool_loop.simps[of junk sk])
  next
    case (2 buf)
    obtain nw fs1 where w: "sys_write fs fd buf = (nw, fs1)" by (cases "sys_write fs fd buf")
    note W = write_look[OF w "1.prems"(2)]
    let ?fl = "if first \<and> take 4 (buf @ junk) \<noteq> ''%!PS'' then flags OR PR_TEXT else flags"
    show ?thesis
    proof (cases "nw = length buf")
      case False
      then show ?thesis using "1.prems"(1) t 2 w W T(3) by (auto simp: spool_loop.simps[of junk sk] Let_def)
    next
      case True
      obtain g where g: "look fs1 fd = Some (FileN g)" "content g = content f @ buf" using W(2) True by auto
      have l: "spool_loop junk sk1 fs1 fd False ?fl = (r, sk', fs')"
        using "1.prems"(1) t 2 w True by (simp add: spool_loop.simps[of junk sk] Let_def)
      have "\<not> nw \<noteq> length buf" using True by simp
      from "1.IH"[OF t[symmetric] 2(1,2) refl refl, of nw fs1, OF _ this l g(1)] w
      show ?thesis using g(2) T(1)[OF 2] T(3) W(3,4) by (auto split: if_splits)
    qed
  qed
qed

definition stored_job :: "fs \<Rightarrow> int \<Rightarrow> string \<Rightarrow> printreq \<Rightarrow> bool" where
  \<comment> \<open>the two files of a job in the spool directory\<close>
  "stored_job s jid dat req \<longleftrightarrow>
     (\<exists>f g. look s (locate (cwd s) (spool_path DATADIR jid)) = Some (FileN f) \<and> content f = dat
          \<and> look s (locate (cwd s) (spool_path REQDIR jid)) = Some (FileN g) \<and> content g = enc_req req)"

definition request_of :: "string \<Rightarrow> 32 word \<Rightarrow> printreq" where
  \<comment> \<open>the request that these bytes from the network announce, with its flags as the daemon sets them\<close>
  "request_of bs fl = (dec_req bs)\<lparr>req_size := htonl (req_size (dec_req bs)), req_flags := fl\<rparr>"

lemma writen_outq: "\<exists>k. outq (snd (writen sk s)) = outq sk @ take k s"
  using writen_spec[of sk s "fst (writen sk s)" "snd (writen sk s)"] by (metis prod.collapse)

lemma reject_same: "client_body se er junk sk d = Inr (code, sk', d') \<Longrightarrow> code \<noteq> 0 \<Longrightarrow> jobs d' = jobs d \<and> brk d' = brk d"
  by (auto simp: client_body_def get_newjobno_def Let_def split: prod.splits if_splits option.splits sum.splits)

lemma client_body_accepts:
  assumes "client_body se er junk sk d = Inr (0, sk', d')"
  shows "\<exists>sk1 fd fs1 sk2 fs2 fl cfd fs3 fs4.
     treadn sk PRINTREQ_SZ = (int PRINTREQ_SZ, take PRINTREQ_SZ (arrives (inq sk)), sk1)
   \<and> sys_open_wr (spool d) (spool_path DATADIR (sint (nextjob d))) = Some (fd, fs1)
   \<and> spool_loop junk sk1 fs1 fd True (htonl (req_flags (dec_req (take PRINTREQ_SZ (arrives (inq sk)))))) = (Inr fl, sk2, fs2)
   \<and> sys_open_wr fs2 (spool_path REQDIR (sint (nextjob d))) = Some (cfd, fs3)
   \<and> sys_write fs3 cfd (enc_req (request_of (take PRINTREQ_SZ (arrives (inq sk))) fl)) = (PRINTREQ_SZ, fs4)
   \<and> sk' = snd (writen sk2 (enc_resp \<lparr>retcode = 0, resp_jobid = htonl (nextjob d),
                    msg = strncpy_buf MSGLEN_MAX (''request ID '' @ sdec (sint (nextjob d)))\<rparr>))
   \<and> add_job (jobs d) (brk d) (request_of (take PRINTREQ_SZ (arrives (inq sk))) fl) (sint (nextjob d)) = Inr (jobs d')
   \<and> spool d' = fs4 \<and> jobfd d' = jobfd d \<and> nextjob d' = nextjob (snd (get_newjobno d)) \<and> length (arrives (inq sk)) \<ge> PRINTREQ_SZ"
proof -
  obtain n bs sk1 where t: "treadn sk PRINTREQ_SZ = (n, bs, sk1)" by (cases "treadn sk PRINTREQ_SZ")
  have n: "n = int PRINTREQ_SZ" using assms t by (auto simp: client_body_def split: if_splits)
  note T = treadn_spec[OF t]
  have bs: "bs = take PRINTREQ_SZ (arrives (inq sk))" using T by blast
  have "length bs = PRINTREQ_SZ" using T n by linarith
  then have lb: "length (arrives (inq sk)) \<ge> PRINTREQ_SZ" unfolding bs by simp
  show ?thesis using assms t n lb unfolding bs
    by (auto simp: client_body_def get_newjobno_def request_of_def enqueue_def Let_def
        split: if_splits option.splits sum.splits prod.splits)
qed

lemma client_body_stores:
  assumes "client_body se er junk sk d = Inr (0, sk', d')"
  shows "\<exists>fl k. stored_job (spool d') (sint (nextjob d)) (drop PRINTREQ_SZ (arrives (inq sk))) (request_of (take PRINTREQ_SZ (arrives (inq sk))) fl)
      \<and> (fl = htonl (req_flags (dec_req (arrives (inq sk)))) \<or> fl = htonl (req_flags (dec_req (arrives (inq sk)))) OR PR_TEXT)
      \<and> add_job (jobs d) (brk d) (request_of (take PRINTREQ_SZ (arrives (inq sk))) fl) (sint (nextjob d)) = Inr (jobs d')
      \<and> outq sk' = outq sk @ take k (enc_resp \<lparr>retcode = 0, resp_jobid = htonl (nextjob d),
           msg = strncpy_buf MSGLEN_MAX (''request ID '' @ sdec (sint (nextjob d)))\<rparr>)"
proof -
  let ?a = "arrives (inq sk)" and ?j = "sint (nextjob d)"
  obtain sk1 fd fs1 sk2 fs2 fl cfd fs3 fs4 where
    t: "treadn sk PRINTREQ_SZ = (int PRINTREQ_SZ, take PRINTREQ_SZ ?a, sk1)"
    and o: "sys_open_wr (spool d) (spool_path DATADIR ?j) = Some (fd, fs1)"
    and l: "spool_loop junk sk1 fs1 fd True (htonl (req_flags (dec_req (take PRINTREQ_SZ ?a)))) = (Inr fl, sk2, fs2)"
    and c: "sys_open_wr fs2 (spool_path REQDIR ?j) = Some (cfd, fs3)"
    and w: "sys_write fs3 cfd (enc_req (request_of (take PRINTREQ_SZ ?a) fl)) = (PRINTREQ_SZ, fs4)"
    and s: "sk' = snd (writen sk2 (enc_resp \<lparr>retcode = 0, resp_jobid = htonl (nextjob d), msg = strncpy_buf MSGLEN_MAX (''request ID '' @ sdec ?j)\<rparr>))"
    and a: "add_job (jobs d) (brk d) (request_of (take PRINTREQ_SZ ?a) fl) ?j = Inr (jobs d')"
    and f: "spool d' = fs4" and len: "length ?a \<ge> PRINTREQ_SZ"
    using client_body_accepts[OF assms] by blast
  have T: "arrives (inq sk1) = drop PRINTREQ_SZ ?a" using treadn_spec[OF t] len by simp
  note O = open_wr_look[OF o]
  obtain f1 where f1: "look fs1 fd = Some (FileN f1)" "content f1 = []" using O(2) by blast
  note L = spool_loop_spec[OF l f1(1)]
  obtain f2 where f2: "look fs2 fd = Some (FileN f2)" "content f2 = drop PRINTREQ_SZ ?a" using L f1(2) T by auto
  note C = open_wr_look[OF c]
  obtain g where g: "look fs3 cfd = Some (FileN g)" "content g = []" using C(2) by blast
  note W = write_look[OF w g(1)]
  have lo: "fd = locate cw (spool_path DATADIR ?j)" "cfd = locate cw (spool_path REQDIR ?j)" for cw
    using O(1) C(1) by (simp_all only: spool_loc)
  have ne: "fd \<noteq> cfd" "fd \<noteq> butlast cfd" by (simp_all add: lo[of "[]"] spool_loc)
  have "look fs4 fd = Some (FileN f2)" using W(4)[OF ne(1)] C(4)[OF ne] f2(1) by simp
  moreover obtain g' where "look fs4 cfd = Some (FileN g')" "content g' = take PRINTREQ_SZ (enc_req (request_of (take PRINTREQ_SZ ?a) fl))"
    using W(2) g(2) by auto
  moreover have "length (enc_req (request_of (take PRINTREQ_SZ ?a) fl)) = PRINTREQ_SZ"
    using len by (simp add: length_enc_req request_of_def dec_req_def PRINTREQ_SZ_def)
  ultimately have st: "stored_job (spool d') ?j (drop PRINTREQ_SZ ?a) (request_of (take PRINTREQ_SZ ?a) fl)"
    unfolding stored_job_def f lo[symmetric] using f2(2) by auto
  have dq: "req_flags (dec_req (take PRINTREQ_SZ ?a)) = req_flags (dec_req ?a)"
    by (simp add: dec_req_def get_mem32_def PRINTREQ_SZ_def drop_take)
  obtain k where "outq sk' = outq sk2 @ take k (enc_resp \<lparr>retcode = 0, resp_jobid = htonl (nextjob d), msg = strncpy_buf MSGLEN_MAX (''request ID '' @ sdec ?j)\<rparr>)"
    using writen_outq s by blast
  moreover have "outq sk2 = outq sk" using L treadn_outq[OF t] by simp
  moreover have "fl = htonl (req_flags (dec_req ?a)) \<or> fl = htonl (req_flags (dec_req ?a)) OR PR_TEXT" using L unfolding dq by blast
  ultimately show ?thesis using st a by auto
qed

lemma accepted_parts:
  assumes "client_body se er junk sk d = Inr (0, sk', d')"
  shows "\<exists>req k. stored_job (spool d') (sint (nextjob d)) (drop PRINTREQ_SZ (arrives (inq sk))) req
      \<and> add_job (jobs d) (brk d) req (sint (nextjob d)) = Inr (jobs d')
      \<and> req_size req = htonl (get_mem32 (arrives (inq sk))) \<and> usernm req = take USERNM_MAX (drop 8 (arrives (inq sk)))
      \<and> jobnm req = take JOBNM_MAX (drop (8 + USERNM_MAX) (arrives (inq sk)))
      \<and> (req_flags req = htonl (get_mem32 (drop 4 (arrives (inq sk))))
         \<or> req_flags req = htonl (get_mem32 (drop 4 (arrives (inq sk)))) OR PR_TEXT)
      \<and> outq sk' = outq sk @ take k (enc_resp \<lparr>retcode = 0, resp_jobid = htonl (nextjob d),
           msg = strncpy_buf MSGLEN_MAX (''request ID '' @ sdec (sint (nextjob d)))\<rparr>)"
proof -
  let ?a = "arrives (inq sk)"
  have r: "req_size (request_of (take PRINTREQ_SZ ?a) fl) = htonl (get_mem32 ?a)"
    "usernm (request_of (take PRINTREQ_SZ ?a) fl) = take USERNM_MAX (drop 8 ?a)"
    "jobnm (request_of (take PRINTREQ_SZ ?a) fl) = take JOBNM_MAX (drop (8 + USERNM_MAX) ?a)"
    "req_flags (request_of (take PRINTREQ_SZ ?a) fl) = fl" for fl
    by (simp_all add: request_of_def dec_req_def get_mem32_def PRINTREQ_SZ_def drop_take)
  have q: "req_flags (dec_req ?a) = get_mem32 (drop 4 ?a)" by (simp add: dec_req_def)
  from client_body_stores[OF assms] show ?thesis unfolding q using r by auto
qed


definition demo_spool :: fs where
  "demo_spool = \<lparr>nodes = [([], DirN [''var'']), ([''var''], DirN [''spool'']), ([''var'', ''spool''], DirN [''printer'']),
      ([''var'', ''spool'', ''printer''], DirN [''data'', ''reqs'']), ([''var'', ''spool'', ''printer'', ''data''], DirN []),
      ([''var'', ''spool'', ''printer'', ''reqs''], DirN [])],
    cwd = [], denied = [], badblk = [], avail = 10000, clock = 0\<rparr>"

definition demo_printd :: printd where
  "demo_printd = \<lparr>spool = demo_spool, jobfd = \<lparr>bytes = [], pos = 0, room = 100\<rparr>, nextjob = 1, jobs = empty_q, wl = empty_w,
     reread = False, brk = 0, printer_name = ''printer''\<rparr>"

definition demo_client :: "string \<Rightarrow> sock" where
  "demo_client text = \<lparr>inq = [RData (enc_req \<lparr>req_size = htonl 9, req_flags = 0, usernm = strncpy_buf USERNM_MAX ''sar'',
     jobnm = strncpy_buf JOBNM_MAX ''a.ps''\<rparr>), RData text], outq = [], wrq = []\<rparr>"

section \<open>A submission that succeeds\<close>

definition spool_ready :: "fs \<Rightarrow> bool" where
  \<comment> \<open>both directories are there, and nothing but files in them\<close>
  "spool_ready s \<longleftrightarrow> denied s = [] \<and>
     (\<forall>x \<in> {''data'', ''reqs''}. is_dirn (look s [''var'', ''spool'', ''printer'', x])
        \<and> (\<forall>n. case look s [''var'', ''spool'', ''printer'', x, n] of None \<Rightarrow> True | Some (FileN _) \<Rightarrow> True | _ \<Rightarrow> False))"

lemma spool_path_ne: "spool_path x j \<noteq> []"
  by (simp add: spool_path_def)

lemma open_ready:
  assumes "spool_ready s" "x \<in> {DATADIR, REQDIR}"
  shows "\<exists>fd f s'. sys_open_wr s (spool_path x j) = Some (fd, s') \<and> spool_ready s' \<and> avail s' = avail s
    \<and> look s' fd = Some (FileN f) \<and> fd = [''var'', ''spool'', ''printer'', x, sdec j]"
proof -
  let ?D = "[''var'', ''spool'', ''printer'', x]" and ?l = "[''var'', ''spool'', ''printer'', x, sdec j]"
  have x: "x \<in> {''data'', ''reqs''}" using assms(2) by (simp add: DATADIR_def REQDIR_def)
  have l: "locate (cwd s) (spool_path x j) = ?l" using assms(2) spool_loc by (auto simp: DATADIR_def REQDIR_def)
  note R = assms(1)[unfolded spool_ready_def]
  obtain ns where ns: "look s ?D = Some (DirN ns)" using R x by (auto simp: is_dirn_def split: option.splits node.splits)
  have "case look s ?l of None \<Rightarrow> True | Some (FileN _) \<Rightarrow> True | _ \<Rightarrow> False" using R x by blast
  then consider "look s ?l = None" | f where "look s ?l = Some (FileN f)" by (auto split: option.splits node.splits)
  then obtain g k where o: "sys_open_wr s (spool_path x j) = Some (?l, setn k ?l (FileN g))"
    "k = s \<or> k = setn s ?D (DirN (ns @ [sdec j]))"
  proof cases
    case 1
    then have "sys_open_wr s (spool_path x j) = Some (?l, setn (setn s ?D (DirN (ns @ [sdec j]))) ?l (FileN (new_file (clock s))))"
      using R ns by (simp add: sys_open_wr_def l spool_path_ne creatable_def add_name_def Let_def)
    then show thesis using that by blast
  next
    case (2 f)
    then have "sys_open_wr s (spool_path x j) = Some (?l, setn s ?l (FileN (f\<lparr>content := [], mtime := clock s\<rparr>)))"
      using R by (simp add: sys_open_wr_def l spool_path_ne Let_def)
    then show thesis using that by blast
  qed
  have "spool_ready (setn k ?l (FileN g))" using o(2) assms(1) x unfolding spool_ready_def
    by (auto simp: is_dirn_def split: option.splits)
  moreover have "avail (setn k ?l (FileN g)) = avail s" using o(2) by auto
  ultimately show ?thesis using o(1) by (intro exI[of _ ?l] exI[of _ g] exI[of _ "setn k ?l (FileN g)"]) simp
qed

lemma write_ready:
  assumes "spool_ready s" "look s fd = Some (FileN f)" "length t \<le> avail s" "length fd = 5"
  shows "\<exists>s'. sys_write s fd t = (length t, s') \<and> spool_ready s' \<and> avail s' = avail s - length t"
  using assms by (auto simp: sys_write_def Let_def spool_ready_def is_dirn_def)

lemma treadn_one: "length h = n \<Longrightarrow> 0 < n \<Longrightarrow> treadn \<lparr>inq = RData h # q, outq = u, wrq = w\<rparr> n = (int n, h, \<lparr>inq = q, outq = u, wrq = w\<rparr>)"
  by (cases "h = []") (auto simp: treadn_def readn_loop.simps tread_def read_fd_def)

lemma client_accepts:
  assumes "spool_ready (spool d)" "length h = PRINTREQ_SZ" "t \<noteq> []" "length t \<le> IOBUFSZ"
    and "length t + PRINTREQ_SZ \<le> avail (spool d)" "jobtail (jobs d) = None"
  shows "\<exists>sk' d'. client_body se er junk \<lparr>inq = [RData h, RData t], outq = u, wrq = []\<rparr> d = Inr (0, sk', d') \<and> spool_ready (spool d')
    \<and> avail (spool d') = avail (spool d) - length t - PRINTREQ_SZ"
proof -
  let ?j = "sint (nextjob d)"
  obtain fd f s1 where o: "sys_open_wr (spool d) (spool_path DATADIR ?j) = Some (fd, s1)" "spool_ready s1" "avail s1 = avail (spool d)"
    "look s1 fd = Some (FileN f)" "length fd = 5" using open_ready[OF assms(1), of DATADIR ?j] by auto
  obtain s2 where w: "sys_write s1 fd t = (length t, s2)" "spool_ready s2" "avail s2 = avail s1 - length t"
    using write_ready[OF o(2,4) _ o(5), of t] assms(5) o(3) by auto
  let ?f = "htonl (req_flags (dec_req h))"
  let ?fl = "if take 4 (t @ junk) \<noteq> ''%!PS'' then ?f OR PR_TEXT else ?f"
  let ?s = "\<lparr>inq = [], outq = u, wrq = []\<rparr>"
  have l: "spool_loop junk \<lparr>inq = [RData t], outq = u, wrq = []\<rparr> s1 fd True ?f = (Inr ?fl, ?s, s2)"
    using assms(3,4) w(1) by (simp add: spool_loop.simps[of junk] tread_def read_fd_def Let_def)
  obtain cfd g s3 where c: "sys_open_wr s2 (spool_path REQDIR ?j) = Some (cfd, s3)" "spool_ready s3" "avail s3 = avail s2"
    "look s3 cfd = Some (FileN g)" "length cfd = 5" using open_ready[OF w(2), of REQDIR ?j] by auto
  let ?r = "(dec_req h)\<lparr>req_size := htonl (req_size (dec_req h)), req_flags := ?fl\<rparr>"
  have lr: "length (enc_req ?r) = PRINTREQ_SZ" using assms(2) by (simp add: length_enc_req dec_req_def PRINTREQ_SZ_def)
  obtain s4 where v: "sys_write s3 cfd (enc_req ?r) = (PRINTREQ_SZ, s4)" "spool_ready s4" "avail s4 = avail s3 - PRINTREQ_SZ"
  proof -
    have "length (enc_req ?r) \<le> avail s3" unfolding lr using assms(5) o(3) w(3) c(3) by linarith
    from write_ready[OF c(2,4) this c(5)] show thesis unfolding lr using that by blast
  qed
  have P: "0 < PRINTREQ_SZ" by (simp add: PRINTREQ_SZ_def)
  show ?thesis using o(1) l c(1) v w(3) o(3) c(3) assms(6) P treadn_one[OF assms(2) P]
    by (simp add: client_body_def get_newjobno_def enqueue_def add_job_def Let_def)
qed

lemma demo_ready: "spool_ready demo_spool"
  by (auto simp: spool_ready_def demo_spool_def look_def is_dirn_def)

lemma demo_accepts:
  assumes "spool_ready (spool d)" "t \<noteq> []" "length t \<le> 10" "avail (spool d) \<ge> 1000" "jobtail (jobs d) = None"
  shows "\<exists>sk' d'. client_body se er junk (demo_client t) d = Inr (0, sk', d') \<and> spool_ready (spool d')
    \<and> avail (spool d') = avail (spool d) - length t - PRINTREQ_SZ"
proof -
  have h: "length (enc_req \<lparr>req_size = htonl 9, req_flags = 0, usernm = strncpy_buf USERNM_MAX ''sar'',
     jobnm = strncpy_buf JOBNM_MAX ''a.ps''\<rparr>) = PRINTREQ_SZ"
    by (simp add: length_enc_req strncpy_buf_def USERNM_MAX_def JOBNM_MAX_def)
  show ?thesis unfolding demo_client_def using assms(3,4)
    by (intro client_accepts[OF assms(1) h assms(2) _ _ assms(5)]) (simp_all add: IOBUFSZ_def PRINTREQ_SZ_def USERNM_MAX_def JOBNM_MAX_def)
qed


theorem jobnos_distinct_witness:
  "distinct (new_jobnos 3 (demo_printd\<lparr>nextjob := 2147483646\<rparr>)) \<and> new_jobnos 3 (demo_printd\<lparr>nextjob := 2147483646\<rparr>) = [2147483646, 2147483647, 1]"
  using jobnos_distinct[of "demo_printd\<lparr>nextjob := 2147483646\<rparr>" 3] by (simp add: upt_rec)

section \<open>The file of the job number\<close>

lemma init_path: "SPOOLDIR @ SLASH # JOBFILE = CHR ''/'' # ''var/spool/printer/jobno''" "length (SPOOLDIR @ SLASH # JOBFILE) = 24"
  by (simp_all add: SPOOLDIR_def JOBFILE_def)

lemma length_sdec32: "length (sdec (sint w)) \<le> 11" for w :: "32 word"
proof -
  have "nat (sint w) < 10 ^ 10" "nat (- sint w) < 10 ^ 10" using sint_range32[of w] by simp_all
  then show ?thesis using length_dec_less[of "nat (sint w)" 10] length_dec_less[of "nat (- sint w)" 10]
    by (simp add: sdec_def)
qed

lemma digits_end:
  assumes "\<not> isdigit c"
  shows "atol (sdec i @ c # t) = i"
proof -
  have tw: "takeWhile isdigit (dec n @ c # t) = dec n" for n by (rule takeWhile_dec_append[OF assms])
  show ?thesis
  proof (cases "i < 0")
    case True
    then show ?thesis using tw by (simp add: sdec_def atol_def isspace_def)
  next
    case False
    obtain x r where x: "dec (nat i) = x # r" "\<not> isspace x" using dec_ConsE[of "nat i"] isdigit_dec[of _ "nat i"] isdigit_not(3) by (metis list.set_intros(1))
    have dx: "isdigit x" using x(1) isdigit_dec[of x "nat i"] by simp
    have "x \<noteq> CHR ''-''" "x \<noteq> CHR ''+''" using isdigit_not dx by blast+
    moreover have "digits_val (x # r) = nat i" using x(1) digits_val_dec[of "nat i"] by simp
    ultimately show ?thesis using False x dx tw[of "nat i"] by (simp add: sdec_def atol_def)
  qed
qed

text \<open>The number that \<open>update_jobno\<close> writes is the one that \<open>init_request\<close> reads at the next start, for
  every value of \<open>nextjob\<close>, although the buffer it is read into still holds the end of the path of the file, as long
  as the file was not longer before (it is never truncated).\<close>
theorem jobno_file_roundtrip:
  assumes "length (bytes (jobfd d)) \<le> length (sdec (sint (nextjob d)))" "11 \<le> room (jobfd d)"
  shows "\<exists>d1 d2. update_jobno d = Inr d1 \<and> init_request False (e\<lparr>jobfd := (jobfd d1)\<lparr>pos := 0\<rparr>\<rparr>) = Inr d2 \<and> nextjob d2 = nextjob d"
proof -
  let ?s = "sdec (sint (nextjob d))" and ?p = "SPOOLDIR @ SLASH # JOBFILE"
  have l: "length ?s \<le> 11" by (rule length_sdec32)
  have ne: "?s \<noteq> []" by (simp add: sdec_def)
  have u: "update_jobno d = Inr (d\<lparr>jobfd := (jobfd d)\<lparr>bytes := ?s, pos := length ?s\<rparr>\<rparr>)"
    using assms l by (simp add: update_jobno_def lseek_set fwrite_full splice_def)
  have r: "fread ((jobfd d)\<lparr>bytes := ?s, pos := 0\<rparr>) FILENMSZ = (?s, (jobfd d)\<lparr>bytes := ?s, pos := length ?s\<rparr>)"
    using l by (simp add: fread_def FILENMSZ_def Let_def)
  have sp: "splice 0 ?s ?p = ?s @ drop (length ?s) ?p" by (simp add: splice_def)
  have nd: "\<forall>c \<in> set ?p. \<not> isdigit c" "\<forall>c \<in> set ?p. c \<noteq> NUL" by (simp_all add: init_path isdigit_def)
  have "length ?s < length ?p" using l init_path(2) by linarith
  then obtain c t where ct: "drop (length ?s) ?p = c # t" "c \<in> set ?p" by (metis drop_eq_Nil linorder_not_less list.exhaust in_set_dropD list.set_intros(1))
  have nc: "\<not> isdigit c" using nd(1) ct(2) by blast
  have "NUL \<notin> set ?s" by (auto simp: sdec_def)
  moreover have "NUL \<notin> set (drop (length ?s) ?p)" using nd(2) in_set_dropD by metis
  ultimately have "atol (cstr (splice 0 ?s ?p)) = sint (nextjob d)"
    unfolding sp ct(1) using digits_end[OF nc] by (simp add: cstr_id)
  then show ?thesis using u r ne l init_path(2) by (simp add: init_request_def)
qed

theorem jobno_file_roundtrip_witness:
  "\<exists>d1 d2. update_jobno (demo_printd\<lparr>nextjob := 41\<rparr>) = Inr d1
    \<and> init_request False (demo_printd\<lparr>jobfd := (jobfd d1)\<lparr>pos := 0\<rparr>\<rparr>) = Inr d2 \<and> nextjob d2 = 41"
  using jobno_file_roundtrip[of "demo_printd\<lparr>nextjob := 41\<rparr>" demo_printd] by (simp add: demo_printd_def)

text \<open>Defect: the job file is written only when the printer thread takes a job up. A daemon that accepts a
  job and is started again before that gives the next client the same number, and its data file replaces the
  accepted job's: the bytes of the first job are lost though it was confirmed.\<close>
theorem restart_reuses_jobno:
  assumes "init_request False d = Inr d0" "client_body se er junk sk1 d0 = Inr (0, sk1', d1)"
    and "jobfd e = (jobfd d1)\<lparr>pos := pos (jobfd d)\<rparr>" "spool e = spool d1" "init_request False e = Inr e0"
    and "client_body se er junk sk2 e0 = Inr (0, sk2', e1)"
  shows "\<exists>req1 req2. stored_job (spool d1) (sint (nextjob d0)) (drop PRINTREQ_SZ (arrives (inq sk1))) req1
    \<and> stored_job (spool e1) (sint (nextjob d0)) (drop PRINTREQ_SZ (arrives (inq sk2))) req2"
proof -
  have "jobfd d1 = jobfd d0" using client_body_accepts[OF assms(2)] by blast
  then have "jobfd e = jobfd d" using assms(1,3) by (auto simp: init_request_def fread_def Let_def split: if_splits)
  then have "nextjob e0 = nextjob d0" using assms(1,5)
    by (auto simp: init_request_def Let_def split: prod.splits if_splits)
  then show ?thesis using client_body_stores[OF assms(2)] client_body_stores[OF assms(6)] by metis
qed

theorem restart_reuses_jobno_witness:
  "\<exists>d0 sk1' d1 e e0 sk2' e1 req1 req2. init_request False demo_printd = Inr d0
    \<and> client_body (\<lambda>_. []) 5 [] (demo_client ''first'') d0 = Inr (0, sk1', d1) \<and> spool e = spool d1 \<and> init_request False e = Inr e0
    \<and> client_body (\<lambda>_. []) 5 [] (demo_client ''second'') e0 = Inr (0, sk2', e1)
    \<and> stored_job (spool d1) 1 ''first'' req1 \<and> stored_job (spool e1) 1 ''second'' req2"
proof -
  have i: "init_request False d = Inr (d\<lparr>nextjob := 1\<rparr>)" if "jobfd d = \<lparr>bytes = [], pos = 0, room = 100\<rparr>" for d
    using that by (cases d) (simp add: init_request_def fread_def)
  let ?d0 = "demo_printd\<lparr>nextjob := 1\<rparr>"
  have r0: "init_request False demo_printd = Inr ?d0" by (rule i) (simp add: demo_printd_def)
  obtain sk1' d1 where r1: "client_body (\<lambda>_. []) 5 [] (demo_client ''first'') ?d0 = Inr (0, sk1', d1)"
    "spool_ready (spool d1)" "avail (spool d1) = 10000 - 5 - PRINTREQ_SZ"
    using demo_accepts[of ?d0 "''first''" "\<lambda>_. []" 5 "[]"] demo_ready by (auto simp: demo_printd_def demo_spool_def empty_q_def)
  let ?e = "demo_printd\<lparr>spool := spool d1\<rparr>" and ?e0 = "demo_printd\<lparr>spool := spool d1, nextjob := 1\<rparr>"
  have j: "jobfd d1 = jobfd ?d0" using client_body_accepts[OF r1(1)] by blast
  have r2: "init_request False ?e = Inr ?e0" using i[of ?e] by (simp add: demo_printd_def)
  obtain sk2' e1 where r3: "client_body (\<lambda>_. []) 5 [] (demo_client ''second'') ?e0 = Inr (0, sk2', e1)"
    using demo_accepts[of ?e0 "''second''" "\<lambda>_. []" 5 "[]"] r1(2,3) by (auto simp: demo_printd_def empty_q_def PRINTREQ_SZ_def USERNM_MAX_def JOBNM_MAX_def)
  have e: "jobfd ?e = (jobfd d1)\<lparr>pos := pos (jobfd demo_printd)\<rparr>" using j by (simp add: demo_printd_def)
  let ?h = "enc_req \<lparr>req_size = htonl 9, req_flags = 0, usernm = strncpy_buf USERNM_MAX ''sar'', jobnm = strncpy_buf JOBNM_MAX ''a.ps''\<rparr>"
  have h: "length ?h = PRINTREQ_SZ" by (simp add: length_enc_req strncpy_buf_def USERNM_MAX_def JOBNM_MAX_def)
  have "?h \<noteq> []" using h by (auto simp: PRINTREQ_SZ_def)
  then have a: "drop PRINTREQ_SZ (arrives (inq (demo_client t))) = t" for t using h by (simp add: demo_client_def)
  from restart_reuses_jobno[OF r0 r1(1) e _ r2 r3] obtain req1 req2
    where "stored_job (spool d1) 1 ''first'' req1" "stored_job (spool e1) 1 ''second'' req2" unfolding a by auto
  then show ?thesis using r0 r1(1) r2 r3
    by (intro exI[of _ ?d0] exI[of _ sk1'] exI[of _ d1] exI[of _ ?e] exI[of _ ?e0] exI[of _ sk2'] exI[of _ e1] exI[of _ req1] exI[of _ req2]) simp
qed

section \<open>The lists\<close>

text \<open>C15. Every sequence of appends by clients and of takes, put-backs and frees by the printer thread that
  makes sense for two sequences (the jobs that wait and those the printer thread holds) runs on the linked list
  without following a bad pointer, and leaves exactly the waiting jobs on it, in order, with both ends right.\<close>
theorem job_queue_refines:
  assumes "run_abstract q_spec ops ([], []) = Some (waiting, held)"
  shows "\<exists>q. run_concrete q_step ops empty_q = Inr q \<and> holds_jobs q (waiting, held)"
  using jobs.run_follows[OF empty_q_holds assms] .

theorem job_queue_refines_witness:
  "\<exists>q. run_concrete q_step [QAdd 10 1 (dec_req []), QAdd 20 2 (dec_req []), QTake, QBack 10, QTake, QFree 10] empty_q = Inr q
     \<and> holds_jobs q ([(20, 2, dec_req [])], [])"
  by (rule job_queue_refines) (simp add: q_spec_def)

text \<open>Defect: \<open>add_worker\<close> links a worker before the first one and leaves the head where it was. Of two
  clients at a time only the first is on the list: \<open>kill_workers\<close> does not cancel the second, and when the first
  ends, the head is left on its freed node, so that the next worker, and any signal, follows a dangling pointer.\<close>
theorem second_worker_lost:
  assumes "a \<noteq> b" "c \<noteq> a" "t1 \<noteq> t2"
  shows "\<exists>w1 w2 w3. add_worker empty_w a t1 s1 = Inr w1 \<and> add_worker w1 b t2 s2 = Inr w2
    \<and> kill_workers (fuel + 2) w2 = Inr [t1] \<and> client_cleanup (fuel + 2) w2 t1 = Inr w3
    \<and> kill_workers (fuel + 2) w3 = Inl BadPtr \<and> add_worker w3 c t3 s3 = Inl BadPtr"
proof -
  obtain w1 w2 w3 where w: "add_worker empty_w a t1 s1 = Inr w1" "add_worker w1 b t2 s2 = Inr w2"
    "client_cleanup (Suc (Suc fuel)) w2 t1 = Inr w3" "workers w3 = Some a" "wheap w3 a = None"
    using head_cleanup_dangles[OF assms(1,3), of s1 s2 fuel] by blast
  have k1: "kill_workers (Suc (Suc fuel)) w1 = Inr [t1]" "workers w1 = Some a" "wheap w1 b = None"
    using w(1) assms(1) by (auto simp: add_worker_def kill_workers_def empty_w_def wset_def wget_def Let_def)
  have "kill_workers (Suc (Suc fuel)) w2 = Inr [t1]" using add_worker_unseen[OF k1(2,3,1) w(2)] by blast
  moreover have "kill_workers (Suc (Suc fuel)) w3 = Inl BadPtr" using w(4,5) by (simp add: kill_workers_def wget_def)
  moreover have "add_worker w3 c t3 s3 = Inl BadPtr" using w(4,5) assms(2) by (simp add: add_worker_def wget_def wset_def Let_def)
  ultimately show ?thesis using w by (simp add: numeral_2_eq_2)
qed

theorem second_worker_lost_witness:
  "\<exists>w1 w2 w3. add_worker empty_w 1 10 5 = Inr w1 \<and> add_worker w1 2 11 6 = Inr w2
    \<and> kill_workers (0 + 2) w2 = Inr [10] \<and> client_cleanup (0 + 2) w2 10 = Inr w3
    \<and> kill_workers (0 + 2) w3 = Inl BadPtr \<and> add_worker w3 3 12 7 = Inl BadPtr"
  by (rule second_worker_lost) simp_all

section \<open>The queue at start\<close>

definition control_file :: "fs \<Rightarrow> int \<Rightarrow> printreq \<Rightarrow> bool" where
  "control_file s j r \<longleftrightarrow> (\<exists>f. look s (locate (cwd s) (spool_path REQDIR j)) = Some (FileN f) \<and> content f = enc_req r)
     \<and> length (usernm r) = USERNM_MAX \<and> length (jobnm r) = JOBNM_MAX"

lemma qonstart_one:
  assumes "control_file (spool d) (sint (w :: 32 word)) r" "denied (spool d) = []" "badblk (spool d) = []"
  shows "qonstart_loop d (sdec (sint w) # rest) = bindE (enqueue d r (sint w)) (\<lambda>d1. qonstart_loop d1 rest)"
proof -
  let ?j = "sint w"
  let ?p = "SPOOLDIR @ SLASH # REQDIR @ SLASH # sdec ?j"
  have p: "?p = spool_path REQDIR ?j" by (simp add: spool_path_def)
  obtain f where f: "look (spool d) (locate (cwd (spool d)) ?p) = Some (FileN f)" "content f = enc_req r"
    "length (usernm r) = USERNM_MAX" "length (jobnm r) = JOBNM_MAX" using assms(1) unfolding control_file_def p by blast
  note L = length_enc_req[OF f(3,4)] dec_enc_req[OF f(3,4)]
  have "length ?p < FILENMSZ" using length_sdec32[of w] by (simp add: SPOOLDIR_def REQDIR_def FILENMSZ_def)
  then have nb: "\<not> length ?p \<ge> FILENMSZ" by linarith
  have nd: "\<not> (sdec ?j = ''.'' \<or> sdec ?j = ''..'')"
    using isdigit_dec[of "CHR ''.''"] by (auto simp: sdec_def isdigit_def) (metis list.set_intros(1))+
  have o: "sys_open_rd (spool d) ?p = Some (locate (cwd (spool d)) ?p)" using f(1) assms(2) by (simp add: sys_open_rd_def Let_def)
  have rd: "sys_read (spool d) (locate (cwd (spool d)) ?p) 0 PRINTREQ_SZ = Some (enc_req r)"
    using f(1,2) assms(3) L(1) by (simp add: sys_read_def)
  have j: "to_int32 (atol (sdec ?j)) = ?j" by (simp add: to_int32_def)
  show ?thesis
    unfolding qonstart_loop.simps(2) Let_def if_not_P[OF nd] if_not_P[OF nb] o option.case rd L(2) j by (simp add: L(1))
qed

lemma qonstart_all:
  assumes "\<forall>w \<in> set ws. control_file (spool d) (sint (w :: 32 word)) (f w)" "denied (spool d) = []" "badblk (spool d) = []"
    and "holds_jobs (jobs d) (es, [])" "\<forall>e \<in> set es. fst e < brk d"
  shows "\<exists>d'. qonstart_loop d (map (\<lambda>w. sdec (sint w)) ws) = Inr d' \<and> spool d' = spool d
    \<and> holds_jobs (jobs d') (es @ map (\<lambda>(p, w). (p, sint w, f w)) (enumerate (brk d) ws), [])"
  using assms
proof (induction ws arbitrary: d es)
  case (Cons w ws)
  have "control_file (spool d) (sint w) (f w)" using Cons.prems(1) by simp
  note one = qonstart_one[OF this Cons.prems(2,3), of "map (\<lambda>w. sdec (sint w)) ws"]
  have "brk d \<notin> fst ` set (es @ [])" using Cons.prems(5) by auto
  from holds_jobs_add[OF Cons.prems(4) this] obtain q where q: "add_job (jobs d) (brk d) (f w) (sint w) = Inr q"
    "holds_jobs q (es @ [(brk d, sint w, f w)], [])" by blast
  let ?d = "d\<lparr>jobs := q, brk := brk d + 1\<rparr>"
  have "\<exists>d'. qonstart_loop ?d (map (\<lambda>w. sdec (sint w)) ws) = Inr d' \<and> spool d' = spool ?d
    \<and> holds_jobs (jobs d') ((es @ [(brk d, sint w, f w)]) @ map (\<lambda>(p, w). (p, sint w, f w)) (enumerate (brk ?d) ws), [])"
    by (rule Cons.IH) (use Cons.prems q(2) in \<open>auto intro: less_SucI\<close>)
  then show ?case using one q(1) by (simp add: enqueue_def)
qed simp

text \<open>At start \<open>build_qonstart\<close> puts every job whose control file is intact back on the queue, in the
  order of the directory, each with the number its file is named after and the request as it was stored.\<close>
theorem build_qonstart_requeues:
  assumes "sys_readdir (spool d) (SPOOLDIR @ SLASH # REQDIR) = Some (''.'' # ''..'' # map (\<lambda>w. sdec (sint w)) ws)"
    and "\<forall>w \<in> set ws. control_file (spool d) (sint (w :: 32 word)) (f w)" "denied (spool d) = []" "badblk (spool d) = []"
    and "jobs d = empty_q"
  shows "\<exists>d'. build_qonstart d = Inr d' \<and> spool d' = spool d
    \<and> holds_jobs (jobs d') (map (\<lambda>(p, w). (p, sint w, f w)) (enumerate (brk d) ws), [])"
  using qonstart_all[OF assms(2-4), of "[]"] empty_q_holds assms(1,5) by (simp add: build_qonstart_def)

definition demo_old_job :: printd where
  "demo_old_job = demo_printd\<lparr>spool :=
     setn (setn demo_spool [''var'', ''spool'', ''printer'', ''reqs''] (DirN [''7'']))
       [''var'', ''spool'', ''printer'', ''reqs'', ''7''] (FileN \<lparr>content = enc_req (request_of (replicate 400 NUL) 1), mtime = 0, atime = 0, fmode = 420\<rparr>)\<rparr>"

lemma demo_old_files:
  "sys_readdir (spool demo_old_job) (SPOOLDIR @ SLASH # REQDIR) = Some (''.'' # ''..'' # map (\<lambda>w. sdec (sint w)) [7 :: 32 word])"
  "\<forall>w \<in> set [7 :: 32 word]. control_file (spool demo_old_job) (sint w) (request_of (replicate 400 NUL) 1)"
  "denied (spool demo_old_job) = []" "badblk (spool demo_old_job) = []" "jobs demo_old_job = empty_q"
proof -
  have s: "sdec 7 = ''7''" by code_simp
  have l: "locate (cwd demo_spool) (spool_path REQDIR 7) = [''var'', ''spool'', ''printer'', ''reqs'', ''7'']"
    by (simp add: spool_loc(2) s)
  show "sys_readdir (spool demo_old_job) (SPOOLDIR @ SLASH # REQDIR) = Some (''.'' # ''..'' # map (\<lambda>w. sdec (sint w)) [7 :: 32 word])"
    by (simp add: sys_readdir_def demo_old_job_def demo_printd_def demo_spool_def s locate_def comps_def walk_def SPOOLDIR_def REQDIR_def)
  show "\<forall>w \<in> set [7 :: 32 word]. control_file (spool demo_old_job) (sint w) (request_of (replicate 400 NUL) 1)"
    by (simp add: control_file_def demo_old_job_def l request_of_def dec_req_def USERNM_MAX_def JOBNM_MAX_def)
qed (simp_all add: demo_old_job_def demo_printd_def demo_spool_def)

lemma build_qonstart_total_demo: "\<exists>d. build_qonstart demo_old_job = Inr d"
  using qonstart_all[OF demo_old_files(2-4), of "[]"] empty_q_holds demo_old_files(1,5) by (auto simp: build_qonstart_def)

theorem build_qonstart_requeues_witness:
  "\<exists>d'. build_qonstart demo_old_job = Inr d' \<and> spool d' = spool demo_old_job
    \<and> holds_jobs (jobs d') ([(0, 7, request_of (replicate 400 NUL) 1)], [])"
  using build_qonstart_requeues[OF demo_old_files] by (simp add: demo_old_job_def demo_printd_def enumerate_eq_zip)

end
