(* ===== verification/PrintWire.thy ===== *)
theory PrintWire
  imports PrintClient PrintProps
begin

text \<open>
  What the print daemon puts on the wire and what becomes of a job: the IPP request parses back with a parser
  of the format, the announced content length is that of the body, a job leaves the queue only when the printer
  took it or its data is gone, and what the client command sends is what the daemon stores. The configuration
  file is searched like a list of keyword and value pairs.
\<close>

section \<open>The IPP request\<close>

function parse_attrs :: "string \<Rightarrow> (nat \<times> string \<times> string) list option" where
  \<comment> \<open>tag, name and value of each attribute, up to the end tag, which must be the last byte\<close>
  "parse_attrs s = (case s of [] \<Rightarrow> None | c # r \<Rightarrow>
     if of_char c = TAG_END_OF_ATTR then if r = [] then Some [] else None
     else if length r < 2 then None
     else let n = get_be16 r; r1 = drop (2 + n) r; m = get_be16 r1 in
       if length r1 < 2 + m then None
       else map_option (Cons (of_char c, take n (drop 2 r), take m (drop 2 r1))) (parse_attrs (drop (2 + m) r1)))"
  by pat_completeness auto
termination by (relation "measure length") auto

declare parse_attrs.simps [simp del]

definition parse_ipp :: "string \<Rightarrow> (nat \<times> nat \<times> nat \<times> 32 word \<times> (nat \<times> string \<times> string) list) option" where
  \<comment> \<open>version, operation, request number and the attributes of one group\<close>
  "parse_ipp s = (if length s < 9 \<or> of_char (s ! 8) \<noteq> TAG_OPERATION_ATTR then None
     else map_option (\<lambda>as. (of_char (s ! 0), of_char (s ! 1), get_be16 (drop 2 s), get_be32 (drop 4 s), as)) (parse_attrs (drop 9 s)))"

definition attr :: "nat \<Rightarrow> string \<Rightarrow> string \<Rightarrow> string" where
  "attr tag n v = char_of tag # be16 (length n) @ n @ be16 (length v) @ v"

lemma add_option_attr: "add_option buf tag n v = buf @ attr tag n v"
  by (simp add: add_option_def attr_def)

lemma length_attr: "length (attr tag n v) = 5 + length n + length v"
  by (simp add: attr_def)

lemma parse_attr:
  assumes "tag < 256" "tag \<noteq> TAG_END_OF_ATTR" "length n < 65536" "length v < 65536"
  shows "parse_attrs (attr tag n v @ rest) = map_option (Cons (tag, n, v)) (parse_attrs rest)"
proof -
  let ?r1 = "be16 (length v) @ v @ rest"
  have d: "drop (2 + length n) (be16 (length n) @ n @ ?r1) = ?r1" "drop (2 + length v) ?r1 = rest"
    "take (length n) (drop 2 (be16 (length n) @ n @ ?r1)) = n" "take (length v) (drop 2 ?r1) = v" by simp_all
  have g: "get_be16 (be16 (length n) @ n @ ?r1) = length n" "get_be16 ?r1 = length v"
    using get_be16_be16 assms(3,4) by blast+
  have c: "(of_char (char_of tag :: char) :: nat) = tag" using assms(1) by simp
  show ?thesis
    unfolding attr_def append_Cons append_assoc
    by (subst parse_attrs.simps) (simp only: list.case c assms(2) if_False Let_def g d, simp)
qed

lemma parse_end: "parse_attrs [char_of TAG_END_OF_ATTR] = Some []"
  by (simp add: parse_attrs.simps TAG_END_OF_ATTR_def)

definition ipp_attrs :: "string \<Rightarrow> printreq \<Rightarrow> string \<Rightarrow> string \<Rightarrow> (nat \<times> string \<times> string) list" where
  "ipp_attrs pname r user job =
     [(TAG_CHARSET, ''attributes-charset'', ''utf-8''), (TAG_NATULANG, ''attributes-natural-language'', ''en-us''),
      (TAG_URI, ''printer-uri'', ''http://'' @ pname @ ''/ipp''), (TAG_NAMEWOLANG, ''requesting-user-name'', user),
      (TAG_NAMEWOLANG, ''job-name'', job), (TAG_MIMETYPE, ''document-format'', doc_format r)]"

definition ipp_bytes :: "string \<Rightarrow> printreq \<Rightarrow> int \<Rightarrow> string \<Rightarrow> string \<Rightarrow> string" where
  "ipp_bytes pname r jid user job =
     [char_of (1::nat), char_of (1::nat)] @ be16 OP_PRINT_JOB @ be32 (word_of_int jid) @ [char_of TAG_OPERATION_ATTR]
     @ concat (map (\<lambda>(t, n, v). attr t n v) (ipp_attrs pname r user job)) @ [char_of TAG_END_OF_ATTR]"

lemma ipp_header_bytes:
  "ipp_header pname r jid =
     bindE (c_field (usernm r @ jobnm r)) (\<lambda>user. bindE (c_field (jobnm r)) (\<lambda>job.
       if 53 \<le> length pname \<or> length (ipp_bytes pname r jid user job) > IBUFSZ then Inl BadBuf else Inr (ipp_bytes pname r jid user job)))"
proof -
  have "64 \<le> length (''http://'' @ pname @ ''/ipp'') \<longleftrightarrow> 53 \<le> length pname" by simp
  then show ?thesis by (simp only: ipp_header_def Let_def add_option_attr ipp_bytes_def ipp_attrs_def list.map prod.case concat.simps
      append_assoc append_Nil2)
qed

lemma parse_concat:
  assumes "\<forall>(t, n, v) \<in> set as. t < 256 \<and> t \<noteq> TAG_END_OF_ATTR \<and> length n < 65536 \<and> length v < 65536"
  shows "parse_attrs (concat (map (\<lambda>(t, n, v). attr t n v) as) @ [char_of TAG_END_OF_ATTR]) = Some as"
  using assms
proof (induction as)
  case (Cons a as)
  obtain t n v where a: "a = (t, n, v)" by (cases a)
  then show ?case using Cons parse_attr[of t n v] by simp
qed (simp add: parse_end)

text \<open>C19. The IPP header that \<open>printer_thread\<close> builds parses back to what went in: version 1.1, the print
  operation, the number of the job and the six attributes, with the names of the user and the job as C strings;
  it fits its buffer.\<close>
theorem ipp_header_parses:
  assumes "ipp_header pname r jid = Inr ibuf"
  shows "parse_ipp ibuf = Some (1, 1, OP_PRINT_JOB, word_of_int jid, ipp_attrs pname r (cstr (usernm r @ jobnm r)) (cstr (jobnm r)))
    \<and> length ibuf \<le> IBUFSZ"
proof -
  let ?u = "cstr (usernm r @ jobnm r)" and ?j = "cstr (jobnm r)"
  let ?as = "ipp_attrs pname r ?u ?j"
  have b: "ibuf = ipp_bytes pname r jid ?u ?j" "length ibuf \<le> IBUFSZ"
    using assms by (auto simp: ipp_header_bytes c_field_def split: if_splits)
  have len: "length (ipp_bytes pname r jid ?u ?j) \<le> 512" using b unfolding IBUFSZ_def by simp
  have "length ?u \<le> 512" "length ?j \<le> 512" "length pname \<le> 512"
    using len by (simp_all add: ipp_bytes_def ipp_attrs_def length_attr)
  then have ok: "\<forall>(t, n, v) \<in> set ?as. t < 256 \<and> t \<noteq> TAG_END_OF_ATTR \<and> length n < 65536 \<and> length v < 65536"
    by (simp add: ipp_attrs_def ipp_tags doc_format_def)
  note p = parse_concat[OF ok]
  have "drop 9 ibuf = concat (map (\<lambda>(t, n, v). attr t n v) ?as) @ [char_of TAG_END_OF_ATTR]"
    unfolding b(1) ipp_bytes_def by (simp add: be16_def be32_def)
  moreover have "of_char (ibuf ! 8) = TAG_OPERATION_ATTR" "\<not> length ibuf < 9" "(of_char (ibuf ! 0) :: nat) = 1" "(of_char (ibuf ! 1) :: nat) = 1"
    unfolding b(1) ipp_bytes_def by (simp_all add: be16_def be32_def TAG_OPERATION_ATTR_def)
  moreover have "get_be16 (drop 2 ibuf) = OP_PRINT_JOB" "get_be32 (drop 4 ibuf) = word_of_int jid"
    unfolding b(1) ipp_bytes_def by (simp_all add: get_be16_be16 OP_PRINT_JOB_def)
  ultimately show ?thesis using p b(2) by (simp add: parse_ipp_def)
qed

definition demo_req :: printreq where
  "demo_req = \<lparr>req_size = 9, req_flags = 0, usernm = ''sar'' @ replicate 61 NUL, jobnm = ''a.ps'' @ replicate 252 NUL\<rparr>"

lemma demo_names: "NUL \<in> set (usernm demo_req)" "NUL \<in> set (jobnm demo_req)" "cstr (usernm demo_req @ jobnm demo_req) = ''sar''"
    "cstr (jobnm demo_req) = ''a.ps''" "req_flags demo_req = 0"
  by (simp_all add: demo_req_def numeral_eq_Suc cstr_def)

theorem ipp_header_parses_witness:
  "\<exists>ibuf. ipp_header ''printer'' demo_req 5 = Inr ibuf \<and> length ibuf \<le> 512
    \<and> (\<exists>as. parse_ipp ibuf = Some (1, 1, 2, 5, as) \<and> (66, ''job-name'', ''a.ps'') \<in> set as)"
proof -
  have "NUL \<in> set (usernm demo_req @ jobnm demo_req)" using demo_names(1) by simp
  then obtain ibuf where b: "ipp_header ''printer'' demo_req 5 = Inr ibuf"
    using demo_names by (simp add: ipp_header_bytes c_field_def ipp_bytes_def ipp_attrs_def length_attr doc_format_def IBUFSZ_def)
  show ?thesis using ipp_header_parses[OF b] b demo_names
    by (simp add: IBUFSZ_def OP_PRINT_JOB_def ipp_attrs_def TAG_NAMEWOLANG_def)
qed

text \<open>Bound of the header: for names that are C strings it overflows its 512 bytes, or the name of the printer
  the 64 bytes of the address, exactly when the four variable parts are too long together. A request with
  the longest legal names does so as soon as the name of the printer has 13 characters (25 for plain text).\<close>
theorem ipp_header_overflow:
  assumes "NUL \<in> set (usernm r)" "NUL \<in> set (jobnm r)"
  shows "ipp_header pname r jid = Inl BadBuf \<longleftrightarrow>
    53 \<le> length pname \<or> 352 < length pname + length (cstr (usernm r)) + length (cstr (jobnm r)) + length (doc_format r)"
proof -
  have u: "cstr (usernm r @ jobnm r) = cstr (usernm r)" using assms(1) by (simp add: cstr_def takeWhile_append1)
  have "length (ipp_bytes pname r jid user job) = 160 + length pname + length user + length job + length (doc_format r)" for user job
    by (simp add: ipp_bytes_def ipp_attrs_def length_attr)
  then show ?thesis using assms by (simp add: ipp_header_bytes c_field_def u IBUFSZ_def)
qed

theorem ipp_header_overflow_witness:
  "ipp_header ''printer'' demo_req 5 \<noteq> Inl BadBuf \<and> ipp_header (replicate 53 CHR ''p'') demo_req 5 = Inl BadBuf"
  using ipp_header_overflow[OF demo_names(1,2), of "''printer''" 5] ipp_header_overflow[OF demo_names(1,2), of "replicate 53 CHR ''p''" 5]
  by (simp add: demo_req_def doc_format_def cstr_def numeral_eq_Suc)

section \<open>What a round of the printer thread sends\<close>

lemmas tread_outq = timed_reader.quiet

lemma more_header_outq: "more_header junk sk bp i datsz b = Inr (sk1, r) \<Longrightarrow> outq sk1 = outq sk"
  by (auto simp: more_header_def readmore_def Let_def split: if_splits prod.splits option.splits dest: tread_outq)

lemma cl_loop_outq: "cl_loop fuel junk sk bp i datsz = Inr (sk1, r) \<Longrightarrow> outq sk1 = outq sk"
proof (induction fuel arbitrary: sk bp i datsz)
  case (Suc fuel)
  obtain i1 sk2 r2 where m: "more_header junk sk bp i1 datsz (datsz \<le> i1) = Inr (sk2, r2)"
    "(case r2 of None \<Rightarrow> Inr (sk2, None)
       | Some (bp1, datsz1) \<Rightarrow>
           bindE (casecmp_at bp1 i1 ''content-length:'') (\<lambda>eq.
             if eq then bindE (skip_while isspace bp1 (i1 + 15)) (\<lambda>j. bindE (skip_while isdigit bp1 j) (\<lambda>k.
                        bindE (poke bp1 k NUL) (\<lambda>bp2. Inr (sk2, Some (bp2, k + 1, datsz1, atol (cstr (drop j bp2)))))))
             else cl_loop fuel junk sk2 bp1 (Suc i1) datsz1)) = Inr (sk1, r)"
    using Suc.prems by (auto simp del: casecmp_at.simps)
  note o = more_header_outq[OF m(1)]
  show ?case
  proof (cases r2)
    case None
    then show ?thesis using m(2) o by simp
  next
    case (Some x)
    obtain bp1 datsz1 where x: "x = (bp1, datsz1)" by (cases x)
    obtain eq where eq: "casecmp_at bp1 i1 ''content-length:'' = Inr eq"
      "(if eq then bindE (skip_while isspace bp1 (i1 + 15)) (\<lambda>j. bindE (skip_while isdigit bp1 j) (\<lambda>k.
                        bindE (poke bp1 k NUL) (\<lambda>bp2. Inr (sk2, Some (bp2, k + 1, datsz1, atol (cstr (drop j bp2)))))))
             else cl_loop fuel junk sk2 bp1 (Suc i1) datsz1) = Inr (sk1, r)"
      using m(2) Some x by (auto simp del: casecmp_at.simps)
    then show ?thesis using o Suc.IH[of sk2 bp1 "Suc i1" datsz1] by (cases eq) auto
  qed
qed simp

lemma hdr_loop_outq: "hdr_loop fuel junk sk bp i datsz = Inr (sk1, r) \<Longrightarrow> outq sk1 = outq sk"
proof (induction fuel arbitrary: sk bp i datsz)
  case (Suc fuel)
  then show ?case by (fastforce split: option.splits if_splits prod.splits dest: more_header_outq)
qed simp

lemma ok_response_outq: "ok_response fuel junk sk bp i datsz jid = Inr (b, sk1) \<Longrightarrow> outq sk1 = outq sk"
  unfolding ok_response_def ipp_status_def
  by (auto simp: Let_def split: option.splits if_splits dest!: cl_loop_outq more_header_outq hdr_loop_outq)

lemma status_outq: "status_loop fuel junk sk bp jid = Inr (b, sk1) \<Longrightarrow> outq sk1 = outq sk"
proof (induction fuel arbitrary: sk bp)
  case (Suc fuel)
  obtain t sk2 where t: "tread sk (length bp) = (t, sk2)" by (cases "tread sk (length bp)")
  note o = tread_outq[OF t]
  consider "t = None \<or> t = Some []" | s where "t = Some s" "s \<noteq> []" by (cases t) auto
  then show ?case
  proof cases
    case 1
    then show ?thesis using Suc.prems t o by auto
  next
    case (2 s)
    then show ?thesis using Suc.prems t o Suc.IH[of sk2]
      by (auto simp: Let_def split: if_splits dest!: ok_response_outq Suc.IH)
  qed
qed simp

lemma send_loop_spec:
  assumes "send_loop fuel fs fd off sk = Inr (True, sk')" "look fs fd = Some (FileN f)"
  shows "outq sk' = outq sk @ drop off (content f)"
  using assms
proof (induction fuel arbitrary: off sk)
  case (Suc fuel)
  have B: "0 < IOBUFSZ" by (simp add: IOBUFSZ_def)
  obtain buf where buf: "sys_read fs fd off IOBUFSZ = Some buf" using Suc.prems(1) by (auto split: option.splits)
  consider "buf = []" "length (content f) \<le> off"
    | "buf \<noteq> []" "buf = take (length buf) (drop off (content f))" using sys_read_cases[OF Suc.prems(2) B, of off] buf by auto
  then show ?case
  proof cases
    case 1
    then show ?thesis using Suc.prems buf by simp
  next
    case 2
    obtain nw sk1 where w: "writen sk buf = (nw, sk1)" by (cases "writen sk buf")
    have r: "nw = int (length buf)" "send_loop fuel fs fd (off + length buf) sk1 = Inr (True, sk')"
      using Suc.prems(1) buf 2(1) w by (auto split: if_splits)
    obtain k where k: "k \<le> length buf" "outq sk1 = outq sk @ take k buf" "nw = int k \<or> nw = -1 \<and> k = 0"
      by (rule writen_spec[OF w])
    have o1: "outq sk1 = outq sk @ buf" using k r(1) by auto
    have "buf @ drop (off + length buf) (content f) = drop off (content f)"
      using 2(2) by (metis append_take_drop_id drop_drop add.commute)
    then show ?thesis using Suc.IH[OF r(2) Suc.prems(2)] o1 by simp
  qed
qed simp

lemma write_fd_full: "write_fd sk s = (Some (length s), sk1) \<Longrightarrow> outq sk1 = outq sk @ s"
  by (auto simp: write_fd_def min_def split: list.splits wr.splits if_splits)

text \<open>When \<open>printer_thread\<close> takes a job as printed, the bytes it sent are a HTTP header whose content length is
  exactly that of the body, and the body: the IPP header, a backspace for plain text, and the whole data file.\<close>
theorem content_length_exact:
  assumes "send_job fuel junk d jp fd sk = Inr (True, sk')" "look (spool d) fd = Some (FileN f)"
  shows "\<exists>ibuf hbuf body. ipp_header (printer_name d) (jreq jp) (jobid jp) = Inr ibuf
    \<and> body = ibuf @ (if req_flags (jreq jp) AND PR_TEXT \<noteq> 0 then [CHR 0x08] else []) @ content f
    \<and> http_header (printer_name d) (length body) = Inr hbuf \<and> outq sk' = outq sk @ hbuf @ body"
proof -
  let ?t = "req_flags (jreq jp) AND PR_TEXT \<noteq> 0"
  let ?x = "if ?t then [CHR 0x08] else []"
  obtain ibuf where i: "ipp_header (printer_name d) (jreq jp) (jobid jp) = Inr ibuf"
    using assms(1) unfolding send_job_def by auto
  let ?n = "file_len (spool d) fd + length ibuf + (if ?t then 1 else 0)"
  obtain hbuf where h: "http_header (printer_name d) ?n = Inr hbuf"
    using assms(1) i unfolding send_job_def Let_def by auto
  obtain n sk1 where w: "write_fd sk (hbuf @ ibuf) = (n, sk1)" by (cases "write_fd sk (hbuf @ ibuf)")
  obtain m sk2 where x: "(if ?t then write_fd sk1 [CHR 0x08] else (Some 1, sk1)) = (m, sk2)"
    by (cases "if ?t then write_fd sk1 [CHR 0x08] else (Some 1, sk1)")
  note run = assms(1)[unfolded send_job_def Let_def i bindE_simps h w x prod.case]
  have n: "n = Some (length (hbuf @ ibuf))" using run by (auto split: if_splits)
  have m: "m = Some 1" using run n by (auto split: if_splits)
  obtain sk3 where l: "send_loop (Suc (file_len (spool d) fd)) (spool d) fd 0 sk2 = Inr (True, sk3)"
    "printer_status fuel junk sk3 (jobid jp) = Inr (True, sk')"
    using run n m by (auto split: if_splits simp del: send_loop.simps)
  have "outq sk2 = outq sk1 @ ?x"
    using x m write_fd_full[of sk1 "[CHR 0x08]" sk2] by (cases ?t) auto
  moreover have "outq sk1 = outq sk @ hbuf @ ibuf" using write_fd_full[of sk "hbuf @ ibuf"] w n by simp
  ultimately have o: "outq sk' = outq sk @ hbuf @ (ibuf @ ?x @ content f)"
    using send_loop_spec[OF l(1) assms(2)] status_outq[OF l(2)[unfolded printer_status_def]] by simp
  have "?n = length (ibuf @ ?x @ content f)" using assms(2) by (simp add: file_len_def)
  note h1 = h[unfolded this]
  show ?thesis by (rule exI[of _ ibuf], rule exI[of _ hbuf], rule exI[of _ "ibuf @ ?x @ content f"], intro conjI i refl h1 o)
qed

section \<open>What becomes of a job\<close>

lemma update_jobno_keeps: "update_jobno d = Inr d1 \<Longrightarrow> jobs d1 = jobs d \<and> spool d1 = spool d"
  by (auto simp: update_jobno_def Let_def split: prod.splits if_splits)

lemma reread_keeps: "(if reread d then init_printer addr (d\<lparr>reread := False\<rparr>) else Inr d) = Inr d1 \<Longrightarrow> jobs d1 = jobs d \<and> spool d1 = spool d"
  by (auto simp: init_printer_def split: if_splits option.splits)

lemma held_filter: "holds_jobs q (ws, e # hs) \<Longrightarrow> filter (\<lambda>x. fst x \<noteq> fst e) (e # hs) = hs"
  by (auto simp: holds_jobs_def filter_id_conv intro: rev_image_eqI)

lemma printer_step_run:
  assumes "holds_jobs (jobs d) ((p, i, r) # ws, hs)" "printer_step fuel junk addr conn d = Inr (conn', d')"
  obtains d2 n where "jobid n = i" "jreq n = r" "spool d2 = spool d" "holds_jobs (jobs d2) (ws, (p, i, r) # hs)"
    "(case sys_open_rd (spool d) (spool_path DATADIR i) of
              None \<Rightarrow> Inr (None, d2\<lparr>jobs := jfree (jobs d2) p\<rparr>)
            | Some fd \<Rightarrow>
                bindE (case conn of None \<Rightarrow> Inr (False, None)
                       | Some sk \<Rightarrow> bindE (send_job fuel junk d2 n fd sk) (\<lambda>(ok, sk1). Inr (ok, Some sk1))) (\<lambda>(ok, conn1).
                  if ok then
                    Inr (conn1, d2\<lparr>spool := snd (sys_unlink (snd (sys_unlink (spool d) (spool_path DATADIR i))) (spool_path REQDIR i)),
                                  jobs := jfree (jobs d2) p\<rparr>)
                  else bindE (replace_job (jobs d2) p) (\<lambda>q2. Inr (conn1, d2\<lparr>jobs := q2\<rparr>)))) = Inr (conn', d')"
proof -
  obtain q1 where q1: "jobhead (jobs d) = Some p" "remove_job (jobs d) p = Inr q1" "holds_jobs q1 (ws, (p, i, r) # hs)"
    using holds_jobs_take[OF assms(1)] by auto
  note run = assms(2)[unfolded printer_step_def q1(1) option.case q1(2) bindE_simps]
  obtain d1 where d1: "update_jobno (d\<lparr>jobs := q1\<rparr>) = Inr d1" using run by auto
  note k1 = update_jobno_keeps[OF d1]
  note run1 = run[unfolded d1 bindE_simps]
  obtain d2 where d2: "(if reread d1 then init_printer addr (d1\<lparr>reread := False\<rparr>) else Inr d1) = Inr d2" using run1 by auto
  note k2 = reread_keeps[OF d2]
  note run2 = run1[unfolded d2 bindE_simps]
  have j2: "jobs d2 = q1" "spool d2 = spool d" using k1 k2 by simp_all
  obtain n where n: "jget (jobs d2) p = Inr n" using run2 by auto
  have "entry q1 p = (i, r)" using q1(3) by (simp add: holds_jobs_def)
  then have ji: "jobid n = i" "jreq n = r" using n j2(1) by (auto simp: jget_def entry_def split: option.splits)
  have h2: "holds_jobs (jobs d2) (ws, (p, i, r) # hs)" using q1(3) j2(1) by simp
  show thesis by (rule that[OF ji j2(2) h2 run2[unfolded n bindE_simps Let_def ji j2(2)]])
qed

lemma printer_step_outcome:
  assumes "holds_jobs (jobs d) ((p, i, r) # ws, hs)" "printer_step fuel junk addr conn d = Inr (conn', d')"
  shows "holds_jobs (jobs d') ((p, i, r) # ws, hs) \<and> spool d' = spool d
    \<or> holds_jobs (jobs d') (ws, hs) \<and> sys_open_rd (spool d) (spool_path DATADIR i) = None \<and> spool d' = spool d
    \<or> holds_jobs (jobs d') (ws, hs) \<and> (\<exists>fd sk sk' d2 n. sys_open_rd (spool d) (spool_path DATADIR i) = Some fd \<and> conn = Some sk
        \<and> jobid n = i \<and> jreq n = r \<and> spool d2 = spool d \<and> send_job fuel junk d2 n fd sk = Inr (True, sk'))"
proof -
  obtain d2 n where n: "jobid n = i" "jreq n = r" "spool d2 = spool d" and h: "holds_jobs (jobs d2) (ws, (p, i, r) # hs)"
    and run: "(case sys_open_rd (spool d) (spool_path DATADIR i) of
              None \<Rightarrow> Inr (None, d2\<lparr>jobs := jfree (jobs d2) p\<rparr>)
            | Some fd \<Rightarrow>
                bindE (case conn of None \<Rightarrow> Inr (False, None)
                       | Some sk \<Rightarrow> bindE (send_job fuel junk d2 n fd sk) (\<lambda>(ok, sk1). Inr (ok, Some sk1))) (\<lambda>(ok, conn1).
                  if ok then
                    Inr (conn1, d2\<lparr>spool := snd (sys_unlink (snd (sys_unlink (spool d) (spool_path DATADIR i))) (spool_path REQDIR i)),
                                  jobs := jfree (jobs d2) p\<rparr>)
                  else bindE (replace_job (jobs d2) p) (\<lambda>q2. Inr (conn1, d2\<lparr>jobs := q2\<rparr>)))) = Inr (conn', d')"
    by (rule printer_step_run[OF assms])
  have f: "filter (\<lambda>x. fst x \<noteq> p) ((p, i, r) # hs) = hs" using held_filter[OF h] by simp
  have gone: "holds_jobs (jfree (jobs d2) p) (ws, hs)" using holds_jobs_free[OF h, of p] f by simp
  obtain q2 where bk: "replace_job (jobs d2) p = Inr q2" "holds_jobs q2 ((p, i, r) # ws, hs)"
    using holds_jobs_back[OF h, of "(p, i, r)"] f by auto
  show ?thesis
  proof (cases "sys_open_rd (spool d) (spool_path DATADIR i)")
    case None
    then show ?thesis using run gone n(3) by auto
  next
    case (Some fd)
    show ?thesis
    proof (cases conn)
      case None
      then show ?thesis using run Some bk n(3) by auto
    next
      case c: (Some sk)
      obtain ok sk1 where s: "send_job fuel junk d2 n fd sk = Inr (ok, sk1)" using run Some c by auto
      show ?thesis
      proof (cases ok)
        case True
        then have "jobs d' = jfree (jobs d2) p" using run Some c s by auto
        then show ?thesis using Some c s True gone n by auto
      next
        case False
        then show ?thesis using run Some c s bk n(3) by auto
      qed
    qed
  qed
qed

text \<open>C18. The printer thread does not lose a job: after a round the job it took stands at the head of the queue
  again, with the spool directory as it was, or its data file could not be opened, or the printer has
  confirmed the request for this job. The jobs behind it stay in order.\<close>
theorem printer_step_keeps_jobs:
  assumes "holds_jobs (jobs d) ((p, i, r) # ws, hs)" "printer_step fuel junk addr conn d = Inr (conn', d')"
  shows "holds_jobs (jobs d') ((p, i, r) # ws, hs) \<and> spool d' = spool d
    \<or> holds_jobs (jobs d') (ws, hs) \<and> sys_open_rd (spool d) (spool_path DATADIR i) = None \<and> spool d' = spool d
    \<or> holds_jobs (jobs d') (ws, hs) \<and> (\<exists>fd sk sk' d2 n. sys_open_rd (spool d) (spool_path DATADIR i) = Some fd \<and> conn = Some sk
        \<and> jobid n = i \<and> jreq n = r \<and> spool d2 = spool d \<and> send_job fuel junk d2 n fd sk = Inr (True, sk'))"
  by (rule printer_step_outcome[OF assms])

definition demo_answer :: string where
  "demo_answer = http_head ''HTTP/1.1'' 200 ''OK'' [] 9 @ [CR, NL] @ [char_of (1::nat), char_of (1::nat), NUL, NUL] @ be32 5 @ [char_of (3::nat)]"

definition demo_printer :: sock where
  "demo_printer = \<lparr>inq = [RData demo_answer], outq = [], wrq = []\<rparr>"

lemma demo_answer_length: "length demo_answer \<le> IOBUFSZ" "demo_answer \<noteq> []"
proof -
  have "length (dec 200) \<le> 3" "length (dec 9) \<le> 1" using length_dec_less[of 200 3] length_dec_less[of 9 1] by simp_all
  then show "length demo_answer \<le> IOBUFSZ" by (simp add: demo_answer_def http_head_def IOBUFSZ_def)
  show "demo_answer \<noteq> []" by (simp add: demo_answer_def)
qed

lemma demo_status: "printer_status 2 junk (sk\<lparr>inq := [RData demo_answer]\<rparr>) 5 = Inr (True, sk\<lparr>inq := []\<rparr>)"
proof -
  have t: "tread (sk\<lparr>inq := [RData demo_answer]\<rparr>) IOBUFSZ = (Some (http_head ''HTTP/1.1'' 200 ''OK'' [] 9 @ [CR, NL]
      @ [char_of (1::nat), char_of (1::nat), NUL, NUL] @ be32 5 @ [char_of (3::nat)]), sk\<lparr>inq := []\<rparr>)"
    using demo_answer_length(1) by (simp add: tread_def read_fd_def demo_answer_def)
  have p: "plain_head ''HTTP/1.1'' 200 ''OK'' []" by (simp add: plain_head_def)
  have l: "length (http_head ''HTTP/1.1'' 200 ''OK'' [] 9 @ [CR, NL] @ [char_of (1::nat), char_of (1::nat), NUL, NUL] @ be32 5 @ [char_of (3::nat)]) \<le> IOBUFSZ"
    using demo_answer_length(1) unfolding demo_answer_def .
  have "sint (5 :: 32 word) = 5" by simp
  moreover have "take 4 (drop 4 ([char_of (1::nat), char_of (1::nat), NUL, NUL] @ be32 5 @ [char_of (3::nat)])) = be32 5" by simp
  moreover have "get_be32 (be32 5) = 5" using get_be32_be32[of 5 "[]"] by simp
  moreover have "get_be16 (take 2 (drop 2 ([char_of (1::nat), char_of (1::nat), NUL, NUL] @ be32 5 @ [char_of (3::nat)]))) = 0"
    by (simp add: get_be16_def)
  moreover have "8 \<le> length ([char_of (1::nat), char_of (1::nat), NUL, NUL] @ be32 5 @ [char_of (3::nat)] :: string)"
    "9 \<le> length ([char_of (1::nat), char_of (1::nat), NUL, NUL] @ be32 5 @ [char_of (3::nat)] :: string)" by simp_all
  ultimately show ?thesis using status_whole[OF p t l, of 0 junk 5] by (simp add: numeral_2_eq_2)
qed

lemma demo_send:
  assumes "look (spool d) fd = Some (FileN f)" "content f = ''page''" "badblk (spool d) = []" "printer_name d = ''printer''"
    "jobid n = 5" "jreq n = demo_req"
  shows "\<exists>sk'. send_job 2 [] d n fd demo_printer = Inr (True, sk')"
proof -
  have "NUL \<in> set (usernm demo_req @ jobnm demo_req)" using demo_names(1) by simp
  then obtain ibuf where i: "ipp_header ''printer'' demo_req 5 = Inr ibuf" "length ibuf \<le> 512"
    using demo_names by (simp add: ipp_header_bytes c_field_def ipp_bytes_def ipp_attrs_def length_attr doc_format_def IBUFSZ_def)
  have "length (dec (4 + length ibuf)) \<le> 3" "length (dec 631) \<le> 3" using length_dec_less[of _ 3] i(2) by simp_all
  then obtain hbuf where h: "http_header ''printer'' (4 + length ibuf) = Inr hbuf"
    by (simp add: http_header_def HBUFSZ_def IPP_PORT_def)
  have fl: "file_len (spool d) fd = 4" using assms(1,2) by (simp add: file_len_def)
  have r: "sys_read (spool d) fd 0 IOBUFSZ = Some ''page''" "sys_read (spool d) fd 4 IOBUFSZ = Some []"
    using assms(1-3) by (simp_all add: sys_read_def IOBUFSZ_def)
  have w: "write_fd demo_printer (hbuf @ ibuf) = (Some (length hbuf + length ibuf), demo_printer\<lparr>outq := hbuf @ ibuf\<rparr>)"
    by (simp add: write_fd_def demo_printer_def)
  have l: "send_loop (Suc 4) (spool d) fd 0 (demo_printer\<lparr>outq := hbuf @ ibuf\<rparr>) = Inr (True, demo_printer\<lparr>outq := hbuf @ ibuf @ ''page''\<rparr>)"
    using r by (simp add: demo_printer_def numeral_eq_Suc)
  have s: "printer_status 2 [] (demo_printer\<lparr>outq := hbuf @ ibuf @ ''page''\<rparr>) 5 = Inr (True, demo_printer\<lparr>outq := hbuf @ ibuf @ ''page'', inq := []\<rparr>)"
    using demo_status[of "[]" "demo_printer\<lparr>outq := hbuf @ ibuf @ ''page''\<rparr>"] by (simp add: demo_printer_def)
  show ?thesis unfolding send_job_def assms(4-6) i(1) bindE_simps Let_def demo_names(5) fl
    using l by (simp add: h w s del: send_loop.simps)
qed

definition demo_page :: fs where
  "demo_page = setn demo_spool [''var'', ''spool'', ''printer'', ''data'', ''5''] (FileN \<lparr>content = ''page'', mtime = 0, atime = 0, fmode = 420\<rparr>)"

definition demo_job :: job where
  "demo_job = \<lparr>jnext = None, jprev = None, jobid = 5, jreq = demo_req\<rparr>"

lemma demo_page_look: "look demo_page [''var'', ''spool'', ''printer'', ''data'', ''5''] = Some (FileN \<lparr>content = ''page'', mtime = 0, atime = 0, fmode = 420\<rparr>)"
    "badblk demo_page = []" "sys_open_rd demo_page (spool_path DATADIR 5) = Some [''var'', ''spool'', ''printer'', ''data'', ''5'']"
proof -
  have s: "sdec 5 = ''5''" by code_simp
  show "look demo_page [''var'', ''spool'', ''printer'', ''data'', ''5''] = Some (FileN \<lparr>content = ''page'', mtime = 0, atime = 0, fmode = 420\<rparr>)"
    "badblk demo_page = []" by (simp_all add: demo_page_def demo_spool_def)
  show "sys_open_rd demo_page (spool_path DATADIR 5) = Some [''var'', ''spool'', ''printer'', ''data'', ''5'']"
    by (simp add: sys_open_rd_def spool_loc(1) s spool_path_ne demo_page_def demo_spool_def Let_def)
qed

theorem content_length_exact_witness:
  "\<exists>sk' hbuf ibuf. send_job 2 [] (demo_printd\<lparr>spool := demo_page\<rparr>) demo_job [''var'', ''spool'', ''printer'', ''data'', ''5''] demo_printer = Inr (True, sk')
    \<and> http_header ''printer'' (length (ibuf @ ''page'')) = Inr hbuf \<and> outq sk' = hbuf @ ibuf @ ''page''"
proof -
  let ?d = "demo_printd\<lparr>spool := demo_page\<rparr>" and ?fd = "[''var'', ''spool'', ''printer'', ''data'', ''5'']"
  have l: "look (spool ?d) ?fd = Some (FileN \<lparr>content = ''page'', mtime = 0, atime = 0, fmode = 420\<rparr>)" using demo_page_look(1) by simp
  obtain sk' where s: "send_job 2 [] ?d demo_job ?fd demo_printer = Inr (True, sk')"
    using demo_send[of ?d ?fd _ demo_job] demo_page_look by (auto simp: demo_printd_def demo_job_def)
  from content_length_exact[OF s l] obtain ibuf hbuf where
    "http_header ''printer'' (length (ibuf @ ''page'')) = Inr hbuf" "outq sk' = hbuf @ ibuf @ ''page''"
    by (auto simp: demo_printd_def demo_job_def demo_names demo_printer_def)
  then show ?thesis using s by blast
qed

definition demo_waiting :: printd where
  "demo_waiting = demo_printd\<lparr>spool := demo_page, jobs := \<lparr>jheap = [0 \<mapsto> demo_job], jobhead = Some 0, jobtail = Some 0\<rparr>\<rparr>"

lemma demo_waiting_holds: "holds_jobs (jobs demo_waiting) ([(0, 5, demo_req)], [])"
  by (simp add: demo_waiting_def holds_jobs_def queue_at_def entry_def demo_job_def)

theorem printer_step_keeps_jobs_witness:
  "\<exists>conn1 d1 conn2 d2. printer_step 2 [] None None demo_waiting = Inr (conn1, d1) \<and> holds_jobs (jobs d1) ([(0, 5, demo_req)], [])
    \<and> printer_step 2 [] None (Some demo_printer) demo_waiting = Inr (conn2, d2) \<and> holds_jobs (jobs d2) ([], [])"
proof -
  let ?q = "\<lparr>jheap = [0 \<mapsto> demo_job], jobhead = None, jobtail = None\<rparr>"
  have r: "jobhead (jobs demo_waiting) = Some 0" "remove_job (jobs demo_waiting) 0 = Inr ?q"
    by (simp_all add: demo_waiting_def remove_job_def jget_def demo_job_def)
  obtain d0 where u: "update_jobno (demo_waiting\<lparr>jobs := ?q\<rparr>) = Inr d0" "reread d0 = False" "printer_name d0 = ''printer''"
    by (cases "fwrite \<lparr>bytes = [], pos = 0, room = 100\<rparr> (sdec 1)") (auto simp: update_jobno_def lseek_set demo_waiting_def demo_printd_def)
  have d0: "jobs d0 = ?q" "spool d0 = demo_page" using update_jobno_keeps[OF u(1)] by (simp_all add: demo_waiting_def)
  have g: "jget (jobs d0) 0 = Inr demo_job" "jobid demo_job = 5" "jreq demo_job = demo_req" using d0 by (simp_all add: jget_def demo_job_def)
  obtain q1 where b: "replace_job (jobs d0) 0 = Inr q1" using d0 by (simp add: replace_job_def jget_def Let_def)
  have e1: "printer_step 2 [] None None demo_waiting = Inr (None, d0\<lparr>jobs := q1\<rparr>)"
    unfolding printer_step_def r option.case bindE_simps u if_False g Let_def d0(2) demo_page_look(3) using b by simp
  obtain sk' where s: "send_job 2 [] d0 demo_job [''var'', ''spool'', ''printer'', ''data'', ''5''] demo_printer = Inr (True, sk')"
    using demo_send[of d0 _ _ demo_job, unfolded d0(2), OF demo_page_look(1) _ demo_page_look(2) u(3) g(2,3)] by auto
  have e2: "\<exists>d2. printer_step 2 [] None (Some demo_printer) demo_waiting = Inr (Some sk', d2) \<and> jobs d2 = jfree ?q 0"
    unfolding printer_step_def r option.case bindE_simps u if_False g Let_def d0(2) demo_page_look(3) s using d0 by simp
  then obtain d2 where d2: "printer_step 2 [] None (Some demo_printer) demo_waiting = Inr (Some sk', d2)" "jobs d2 = jfree ?q 0" by blast
  have "jobhead (jobs d2) = None" using d2(2) by (simp add: jfree_def)
  then have "\<not> holds_jobs (jobs d2) ([(0, 5, demo_req)], [])" by (auto simp: holds_jobs_def queue_at_def)
  then have "holds_jobs (jobs d2) ([], [])" using printer_step_keeps_jobs[OF demo_waiting_holds d2(1)] by blast
  moreover have "holds_jobs (jobs (d0\<lparr>jobs := q1\<rparr>)) ([(0, 5, demo_req)], [])"
    using printer_step_keeps_jobs[OF demo_waiting_holds e1] demo_page_look(3) by (auto simp: demo_waiting_def)
  ultimately show ?thesis using e1 d2(1) by blast
qed

section \<open>The answer of the printer\<close>


lemma demo_head: "plain_head ''HTTP/1.1'' 200 ''OK'' []" "plain_head ''HTTP/1.1'' 200 ''OK'' ''Server: x''"
    "length (http_head ''HTTP/1.1'' 200 ''OK'' [] 9) \<le> 100"
proof -
  show "plain_head ''HTTP/1.1'' 200 ''OK'' []" "plain_head ''HTTP/1.1'' 200 ''OK'' ''Server: x''" by (simp_all add: plain_head_def)
  have "length (dec 200) \<le> 3" "length (dec 9) \<le> 1" using length_dec_less[of 200 3] length_dec_less[of 9 1] by simp_all
  then show "length (http_head ''HTTP/1.1'' 200 ''OK'' [] 9) \<le> 100" by (simp add: http_head_def)
qed


text \<open>Defect: when the first \<open>read\<close> ends with the line of the content length, the loop that looks for the
  end of the header never reads on and never ends: it waits for the index to reach the size of the data, but stops
  moving it two bytes before. No fuel is enough, whatever arrives later.\<close>
theorem split_header_endless:
  assumes "plain_head ver code reason hdrs"
    and "tread sk IOBUFSZ = (Some (http_head ver code reason hdrs len), sk1)"
    and "length (http_head ver code reason hdrs len) \<le> IOBUFSZ"
  shows "printer_status fuel junk sk jid = Inl OutOfFuel"
  by (rule status_split[OF assms])

theorem split_header_endless_witness:
  "printer_status 100 [] \<lparr>inq = [RData (http_head ''HTTP/1.1'' 200 ''OK'' [] 9), RData ([CR, NL] @ replicate 9 NUL)], outq = [], wrq = []\<rparr> 0
    = Inl OutOfFuel"
proof -
  let ?R = "http_head ''HTTP/1.1'' 200 ''OK'' [] 9" and ?q = "[RData ([CR, NL] @ replicate 9 NUL)]"
  have l: "length ?R \<le> IOBUFSZ" using demo_head(3) by (simp add: IOBUFSZ_def)
  have t: "tread \<lparr>inq = RData ?R # ?q, outq = [], wrq = []\<rparr> IOBUFSZ = (Some ?R, \<lparr>inq = ?q, outq = [], wrq = []\<rparr>)"
    using l by (simp add: tread_def read_fd_def)
  show ?thesis by (rule split_header_endless[OF demo_head(1) t l])
qed

end
