(* ===== verification/PrintSubmit.thy ===== *)
theory PrintSubmit
  imports PrintWire
begin

text \<open>
  The client command and the daemon together: what \<open>submit_file\<close> sends is what \<open>client_thread\<close> stores. And the
  configuration file, which both ends look their addresses up in: a search of the pairs of its lines.
\<close>

section \<open>From the client to the spool directory\<close>

lemma enc_fields:
  assumes "length (usernm r) = USERNM_MAX" "length (jobnm r) = JOBNM_MAX"
  shows "get_mem32 (enc_req r @ c) = req_size r" "get_mem32 (drop 4 (enc_req r @ c)) = req_flags r"
    "take USERNM_MAX (drop 8 (enc_req r @ c)) = usernm r" "take JOBNM_MAX (drop (8 + USERNM_MAX) (enc_req r @ c)) = jobnm r"
    "drop PRINTREQ_SZ (enc_req r @ c) = c"
proof -
  show "drop PRINTREQ_SZ (enc_req r @ c) = c" using length_enc_req[OF assms] by simp
qed (use assms in \<open>simp_all add: enc_req_def\<close>)

lemma build_req_names:
  assumes "length fname < JOBNM_MAX" "NUL \<notin> set fname" "\<forall>nm. pw = Some nm \<longrightarrow> NUL \<notin> set nm"
  shows "length (usernm (build_req junk pw fname n text)) = USERNM_MAX" "length (jobnm (build_req junk pw fname n text)) = JOBNM_MAX"
    "cstr (jobnm (build_req junk pw fname n text)) = fname"
    "cstr (usernm (build_req junk pw fname n text)) = (case pw of None \<Rightarrow> ''unknown'' | Some nm \<Rightarrow> take (USERNM_MAX - 1) nm)"
proof -
  have j: "jobnm (build_req junk pw fname n text) = set_cstr junk JOBNM_MAX fname" using assms(1) by (simp add: build_req_def)
  show "length (jobnm (build_req junk pw fname n text)) = JOBNM_MAX" "cstr (jobnm (build_req junk pw fname n text)) = fname"
    using set_cstr_spec(2)[OF assms(1,2), of junk "[]"] set_cstr_spec(1)[OF assms(1,2), of junk] by (simp_all add: j)
  have "length (usernm (build_req junk pw fname n text)) = USERNM_MAX
    \<and> cstr (usernm (build_req junk pw fname n text)) = (case pw of None \<Rightarrow> ''unknown'' | Some nm \<Rightarrow> take (USERNM_MAX - 1) nm)"
  proof (cases pw)
    case None
    have "length ''unknown'' < USERNM_MAX" "NUL \<notin> set ''unknown''" by (simp_all add: USERNM_MAX_def)
    from set_cstr_spec(1)[OF this, of junk] None set_cstr_spec(2)[OF this, of junk "[]"]
    show ?thesis by (simp add: build_req_def)
  next
    case (Some nm)
    have n: "NUL \<notin> set (take (USERNM_MAX - 1) nm)" using assms(3) Some by (auto dest: in_set_takeD)
    have u: "usernm (build_req junk pw fname n text) = take (USERNM_MAX - 1) nm @ NUL # replicate (USERNM_MAX - 1 - length nm) NUL"
      by (simp add: build_req_def Some strncpy_buf_def replicate_append_same)
    have "length (usernm (build_req junk pw fname n text)) = USERNM_MAX" unfolding u by (simp add: USERNM_MAX_def)
    then show ?thesis using Some cstr_append_NUL[OF n] unfolding u by simp
  qed
  then show "length (usernm (build_req junk pw fname n text)) = USERNM_MAX"
    "cstr (usernm (build_req junk pw fname n text)) = (case pw of None \<Rightarrow> ''unknown'' | Some nm \<Rightarrow> take (USERNM_MAX - 1) nm)" by blast+
qed

text \<open>C17. From end to end: when the bytes that a successful \<open>submit_file\<close> wrote reach the daemon and it accepts the
  job, the data file in the spool directory equals the file of the user, and the queued request carries its size,
  the user (cut to 63 characters), the name of the file and the wish for plain text.\<close>
theorem submit_end_to_end:
  assumes "submit_file junk pw fs fd csk fname (length (content f)) text = Inr (res, csk')" "look fs fd = Some (FileN f)" "outq csk = []"
    and "length fname < JOBNM_MAX" "NUL \<notin> set fname" "\<forall>nm. pw = Some nm \<longrightarrow> NUL \<notin> set nm"
    and "arrives (inq dsk) = outq csk'" "client_body strerror errno junk' dsk d = Inr (0, dsk', d')"
  shows "\<exists>req. stored_job (spool d') (sint (nextjob d)) (content f) req
    \<and> add_job (jobs d) (brk d) req (sint (nextjob d)) = Inr (jobs d') \<and> req_size req = of_nat (length (content f))
    \<and> cstr (jobnm req) = fname \<and> cstr (usernm req) = (case pw of None \<Rightarrow> ''unknown'' | Some nm \<Rightarrow> take (USERNM_MAX - 1) nm)
    \<and> (text \<longrightarrow> req_flags req = PR_TEXT)"
proof -
  let ?r = "build_req junk pw fname (length (content f)) text"
  note B = build_req_names[OF assms(4-6)] and E = enc_fields[OF build_req_names(1,2)[OF assms(4-6)]]
  obtain nw sk1 where w: "writen csk (enc_req ?r) = (nw, sk1)" by (cases "writen csk (enc_req ?r)")
  have nw: "nw = int PRINTREQ_SZ" using assms(1) w by (auto simp: submit_file_def split: if_splits)
  obtain k where k: "k \<le> length (enc_req ?r)" "outq sk1 = outq csk @ take k (enc_req ?r)" "nw = int k \<or> nw = -1 \<and> k = 0"
    by (rule writen_spec[OF w])
  have "k = length (enc_req ?r)" using k nw length_enc_req[OF B(1,2)] by auto
  then have o1: "outq sk1 = enc_req ?r" using k(2) assms(3) by simp
  obtain sk2 where l: "submit_loop (Suc (file_len fs fd)) fs fd 0 sk1 = Inr sk2"
    "(let (nr, res, sk3) = readn sk2 (8 + MSGLEN_MAX) in
        if nr \<noteq> int (8 + MSGLEN_MAX) then Inl Exits
        else if get_mem32 res \<noteq> 0 then Inr (None, sk3)
        else Inr (Some (uint (htonl (get_mem32 (drop 4 res)))), sk3)) = Inr (res, csk')"
    using assms(1) w nw by (auto simp: submit_file_def simp del: submit_loop.simps)
  have o2: "outq sk2 = enc_req ?r @ content f" using submit_loop_spec[OF l(1) assms(2)] o1 by simp
  have "outq csk' = outq sk2"
  proof -
    obtain nr b sk3 where r: "readn sk2 (8 + MSGLEN_MAX) = (nr, b, sk3)" by (cases "readn sk2 (8 + MSGLEN_MAX)")
    then have "sk3 = csk'" using l(2) by (auto split: if_splits)
    then show ?thesis using readn_outq[OF r] by simp
  qed
  then have a: "arrives (inq dsk) = enc_req ?r @ content f" using assms(7) o2 by simp
  obtain req where q: "stored_job (spool d') (sint (nextjob d)) (content f) req"
    "add_job (jobs d) (brk d) req (sint (nextjob d)) = Inr (jobs d')"
    "req_size req = htonl (req_size ?r)" "usernm req = usernm ?r" "jobnm req = jobnm ?r"
    "req_flags req = htonl (req_flags ?r) \<or> req_flags req = htonl (req_flags ?r) OR PR_TEXT"
    using accepted_parts[OF assms(8)] unfolding a E by blast
  have "req_size req = of_nat (length (content f))" using q(3) by (simp add: build_req_def)
  moreover have "req_flags req = PR_TEXT" if t: "text" using q(6) t by (auto simp: build_req_def)
  ultimately show ?thesis using q B by auto
qed

lemma submit_succeeds:
  assumes "sys_read fs fd 0 IOBUFSZ = Some c" "sys_read fs fd (length c) IOBUFSZ = Some []" "c \<noteq> []" "file_len fs fd = length c"
    and "length resp = 8 + MSGLEN_MAX" "length (enc_req (build_req junk pw fname n text)) = PRINTREQ_SZ"
  shows "\<exists>res. submit_file junk pw fs fd \<lparr>inq = [RData resp], outq = [], wrq = []\<rparr> fname n text
    = Inr (res, \<lparr>inq = [], outq = enc_req (build_req junk pw fname n text) @ c, wrq = []\<rparr>)"
proof -
  let ?r = "enc_req (build_req junk pw fname n text)"
  obtain m where m: "length c = Suc m" using assms(3) by (cases c) auto
  have l: "submit_loop (Suc (length c)) fs fd 0 \<lparr>inq = [RData resp], outq = ?r, wrq = []\<rparr> = Inr \<lparr>inq = [RData resp], outq = ?r @ c, wrq = []\<rparr>"
    using assms(1-3) m by simp
  have "0 < 8 + MSGLEN_MAX" by simp
  then have rd: "readn \<lparr>inq = [RData resp], outq = ?r @ c, wrq = []\<rparr> (8 + MSGLEN_MAX) = (int (8 + MSGLEN_MAX), resp, \<lparr>inq = [], outq = ?r @ c, wrq = []\<rparr>)"
    using assms(5) by (cases "resp = []") (auto simp: readn_def readn_loop.simps read_fd_def)
  show ?thesis using l rd assms(4,6) by (simp add: submit_file_def Let_def del: submit_loop.simps)
qed

theorem submit_end_to_end_witness:
  "\<exists>fs fd csk res csk' dsk dsk' d' req.
     submit_file [] (Some ''sar'') fs fd csk ''a.ps'' 4 True = Inr (res, csk') \<and> arrives (inq dsk) = outq csk'
   \<and> client_body (\<lambda>_. []) 5 [] dsk demo_printd = Inr (0, dsk', d')
   \<and> stored_job (spool d') 1 ''page'' req \<and> cstr (jobnm req) = ''a.ps'' \<and> cstr (usernm req) = ''sar'' \<and> req_flags req = PR_TEXT"
proof -
  let ?f = "\<lparr>content = ''page'', mtime = 0, atime = 0, fmode = 420\<rparr>"
  let ?fd = "[''var'', ''spool'', ''printer'', ''data'', ''5'']"
  let ?r = "build_req [] (Some ''sar'') ''a.ps'' 4 True"
  have n: "length ''a.ps'' < JOBNM_MAX" "NUL \<notin> set ''a.ps''" "\<forall>nm. Some ''sar'' = Some nm \<longrightarrow> NUL \<notin> set nm"
    by (simp_all add: JOBNM_MAX_def)
  note L = length_enc_req[OF build_req_names(1,2)[OF n, of "[]" 4 True]]
  have rd: "sys_read demo_page ?fd 0 IOBUFSZ = Some ''page''" "sys_read demo_page ?fd (length ''page'') IOBUFSZ = Some []"
    "file_len demo_page ?fd = length ''page''"
    using demo_page_look(1,2) by (simp_all add: sys_read_def IOBUFSZ_def file_len_def)
  have ne: "''page'' \<noteq> []" "length (replicate (8 + MSGLEN_MAX) NUL) = 8 + MSGLEN_MAX" by simp_all
  obtain res where s4: "submit_file [] (Some ''sar'') demo_page ?fd \<lparr>inq = [RData (replicate (8 + MSGLEN_MAX) NUL)], outq = [], wrq = []\<rparr> ''a.ps'' 4 True
     = Inr (res, \<lparr>inq = [], outq = enc_req ?r @ ''page'', wrq = []\<rparr>)"
    using submit_succeeds[OF rd(1,2) ne(1) rd(3) ne(2) L] by blast
  have "length (content ?f) = 4" by simp
  then have s: "submit_file [] (Some ''sar'') demo_page ?fd \<lparr>inq = [RData (replicate (8 + MSGLEN_MAX) NUL)], outq = [], wrq = []\<rparr> ''a.ps'' (length (content ?f)) True
     = Inr (res, \<lparr>inq = [], outq = enc_req ?r @ ''page'', wrq = []\<rparr>)" using s4 by (simp only:)
  let ?dsk = "\<lparr>inq = [RData (enc_req ?r), RData ''page''], outq = [], wrq = []\<rparr>"
  have "length ''page'' \<le> IOBUFSZ" "length ''page'' + PRINTREQ_SZ \<le> avail (spool demo_printd)" "jobtail (jobs demo_printd) = None"
    "spool_ready (spool demo_printd)" using demo_ready
    by (simp_all add: IOBUFSZ_def PRINTREQ_SZ_def USERNM_MAX_def JOBNM_MAX_def demo_printd_def demo_spool_def empty_q_def)
  then obtain dsk' d' where c: "client_body (\<lambda>_. []) 5 [] ?dsk demo_printd = Inr (0, dsk', d')"
    using client_accepts[of demo_printd, OF _ L ne(1)] by metis
  have "enc_req ?r \<noteq> []" using L by (auto simp: PRINTREQ_SZ_def)
  then have a: "arrives (inq ?dsk) = outq \<lparr>inq = ([] :: rd list), outq = enc_req ?r @ ''page'', wrq = ([] :: wr list)\<rparr>" by simp
  have f: "look demo_page ?fd = Some (FileN ?f)" by (rule demo_page_look(1))
  have o: "outq \<lparr>inq = [RData (replicate (8 + MSGLEN_MAX) NUL)], outq = [], wrq = []\<rparr> = []" by simp
  obtain req where "stored_job (spool d') 1 ''page'' req" "cstr (jobnm req) = ''a.ps''" "cstr (usernm req) = ''sar''" "req_flags req = PR_TEXT"
    using submit_end_to_end[OF s f o n a c] by (auto simp: demo_printd_def USERNM_MAX_def)
  then show ?thesis using s4 a c by blast
qed

section \<open>The configuration file\<close>

function split_words :: "string \<Rightarrow> string list" where
  "split_words s = (case dropWhile isspace s of [] \<Rightarrow> []
     | c # r \<Rightarrow> takeWhile (\<lambda>x. \<not> isspace x) (c # r) # split_words (dropWhile (\<lambda>x. \<not> isspace x) (c # r)))"
  by pat_completeness auto
termination
proof (relation "measure length")
  fix s c r assume d: "dropWhile isspace s = c # r"
  then have "\<not> isspace c" using hd_dropWhile[of isspace s] by auto
  then have "length (dropWhile (\<lambda>x. \<not> isspace x) (c # r)) \<le> length r" by (simp add: length_dropWhile_le)
  moreover have "Suc (length r) \<le> length s" using length_dropWhile_le[of isspace s] d by simp
  ultimately show "(dropWhile (\<lambda>x. \<not> isspace x) (c # r), s) \<in> measure length" by simp
qed simp

declare split_words.simps [simp del]

definition conf_pair :: "string \<Rightarrow> (string \<times> string) option" where
  \<comment> \<open>keyword and value of a line\<close>
  "conf_pair l = (case split_words l of k # v # _ \<Rightarrow> Some (k, v) | _ \<Rightarrow> None)"

definition conf_line :: "string \<Rightarrow> bool" where
  \<comment> \<open>a line that fits the buffers\<close>
  "conf_line l \<longleftrightarrow> NL \<notin> set l \<and> NUL \<notin> set l \<and> length l < MAXCFGLINE - 1 \<and> (\<forall>w ws. split_words l = w # ws \<longrightarrow> length w < MAXKWLEN)"

lemma space_NL: "isspace NL"
  by (simp add: isspace_def)

lemma while_snoc: "\<not> P z \<Longrightarrow> takeWhile P (x @ [z]) = takeWhile P x" "\<not> P z \<Longrightarrow> dropWhile P (x @ [z]) = dropWhile P x @ [z]"
  by (induction x) auto

lemma split_words_NL: "split_words (s @ [NL]) = split_words s"
proof (induction s rule: split_words.induct)
  case (1 s)
  show ?case
  proof (cases "dropWhile isspace s")
    case Nil
    then have "dropWhile isspace (s @ [NL]) = []" using space_NL by (simp add: dropWhile_append)
    then show ?thesis unfolding split_words.simps[of s] split_words.simps[of "s @ [NL]"] Nil by simp
  next
    case (Cons c r)
    let ?P = "\<lambda>x. \<not> isspace x"
    have "c \<in> set s" using Cons set_dropWhileD[of c isspace s] by simp
    moreover have "\<not> isspace c" using Cons hd_dropWhile[of isspace s] by auto
    ultimately have d: "dropWhile isspace (s @ [NL]) = c # r @ [NL]" using Cons by (simp add: dropWhile_append1)
    have t: "takeWhile ?P ((c # r) @ [NL]) = takeWhile ?P (c # r)" "dropWhile ?P ((c # r) @ [NL]) = dropWhile ?P (c # r) @ [NL]"
      using while_snoc[of ?P NL "c # r"] space_NL by simp_all
    show ?thesis using "1.IH"[OF Cons] t unfolding split_words.simps[of s] split_words.simps[of "s @ [NL]"] Cons d by simp
  qed
qed

lemma sscanf2_words:
  assumes "NUL \<notin> set s" "length s \<le> m" "\<forall>w ws. split_words s = w # ws \<longrightarrow> length w \<le> n"
  shows "sscanf2 n m s = (case split_words s of k # v # _ \<Rightarrow> Some (k, v) | _ \<Rightarrow> None)"
proof -
  let ?P = "\<lambda>x. \<not> isspace x"
  show ?thesis
  proof (cases "dropWhile isspace s")
    case Nil
    show ?thesis unfolding sscanf2_def split_words.simps[of s] cstr_id[OF assms(1)] Nil by simp
  next
    case (Cons c r)
    let ?k = "takeWhile ?P (c # r)" and ?x = "dropWhile ?P (c # r)"
    have c: "?P c" using Cons hd_dropWhile[of isspace s] by auto
    have w: "split_words s = ?k # split_words ?x" unfolding split_words.simps[of s] Cons by simp
    then have k: "take n ?k = ?k" "?k \<noteq> []" using assms(3) c by auto
    have dr: "drop (length ?k) (c # r) = ?x" by (simp only: dropWhile_eq_drop)
    let ?b = "dropWhile isspace ?x"
    have "length (c # r) \<le> length s" using length_dropWhile_le[of isspace s] unfolding Cons .
    then have "length ?b \<le> length s" using length_dropWhile_le[of isspace ?x] length_dropWhile_le[of ?P "c # r"] by linarith
    then have v: "take m (takeWhile ?P ?b) = takeWhile ?P ?b" using assms(2) length_takeWhile_le[of ?P ?b] by simp
    have e: "sscanf2 n m s = (if takeWhile ?P ?b = [] then None else Some (?k, takeWhile ?P ?b))"
      unfolding sscanf2_def Let_def cstr_id[OF assms(1)] Cons k(1) dr v using k(2) by simp
    show ?thesis
    proof (cases ?b)
      case Nil
      show ?thesis unfolding e w split_words.simps[of ?x] Nil by simp
    next
      case b: (Cons y t)
      have "?P y" using hd_dropWhile[of isspace ?x] unfolding b by simp
      then show ?thesis unfolding e w split_words.simps[of ?x] b by simp
    qed
  qed
qed

lemma fgets_conf: "conf_line l \<Longrightarrow> fgets_line MAXCFGLINE (l @ NL # rest) = l @ [NL]"
proof -
  assume c: "conf_line l"
  then have "takeWhile (\<lambda>c. c \<noteq> NL) (l @ NL # rest) = l"
    by (subst takeWhile_append2) (auto simp: conf_line_def)
  then show ?thesis using c by (simp add: fgets_line_def conf_line_def MAXCFGLINE_def Let_def Suc_le_eq)
qed

text \<open>Scanning the configuration file returns what a look-up in the list of keyword and value pairs of its lines
  returns, the first line with the keyword winning, for every file whose lines and keywords fit the buffers.\<close>
theorem scan_configfile_lookup:
  assumes "\<forall>l \<in> set ls. conf_line l"
  shows "scan_configfile keyword (concat (map (\<lambda>l. l @ [NL]) ls)) = map_of (List.map_filter conf_pair ls) keyword"
  using assms
proof (induction ls)
  case (Cons l ls)
  let ?rest = "concat (map (\<lambda>l. l @ [NL]) ls)"
  have c: "conf_line l" using Cons.prems by simp
  have f: "fgets_line MAXCFGLINE (l @ NL # ?rest) = l @ [NL]" by (rule fgets_conf[OF c])
  have n: "NUL \<notin> set (l @ [NL])" "length (l @ [NL]) \<le> MAXCFGLINE - 1" using c by (auto simp: conf_line_def MAXCFGLINE_def)
  have "length w \<le> MAXKWLEN - 1" if w: "split_words (l @ [NL]) = w # ws" for w ws
  proof -
    have "length w < MAXKWLEN" using c w unfolding conf_line_def split_words_NL by blast
    then show ?thesis by (simp add: MAXKWLEN_def)
  qed
  then have s: "sscanf2 (MAXKWLEN - 1) (MAXCFGLINE - 1) (l @ [NL]) = conf_pair l"
    using sscanf2_words[OF n] unfolding conf_pair_def split_words_NL by blast
  have "scan_configfile keyword ?rest = map_of (List.map_filter conf_pair ls) keyword" using Cons by simp
  then show ?case using f s by (subst scan_configfile.simps) (auto simp: map_filter_simps split: option.splits)
qed (simp add: scan_configfile.simps map_filter_simps)

theorem scan_configfile_lookup_witness:
  "scan_configfile ''printer'' (''printserver blade'' @ [NL] @ ''printer phaser560'' @ [NL]) = Some ''phaser560''"
proof -
  have w: "split_words ''printserver blade'' = [''printserver'', ''blade'']" "split_words ''printer phaser560'' = [''printer'', ''phaser560'']"
    by (simp_all add: split_words.simps isspace_def)
  then have "\<forall>l \<in> set [''printserver blade'', ''printer phaser560'']. conf_line l"
    by (simp add: conf_line_def MAXCFGLINE_def MAXKWLEN_def)
  from scan_configfile_lookup[OF this, of "''printer''"] show ?thesis by (simp add: conf_pair_def w map_filter_simps)
qed

end
