(* ===== verification/PrintDaemon.thy ===== *)
theory PrintDaemon
  imports PrintWire
begin

text \<open>
  The daemon as a whole (\<open>main\<close> of \<open>printer/printd.c\<close> from the initialisation on): its threads as a step
  relation whose steps are the requests of clients, the rounds of the printer thread and the signals, in any
  order. The job queue stays a well-formed sequence of jobs in every reachable state.
\<close>

definition daemon_start :: "bool \<Rightarrow> string option option \<Rightarrow> printd \<Rightarrow> print_err + printd" where
  \<comment> \<open>from \<open>init_request\<close> to \<open>build_qonstart\<close>; the lists are empty in a fresh process\<close>
  "daemon_start locked addr d =
     bindE (init_request locked (d\<lparr>jobs := empty_q, wl := empty_w, reread := False, brk := 0\<rparr>)) (\<lambda>d1.
     bindE (init_printer addr d1) (\<lambda>d2. build_qonstart d2))"

inductive daemon_step :: "printd \<Rightarrow> printd \<Rightarrow> bool" where
  client: "client_thread strerror errno junk tid sockfd sk d = Inr (code, sk', d') \<Longrightarrow> daemon_step d d'"
| round: "printer_step fuel junk addr conn d = Inr (conn', d') \<Longrightarrow> daemon_step d d'"
| signal: "signal_step d s = Inr (ts, False, d') \<Longrightarrow> daemon_step d d'"

inductive_cases daemon_stepE: "daemon_step d d'"

definition queue_ok :: "printd \<Rightarrow> bool" where
  "queue_ok d \<longleftrightarrow> (\<exists>ws. holds_jobs (jobs d) (ws, []) \<and> (\<forall>e \<in> set ws. fst e < brk d))"

lemma client_body_jobs:
  "client_body se er junk sk d = Inr (code, sk', d') \<Longrightarrow>
     jobs d' = jobs d \<and> brk d' = brk d \<or> (\<exists>r i. add_job (jobs d) (brk d) r i = Inr (jobs d') \<and> brk d' = brk d + 1)"
  by (auto simp: client_body_def get_newjobno_def enqueue_def Let_def split: prod.splits if_splits option.splits sum.splits)

lemma enqueue_ok:
  assumes "queue_ok d" "enqueue d r i = Inr d'"
  shows "queue_ok d'"
proof -
  obtain ws where ws: "holds_jobs (jobs d) (ws, [])" "\<forall>e \<in> set ws. fst e < brk d" using assms(1) unfolding queue_ok_def by blast
  have "brk d \<notin> fst ` set (ws @ [])" using ws(2) by auto
  then obtain q where "add_job (jobs d) (brk d) r i = Inr q" "holds_jobs q (ws @ [(brk d, i, r)], [])"
    using holds_jobs_add[OF ws(1)] by blast
  then show ?thesis using assms(2) ws(2) unfolding queue_ok_def
    by (intro exI[of _ "ws @ [(brk d, i, r)]"]) (auto simp: enqueue_def intro: less_SucI)
qed

lemma queue_ok_mono: "queue_ok d \<Longrightarrow> jobs d' = jobs d \<Longrightarrow> brk d \<le> brk d' \<Longrightarrow> queue_ok d'"
  unfolding queue_ok_def by (auto intro: less_le_trans)

lemma client_ok:
  assumes "queue_ok d" "client_thread se er junk tid sockfd sk d = Inr (code, sk', d')"
  shows "queue_ok d'"
proof -
  obtain w1 d1 w2 sk1 where c: "client_body se er junk sk (d\<lparr>wl := w1, brk := brk d + 1\<rparr>) = Inr (code, sk1, d1)" "d' = d1\<lparr>wl := w2\<rparr>"
    using assms(2) by (auto simp: client_thread_def)
  let ?d = "d\<lparr>wl := w1, brk := brk d + 1\<rparr>"
  have ok: "queue_ok ?d" by (rule queue_ok_mono[OF assms(1)]) simp_all
  from client_body_jobs[OF c(1)] have "queue_ok d1"
  proof (elim disjE exE conjE)
    assume "jobs d1 = jobs ?d" "brk d1 = brk ?d"
    then show ?thesis using queue_ok_mono[OF ok] by simp
  next
    fix r i assume "add_job (jobs ?d) (brk ?d) r i = Inr (jobs d1)" "brk d1 = brk ?d + 1"
    then show ?thesis using enqueue_ok[OF ok, of r i "?d\<lparr>jobs := jobs d1, brk := brk d1\<rparr>"] queue_ok_mono[of _ d1]
      by (auto simp: enqueue_def)
  qed
  then show ?thesis unfolding c(2) by (rule queue_ok_mono) simp_all
qed

lemma printer_step_brk: "printer_step fuel junk addr conn d = Inr (conn', d') \<Longrightarrow> brk d' = brk d"
  by (auto simp: printer_step_def update_jobno_def init_printer_def Let_def split: option.splits prod.splits if_splits)

lemma round_ok:
  assumes "queue_ok d" "printer_step fuel junk addr conn d = Inr (conn', d')"
  shows "queue_ok d'"
proof -
  obtain ws where ws: "holds_jobs (jobs d) (ws, [])" "\<forall>e \<in> set ws. fst e < brk d" using assms(1) unfolding queue_ok_def by blast
  note b = printer_step_brk[OF assms(2)]
  show ?thesis
  proof (cases ws)
    case Nil
    then have "jobhead (jobs d) = None" using ws(1) by (simp add: holds_jobs_def queue_at_def)
    then show ?thesis using assms by (simp add: printer_step_def)
  next
    case (Cons e es)
    obtain p i r where e: "e = (p, i, r)" by (cases e)
    from printer_step_outcome[OF ws(1)[unfolded Cons e] assms(2)]
    have "holds_jobs (jobs d') (ws, []) \<or> holds_jobs (jobs d') (es, [])" unfolding Cons e by blast
    moreover have "\<forall>e \<in> set es. fst e < brk d" using ws(2) Cons by simp
    ultimately show ?thesis using ws(2) unfolding queue_ok_def b by blast
  qed
qed

lemma signal_ok: "signal_step d s = Inr (ts, b, d') \<Longrightarrow> queue_ok d \<Longrightarrow> queue_ok d'"
  by (cases s) (auto simp: signal_step_def queue_ok_def)

lemma step_ok: "daemon_step d d' \<Longrightarrow> queue_ok d \<Longrightarrow> queue_ok d'"
  by (erule daemon_stepE) (blast intro: client_ok round_ok signal_ok)+

lemma qonstart_ok: "qonstart_loop d es = Inr d' \<Longrightarrow> queue_ok d \<Longrightarrow> queue_ok d'"
proof (induction es arbitrary: d)
  case (Cons n rest)
  have u: "queue_ok (d\<lparr>spool := s\<rparr>)" for s using queue_ok_mono[OF Cons.prems(2)] by simp
  have e: "queue_ok d1" if "enqueue d r i = Inr d1" for d1 r i by (rule enqueue_ok[OF Cons.prems(2) that])
  consider "qonstart_loop d rest = Inr d'" | sp where "qonstart_loop (d\<lparr>spool := sp\<rparr>) rest = Inr d'"
    | r i d1 where "enqueue d r i = Inr d1" "qonstart_loop d1 rest = Inr d'"
    using Cons.prems(1) by (auto simp: Let_def split: if_splits option.splits)
  then show ?case by cases (use Cons.IH Cons.prems(2) u e in blast)+
qed simp

lemma start_ok:
  assumes "daemon_start locked addr d = Inr d'"
  shows "queue_ok d'"
proof -
  let ?d = "d\<lparr>jobs := empty_q, wl := empty_w, reread := False, brk := 0\<rparr>"
  obtain d1 d2 where d: "init_request locked ?d = Inr d1" "init_printer addr d1 = Inr d2" "build_qonstart d2 = Inr d'"
    using assms by (auto simp: daemon_start_def)
  have "jobs d2 = empty_q" using d(1,2) by (auto simp: init_request_def init_printer_def Let_def split: prod.splits if_splits option.splits)
  then have "queue_ok d2" using empty_q_holds unfolding queue_ok_def by (intro exI[of _ "[]"]) simp
  then show ?thesis using d(3) qonstart_ok by (auto simp: build_qonstart_def split: option.splits)
qed



end
