(* ===== verification/ParallelSort.thy ===== *)
theory ParallelSort
  imports Prelude "HOL-Library.Multiset"
begin

text \<open>
  The parallel sort of \<open>threads/barrier.c\<close>: each thread sorts its slice of the array, a barrier waits for
  all of them, and \<open>merge\<close> combines the slices. The library's \<open>heapsort\<close> is an argument with its
  documented law; the order in which the threads run is an argument too. The numbers of threads and of
  elements are parameters of the definitions, so that the theorems hold for the code's and for any other.
\<close>

section \<open>The program\<close>

definition NTHR :: nat where "NTHR = 8"
definition NUMNUM :: nat where "NUMNUM = 8000000"
definition TNUM :: nat where "TNUM = NUMNUM div NTHR"
definition LONG_MAX :: int where "LONG_MAX = 2 ^ 63 - 1"

definition complong :: "int \<Rightarrow> int \<Rightarrow> int" where
  "complong l1 l2 = (if l1 = l2 then 0 else if l1 < l2 then -1 else 1)"

type_synonym sorter = "(int \<Rightarrow> int \<Rightarrow> int) \<Rightarrow> int list \<Rightarrow> int list"

definition thr_fn :: "sorter \<Rightarrow> nat \<Rightarrow> nat \<Rightarrow> int list \<Rightarrow> int list" where
  \<comment> \<open>the thread whose slice starts at this index\<close>
  "thr_fn heapsort tnum idx nums = splice idx (heapsort complong (take tnum (drop idx nums))) nums"

definition pick :: "int list \<Rightarrow> nat \<Rightarrow> nat list \<Rightarrow> nat \<Rightarrow> nat \<Rightarrow> int \<times> nat" where
  \<comment> \<open>the inner loop of \<open>merge\<close>: the least head and its slice; \<open>minidx\<close> keeps its old value when none is below
     \<open>LONG_MAX\<close>\<close>
  "pick nums tnum idx k minidx =
     foldl (\<lambda>(num, mi) i. if idx ! i < (i + 1) * tnum \<and> nums ! (idx ! i) < num then (nums ! (idx ! i), i) else (num, mi))
       (LONG_MAX, minidx) [0..<k]"

fun merge_loop :: "int list \<Rightarrow> nat \<Rightarrow> nat \<Rightarrow> nat list \<Rightarrow> nat \<Rightarrow> nat \<Rightarrow> int list option" where
  \<comment> \<open>the loop over the output, of which this many elements are left; \<open>None\<close> is an access outside the arrays\<close>
  "merge_loop nums tnum nthr idx minidx 0 = Some []"
| "merge_loop nums tnum nthr idx minidx (Suc n) =
     (let (num, mi) = pick nums tnum idx nthr minidx in
      if mi < nthr \<and> idx ! mi < length nums
      then map_option (Cons (nums ! (idx ! mi))) (merge_loop nums tnum nthr (idx[mi := idx ! mi + 1]) mi n)
      else None)"

definition merge_slices :: "nat \<Rightarrow> nat \<Rightarrow> nat \<Rightarrow> int list \<Rightarrow> int list option" where
  \<comment> \<open>\<open>merge\<close>; \<open>junk\<close> is the value of \<open>minidx\<close> before its first assignment\<close>
  "merge_slices junk nthr tnum nums = merge_loop nums tnum nthr (map (\<lambda>i. i * tnum) [0..<nthr]) junk (nthr * tnum)"

definition sort_main :: "sorter \<Rightarrow> nat \<Rightarrow> nat list \<Rightarrow> nat \<Rightarrow> nat \<Rightarrow> int list \<Rightarrow> int list option" where
  \<comment> \<open>the threads in the order in which they run, the barrier, and the merge\<close>
  "sort_main heapsort junk sched nthr tnum nums =
     merge_slices junk nthr tnum (fold (\<lambda>i. thr_fn heapsort tnum (i * tnum)) sched nums)"

section \<open>Choosing the least head\<close>

definition slice_rest :: "int list \<Rightarrow> nat \<Rightarrow> nat list \<Rightarrow> nat \<Rightarrow> int list" where
  "slice_rest nums tnum idx i = drop (idx ! i) (take ((i + 1) * tnum) nums)"

lemma slice_rest_cases:
  assumes "(i + 1) * tnum \<le> length nums"
  shows "slice_rest nums tnum idx i = (if idx ! i < (i + 1) * tnum then nums ! (idx ! i) # drop (idx ! i + 1) (take ((i + 1) * tnum) nums) else [])"
  using assms Cons_nth_drop_Suc[of "idx ! i" "take ((i + 1) * tnum) nums"] by (auto simp: slice_rest_def)

lemma pick_least:
  assumes "\<forall>i < k. (i + 1) * tnum \<le> length nums" "\<forall>x \<in> set nums. x < LONG_MAX" "pick nums tnum idx k m0 = (num, mi)"
  shows "(if \<exists>i < k. slice_rest nums tnum idx i \<noteq> [] then mi < k \<and> slice_rest nums tnum idx mi \<noteq> [] \<and> num = nums ! (idx ! mi) else num = LONG_MAX)
    \<and> (\<forall>i < k. slice_rest nums tnum idx i \<noteq> [] \<longrightarrow> num \<le> nums ! (idx ! i))"
  using assms
proof (induction k arbitrary: num mi)
  case 0
  then show ?case by (simp add: pick_def)
next
  case (Suc k)
  obtain n1 m1 where p: "pick nums tnum idx k m0 = (n1, m1)" by (cases "pick nums tnum idx k m0")
  have bnd: "\<forall>i < k. (i + 1) * tnum \<le> length nums" using Suc.prems(1) by (meson less_SucI)
  note IH = Suc.IH[OF bnd Suc.prems(2) p]
  have ne: "slice_rest nums tnum idx k \<noteq> [] \<longleftrightarrow> idx ! k < (k + 1) * tnum"
    using slice_rest_cases[of k tnum nums idx] Suc.prems(1) by auto
  have lt: "nums ! (idx ! k) < LONG_MAX" if "idx ! k < (k + 1) * tnum"
  proof -
    have "(k + 1) * tnum \<le> length nums" using Suc.prems(1) by blast
    then show ?thesis using that Suc.prems(2) nth_mem[of "idx ! k" nums] by simp
  qed
  have r: "(num, mi) = (if idx ! k < (k + 1) * tnum \<and> nums ! (idx ! k) < n1 then (nums ! (idx ! k), k) else (n1, m1))"
    using Suc.prems(3) p by (simp add: pick_def)
  show ?case
  proof (cases "idx ! k < (k + 1) * tnum \<and> nums ! (idx ! k) < n1")
    case True
    then have "num = nums ! (idx ! k)" "mi = k" using r by simp_all
    moreover have "num \<le> nums ! (idx ! i)" if i: "i < Suc k" "slice_rest nums tnum idx i \<noteq> []" for i
    proof (cases "i = k")
      case False
      then have "n1 \<le> nums ! (idx ! i)" using IH i by simp
      then show ?thesis using True \<open>num = _\<close> by linarith
    qed (use \<open>num = _\<close> in simp)
    ultimately show ?thesis using ne True by auto
  next
    case False
    then have e: "num = n1" "mi = m1" using r by auto
    show ?thesis
    proof (cases "\<exists>i < k. slice_rest nums tnum idx i \<noteq> []")
      case True
      have "num \<le> nums ! (idx ! i)" if i: "i < Suc k" "slice_rest nums tnum idx i \<noteq> []" for i
        using False IH e i ne by (cases "i = k") auto
      then show ?thesis using IH True e by (auto intro: less_SucI)
    next
      case none: False
      then have "n1 = LONG_MAX" using IH by auto
      then have "\<not> idx ! k < (k + 1) * tnum" using False lt by auto
      then have "\<not> (\<exists>i < Suc k. slice_rest nums tnum idx i \<noteq> [])" using none ne by (auto simp: less_Suc_eq)
      then show ?thesis using e \<open>n1 = LONG_MAX\<close> by auto
    qed
  qed
qed

section \<open>Merging sorts\<close>

lemma slice_rest_step:
  assumes "mi < length idx" "slice_rest nums tnum idx mi = v # r"
  shows "slice_rest nums tnum (idx[mi := idx ! mi + 1]) i = (if i = mi then r else slice_rest nums tnum idx i)"
proof (cases "i = mi")
  case True
  have "drop (idx ! mi + 1) (take ((mi + 1) * tnum) nums) = tl (slice_rest nums tnum idx mi)"
    by (simp add: slice_rest_def drop_Suc tl_drop)
  then show ?thesis using True assms by (simp add: slice_rest_def)
qed (use assms(1) in \<open>simp add: slice_rest_def\<close>)

lemma sum_mset_step:
  assumes "mi < (k :: nat)" "f mi = {#v#} + g mi" "\<forall>i. i \<noteq> mi \<longrightarrow> f i = g i"
  shows "(\<Sum>i<k. f i) = {#v#} + (\<Sum>i<k. g i)"
proof -
  have "(\<Sum>i<k. f i) = f mi + (\<Sum>i \<in> {..<k} - {mi}. f i)" using assms(1) by (intro sum.remove) auto
  also have "(\<Sum>i \<in> {..<k} - {mi}. f i) = (\<Sum>i \<in> {..<k} - {mi}. g i)" using assms(3) by (intro sum.cong) auto
  also have "f mi + (\<Sum>i \<in> {..<k} - {mi}. g i) = {#v#} + (g mi + (\<Sum>i \<in> {..<k} - {mi}. g i))" using assms(2) by simp
  also have "g mi + (\<Sum>i \<in> {..<k} - {mi}. g i) = (\<Sum>i<k. g i)" using assms(1) by (intro sum.remove[symmetric]) auto
  finally show ?thesis .
qed

lemma merge_loop_sorts:
  assumes "\<forall>i < nthr. (i + 1) * tnum \<le> length nums" "\<forall>x \<in> set nums. x < LONG_MAX" "length idx = nthr"
    "\<forall>i < nthr. sorted (slice_rest nums tnum idx i)" "n = size (\<Sum>i<nthr. mset (slice_rest nums tnum idx i))"
  shows "\<exists>xs. merge_loop nums tnum nthr idx m0 n = Some xs \<and> mset xs = (\<Sum>i<nthr. mset (slice_rest nums tnum idx i)) \<and> sorted xs"
  using assms(3-5)
proof (induction n arbitrary: idx m0)
  case 0
  have "(\<Sum>i<nthr. mset (slice_rest nums tnum idx i)) = {#}" using 0(3) by (metis size_eq_0_iff_empty)
  then show ?case by simp
next
  case (Suc n)
  let ?R = "slice_rest nums tnum idx"
  obtain num mi where p: "pick nums tnum idx nthr m0 = (num, mi)" by (cases "pick nums tnum idx nthr m0")
  note P = pick_least[OF assms(1,2) p]
  have "(\<Sum>i<nthr. mset (?R i)) \<noteq> {#}" using Suc.prems(3) by (metis size_empty nat.distinct(1))
  then have "\<exists>i < nthr. ?R i \<noteq> []" by (metis (no_types, lifting) lessThan_iff mset.simps(1) sum.neutral)
  then have mi: "mi < nthr" "?R mi \<noteq> []" "num = nums ! (idx ! mi)" using P by simp_all
  let ?v = "nums ! (idx ! mi)"
  obtain r where r: "?R mi = ?v # r" "idx ! mi < (mi + 1) * tnum"
    using slice_rest_cases[of mi tnum nums idx] assms(1) mi(1,2) by (auto split: if_splits)
  have "(mi + 1) * tnum \<le> length nums" using assms(1) mi(1) by blast
  then have inb: "idx ! mi < length nums" using r(2) by linarith
  let ?idx = "idx[mi := idx ! mi + 1]"
  have st: "slice_rest nums tnum ?idx i = (if i = mi then r else ?R i)" for i
    using slice_rest_step[OF _ r(1)] mi(1) Suc.prems(1) by simp
  have sm: "(\<Sum>i<nthr. mset (?R i)) = {#?v#} + (\<Sum>i<nthr. mset (slice_rest nums tnum ?idx i))"
  proof (rule sum_mset_step[OF mi(1)])
    show "mset (?R mi) = {#?v#} + mset (slice_rest nums tnum ?idx mi)" using st[of mi] r(1) by simp
    show "\<forall>i. i \<noteq> mi \<longrightarrow> mset (?R i) = mset (slice_rest nums tnum ?idx i)" using st by (metis (no_types))
  qed
  have "\<forall>i < nthr. sorted (slice_rest nums tnum ?idx i)" using Suc.prems(2) r(1) mi(1) by (metis st sorted_simps(2))
  then obtain xs where xs: "merge_loop nums tnum nthr ?idx mi n = Some xs"
    "mset xs = (\<Sum>i<nthr. mset (slice_rest nums tnum ?idx i))" "sorted xs"
    using Suc.IH[of ?idx mi] Suc.prems(1,3) sm by auto
  have "?v \<le> x" if x: "x \<in> set xs" for x
  proof -
    have "x \<in># (\<Sum>i<nthr. mset (slice_rest nums tnum ?idx i))" using x xs(2) by (metis set_mset_mset)
    then obtain i where i: "i < nthr" "x \<in> set (slice_rest nums tnum ?idx i)" by (auto simp: set_mset_sum)
    have xi: "x \<in> set (?R i)" using i(2) r(1) unfolding st by (auto split: if_splits)
    then obtain h t where h: "?R i = h # t" by (cases "?R i") auto
    then have "h = nums ! (idx ! i)" using slice_rest_cases[of i tnum nums idx] assms(1) i(1) by (auto split: if_splits)
    then have "?v \<le> h" using P i(1) h mi(3) by simp
    moreover have "h \<le> x" using Suc.prems(2) i(1) xi h by auto
    ultimately show ?thesis by simp
  qed
  then have "sorted (?v # xs)" using xs(3) by simp
  then show ?case using p mi(1) inb xs(1,2) sm by simp
qed

section \<open>The threads\<close>

definition slice :: "nat \<Rightarrow> int list \<Rightarrow> nat \<Rightarrow> int list" where
  "slice tnum nums i = take tnum (drop (i * tnum) nums)"

definition sorts :: "sorter \<Rightarrow> bool" where
  \<comment> \<open>the documented law of \<open>heapsort\<close>\<close>
  "sorts hs \<longleftrightarrow> (\<forall>xs. mset (hs complong xs) = mset xs \<and> sorted_wrt (\<lambda>a b. complong a b \<le> 0) (hs complong xs))"

lemma sortsD: "sorts hs \<Longrightarrow> hs complong xs = sort xs"
proof -
  assume s: "sorts hs"
  have "sorted_wrt (\<le>) (hs complong xs)"
    by (rule sorted_wrt_mono_rel[of _ "\<lambda>a b. complong a b \<le> 0"]) (use s in \<open>auto simp: sorts_def complong_def split: if_splits\<close>)
  then show ?thesis using s by (intro properties_for_sort[symmetric]) (auto simp: sorts_def)
qed

lemma thr_fn_slice:
  assumes "sorts hs" "length nums = nthr * tnum" "i < nthr" "j < nthr"
  shows "length (thr_fn hs tnum (i * tnum) nums) = length nums"
    "slice tnum (thr_fn hs tnum (i * tnum) nums) j = (if j = i then sort (slice tnum nums i) else slice tnum nums j)"
proof -
  have "(i + 1) * tnum \<le> nthr * tnum" using assms(3) by (intro mult_le_mono1) simp
  then have b: "i * tnum + tnum \<le> length nums" using assms(2) by (simp add: algebra_simps)
  let ?s = "sort (take tnum (drop (i * tnum) nums))"
  have t: "thr_fn hs tnum (i * tnum) nums = splice (i * tnum) ?s nums" by (simp add: thr_fn_def sortsD[OF assms(1)])
  have l: "length ?s = tnum" using b by simp
  show "length (thr_fn hs tnum (i * tnum) nums) = length nums" unfolding t using b l by simp
  show "slice tnum (thr_fn hs tnum (i * tnum) nums) j = (if j = i then sort (slice tnum nums i) else slice tnum nums j)"
  proof (cases "j = i")
    case True
    then show ?thesis using take_drop_splice_same[of "i * tnum" ?s nums] b l by (simp add: slice_def t)
  next
    case False
    then have "j * tnum + tnum \<le> i * tnum \<or> i * tnum + tnum \<le> j * tnum"
    proof (cases "j < i")
      case True
      then have "(j + 1) * tnum \<le> i * tnum" by (intro mult_le_mono1) simp
      then show ?thesis by (simp add: algebra_simps)
    next
      case f: False
      then have "(i + 1) * tnum \<le> j * tnum" using False by (intro mult_le_mono1) simp
      then show ?thesis by (simp add: algebra_simps)
    qed
    then show ?thesis using take_drop_splice_disj[of "i * tnum" ?s nums "j * tnum" tnum] b l False by (auto simp: slice_def t)
  qed
qed

lemma threads_slices:
  assumes "sorts hs" "length nums = nthr * tnum" "set sched \<subseteq> {..<nthr}" "j < nthr"
  shows "length (fold (\<lambda>i. thr_fn hs tnum (i * tnum)) sched nums) = nthr * tnum
    \<and> slice tnum (fold (\<lambda>i. thr_fn hs tnum (i * tnum)) sched nums) j = (if j \<in> set sched then sort (slice tnum nums j) else slice tnum nums j)"
  using assms(2,3)
proof (induction sched arbitrary: nums)
  case (Cons i sched)
  have i: "i < nthr" using Cons.prems(2) by simp
  note T = thr_fn_slice[OF assms(1) Cons.prems(1) i assms(4)]
  have l: "length (thr_fn hs tnum (i * tnum) nums) = nthr * tnum" using T(1) Cons.prems(1) by simp
  have "set sched \<subseteq> {..<nthr}" using Cons.prems(2) by simp
  from Cons.IH[OF l this] T(2) show ?case by (auto simp: sorted_sort_id)
qed simp

lemma slices_mset:
  assumes "length nums = nthr * tnum"
  shows "mset nums = (\<Sum>i<nthr. mset (slice tnum nums i))"
  using assms
proof (induction nthr arbitrary: nums)
  case (Suc k)
  have l: "length (take (k * tnum) nums) = k * tnum" using Suc.prems by simp
  have s: "slice tnum (take (k * tnum) nums) i = slice tnum nums i" if "i < k" for i
  proof -
    have "(i + 1) * tnum \<le> k * tnum" using that by (intro mult_le_mono1) simp
    then have "tnum \<le> k * tnum - i * tnum" by (simp add: algebra_simps)
    then show ?thesis by (simp add: slice_def drop_take min_def)
  qed
  have "slice tnum nums k = drop (k * tnum) nums" using Suc.prems by (simp add: slice_def)
  then have "mset nums = mset (take (k * tnum) nums) + mset (slice tnum nums k)" by (metis append_take_drop_id mset_append)
  also have "mset (take (k * tnum) nums) = (\<Sum>i<k. mset (slice tnum nums i))" using Suc.IH[OF l] s by simp
  finally show ?case by simp
qed simp

text \<open>C21. The program sorts: whatever the order in which the threads run, the output of \<open>merge\<close> is the sorted
  input, for every number of threads and of elements per thread, as long as no element is \<open>LONG_MAX\<close>.\<close>
theorem parallel_sort_sorts:
  assumes "sorts heapsort" "set sched = {..<nthr}" "length nums = nthr * tnum" "\<forall>x \<in> set nums. x < LONG_MAX"
  shows "sort_main heapsort junk sched nthr tnum nums = Some (sort nums)"
proof (cases "nthr = 0")
  case True
  then show ?thesis using assms by (simp add: sort_main_def merge_slices_def)
next
  case False
  define a where "a = fold (\<lambda>i. thr_fn heapsort tnum (i * tnum)) sched nums"
  have S: "length a = nthr * tnum" "\<And>j. j < nthr \<Longrightarrow> slice tnum a j = sort (slice tnum nums j)"
    using threads_slices[OF assms(1,3), of sched] assms(2) False unfolding a_def by auto
  have "mset a = mset nums" using slices_mset[OF S(1)] slices_mset[OF assms(3)] S(2) by simp
  then have m: "mset a = mset nums" "\<forall>x \<in> set a. x < LONG_MAX" using assms(4) by (auto dest: mset_eq_setD)
  let ?idx = "map (\<lambda>i. i * tnum) [0..<nthr]"
  have b: "\<forall>i < nthr. (i + 1) * tnum \<le> length a"
  proof (intro allI impI)
    fix i assume "i < nthr"
    then have "(i + 1) * tnum \<le> nthr * tnum" by (intro mult_le_mono1) simp
    then show "(i + 1) * tnum \<le> length a" using S(1) by simp
  qed
  have r: "slice_rest a tnum ?idx i = slice tnum a i" if "i < nthr" for i
    using that by (simp add: slice_rest_def slice_def drop_take)
  have "sorted (slice_rest a tnum ?idx i)" if "i < nthr" for i using r[OF that] S(2)[OF that] by simp
  moreover have e: "(\<Sum>i<nthr. mset (slice_rest a tnum ?idx i)) = mset nums" using slices_mset[OF S(1)] r m(1) by simp
  moreover have "nthr * tnum = size (\<Sum>i<nthr. mset (slice_rest a tnum ?idx i))" unfolding e using assms(3) by simp
  ultimately obtain xs where "merge_loop a tnum nthr ?idx junk (nthr * tnum) = Some xs" "mset xs = mset nums" "sorted xs"
    using merge_loop_sorts[OF b m(2), of ?idx "nthr * tnum" junk] by auto
  then show ?thesis using properties_for_sort[of xs nums] by (simp add: sort_main_def merge_slices_def a_def)
qed

theorem parallel_sort_sorts_witness:
  "sort_main (\<lambda>_. sort) 0 [2, 0, 1] 3 2 [5, 2, 9, 1, 2, 0] = Some [0, 1, 2, 2, 5, 9]"
proof -
  have "sorts (\<lambda>_. sort)"
    by (auto simp: sorts_def complong_def intro: sorted_wrt_mono_rel[OF _ sorted_sort])
  moreover have "set [2, 0, 1] = {..<3::nat}" by auto
  ultimately show ?thesis using parallel_sort_sorts[of "\<lambda>_. sort" "[2, 0, 1]" 3 "[5, 2, 9, 1, 2, 0]" 2 0] by (simp add: LONG_MAX_def)
qed

end
