(* ===== verification/MemStream.thy ===== *)
theory MemStream
  imports PosixFile
begin

unbundle bit_operations_syntax

text \<open>
  The memory streams of \<open>exercises/fmemopen.c\<close>: \<open>fmemopen\<close> and the four functions that it gives to
  \<open>funopen\<close>. The buffer is its bytes; an access outside it is the error \<open>MsBadBuf\<close>. \<open>malloc\<close> and
  \<open>funopen\<close> succeed. The offsets that \<open>mstream_seek\<close> and \<open>mstream_write\<close> compute are an \<open>int\<close> of 32 bits. A stream opened for
  reading and writing implements a bounded file; one opened for writing alone keeps its buffer a C string.
\<close>

section \<open>The stream\<close>

datatype ms_err = MsBadBuf | EINVAL

record memstream =
  ms_buf :: string
  rsize :: nat
  vsize :: nat
  curpos :: nat
  ms_flags :: "8 word"

definition MS_READ :: "8 word" where "MS_READ = 1"
definition MS_WRITE :: "8 word" where "MS_WRITE = 2"
definition MS_APPEND :: "8 word" where "MS_APPEND = 4"
definition MS_TRUNCATE :: "8 word" where "MS_TRUNCATE = 8"
definition MS_MYBUF :: "8 word" where "MS_MYBUF = 16"

lemmas ms_flag_defs = MS_READ_def MS_WRITE_def MS_APPEND_def MS_TRUNCATE_def MS_MYBUF_def

fun flags_loop :: "string \<Rightarrow> 8 word \<Rightarrow> 8 word" where
  "flags_loop [] flags = flags"
| "flags_loop (c # cp) flags =
     (if c = CHR ''r'' then if flags \<noteq> 0 then 0 else flags_loop cp (flags OR MS_READ)
      else if c = CHR ''w'' then if flags \<noteq> 0 then 0 else flags_loop cp (flags OR (MS_WRITE OR MS_TRUNCATE))
      else if c = CHR ''a'' then if flags \<noteq> 0 then 0 else flags_loop cp (flags OR MS_APPEND)
      else if c = CHR ''+'' then if flags = 0 then 0 else flags_loop cp (flags OR (MS_READ OR MS_WRITE))
      else if c = CHR ''b'' then if flags = 0 then 0 else flags_loop cp flags
      else 0)"

definition type_to_flags :: "string \<Rightarrow> 8 word" where
  "type_to_flags typ = flags_loop typ 0"

fun find_end :: "string \<Rightarrow> nat \<Rightarrow> nat" where
  \<comment> \<open>the offset of the first null byte, or the length\<close>
  "find_end [] len = 0"
| "find_end (c # buf) len = (if len = 0 \<or> c = NUL then 0 else Suc (find_end buf (len - 1)))"

definition fmemopen :: "string \<Rightarrow> string option \<Rightarrow> nat \<Rightarrow> string \<Rightarrow> ms_err + memstream" where
  \<comment> \<open>the contents of fresh memory, the caller's buffer, its sz, and the mode\<close>
  "fmemopen junk buf sz typ =
     (let flags = type_to_flags typ in
      if sz = 0 \<or> flags = 0 then Inl EINVAL
      else bindE (case buf of
            None \<Rightarrow> if flags AND (MS_READ OR MS_WRITE) \<noteq> (MS_READ OR MS_WRITE) then Inl EINVAL
                    else Inr \<lparr>ms_buf = take sz (junk @ replicate sz NUL), rsize = sz, vsize = 0, curpos = 0, ms_flags = flags OR MS_MYBUF\<rparr>
          | Some b \<Rightarrow> if flags AND MS_APPEND \<noteq> 0 \<and> length b < sz \<and> NUL \<notin> set b then Inl MsBadBuf
                      else Inr \<lparr>ms_buf = b, rsize = sz, vsize = 0,
                                curpos = (if flags AND MS_APPEND \<noteq> 0 then find_end b sz else 0), ms_flags = flags\<rparr>)
        (\<lambda>ms. Inr (ms\<lparr>vsize := (if ms_flags ms AND MS_APPEND \<noteq> 0 then curpos ms
                                  else if ms_flags ms AND MS_TRUNCATE \<noteq> 0 then 0 else sz)\<rparr>)))"

section \<open>The operations\<close>

definition mstream_read :: "memstream \<Rightarrow> nat \<Rightarrow> ms_err + (string option \<times> memstream)" where
  \<comment> \<open>the bytes copied; \<open>None\<close> is -1\<close>
  "mstream_read ms len =
     (if ms_flags ms AND MS_READ = 0 then Inr (None, ms)
      else if curpos ms \<ge> vsize ms then Inr (Some [], ms)
      else let nr = min len (vsize ms - curpos ms) in
        if curpos ms + nr > length (ms_buf ms) then Inl MsBadBuf
        else Inr (Some (take nr (drop (curpos ms) (ms_buf ms))), ms\<lparr>curpos := curpos ms + nr\<rparr>))"

definition put_nul :: "memstream \<Rightarrow> nat \<Rightarrow> ms_err + memstream" where
  "put_nul ms i = (if i < length (ms_buf ms) then Inr (ms\<lparr>ms_buf := (ms_buf ms)[i := NUL]\<rparr>) else Inl MsBadBuf)"

definition to_int :: "int \<Rightarrow> int" where
  \<comment> \<open>conversion to an \<open>int\<close>\<close>
  "to_int i = sint (word_of_int i :: 32 word)"

definition mstream_write :: "memstream \<Rightarrow> string \<Rightarrow> ms_err + (nat option \<times> memstream)" where
  "mstream_write ms buf =
     (if ms_flags ms AND (MS_APPEND OR MS_WRITE) = 0 then Inr (None, ms)
      else
        let ioff = to_int (int (if ms_flags ms AND MS_APPEND \<noteq> 0 then vsize ms else curpos ms));
            off = nat ioff;
            nw = min (length buf) (rsize ms - off) in
        if ioff < 0 \<or> off + nw > length (ms_buf ms) \<or> off + nw \<ge> 2 ^ 31 then Inl MsBadBuf
        else
          let ms1 = ms\<lparr>ms_buf := splice off (take nw buf) (ms_buf ms), curpos := off + nw\<rparr> in
          bindE (if curpos ms1 > vsize ms1
                 then let ms2 = ms1\<lparr>vsize := curpos ms1\<rparr> in
                   if ms_flags ms AND (MS_READ OR MS_WRITE) = (MS_READ OR MS_WRITE) \<and> vsize ms2 < rsize ms2
                   then put_nul ms2 (vsize ms2) else Inr ms2
                 else Inr ms1) (\<lambda>ms3.
          bindE (if ms_flags ms AND (MS_WRITE OR MS_APPEND) \<noteq> 0 \<and> ms_flags ms AND MS_READ = 0
                 then if curpos ms3 < rsize ms3 then put_nul ms3 (curpos ms3) else put_nul ms3 (rsize ms3 - 1)
                 else Inr ms3) (\<lambda>ms4. Inr (Some nw, ms4))))"

definition mstream_seek :: "memstream \<Rightarrow> int \<Rightarrow> whence \<Rightarrow> int \<times> memstream" where
  "mstream_seek ms p w =
     (let off = to_int (case w of SEEK_SET \<Rightarrow> p | SEEK_END \<Rightarrow> int (vsize ms) + p | SEEK_CUR \<Rightarrow> int (curpos ms) + p) in
      if off < 0 \<or> off > int (vsize ms) then (-1, ms) else (off, ms\<lparr>curpos := nat off\<rparr>))"

definition mstream_close :: "memstream \<Rightarrow> string option" where
  \<comment> \<open>what is left of the buffer for the caller: nothing when the stream owns it\<close>
  "mstream_close ms = (if ms_flags ms AND MS_MYBUF \<noteq> 0 then None else Some (ms_buf ms))"

section \<open>Modes\<close>

definition ms_modes :: "8 word set" where
  \<comment> \<open>what the mode strings can give\<close>
  "ms_modes = {1, 3, 4, 7, 10, 11}"

lemma ms_mode_cases: "f \<in> ms_modes \<Longrightarrow> f = 1 \<or> f = 3 \<or> f = 4 \<or> f = 7 \<or> f = 10 \<or> f = 11"
  by (simp add: ms_modes_def)

lemma flags_loop_modes: "f = 0 \<or> f \<in> ms_modes \<Longrightarrow> flags_loop cp f = 0 \<or> flags_loop cp f \<in> ms_modes"
proof (induction cp f rule: flags_loop.induct)
  case (2 c cp flags)
  have p: "flags OR (MS_READ OR MS_WRITE) \<in> ms_modes" if "flags \<noteq> 0"
    using 2(6) that by (auto simp: ms_flag_defs ms_modes_def)
  have z: "0 OR MS_READ \<in> ms_modes" "0 OR (MS_WRITE OR MS_TRUNCATE) \<in> ms_modes" "0 OR MS_APPEND \<in> ms_modes"
    by (simp_all add: ms_flag_defs ms_modes_def)
  show ?case using 2 p z by (cases "flags = 0") (simp_all del: or.left_neutral)
qed simp

lemma type_modes: "type_to_flags t \<noteq> 0 \<Longrightarrow> type_to_flags t \<in> ms_modes"
  using flags_loop_modes[of 0 t] by (auto simp: type_to_flags_def)

section \<open>Every access is inside the buffer\<close>

definition ms_ok :: "memstream \<Rightarrow> bool" where
  "ms_ok ms \<longleftrightarrow> length (ms_buf ms) = rsize ms \<and> 0 < rsize ms \<and> curpos ms \<le> vsize ms \<and> vsize ms \<le> rsize ms \<and> rsize ms < 2 ^ 31
     \<and> (ms_flags ms \<in> ms_modes \<or> ms_flags ms \<in> {19, 23, 27})"

lemma find_end_le: "find_end b n \<le> n"
  by (induction b n rule: find_end.induct) auto

lemma find_end_cstr: "length b = n \<Longrightarrow> find_end b n = length (cstr b)"
  by (induction b n rule: find_end.induct) (auto simp: cstr_def)

lemma to_int_small: "- (2 ^ 31) \<le> i \<Longrightarrow> i < 2 ^ 31 \<Longrightarrow> to_int i = i"
  by (simp add: to_int_def sint_sbintrunc' signed_take_bit_int_eq_self)

lemma mstream_write_small:
  assumes "ms_ok ms"
  shows   "mstream_write ms buf =
     (if ms_flags ms AND (MS_APPEND OR MS_WRITE) = 0 then Inr (None, ms)
      else
        let off = (if ms_flags ms AND MS_APPEND \<noteq> 0 then vsize ms else curpos ms);
            nw = min (length buf) (rsize ms - off) in
        if off + nw > length (ms_buf ms) then Inl MsBadBuf
        else
          let ms1 = ms\<lparr>ms_buf := splice off (take nw buf) (ms_buf ms), curpos := off + nw\<rparr> in
          bindE (if curpos ms1 > vsize ms1
                 then let ms2 = ms1\<lparr>vsize := curpos ms1\<rparr> in
                   if ms_flags ms AND (MS_READ OR MS_WRITE) = (MS_READ OR MS_WRITE) \<and> vsize ms2 < rsize ms2
                   then put_nul ms2 (vsize ms2) else Inr ms2
                 else Inr ms1) (\<lambda>ms3.
          bindE (if ms_flags ms AND (MS_WRITE OR MS_APPEND) \<noteq> 0 \<and> ms_flags ms AND MS_READ = 0
                 then if curpos ms3 < rsize ms3 then put_nul ms3 (curpos ms3) else put_nul ms3 (rsize ms3 - 1)
                 else Inr ms3) (\<lambda>ms4. Inr (Some nw, ms4))))"
proof -
  define off where "off = (if ms_flags ms AND MS_APPEND \<noteq> 0 then vsize ms else curpos ms)"
  have "off \<le> rsize ms" "rsize ms < 2 ^ 31" using assms by (auto simp: ms_ok_def off_def)
  then have t: "to_int (int off) = int off" "\<not> 2 ^ 31 \<le> off + min (length buf) (rsize ms - off)" by (auto intro!: to_int_small)
  then have f: "(int off < 0) = False" "(2 ^ 31 \<le> off + min (length buf) (rsize ms - off)) = False" by simp_all
  show ?thesis unfolding mstream_write_def off_def[symmetric] Let_def t(1) nat_int f simp_thms ..
qed

lemma open_ok:
  assumes "fmemopen junk buf sz typ = Inr ms" "\<forall>b. buf = Some b \<longrightarrow> length b = sz" "sz < 2 ^ 31"
  shows "ms_ok ms"
proof -
  have f: "type_to_flags typ \<in> ms_modes" "0 < sz" using assms(1) type_modes by (auto simp: fmemopen_def Let_def split: if_splits)
  note F = ms_mode_cases[OF f(1)]
  show ?thesis
  proof (cases buf)
    case None
    then show ?thesis using assms(1,3) F f(2)
      by (elim disjE) (auto simp: fmemopen_def ms_flag_defs ms_ok_def Let_def)
  next
    case (Some b)
    then show ?thesis using assms F f find_end_le[of b sz]
      by (elim disjE) (auto simp: fmemopen_def ms_flag_defs ms_ok_def Let_def split: if_splits)
  qed
qed

lemma put_nul_ok: "i < length (ms_buf ms) \<Longrightarrow> put_nul ms i = Inr (ms\<lparr>ms_buf := (ms_buf ms)[i := NUL]\<rparr>)"
  by (simp add: put_nul_def)

lemma read_ok:
  assumes "ms_ok ms"
  shows "\<exists>r ms'. mstream_read ms n = Inr (r, ms') \<and> ms_ok ms'"
  using assms by (auto simp: mstream_read_def ms_ok_def Let_def)

lemma write_ok:
  assumes "ms_ok ms"
  shows "\<exists>r ms'. mstream_write ms s = Inr (r, ms') \<and> ms_ok ms'"
proof (cases "ms_flags ms AND (MS_APPEND OR MS_WRITE) = 0")
  case True
  then show ?thesis using assms by (simp add: mstream_write_small[OF assms])
next
  case False
  define off where "off = (if ms_flags ms AND MS_APPEND \<noteq> 0 then vsize ms else curpos ms)"
  define nw where "nw = min (length s) (rsize ms - off)"
  have o: "off + nw \<le> length (ms_buf ms)" "length (ms_buf ms) = rsize ms" "0 < rsize ms" using assms by (auto simp: ms_ok_def off_def nw_def)
  have l: "length (splice off (take nw s) (ms_buf ms)) = rsize ms" using o by (simp add: nw_def)
  define ms1 where "ms1 = ms\<lparr>ms_buf := splice off (take nw s) (ms_buf ms), curpos := off + nw\<rparr>"
  define c where "c \<longleftrightarrow> ms_flags ms AND (MS_READ OR MS_WRITE) = (MS_READ OR MS_WRITE)"
  define e where "e \<longleftrightarrow> ms_flags ms AND (MS_WRITE OR MS_APPEND) \<noteq> 0 \<and> ms_flags ms AND MS_READ = 0"
  let ?ok = "\<lambda>m. length (ms_buf m) = rsize ms \<and> rsize m = rsize ms \<and> curpos m = off + nw \<and> curpos m \<le> vsize m \<and> vsize m \<le> rsize ms \<and> ms_flags m = ms_flags ms"
  have a1: "length (ms_buf ms1) = rsize ms" "rsize ms1 = rsize ms" "curpos ms1 = off + nw" "vsize ms1 = vsize ms" "ms_flags ms1 = ms_flags ms"
    by (simp_all add: ms1_def l)
  have k: "vsize ms \<le> rsize ms" "off + nw \<le> rsize ms" using assms o by (auto simp: ms_ok_def)
  have "\<exists>ms3. (if curpos ms1 > vsize ms1
                 then let ms2 = ms1\<lparr>vsize := curpos ms1\<rparr> in
                   if c \<and> vsize ms2 < rsize ms2
                   then put_nul ms2 (vsize ms2) else Inr ms2
                 else Inr ms1) = Inr ms3 \<and> ?ok ms3"
  proof (cases "curpos ms1 > vsize ms1")
    case True
    then show ?thesis using a1 k by (cases "c \<and> curpos ms1 < rsize ms1") (auto simp: put_nul_def Let_def)
  qed (use a1 k in simp)
  then obtain ms3 where m3: "(if curpos ms1 > vsize ms1
                 then let ms2 = ms1\<lparr>vsize := curpos ms1\<rparr> in
                   if c \<and> vsize ms2 < rsize ms2
                   then put_nul ms2 (vsize ms2) else Inr ms2
                 else Inr ms1) = Inr ms3" "?ok ms3" by blast
  have "\<exists>ms4. (if e then if curpos ms3 < rsize ms3 then put_nul ms3 (curpos ms3) else put_nul ms3 (rsize ms3 - 1)
                 else Inr ms3) = Inr ms4 \<and> ?ok ms4"
    using m3(2) o(3) by (cases "curpos ms3 < rsize ms3") (simp_all add: put_nul_def)
  then obtain ms4 where m4: "(if e then if curpos ms3 < rsize ms3 then put_nul ms3 (curpos ms3) else put_nul ms3 (rsize ms3 - 1)
                 else Inr ms3) = Inr ms4" "?ok ms4" by blast
  have "mstream_write ms s = Inr (Some nw, ms4)"
    unfolding mstream_write_small[OF assms] if_not_P[OF False] Let_def off_def[symmetric] nw_def[symmetric]
    using o(1) m3(1) m4(1) unfolding ms1_def c_def e_def Let_def by simp
  then show ?thesis using m4(2) assms by (auto simp: ms_ok_def)
qed

lemma seek_ok: "ms_ok ms \<Longrightarrow> ms_ok (snd (mstream_seek ms p w))"
  by (auto simp: mstream_seek_def ms_ok_def Let_def)

datatype ms_op = MsRead nat | MsWrite string | MsSeek int whence

datatype ms_out = RdOut "string option" | WrOut "nat option" | SkOut int

definition ms_step :: "ms_op \<Rightarrow> memstream \<times> ms_out list \<Rightarrow> ms_err + (memstream \<times> ms_out list)" where
  \<comment> \<open>one call of the standard library on the stream, with what it returned appended to the log\<close>
  "ms_step x st = (case x of
      MsRead n \<Rightarrow> bindE (mstream_read (fst st) n) (\<lambda>(r, ms). Inr (ms, snd st @ [RdOut r]))
    | MsWrite s \<Rightarrow> bindE (mstream_write (fst st) s) (\<lambda>(r, ms). Inr (ms, snd st @ [WrOut r]))
    | MsSeek p w \<Rightarrow> (let (r, ms) = mstream_seek (fst st) p w in Inr (ms, snd st @ [SkOut r])))"

lemma step_total:
  assumes "ms_ok ms"
  shows "\<exists>ms' out'. ms_step x (ms, out) = Inr (ms', out') \<and> ms_ok ms'"
proof (cases x)
  case (MsRead n)
  then show ?thesis using read_ok[OF assms, of n] by (auto simp: ms_step_def)
next
  case (MsWrite s)
  then show ?thesis using write_ok[OF assms, of s] by (auto simp: ms_step_def)
next
  case (MsSeek p w)
  then show ?thesis using seek_ok[OF assms, of p w] by (cases "mstream_seek ms p w") (auto simp: ms_step_def)
qed

lemma run_total: "ms_ok ms \<Longrightarrow> \<exists>ms' out'. run_concrete ms_step ops (ms, out) = Inr (ms', out') \<and> ms_ok ms'"
proof (induction ops arbitrary: ms out)
  case (Cons x ops)
  obtain ms1 out1 where "ms_step x (ms, out) = Inr (ms1, out1)" "ms_ok ms1" using step_total[OF Cons.prems] by blast
  then show ?case using Cons.IH by simp
qed simp

text \<open>C22. A memory stream never touches a byte outside its buffer: for every mode string, every buffer of the
  announced size (below 2 GiB) and every sequence of reads, writes and seeks with any arguments, all calls return, and the position
  stays within the contents and these within the buffer.\<close>
theorem ms_in_bounds:
  assumes "fmemopen junk buf sz typ = Inr ms" "\<forall>b. buf = Some b \<longrightarrow> length b = sz" "sz < 2 ^ 31"
  shows "\<exists>ms' out. run_concrete ms_step ops (ms, []) = Inr (ms', out) \<and> curpos ms' \<le> vsize ms' \<and> vsize ms' \<le> length (ms_buf ms')"
  using run_total[OF open_ok[OF assms], of ops "[]"] by (auto simp: ms_ok_def)

theorem ms_in_bounds_witness:
  "\<exists>ms ms' out. fmemopen [] (Some ''abc'') 3 ''w'' = Inr ms \<and> run_concrete ms_step [MsWrite ''hello'', MsSeek 1 SEEK_SET] (ms, []) = Inr (ms', out)
    \<and> curpos ms' \<le> vsize ms' \<and> vsize ms' \<le> length (ms_buf ms')"
proof -
  have "type_to_flags ''w'' = 10" by (simp add: type_to_flags_def ms_flag_defs)
  then obtain ms where "fmemopen [] (Some ''abc'') 3 ''w'' = Inr ms" by (simp add: fmemopen_def ms_flag_defs)
  then show ?thesis using ms_in_bounds[of "[]" "Some ''abc''" 3 "''w''" ms "[MsWrite ''hello'', MsSeek 1 SEEK_SET]"] by fastforce
qed

section \<open>A stream for reading and writing is a bounded file\<close>

definition file_step :: "bool \<Rightarrow> ms_op \<Rightarrow> ofile \<times> ms_out list \<Rightarrow> (ofile \<times> ms_out list) option" where
  \<comment> \<open>the same calls on a file that cannot grow beyond its room; appending starts at the end. A seek that leaves
     the range of \<open>int\<close> is not specified\<close>
  "file_step app x st = (case x of
      MsRead n \<Rightarrow> (let (s, f) = fread (fst st) n in Some (f, snd st @ [RdOut (Some s)]))
    | MsWrite s \<Rightarrow> (let (n, f) = fwrite (if app then snd (lseek (fst st) 0 SEEK_END) else fst st) s in Some (f, snd st @ [WrOut (Some n)]))
    | MsSeek p w \<Rightarrow> (let q = seek_base (fst st) w + p in
        if q < - (2 ^ 31) \<or> q \<ge> 2 ^ 31 then None
        else if q < 0 \<or> q > int (length (bytes (fst st))) then Some (fst st, snd st @ [SkOut (-1)])
        else Some ((fst st)\<lparr>pos := nat q\<rparr>, snd st @ [SkOut q])))"

definition ms_file :: "memstream \<Rightarrow> ofile" where
  "ms_file ms = \<lparr>bytes = take (vsize ms) (ms_buf ms), pos = curpos ms, room = rsize ms\<rparr>"

definition ms_repr :: "bool \<Rightarrow> memstream \<times> ms_out list \<Rightarrow> ofile \<times> ms_out list \<Rightarrow> bool" where
  "ms_repr app c a \<longleftrightarrow> snd c = snd a \<and> ms_ok (fst c) \<and> ms_flags (fst c) \<in> (if app then {7, 23} else {3, 11, 19, 27}) \<and> fst a = ms_file (fst c)"

lemma rw_flags:
  assumes "f \<in> (if app then {7, 23} else {3, 11, 19, 27 :: 8 word})"
  shows "f AND MS_READ \<noteq> 0" "f AND (MS_APPEND OR MS_WRITE) \<noteq> 0" "(f AND MS_APPEND \<noteq> 0) = app"
    "f AND (MS_READ OR MS_WRITE) = (MS_READ OR MS_WRITE)"
proof -
  have "f AND MS_READ \<noteq> 0 \<and> f AND (MS_APPEND OR MS_WRITE) \<noteq> 0 \<and> (f AND MS_APPEND \<noteq> 0) = app
    \<and> f AND (MS_READ OR MS_WRITE) = (MS_READ OR MS_WRITE)"
    using assms by (cases app) (auto simp: ms_flag_defs)
  then show "f AND MS_READ \<noteq> 0" "f AND (MS_APPEND OR MS_WRITE) \<noteq> 0" "(f AND MS_APPEND \<noteq> 0) = app"
    "f AND (MS_READ OR MS_WRITE) = (MS_READ OR MS_WRITE)" by blast+
qed

lemma read_refines:
  assumes "ms_ok ms" "ms_flags ms AND MS_READ \<noteq> 0"
  shows "\<exists>s ms'. mstream_read ms n = Inr (Some s, ms') \<and> fread (ms_file ms) n = (s, ms_file ms') \<and> ms_ok ms' \<and> ms_flags ms' = ms_flags ms"
  using assms by (auto simp: mstream_read_def fread_def ms_file_def ms_ok_def Let_def drop_take min_def)

lemma splice_take:
  assumes "off + length t \<le> length b" "off \<le> v" "v \<le> length b"
  shows "take (max v (off + length t)) (splice off t b) = splice off t (take v b)"
proof (cases "off + length t \<le> v")
  case True
  then obtain k where "v = off + length t + k" using le_Suc_ex by blast
  then show ?thesis using assms by (simp add: splice_def drop_take)
qed (use assms in \<open>simp add: splice_def max_def\<close>)

lemma write_refines:
  assumes "ms_ok ms" "ms_flags ms \<in> (if app then {7, 23} else {3, 11, 19, 27})"
  shows "\<exists>n ms'. mstream_write ms s = Inr (Some n, ms') \<and> ms_ok ms' \<and> ms_flags ms' = ms_flags ms
    \<and> fwrite (if app then (ms_file ms)\<lparr>pos := vsize ms\<rparr> else ms_file ms) s = (n, ms_file ms')"
proof -
  note F = rw_flags[OF assms(2)]
  define off where "off = (if app then vsize ms else curpos ms)"
  define nw where "nw = min (length s) (rsize ms - off)"
  have k: "length (ms_buf ms) = rsize ms" "off \<le> vsize ms" "vsize ms \<le> rsize ms" using assms(1) by (auto simp: ms_ok_def off_def)
  have o: "off + nw \<le> rsize ms" using k by (simp add: nw_def)
  let ?b = "splice off (take nw s) (ms_buf ms)"
  have l: "length (take nw s) = nw" by (simp add: nw_def)
  have lb: "length ?b = rsize ms" using o k l by simp
  define v where "v = max (vsize ms) (off + nw)"
  define ms' where "ms' = ms\<lparr>ms_buf := (if off + nw > vsize ms \<and> off + nw < rsize ms then ?b[off + nw := NUL] else ?b), curpos := off + nw, vsize := v\<rparr>"
  have w: "mstream_write ms s = Inr (Some nw, ms')"
  proof (cases "off + nw > vsize ms")
    case True
    then show ?thesis using F o k lb
      by (simp add: mstream_write_small[OF assms(1)] off_def[symmetric] nw_def[symmetric] Let_def ms'_def v_def put_nul_def max_def)
  next
    case False
    then show ?thesis using F o k lb
      by (simp add: mstream_write_small[OF assms(1)] off_def[symmetric] nw_def[symmetric] Let_def ms'_def v_def max_def)
  qed
  have b: "take v (ms_buf ms') = splice off (take nw s) (take (vsize ms) (ms_buf ms))"
  proof -
    have "take v (ms_buf ms') = take v ?b" by (auto simp: ms'_def v_def max_def)
    also have "\<dots> = splice off (take nw s) (take (vsize ms) (ms_buf ms))"
      using splice_take[of off "take nw s" "ms_buf ms" "vsize ms"] o k unfolding v_def l by simp
    finally show ?thesis .
  qed
  have ok: "ms_ok ms'" using assms(1) o k lb by (auto simp: ms_ok_def ms'_def v_def)
  have m: "ms_file ms' = \<lparr>bytes = take v (ms_buf ms'), pos = off + nw, room = rsize ms\<rparr>" by (simp add: ms_file_def ms'_def)
  have f: "(if app then (ms_file ms)\<lparr>pos := vsize ms\<rparr> else ms_file ms) = \<lparr>bytes = take (vsize ms) (ms_buf ms), pos = off, room = rsize ms\<rparr>"
    by (simp add: ms_file_def off_def)
  have "fwrite (if app then (ms_file ms)\<lparr>pos := vsize ms\<rparr> else ms_file ms) s = (nw, ms_file ms')"
    unfolding f m b using k by (simp add: fwrite_def nw_def Let_def)
  then show ?thesis using w ok by (auto simp: ms'_def)
qed

lemma ms_sim:
  assumes "ms_repr app c a" "file_step app x a = Some b"
  shows "\<exists>d. ms_step x c = Inr d \<and> ms_repr app d b"
proof -
  obtain ms out where c: "c = (ms, out)" by (cases c)
  have a: "a = (ms_file ms, out)" using assms(1) c by (cases a) (simp add: ms_repr_def)
  have ok: "ms_ok ms" "ms_flags ms \<in> (if app then {7, 23} else {3, 11, 19, 27})" using assms(1) c by (simp_all add: ms_repr_def)
  note F = rw_flags[OF ok(2)]
  show ?thesis
  proof (cases x)
    case (MsRead n)
    obtain s ms' where "mstream_read ms n = Inr (Some s, ms')" "fread (ms_file ms) n = (s, ms_file ms')" "ms_ok ms'" "ms_flags ms' = ms_flags ms"
      using read_refines[OF ok(1) F(1)] by blast
    then show ?thesis using assms(2) MsRead a c ok(2) by (auto simp: ms_step_def file_step_def ms_repr_def)
  next
    case (MsWrite s)
    obtain n ms' where w: "mstream_write ms s = Inr (Some n, ms')" "ms_ok ms'" "ms_flags ms' = ms_flags ms"
      "fwrite (if app then (ms_file ms)\<lparr>pos := vsize ms\<rparr> else ms_file ms) s = (n, ms_file ms')"
      using write_refines[OF ok] by blast
    have e: "snd (lseek (ms_file ms) 0 SEEK_END) = (ms_file ms)\<lparr>pos := vsize ms\<rparr>"
      using ok(1) by (simp add: posix_simps) (simp add: ms_file_def ms_ok_def)
    have "b = (ms_file ms', out @ [WrOut (Some n)])"
      using assms(2) unfolding file_step_def MsWrite a ms_op.case fst_conv snd_conv e w(4) Let_def prod.case by simp
    then show ?thesis using MsWrite c ok(2) w(1-3) by (simp add: ms_step_def ms_repr_def)
  next
    case (MsSeek p w)
    let ?q = "seek_base (ms_file ms) w + p"
    have base: "seek_base (ms_file ms) w = (case w of SEEK_SET \<Rightarrow> 0 | SEEK_END \<Rightarrow> int (vsize ms) | SEEK_CUR \<Rightarrow> int (curpos ms))"
      using ok(1) by (cases w) (simp_all add: seek_base_def ms_file_def ms_ok_def)
    have rg: "- (2 ^ 31) \<le> ?q" "?q < 2 ^ 31" using assms(2) MsSeek a by (auto simp: file_step_def Let_def split: if_splits)
    have t: "to_int (case w of SEEK_SET \<Rightarrow> p | SEEK_END \<Rightarrow> int (vsize ms) + p | SEEK_CUR \<Rightarrow> int (curpos ms) + p) = ?q"
      using to_int_small[OF rg] base by (cases w) simp_all
    have lv: "length (bytes (ms_file ms)) = vsize ms" using ok(1) by (simp add: ms_file_def ms_ok_def)
    show ?thesis
    proof (cases "?q < 0 \<or> ?q > int (vsize ms)")
      case True
      then have "b = (ms_file ms, out @ [SkOut (-1)])" using assms(2) MsSeek a rg lv by (auto simp: file_step_def Let_def split: if_splits)
      moreover have "mstream_seek ms p w = (-1, ms)" using True by (simp add: mstream_seek_def t Let_def)
      ultimately show ?thesis using MsSeek c ok by (simp add: ms_step_def ms_repr_def)
    next
      case False
      then have "b = ((ms_file ms)\<lparr>pos := nat ?q\<rparr>, out @ [SkOut ?q])" using assms(2) MsSeek a rg lv by (auto simp: file_step_def Let_def split: if_splits)
      moreover have m: "mstream_seek ms p w = (?q, ms\<lparr>curpos := nat ?q\<rparr>)" using False by (simp add: mstream_seek_def t Let_def)
      moreover have "ms_ok (ms\<lparr>curpos := nat ?q\<rparr>)" using seek_ok[OF ok(1), of p w] m by simp
      ultimately show ?thesis using MsSeek c ok(2) by (simp add: ms_step_def ms_repr_def ms_file_def)
    qed
  qed
qed

interpretation rw_stream: simulation ms_step "file_step False" "ms_repr False"
  by unfold_locales (rule ms_sim)

interpretation append_stream: simulation ms_step "file_step True" "ms_repr True"
  by unfold_locales (rule ms_sim)

lemma stream_follows:
  "ms_repr app c a \<Longrightarrow> run_abstract (file_step app) xs a = Some b \<Longrightarrow> \<exists>d. run_concrete ms_step xs c = Inr d \<and> ms_repr app d b"
  using rw_stream.run_follows[of c a xs b] append_stream.run_follows[of c a xs b] by (cases app) simp_all

text \<open>C23. A stream opened for reading and writing behaves as a file that cannot grow beyond the buffer: every sequence
  of calls gives the results, in the same order, that it gives on such a file, and leaves the same contents and
  position, with appending at the end in append mode.\<close>
theorem ms_refines_file:
  assumes "fmemopen junk buf sz typ = Inr ms" "\<forall>b. buf = Some b \<longrightarrow> length b = sz" "sz < 2 ^ 31" "ms_flags ms AND (MS_READ OR MS_WRITE) = (MS_READ OR MS_WRITE)"
    and "run_abstract (file_step (ms_flags ms AND MS_APPEND \<noteq> 0)) ops (ms_file ms, []) = Some (f, out)"
  shows "\<exists>ms'. run_concrete ms_step ops (ms, []) = Inr (ms', out) \<and> ms_file ms' = f"
proof -
  have ok: "ms_ok ms" by (rule open_ok[OF assms(1-3)])
  then have "ms_flags ms \<in> {1, 3, 4, 7, 10, 11, 19, 23, 27}" by (auto simp: ms_ok_def ms_modes_def)
  then have "ms_flags ms \<in> (if ms_flags ms AND MS_APPEND \<noteq> 0 then {7, 23} else {3, 11, 19, 27})"
    using assms(4) by (elim insertE emptyE) (auto simp: ms_flag_defs)
  then have "ms_repr (ms_flags ms AND MS_APPEND \<noteq> 0) (ms, []) (ms_file ms, [])" using ok by (simp add: ms_repr_def)
  from stream_follows[OF this assms(5)] show ?thesis by (auto simp: ms_repr_def)
qed

theorem ms_refines_file_witness:
  "\<exists>ms ms'. fmemopen [] (Some ''abcd'') 4 ''r+'' = Inr ms
    \<and> run_concrete ms_step [MsRead 1, MsWrite ''XYZW'', MsSeek 0 SEEK_SET, MsRead 9] (ms, [])
        = Inr (ms', [RdOut (Some ''a''), WrOut (Some 3), SkOut 0, RdOut (Some ''aXYZ'')])
    \<and> bytes (ms_file ms') = ''aXYZ''"
proof -
  have "type_to_flags ''r+'' = 3" by (simp add: type_to_flags_def ms_flag_defs)
  then have o: "fmemopen [] (Some ''abcd'') 4 ''r+'' = Inr \<lparr>ms_buf = ''abcd'', rsize = 4, vsize = 4, curpos = 0, ms_flags = 3\<rparr>" (is "_ = Inr ?ms")
    by (simp add: fmemopen_def ms_flag_defs)
  have f: "ms_flags ?ms AND (MS_READ OR MS_WRITE) = (MS_READ OR MS_WRITE)" "(ms_flags ?ms AND MS_APPEND \<noteq> 0) = False" by (simp_all add: ms_flag_defs)
  have r: "run_abstract (file_step (ms_flags ?ms AND MS_APPEND \<noteq> 0)) [MsRead 1, MsWrite ''XYZW'', MsSeek 0 SEEK_SET, MsRead 9] (ms_file ?ms, [])
    = Some (\<lparr>bytes = ''aXYZ'', pos = 4, room = 4\<rparr>, [RdOut (Some ''a''), WrOut (Some 3), SkOut 0, RdOut (Some ''aXYZ'')])"
    unfolding f(2) by (simp add: file_step_def fread_def fwrite_def ms_file_def splice_def seek_base_def Let_def)
  have "\<forall>b. Some ''abcd'' = Some b \<longrightarrow> length b = 4" "(4 :: nat) < 2 ^ 31" by simp_all
  from ms_refines_file[OF o this f(1) r] o show ?thesis by auto
qed

section \<open>A stream for writing alone\<close>

text \<open>A stream opened with mode \<open>w\<close> keeps its buffer a C string: after one write of a text without null bytes
  the buffer holds that text, cut to one byte less than its size. A text that fills the buffer loses its last byte
  although the write reports every byte written.\<close>
theorem ms_write_only:
  assumes "fmemopen junk (Some b) sz ''w'' = Inr ms" "length b = sz" "sz < 2 ^ 31" "NUL \<notin> set s"
  shows "\<exists>ms' b'. mstream_write ms s = Inr (Some (min (length s) sz), ms') \<and> mstream_close ms' = Some b' \<and> cstr b' = take (sz - 1) s"
proof -
  have "type_to_flags ''w'' = 10" by (simp add: type_to_flags_def ms_flag_defs)
  then have o: "ms = \<lparr>ms_buf = b, rsize = sz, vsize = 0, curpos = 0, ms_flags = 10\<rparr>" "0 < sz"
    using assms(1) by (auto simp: fmemopen_def ms_flag_defs split: if_splits)
  have ok: "ms_ok ms" using open_ok[OF assms(1)] assms(2,3) by simp
  let ?n = "min (length s) sz"
  let ?b = "(splice 0 (take ?n s) b)[min ?n (sz - 1) := NUL]"
  have sp: "splice 0 (take ?n s) b = take sz s @ drop ?n b" by (simp add: splice_def min_def)
  have lb: "length (splice 0 (take ?n s) b) = sz" using assms(2) by (simp add: splice_def)
  have w: "\<exists>v. mstream_write ms s = Inr (Some ?n, ms\<lparr>ms_buf := ?b, curpos := ?n, vsize := v\<rparr>)"
    unfolding mstream_write_small[OF ok] using assms(2) o(2) lb by (cases sz; cases "s = []"; cases "length s < sz") (auto simp: o(1) ms_flag_defs put_nul_def Let_def min_def)
  have "cstr ?b = take (sz - 1) s"
  proof -
    have "take (min ?n (sz - 1)) ?b = take (sz - 1) s" unfolding sp using o(2) by (auto simp: min_def)
    moreover have "?b = take (min ?n (sz - 1)) ?b @ NUL # drop (Suc (min ?n (sz - 1))) ?b"
      using lb o(2) by (subst id_take_nth_drop[of "min ?n (sz - 1)" ?b]) auto
    moreover have "NUL \<notin> set (take (sz - 1) s)" using assms(4) by (auto dest: in_set_takeD)
    ultimately show ?thesis using cstr_append_NUL by metis
  qed
  moreover have "mstream_close (ms\<lparr>ms_buf := ?b, curpos := ?n, vsize := v\<rparr>) = Some ?b" for v
    by (simp add: o(1) mstream_close_def ms_flag_defs)
  ultimately show ?thesis using w by blast
qed

theorem ms_write_only_witness:
  "\<exists>ms ms' b'. fmemopen [] (Some ''xxxx'') 4 ''w'' = Inr ms \<and> mstream_write ms ''full'' = Inr (Some 4, ms') \<and> mstream_close ms' = Some b' \<and> cstr b' = ''ful''"
proof -
  have "type_to_flags ''w'' = 10" by (simp add: type_to_flags_def ms_flag_defs)
  then obtain ms where "fmemopen [] (Some ''xxxx'') 4 ''w'' = Inr ms" by (simp add: fmemopen_def ms_flag_defs)
  then show ?thesis using ms_write_only[of "[]" "''xxxx''" 4 ms "''full''"] by auto
qed

lemma ms_seek_wraps: "mstream_seek ms (2 ^ 32) SEEK_SET = (0, ms\<lparr>curpos := 0\<rparr>)"
  by (simp add: mstream_seek_def to_int_def)

end
