(* ===== verification/OpenProto.thy ===== *)
theory OpenProto
  imports CStd
begin

text \<open>
  The protocol of the open servers: splitting a request into words (\<open>lib/bufargs.c\<close>), the two-byte
  protocol that passes a descriptor or an error (\<open>lib/sendfd.c\<close>, \<open>lib/senderr.c\<close>, \<open>lib/recvfd.c\<close>),
  the handling of a request (\<open>ipc2/opend/request.c\<close>, \<open>ipc2/opend.fe/request.c\<close> with their
  \<open>cliargs.c\<close>) and the request itself (\<open>ipc2/open/open.c\<close>, \<open>ipc2/open.fe/open.c\<close>).

  A local stream socket is a queue of segments, one for each \<open>write\<close> or \<open>sendmsg\<close>; a segment may carry an open
  file. \<open>recvmsg\<close> takes what has arrived, up to the size of its buffer and not beyond a segment with an open file.
  Which segments have arrived at each call, the pieces in which \<open>writen\<close> writes a message, the result of
  \<open>open\<close> and its \<open>strerror\<close> are arguments. \<open>sendmsg\<close> and \<open>malloc\<close> succeed.
\<close>

section \<open>Words of a request\<close>

definition MAXLINE :: nat where "MAXLINE = 4096"
definition MAXARGC :: nat where "MAXARGC = 50"

definition white :: "char \<Rightarrow> bool" where
  "white c \<longleftrightarrow> c = CHR '' '' \<or> c = CHR 0x09 \<or> c = NL"

definition strtok :: "string \<Rightarrow> (string \<times> string) option" where
  \<comment> \<open>the next word and what follows the byte that ends it\<close>
  "strtok s = (case dropWhile white s of
      [] \<Rightarrow> None
    | c # t \<Rightarrow> Some (takeWhile (\<lambda>x. \<not> white x) (c # t), drop 1 (dropWhile (\<lambda>x. \<not> white x) (c # t))))"

lemma strtok_shorter: "strtok s = Some (p, r) \<Longrightarrow> length r < length s"
proof -
  assume a: "strtok s = Some (p, r)"
  then obtain c t where d: "dropWhile white s = c # t" by (auto simp: strtok_def split: list.splits)
  have "r = drop 1 (dropWhile (\<lambda>x. \<not> white x) (c # t))" using a d by (simp add: strtok_def)
  moreover have "length (dropWhile (\<lambda>x. \<not> white x) (c # t)) \<le> length (c # t)" by (rule length_dropWhile_le)
  moreover have "length (c # t) \<le> length s" using length_dropWhile_le[of white s] d by simp
  ultimately show ?thesis by simp
qed

function args_loop :: "nat \<Rightarrow> string \<Rightarrow> string list option" where
  \<comment> \<open>the words after \<open>argv[argc]\<close>; \<open>None\<close> when there are too many\<close>
  "args_loop argc s = (case strtok s of
      None \<Rightarrow> Some []
    | Some (ptr, rest) \<Rightarrow> if argc + 1 \<ge> MAXARGC - 1 then None else map_option (Cons ptr) (args_loop (argc + 1) rest))"
  by pat_completeness auto
termination by (relation "measure (\<lambda>(argc, s). length s)") (auto dest: strtok_shorter)

declare args_loop.simps [simp del]

definition buf_args :: "string \<Rightarrow> (string list \<Rightarrow> 's \<Rightarrow> int \<times> 's) \<Rightarrow> 's \<Rightarrow> int \<times> 's" where
  \<comment> \<open>\<open>argv[0]\<close> is the buffer itself, with the null byte after the first word\<close>
  "buf_args buf optfunc st = (case strtok (cstr buf) of
      None \<Rightarrow> (-1, st)
    | Some (ptr, rest) \<Rightarrow> (case args_loop 0 rest of
          None \<Rightarrow> (-1, st)
        | Some argv \<Rightarrow> optfunc ((takeWhile white (cstr buf) @ ptr) # argv) st))"

section \<open>The two-byte protocol\<close>

datatype rv = RvFile nat | RvInt int

type_synonym seg = "string \<times> nat option"

definition status_byte :: "int \<Rightarrow> char" where
  \<comment> \<open>\<open>buf[1]\<close> for a descriptor below zero\<close>
  "status_byte i = (let b = char_of (nat (- i)) in if b = NUL then CHR 0x01 else b)"

definition send_fd :: "rv \<Rightarrow> seg list" where
  "send_fd fd_to_send = (case fd_to_send of
      RvInt i \<Rightarrow> [([NUL, status_byte i], None)]
    | RvFile f \<Rightarrow> [([NUL, NUL], Some f)])"

definition send_err :: "(string \<Rightarrow> string list) \<Rightarrow> int \<Rightarrow> string \<Rightarrow> seg list" where
  \<comment> \<open>the pieces in which \<open>writen\<close> sends the message, then the status\<close>
  "send_err pcs errcode msg =
     (if length msg > 0 then map (\<lambda>p. (p, None)) (pcs msg) else [])
     @ send_fd (RvInt (if errcode \<ge> 0 then -1 else errcode))"

fun gather :: "nat \<Rightarrow> nat \<Rightarrow> seg list \<Rightarrow> string \<times> nat option \<times> seg list" where
  \<comment> \<open>what \<open>recvmsg\<close> takes when the first \<open>a\<close> segments have arrived and its buffer has \<open>n\<close> bytes\<close>
  "gather 0 n segs = ([], None, segs)"
| "gather (Suc a) n [] = ([], None, [])"
| "gather (Suc a) n ((d, f) # segs) =
     (if n = 0 then ([], None, (d, f) # segs)
      else if length d > n then (take n d, f, (drop n d, None) # segs)
      else if f \<noteq> None then (d, f, segs)
      else let (d', f', r) = gather a (n - length d) segs in (d @ d', f', r))"

datatype rcv = Avail nat | Closed | Failed

datatype recv_result = Returned rv | Dumped

function scan :: "string \<Rightarrow> nat option \<Rightarrow> nat \<Rightarrow> nat \<Rightarrow> rv option \<Rightarrow> (nat \<times> rv option) option" where
  \<comment> \<open>the search for the null byte, with \<open>nr\<close> and, once the status is known, \<open>newfd\<close>; \<open>None\<close> is \<open>err_dump\<close>\<close>
  "scan buf ctl ptr nr newfd =
     (if ptr < nr then
        if buf ! ptr = NUL then
          if ptr + 1 \<noteq> nr - 1 then None
          else if buf ! (ptr + 1) = NUL
            then (case ctl of None \<Rightarrow> None | Some f \<Rightarrow> scan buf ctl (ptr + 1) (nr - 2) (Some (RvFile f)))
            else scan buf ctl (ptr + 1) (nr - 2) (Some (RvInt (- int (of_char (buf ! (ptr + 1))))))
        else scan buf ctl (ptr + 1) nr newfd
      else Some (nr, newfd))"
  by pat_completeness auto
termination by (relation "measure (\<lambda>(buf, ctl, ptr, nr, newfd). nr - ptr)") auto

declare scan.simps [simp del]

fun recv_fd :: "(string \<Rightarrow> nat) \<Rightarrow> rcv list \<Rightarrow> seg list \<Rightarrow> string \<Rightarrow> (recv_result \<times> seg list \<times> string) option" where
  \<comment> \<open>the user's function gets the bytes before the status, here what it writes to the standard error; \<open>None\<close>: still waiting\<close>
  "recv_fd userfunc [] segs err = None"
| "recv_fd userfunc (Failed # sch) segs err = Some (Returned (RvInt (-1)), segs, err)"
| "recv_fd userfunc (Closed # sch) segs err = Some (Returned (RvInt (-1)), segs, err)"
| "recv_fd userfunc (Avail a # sch) segs err =
     (let (buf, ctl, rest) = gather a MAXLINE segs in
      if buf = [] then recv_fd userfunc sch segs err
      else case scan buf ctl 0 (length buf) None of
        None \<Rightarrow> Some (Dumped, rest, err)
      | Some (nr, newfd) \<Rightarrow>
          let n = userfunc (take nr buf); err1 = (if nr > 0 then err @ take n (take nr buf) else err) in
          if nr > 0 \<and> n \<noteq> nr then Some (Returned (RvInt (-1)), rest, err1)
          else case newfd of Some v \<Rightarrow> Some (Returned v, rest, err1) | None \<Rightarrow> recv_fd userfunc sch rest err1)"

section \<open>The server\<close>

record srv =
  errmsg :: string
  pathname :: string
  oflag :: int

definition CL_OPEN :: string where "CL_OPEN = ''open''"

definition cli_args :: "string list \<Rightarrow> srv \<Rightarrow> int \<times> srv" where
  "cli_args argv st =
     (if length argv \<noteq> 3 \<or> argv ! 0 \<noteq> CL_OPEN then (-1, st\<lparr>errmsg := ''usage: <pathname> <oflag>'' @ [NL]\<rparr>)
      else (0, st\<lparr>pathname := argv ! 1, oflag := atol (argv ! 2)\<rparr>))"

definition bounded :: "string \<Rightarrow> string" where
  \<comment> \<open>what \<open>snprintf(errmsg, MAXLINE-1, ...)\<close> stores\<close>
  "bounded s = take (MAXLINE - 2) s"

type_synonym opener = "string \<Rightarrow> int \<Rightarrow> string + nat"

definition serve :: "opener \<Rightarrow> (string \<Rightarrow> string list) \<Rightarrow> string \<Rightarrow> srv \<Rightarrow> srv \<times> seg list" where
  \<comment> \<open>a request that ends with a null byte\<close>
  "serve opn pcs buf st =
     (let (r, st1) = buf_args buf cli_args st in
      if r < 0 then (st1, send_err pcs (-1) (errmsg st1))
      else case opn (pathname st1) (oflag st1) of
          Inl e \<Rightarrow> let st2 = st1\<lparr>errmsg := bounded (''can'' @ [CHR 0x27] @ ''t open '' @ pathname st1 @ '': '' @ e @ [NL])\<rparr> in
                   (st2, send_err pcs (-1) (errmsg st2))
        | Inr newfd \<Rightarrow> (st1, send_fd (RvFile newfd)))"

definition handle_request :: "opener \<Rightarrow> (string \<Rightarrow> string list) \<Rightarrow> int \<Rightarrow> string \<Rightarrow> srv \<Rightarrow> srv \<times> seg list" where
  "handle_request opn pcs uid buf st =
     (if last buf \<noteq> NUL
      then let st1 = st\<lparr>errmsg := bounded (''request from uid '' @ sdec uid @ '' not null terminated: '' @ padl (length buf) (cstr buf) @ [NL])\<rparr> in
           (st1, send_err pcs (-1) (errmsg st1))
      else serve opn pcs buf st)"

definition fe_handle_request :: "opener \<Rightarrow> (string \<Rightarrow> string list) \<Rightarrow> string \<Rightarrow> srv \<Rightarrow> srv \<times> seg list" where
  \<comment> \<open>the server that its client starts with \<open>fork\<close> and \<open>exec\<close>\<close>
  "fe_handle_request opn pcs buf st =
     (if last buf \<noteq> NUL
      then let st1 = st\<lparr>errmsg := bounded (''request not null terminated: '' @ padl (length buf) (cstr buf) @ [NL])\<rparr> in
           (st1, send_err pcs (-1) (errmsg st1))
      else serve opn pcs buf st)"

section \<open>The client\<close>

definition csopen_req :: "nat \<Rightarrow> string \<Rightarrow> int \<Rightarrow> string option" where
  \<comment> \<open>the request; \<open>None\<close> when \<open>sprintf\<close> overruns the buffer of this size\<close>
  "csopen_req bufsz name oflg =
     (let buf = '' '' @ sdec oflg in
      if length buf + 1 > bufsz then None else Some (CL_OPEN @ '' '' @ name @ buf @ [NUL]))"

fun chop :: "nat \<Rightarrow> string \<Rightarrow> string list" where
  \<comment> \<open>the pieces that reads into a buffer of this size give\<close>
  "chop n s = (if s = [] \<or> n = 0 then [] else take n s # chop n (drop n s))"

declare chop.simps [simp del]

fun serve_all :: "(string \<Rightarrow> srv \<Rightarrow> srv \<times> seg list) \<Rightarrow> string list \<Rightarrow> srv \<Rightarrow> srv \<times> seg list" where
  \<comment> \<open>the server's loop over what it reads from one client\<close>
  "serve_all handler [] st = (st, [])"
| "serve_all handler (buf # bufs) st =
     (let (st1, a) = handler buf st; (st2, b) = serve_all handler bufs st1 in (st2, a @ b))"

datatype cl_err = Overflow | Waiting | Dump | ReadError | BeforeLine

record session =
  csfd :: bool           \<comment> \<open>the connection is open\<close>
  server :: srv
  pend :: "seg list"     \<comment> \<open>what the server sent and the client has not read\<close>
  outp :: string
  errp :: string

type_synonym turn = "bool \<times> nat option \<times> rcv list"
  \<comment> \<open>whether a connection can be made, how much \<open>writev\<close> writes (\<open>None\<close>: all), what arrives at each \<open>recvmsg\<close>\<close>

definition csopen_with :: "nat \<Rightarrow> (string \<Rightarrow> srv \<Rightarrow> srv \<times> seg list) \<Rightarrow> turn \<Rightarrow> string \<Rightarrow> int \<Rightarrow> session \<Rightarrow> cl_err + (rv \<times> session)" where
  "csopen_with bufsz handler tn name oflg ses =
     (case tn of (conn, wr, sch) \<Rightarrow>
      if \<not> csfd ses \<and> \<not> conn then Inr (RvInt (-1), ses)
      else case csopen_req bufsz name oflg of
        None \<Rightarrow> Inl Overflow
      | Some req \<Rightarrow>
          let len = (case wr of None \<Rightarrow> length req | Some k \<Rightarrow> k);
              (sv, replies) = serve_all handler (chop MAXLINE (take len req)) (server ses);
              ses1 = ses\<lparr>csfd := True, server := sv, pend := pend ses @ replies\<rparr> in
          if len \<noteq> length req then Inr (RvInt (-1), ses1)
          else case recv_fd length sch (pend ses1) (errp ses1) of
              None \<Rightarrow> Inl Waiting
            | Some (Dumped, _, _) \<Rightarrow> Inl Dump
            | Some (Returned v, segs, e) \<Rightarrow> Inr (v, ses1\<lparr>pend := segs, errp := e\<rparr>))"

definition csopen :: "opener \<Rightarrow> (string \<Rightarrow> string list) \<Rightarrow> int \<Rightarrow> turn \<Rightarrow> string \<Rightarrow> int \<Rightarrow> session \<Rightarrow> cl_err + (rv \<times> session)" where
  "csopen opn pcs uid = csopen_with 12 (handle_request opn pcs uid)"

definition fe_csopen :: "opener \<Rightarrow> (string \<Rightarrow> string list) \<Rightarrow> turn \<Rightarrow> string \<Rightarrow> int \<Rightarrow> session \<Rightarrow> cl_err + (rv \<times> session)" where
  "fe_csopen opn pcs = csopen_with 10 (fe_handle_request opn pcs)"

definition BUFFSIZE :: nat where "BUFFSIZE = 8192"
definition O_RDONLY :: int where "O_RDONLY = 0"

function cat_loop :: "string \<Rightarrow> bool \<Rightarrow> string \<Rightarrow> cl_err + string" where
  \<comment> \<open>the bytes of the file that can be read, whether a read fails behind them, and the standard output\<close>
  "cat_loop data bad sout =
     (if data = [] then if bad then Inl ReadError else Inr sout
      else cat_loop (drop BUFFSIZE data) bad (sout @ take BUFFSIZE data))"
  by pat_completeness auto
termination by (relation "measure (\<lambda>(data, bad, sout). length data)") (auto simp: BUFFSIZE_def)

declare cat_loop.simps [simp del]

function open_main :: "(turn \<Rightarrow> string \<Rightarrow> int \<Rightarrow> session \<Rightarrow> cl_err + (rv \<times> session)) \<Rightarrow> (nat \<Rightarrow> string \<times> bool) \<Rightarrow> (nat \<Rightarrow> turn) \<Rightarrow> nat \<Rightarrow> string \<Rightarrow> session
    \<Rightarrow> cl_err + session" where
  \<comment> \<open>the loop over the rest of the standard input, with the contents of the files and the turns of the calls\<close>
  "open_main copen content turns i stdin ses =
     (if stdin = [] then Inr ses
      else let raw = fgets_line MAXLINE stdin; line = cstr raw in
        if line = [] then Inl BeforeLine
        else let name = (if last line = NL then butlast line else line) in
          bindE (copen (turns i) name O_RDONLY ses) (\<lambda>(fd, ses1).
            bindE (case fd of RvInt _ \<Rightarrow> Inr ses1
                 | RvFile f \<Rightarrow> bindE (cat_loop (fst (content f)) (snd (content f)) (outp ses1)) (\<lambda>o1. Inr (ses1\<lparr>outp := o1\<rparr>)))
              (open_main copen content turns (i + 1) (drop (length raw) stdin))))"
  by pat_completeness auto
termination
proof (relation "measure (\<lambda>(_, _, _, _, s, _). length s)", goal_cases)
  case (2 copen content turns i stdin ses raw line name x fd ses1 y)
  then show ?case by (cases stdin) (auto simp: fgets_line_def MAXLINE_def Let_def)
qed simp

declare open_main.simps [simp del]

end
