(* ===== verification/OpenClient.thy ===== *)
theory OpenClient
  imports OpenProto
begin

text \<open>
  What the protocol of the open servers achieves: splitting a request is splitting at white space, an
  error message and its status arrive whole however the socket cuts them, and a file is opened for the client
  that asked for it. The words of a text have a reference definition, \<open>words\<close>.
\<close>

section \<open>The words of a text\<close>

fun fields :: "string \<Rightarrow> string list" where
  \<comment> \<open>the pieces between the white bytes\<close>
  "fields [] = [[]]"
| "fields (c # s) = (if white c then [] # fields s else (c # hd (fields s)) # tl (fields s))"

definition words :: "string \<Rightarrow> string list" where
  "words s = filter (\<lambda>w. w \<noteq> []) (fields s)"

lemma fields_ne [simp]: "fields s \<noteq> []"
  by (cases s) auto

lemma words_simps: "words [] = []" "white c \<Longrightarrow> words (c # s) = words s"
  by (simp_all add: words_def)

lemma words_dropWhile: "words (dropWhile white s) = words s"
  by (induction s) (simp_all add: words_simps)

lemma fields_append: "\<forall>c \<in> set w. \<not> white c \<Longrightarrow> fields (w @ s) = (w @ hd (fields s)) # tl (fields s)"
  by (induction w) simp_all

lemma words_append:
  assumes "\<forall>c \<in> set w. \<not> white c" "w \<noteq> []" "s = [] \<or> white (hd s)"
  shows "words (w @ s) = w # words (drop 1 s)"
  using assms(2,3) fields_append[OF assms(1), of s] by (cases s) (auto simp: words_def)

lemma strtok_None: "strtok s = None \<longleftrightarrow> words s = []"
proof (cases "dropWhile white s")
  case Nil
  then have "words s = []" by (metis words_dropWhile words_simps(1))
  then show ?thesis unfolding strtok_def Nil by simp
next
  case (Cons c t)
  then have "\<not> white c" by (metis hd_dropWhile list.sel(1) list.distinct(1))
  then have "words (c # t) \<noteq> []" by (simp add: words_def)
  then show ?thesis using Cons words_dropWhile[of s] by (simp add: strtok_def)
qed

lemma strtok_Some: "strtok s = Some (p, r) \<Longrightarrow> words s = p # words r"
proof -
  assume a: "strtok s = Some (p, r)"
  then obtain c t where d: "dropWhile white s = c # t" by (auto simp: strtok_def split: list.splits)
  then have "\<not> white c" by (metis hd_dropWhile list.sel(1) list.distinct(1))
  let ?w = "takeWhile (\<lambda>x. \<not> white x) (c # t)" let ?d = "dropWhile (\<lambda>x. \<not> white x) (c # t)"
  have pr: "p = ?w" "r = drop 1 ?d" using a d by (simp_all add: strtok_def)
  have "?d = [] \<or> white (hd ?d)" using hd_dropWhile[of "\<lambda>x. \<not> white x" "c # t"] by blast
  then have "words (?w @ ?d) = ?w # words (drop 1 ?d)"
    using \<open>\<not> white c\<close> by (intro words_append) (auto dest: set_takeWhileD)
  then have "words (c # t) = p # words r" unfolding pr takeWhile_dropWhile_id .
  then show ?thesis using words_dropWhile[of s] d by simp
qed

lemma args_loop_words:
  "args_loop argc s = (if words s = [] \<or> argc + length (words s) < MAXARGC - 1 then Some (words s) else None)"
proof (induction argc s rule: args_loop.induct)
  case (1 argc s)
  show ?case
  proof (cases "strtok s")
    case None
    then show ?thesis using strtok_None[of s] by (simp add: args_loop.simps[of argc s])
  next
    case (Some pr)
    then obtain p r where pr: "strtok s = Some (p, r)" by (cases pr) auto
    show ?thesis
    proof (cases "argc + 1 \<ge> MAXARGC - 1")
      case True
      then show ?thesis using pr strtok_Some[OF pr] by (subst args_loop.simps) simp
    next
      case False
      then have "args_loop (argc + 1) r = (if words r = [] \<or> argc + 1 + length (words r) < MAXARGC - 1 then Some (words r) else None)"
        by (rule "1.IH"[OF pr refl])
      then show ?thesis using pr strtok_Some[OF pr] False by (subst args_loop.simps) auto
    qed
  qed
qed

text \<open>Splitting a request into arguments is splitting its C string at white space: the user's function gets
  the words in order, at least one and at most 49 of them, and the call fails without it otherwise. The first argument
  keeps the white space before it.\<close>
theorem buf_args_words:
  "buf_args buf optfunc st = (let ws = words (cstr buf) in
     if 1 \<le> length ws \<and> length ws \<le> 49 then optfunc ((takeWhile white (cstr buf) @ hd ws) # tl ws) st else (-1, st))"
proof (cases "strtok (cstr buf)")
  case None
  then show ?thesis using strtok_None[of "cstr buf"] by (simp add: buf_args_def)
next
  case (Some pr)
  then obtain p r where pr: "strtok (cstr buf) = Some (p, r)" by (cases pr) auto
  show ?thesis using pr strtok_Some[OF pr] args_loop_words[of 0 r]
    by (auto simp: buf_args_def MAXARGC_def Let_def)
qed

section \<open>Receiving\<close>

lemma scan_clean:
  "\<forall>i. ptr \<le> i \<and> i < nr \<longrightarrow> buf ! i \<noteq> NUL \<Longrightarrow> scan buf ctl ptr nr v = Some (nr, v)"
  by (induction buf ctl ptr nr v rule: scan.induct) (subst scan.simps, auto)

lemma scan_final:
  assumes "NUL \<notin> set msg" "ptr \<le> length msg"
  shows "scan (msg @ [NUL, b]) ctl ptr (length msg + 2) None =
     (if b = NUL then map_option (\<lambda>f. (length msg, Some (RvFile f))) ctl else Some (length msg, Some (RvInt (- int (of_char b)))))"
  using assms(2)
proof (induction "length msg - ptr" arbitrary: ptr)
  case 0
  then have p: "ptr = length msg" by simp
  have e: "(msg @ [NUL, b]) ! length msg = NUL" "(msg @ [NUL, b]) ! (length msg + 1) = b" by (simp_all add: nth_append)
  have s: "scan u c (length msg + 1) (length msg) v = Some (length msg, v)" for u c v by (subst scan.simps) simp
  show ?case unfolding p by (subst scan.simps) (use e s in \<open>simp split: option.split\<close>)
next
  case (Suc k)
  then have "ptr < length msg" by simp
  then have "(msg @ [NUL, b]) ! ptr \<noteq> NUL" using assms(1) by (auto simp: nth_append in_set_conv_nth)
  then show ?case using Suc by (subst scan.simps) simp
qed

lemma gather_pieces:
  assumes "[] \<notin> set ps" "length (concat ps) + length t \<le> n" "t \<noteq> []"
  shows "gather a n (map (\<lambda>p. (p, None)) ps @ [(t, ctl)]) =
     (if a \<le> length ps then (concat (take a ps), None, map (\<lambda>p. (p, None)) (drop a ps) @ [(t, ctl)]) else (concat ps @ t, ctl, []))"
  using assms(1,2)
proof (induction ps arbitrary: a n)
  case Nil
  have "n \<noteq> 0" using Nil assms(3) by (cases t) auto
  then show ?case using Nil by (cases a; cases "a - 1") (auto split: prod.splits)
next
  case (Cons p ps)
  show ?case
  proof (cases a)
    case (Suc k)
    have "n \<noteq> 0" "length p \<le> n" using Cons.prems by (cases p; auto)+
    moreover have "gather k (n - length p) (map (\<lambda>p. (p, None)) ps @ [(t, ctl)]) =
     (if k \<le> length ps then (concat (take k ps), None, map (\<lambda>p. (p, None)) (drop k ps) @ [(t, ctl)]) else (concat ps @ t, ctl, []))"
      using Cons.prems by (intro Cons.IH) auto
    ultimately show ?thesis using Suc by simp
  qed simp
qed

lemma recv_pieces:
  assumes "[] \<notin> set ps" "NUL \<notin> set (concat ps)" "length (concat ps) + 2 \<le> MAXLINE" "0 \<notin> set as" "length ps < length as"
    "b = NUL \<longrightarrow> ctl \<noteq> None"
  shows "recv_fd length (map Avail as) (map (\<lambda>p. (p, None)) ps @ [([NUL, b], ctl)]) err =
     Some (Returned (if b = NUL then RvFile (the ctl) else RvInt (- int (of_char b))), [], err @ concat ps)"
  using assms(1-5)
proof (induction as arbitrary: ps err)
  case (Cons a as)
  have g: "gather a MAXLINE (map (\<lambda>p. (p, None)) ps @ [([NUL, b], ctl)]) =
     (if a \<le> length ps then (concat (take a ps), None, map (\<lambda>p. (p, None)) (drop a ps) @ [([NUL, b], ctl)]) else (concat ps @ [NUL, b], ctl, []))"
    using Cons.prems(1,3) by (intro gather_pieces) simp_all
  show ?case
  proof (cases "a \<le> length ps")
    case True
    define u w where "u = concat (take a ps)" and "w = concat (drop a ps)"
    obtain p q k where "ps = p # q" "a = Suc k" using True Cons.prems(4) by (cases ps; cases a) auto
    then have ne: "u \<noteq> []" using Cons.prems(1) by (auto simp: u_def)
    have pd: "concat ps = u @ w" unfolding u_def w_def by (metis append_take_drop_id concat_append)
    have "NUL \<notin> set u" using Cons.prems(2) pd by simp
    then have s: "scan u None 0 (length u) None = Some (length u, None)" by (intro scan_clean) (metis nth_mem)
    have "[] \<notin> set (drop a ps)" using Cons.prems(1) by (auto dest: in_set_dropD)
    moreover have "NUL \<notin> set (concat (drop a ps))" "length (concat (drop a ps)) + 2 \<le> MAXLINE"
      using Cons.prems(2,3) unfolding pd w_def[symmetric] by simp_all
    moreover have "0 \<notin> set as" "length (drop a ps) < length as" using Cons.prems(4,5) \<open>a = Suc k\<close> True by auto
    ultimately have "recv_fd length (map Avail as) (map (\<lambda>p. (p, None)) (drop a ps) @ [([NUL, b], ctl)]) (err @ u) =
     Some (Returned (if b = NUL then RvFile (the ctl) else RvInt (- int (of_char b))), [], (err @ u) @ w)"
      unfolding w_def by (rule Cons.IH)
    moreover have "recv_fd length (map Avail (a # as)) (map (\<lambda>p. (p, None)) ps @ [([NUL, b], ctl)]) err =
      recv_fd length (map Avail as) (map (\<lambda>p. (p, None)) (drop a ps) @ [([NUL, b], ctl)]) (err @ u)"
      using ne s by (simp add: g True u_def[symmetric])
    ultimately show ?thesis unfolding pd by simp
  next
    case False
    have "scan (concat ps @ [NUL, b]) ctl 0 (length (concat ps) + 2) None =
     (if b = NUL then map_option (\<lambda>f. (length (concat ps), Some (RvFile f))) ctl else Some (length (concat ps), Some (RvInt (- int (of_char b)))))"
      by (rule scan_final[OF Cons.prems(2)]) simp
    then show ?thesis using g False assms(6) by (cases "concat ps = []") (auto simp: Let_def simp del: length_concat)
  qed
qed simp

definition pieces_of :: "(string \<Rightarrow> string list) \<Rightarrow> bool" where
  \<comment> \<open>the documented behaviour of \<open>writen\<close>: it writes everything, each \<open>write\<close> at least a byte\<close>
  "pieces_of pcs \<longleftrightarrow> (\<forall>s. concat (pcs s) = s \<and> [] \<notin> set (pcs s))"

lemma send_err_eq:
  assumes "pieces_of pcs"
  shows "send_err pcs code msg = map (\<lambda>p. (p, None)) (pcs msg) @ [([NUL, status_byte (if code \<ge> 0 then -1 else code)], None)]"
proof -
  have "pcs [] = []" using assms by (metis pieces_of_def concat_eq_Nil_conv list.set_intros(1) neq_Nil_conv)
  then show ?thesis by (auto simp: send_err_def send_fd_def)
qed

lemma status_byte_val:
  "status_byte i \<noteq> NUL" "i < 0 \<Longrightarrow> int (of_char (status_byte i)) = (if (- i) mod 256 = 0 then 1 else (- i) mod 256)"
proof -
  have z: "char_of n = NUL \<longleftrightarrow> n mod 256 = 0" for n :: nat by (simp add: char_of_eq_iff take_bit_eq_mod)
  show "status_byte i \<noteq> NUL" by (simp add: status_byte_def Let_def)
  show "int (of_char (status_byte i)) = (if (- i) mod 256 = 0 then 1 else (- i) mod 256)" if "i < 0"
  proof -
    obtain k where k: "i = - int k" using \<open>i < 0\<close> by (metis neg_int_cases)
    have "(- i) mod 256 = int (k mod 256)" unfolding k by (simp add: zmod_int)
    then show ?thesis unfolding k by (simp add: status_byte_def Let_def z)
  qed
qed

text \<open>C25. An error message and its status arrive whole, however \<open>writen\<close> and the socket cut them: for a message of at
  most 4094 bytes \<open>recv_fd\<close> passes on exactly the message and returns the error code modulo 256, with -1 for a code
  that is not negative or is a multiple of 256.\<close>
theorem error_roundtrip:
  assumes "pieces_of pcs" "NUL \<notin> set msg" "length msg \<le> 4094" "0 \<notin> set as" "length (pcs msg) < length as"
  shows "recv_fd length (map Avail as) (send_err pcs code msg) err =
    Some (Returned (RvInt (if code \<ge> 0 \<or> code mod 256 = 0 then -1 else - ((- code) mod 256))), [], err @ msg)"
proof -
  let ?c = "if code \<ge> 0 then -1 else code"
  have p: "concat (pcs msg) = msg" "[] \<notin> set (pcs msg)" using assms(1) by (simp_all add: pieces_of_def)
  have "(- code) mod 256 = 0 \<longleftrightarrow> code mod 256 = 0" by (metis dvd_minus_iff mod_0_imp_dvd dvd_imp_mod_0)
  then have v: "- int (of_char (status_byte ?c)) = (if code \<ge> 0 \<or> code mod 256 = 0 then -1 else - ((- code) mod 256))"
    using status_byte_val(2)[of ?c] by (auto split: if_splits)
  show ?thesis unfolding send_err_eq[OF assms(1)]
    using recv_pieces[of "pcs msg" as "status_byte ?c" None err] p assms(2-5) status_byte_val(1) v by (simp add: MAXLINE_def)
qed

theorem error_roundtrip_witness:
  "recv_fd length (map Avail [1, 2, 1]) (send_err (map (\<lambda>c. [c])) (-13) ''no'') [] = Some (Returned (RvInt (-13)), [], ''no'')"
proof -
  have "pieces_of (map (\<lambda>c. [c]))" by (auto simp: pieces_of_def)
  from error_roundtrip[OF this, of "''no''" "[1, 2, 1]" "-13" "[]"] show ?thesis by simp
qed

text \<open>The limit of 4094 bytes is sharp: with one byte more the status is cut off from its null byte.\<close>

lemma long_message_dumps:
  assumes "NUL \<notin> set msg" "length msg = 4095"
  shows "recv_fd length [Avail 2] (send_err (\<lambda>s. [s]) (-1) msg) err = Some (Dumped, [([status_byte (-1)], None)], err)"
proof -
  have s: "scan (msg @ [NUL]) None p 4096 None = None" if "p \<le> 4095" for p
    using that
  proof (induction "4095 - p" arbitrary: p)
    case 0
    then have "p = 4095" by simp
    then show ?case using assms(2) by (subst scan.simps) (simp add: nth_append)
  next
    case (Suc k)
    then have "p < 4095" by simp
    then have "(msg @ [NUL]) ! p \<noteq> NUL" using assms by (auto simp: nth_append in_set_conv_nth)
    then show ?case using Suc by (subst scan.simps) simp
  qed
  have "gather 2 MAXLINE (send_err (\<lambda>s. [s]) (-1) msg) = (msg @ [NUL], None, [([status_byte (-1)], None)])"
    using assms(2) by (auto simp: send_err_def send_fd_def MAXLINE_def numeral_2_eq_2 split: if_splits)
  then show ?thesis using s[of 0] assms(2) by (simp add: Let_def)
qed

section \<open>Opening a file through the server\<close>

definition clean :: "string \<Rightarrow> bool" where
  \<comment> \<open>one word\<close>
  "clean w \<longleftrightarrow> w \<noteq> [] \<and> (\<forall>c \<in> set w. \<not> white c \<and> c \<noteq> NUL)"

lemma white_facts [simp]: "white (CHR '' '')" "\<not> white NUL" "\<not> white CHR ''-''" "\<not> white CHR ''o''" "\<not> white CHR ''p''" "\<not> white CHR ''e''" "\<not> white CHR ''n''"
  "white NL"
  by (simp_all add: white_def)

lemma isdigit_clean: "isdigit c \<Longrightarrow> \<not> white c \<and> c \<noteq> NUL"
  by (auto simp: isdigit_def white_def)

lemma sdec_clean: "clean (sdec i)"
  using isdigit_clean[OF isdigit_dec] by (auto simp: clean_def sdec_def)

definition request :: "string \<Rightarrow> int \<Rightarrow> string" where
  "request name oflg = CL_OPEN @ '' '' @ name @ '' '' @ sdec oflg @ [NUL]"

definition open_msg :: "string \<Rightarrow> string \<Rightarrow> string" where
  "open_msg name e = bounded (''can'' @ [CHR 0x27] @ ''t open '' @ name @ '': '' @ e @ [NL])"

lemma bounded_facts: "NUL \<notin> set s \<Longrightarrow> NUL \<notin> set (bounded s)" "length (bounded s) \<le> 4094"
  by (auto simp: bounded_def dest: in_set_takeD) (simp add: MAXLINE_def)

lemma open_msg_facts: "NUL \<notin> set name \<Longrightarrow> NUL \<notin> set e \<Longrightarrow> NUL \<notin> set (open_msg name e)" "length (open_msg name e) \<le> 4094"
  unfolding open_msg_def by (rule bounded_facts(1); simp) (rule bounded_facts(2))

lemma request_words:
  assumes "clean name"
  shows "words (cstr (request name oflg)) = [CL_OPEN, name, sdec oflg]" "takeWhile white (cstr (request name oflg)) = []"
proof -
  let ?s = "CL_OPEN @ '' '' @ name @ '' '' @ sdec oflg"
  have "NUL \<notin> set ?s" using assms sdec_clean[of oflg] by (auto simp: clean_def CL_OPEN_def)
  from cstr_append_NUL[OF this, of "[]"] have c: "cstr (request name oflg) = ?s" by (simp add: request_def)
  have d: "words (sdec oflg) = [sdec oflg]"
    using words_append[of "sdec oflg" "[]"] sdec_clean[of oflg] by (simp add: clean_def words_simps)
  have n: "words (name @ '' '' @ sdec oflg) = name # [sdec oflg]"
    using words_append[of name "'' '' @ sdec oflg"] assms d by (simp add: clean_def)
  show "words (cstr (request name oflg)) = [CL_OPEN, name, sdec oflg]"
    unfolding c using words_append[of CL_OPEN "'' '' @ name @ '' '' @ sdec oflg"] n by (simp add: CL_OPEN_def)
  show "takeWhile white (cstr (request name oflg)) = []" unfolding c by (simp add: CL_OPEN_def)
qed

lemma serve_request:
  assumes "clean name"
  shows "serve opn pcs (request name oflg) st = (case opn name oflg of
      Inl e \<Rightarrow> (st\<lparr>pathname := name, oflag := oflg, errmsg := open_msg name e\<rparr>, send_err pcs (-1) (open_msg name e))
    | Inr f \<Rightarrow> (st\<lparr>pathname := name, oflag := oflg\<rparr>, [([NUL, NUL], Some f)]))"
  using buf_args_words[of "request name oflg" cli_args st] request_words[OF assms, of oflg]
  by (auto simp: serve_def cli_args_def open_msg_def send_fd_def Let_def split: sum.splits)

lemma request_last: "last (request name oflg) = NUL"
  by (simp add: request_def)

locale open_service =
  fixes handler :: "string \<Rightarrow> srv \<Rightarrow> srv \<times> seg list" and opn :: opener and pcs :: "string \<Rightarrow> string list"
  assumes answers: "clean name \<Longrightarrow> handler (request name oflg) st = (case opn name oflg of
      Inl e \<Rightarrow> (st\<lparr>pathname := name, oflag := oflg, errmsg := open_msg name e\<rparr>, send_err pcs (-1) (open_msg name e))
    | Inr f \<Rightarrow> (st\<lparr>pathname := name, oflag := oflg\<rparr>, [([NUL, NUL], Some f)]))"

definition goes_well :: "turn \<Rightarrow> bool" where
  \<comment> \<open>a call that goes well: connected, everything written, and enough of the answer goes_well\<close>
  "goes_well tn \<longleftrightarrow> (\<exists>as. tn = (True, None, map Avail as) \<and> 0 \<notin> set as \<and> 4094 < length as)"

lemma pieces_few: "[] \<notin> set ps \<Longrightarrow> length ps \<le> length (concat ps)"
proof (induction ps)
  case (Cons p ps)
  then show ?case by (cases p) auto
qed simp

lemma chop_one: "s \<noteq> [] \<Longrightarrow> length s \<le> n \<Longrightarrow> chop n s = [s]"
  by (cases s) (simp_all add: chop.simps[of n "_ # _"] chop.simps[of n "[]"])

context open_service
begin

lemma csopen_answers:
  assumes "pieces_of pcs" "clean name" "length (request name oflg) \<le> MAXLINE" "length (sdec oflg) + 2 \<le> bufsz" "goes_well tn" "pend ses = []"
    "\<forall>e. opn name oflg = Inl e \<longrightarrow> NUL \<notin> set e"
  shows "\<exists>ses'. csopen_with bufsz handler tn name oflg ses = Inr (case opn name oflg of Inl e \<Rightarrow> RvInt (-1) | Inr f \<Rightarrow> RvFile f, ses')
    \<and> pend ses' = [] \<and> outp ses' = outp ses \<and> errp ses' = errp ses @ (case opn name oflg of Inl e \<Rightarrow> open_msg name e | Inr f \<Rightarrow> [])"
proof -
  obtain as where as: "tn = (True, None, map Avail as)" "0 \<notin> set as" "4094 < length as" using assms(5) by (auto simp: goes_well_def)
  have req: "csopen_req bufsz name oflg = Some (request name oflg)" using assms(4) by (simp add: csopen_req_def request_def)
  have "request name oflg \<noteq> []" by (simp add: request_def)
  then have ch: "chop MAXLINE (request name oflg) = [request name oflg]" using assms(3) by (rule chop_one)
  show ?thesis
  proof (cases "opn name oflg")
    case (Inr f)
    have "recv_fd length (map Avail as) [([NUL, NUL], Some f)] (errp ses) = Some (Returned (RvFile f), [], errp ses)"
      using recv_pieces[of "[]" as NUL "Some f" "errp ses"] as(2,3) by (cases as) (auto simp: MAXLINE_def)
    then show ?thesis using as(1) req ch answers[OF assms(2), of oflg] assms(6) Inr by (simp add: csopen_with_def Let_def)
  next
    case (Inl e)
    let ?m = "open_msg name e"
    have m: "NUL \<notin> set ?m" "length ?m \<le> 4094"
      using assms(2,7) Inl open_msg_facts by (auto simp: clean_def)
    have "length (pcs ?m) \<le> length ?m" using assms(1) pieces_few[of "pcs ?m"] by (simp add: pieces_of_def)
    then have "length (pcs ?m) < length as" using m(2) as(3) by simp
    from error_roundtrip[OF assms(1) m as(2) this, of "-1" "errp ses"]
    have "recv_fd length (map Avail as) (send_err pcs (-1) ?m) (errp ses) = Some (Returned (RvInt (-1)), [], errp ses @ ?m)" by simp
    then show ?thesis using as(1) req ch answers[OF assms(2), of oflg] assms(6) Inl by (simp add: csopen_with_def Let_def)
  qed
qed

end

interpretation conn_server: open_service "handle_request opn pcs uid" opn pcs for opn pcs uid
  by unfold_locales (simp add: handle_request_def serve_request request_last)

interpretation child_server: open_service "fe_handle_request opn pcs" opn pcs for opn pcs
  by unfold_locales (simp add: fe_handle_request_def serve_request request_last)

lemma csopen_total:
  assumes "copen = csopen opn pcs uid \<or> copen = fe_csopen opn pcs" "pieces_of pcs" "clean name" "length name \<le> 4088" "goes_well tn" "pend ses = []"
    "\<forall>e. opn name O_RDONLY = Inl e \<longrightarrow> NUL \<notin> set e"
  shows "\<exists>ses'. copen tn name O_RDONLY ses = Inr (case opn name O_RDONLY of Inl e \<Rightarrow> RvInt (-1) | Inr f \<Rightarrow> RvFile f, ses')
    \<and> pend ses' = [] \<and> outp ses' = outp ses \<and> errp ses' = errp ses @ (case opn name O_RDONLY of Inl e \<Rightarrow> open_msg name e | Inr f \<Rightarrow> [])"
proof -
  have z: "length (sdec O_RDONLY) = 1" by (simp add: sdec_def O_RDONLY_def dec.simps)
  then have "length (request name O_RDONLY) \<le> MAXLINE" using assms(4) by (simp add: request_def CL_OPEN_def MAXLINE_def)
  moreover have "length (sdec O_RDONLY) + 2 \<le> 12" "length (sdec O_RDONLY) + 2 \<le> 10" using z by simp_all
  ultimately show ?thesis using assms conn_server.csopen_answers[of pcs name O_RDONLY 12 tn ses opn uid]
      child_server.csopen_answers[of pcs name O_RDONLY 10 tn ses opn]
    unfolding csopen_def fe_csopen_def by blast
qed

lemma cat_loop_all: "cat_loop data False sout = Inr (sout @ data)"
proof (induction data False sout rule: cat_loop.induct)
  case (1 data sout)
  then show ?case by (subst cat_loop.simps) simp
qed

lemma fgets_name:
  assumes "clean name" "length name \<le> 4088"
  shows "fgets_line MAXLINE (name @ [NL] @ r) = name @ [NL]"
proof -
  have "NL \<notin> set name" using assms(1) white_facts(8) unfolding clean_def by blast
  then have t: "takeWhile (\<lambda>c. c \<noteq> NL) (name @ [NL] @ r) = name" by (induction name) auto
  have l: "length name < length (name @ [NL] @ r)" by simp
  have "length (name @ [NL]) \<le> MAXLINE - 1" using assms(2) by (simp add: MAXLINE_def)
  then show ?thesis unfolding fgets_line_def Let_def t if_P[OF l] by (rule take_all)
qed

definition cat_out :: "opener \<Rightarrow> (nat \<Rightarrow> string \<times> bool) \<Rightarrow> string \<Rightarrow> string" where
  "cat_out opn content name = (case opn name O_RDONLY of Inl e \<Rightarrow> [] | Inr f \<Rightarrow> fst (content f))"

definition cat_err :: "opener \<Rightarrow> string \<Rightarrow> string" where
  "cat_err opn name = (case opn name O_RDONLY of Inl e \<Rightarrow> open_msg name e | Inr f \<Rightarrow> [])"

lemma open_main_cats:
  assumes "copen = csopen opn pcs uid \<or> copen = fe_csopen opn pcs" "pieces_of pcs" "\<forall>n \<in> set names. clean n \<and> length n \<le> 4088"
    "\<forall>i. goes_well (turns i)" "\<forall>n e. opn n O_RDONLY = Inl e \<longrightarrow> NUL \<notin> set e" "\<forall>f. \<not> snd (content f)" "pend ses = []"
  shows "\<exists>ses'. open_main copen content turns i (concat (map (\<lambda>n. n @ [NL]) names)) ses = Inr ses'
    \<and> outp ses' = outp ses @ concat (map (cat_out opn content) names) \<and> errp ses' = errp ses @ concat (map (cat_err opn) names)"
  using assms(3,7)
proof (induction names arbitrary: i ses)
  case Nil
  then show ?case by (simp add: open_main.simps)
next
  case (Cons n names)
  let ?r = "concat (map (\<lambda>n. n @ [NL]) names)"
  have n: "clean n" "length n \<le> 4088" using Cons.prems(1) by simp_all
  have e: "concat (map (\<lambda>n. n @ [NL]) (n # names)) = n @ [NL] @ ?r" by simp
  have cl: "NUL \<notin> set (n @ [NL])" using n(1) by (auto simp: clean_def)
  obtain ses1 where s1: "copen (turns i) n O_RDONLY ses = Inr (case opn n O_RDONLY of Inl e \<Rightarrow> RvInt (-1) | Inr f \<Rightarrow> RvFile f, ses1)"
    "pend ses1 = []" "outp ses1 = outp ses" "errp ses1 = errp ses @ cat_err opn n"
    using csopen_total[OF assms(1,2) n, of "turns i" ses] assms(4,5) Cons.prems(2) by (auto simp: cat_err_def)
  define ses2 where "ses2 = ses1\<lparr>outp := outp ses1 @ cat_out opn content n\<rparr>"
  have m: "(case (case opn n O_RDONLY of Inl e \<Rightarrow> RvInt (-1) | Inr f \<Rightarrow> RvFile f) of RvInt _ \<Rightarrow> Inr ses1
                 | RvFile f \<Rightarrow> bindE (cat_loop (fst (content f)) (snd (content f)) (outp ses1)) (\<lambda>o1. Inr (ses1\<lparr>outp := o1\<rparr>))) = Inr ses2"
    using assms(6) by (auto simp: ses2_def cat_out_def cat_loop_all split: sum.splits)
  have "open_main copen content turns i (n @ [NL] @ ?r) ses = open_main copen content turns (i + 1) ?r ses2"
    by (subst open_main.simps) (simp add: fgets_name[OF n, simplified] cstr_id[OF cl, simplified] s1(1) m Let_def)
  moreover obtain ses3 where "open_main copen content turns (i + 1) ?r ses2 = Inr ses3"
    "outp ses3 = outp ses2 @ concat (map (cat_out opn content) names)" "errp ses3 = errp ses2 @ concat (map (cat_err opn) names)"
    using Cons.IH[of ses2 "i + 1"] Cons.prems(1) s1(2) by (auto simp: ses2_def)
  ultimately show ?case unfolding e using s1 by (simp add: ses2_def)
qed

text \<open>C24. The client prints the files that it asks for: reading names from its standard input, one word each, it writes
  the contents of those that the server can open to the standard output in that order, and the server's message for
  every other one to the standard error, with either server, whatever the sockets do with the bytes.\<close>
theorem open_session_cats:
  assumes "copen = csopen opn pcs uid \<or> copen = fe_csopen opn pcs" "pieces_of pcs" "\<forall>n \<in> set names. clean n \<and> length n \<le> 4088"
    "\<forall>i. goes_well (turns i)" "\<forall>n e. opn n O_RDONLY = Inl e \<longrightarrow> NUL \<notin> set e" "\<forall>f. \<not> snd (content f)"
  shows "\<exists>ses. open_main copen content turns 0 (concat (map (\<lambda>n. n @ [NL]) names)) \<lparr>csfd = False, server = sv, pend = [], outp = [], errp = []\<rparr> = Inr ses
    \<and> outp ses = concat (map (\<lambda>n. case opn n O_RDONLY of Inl e \<Rightarrow> [] | Inr f \<Rightarrow> fst (content f)) names)
    \<and> errp ses = concat (map (\<lambda>n. case opn n O_RDONLY of Inl e \<Rightarrow> open_msg n e | Inr f \<Rightarrow> []) names)"
  using open_main_cats[OF assms, of "\<lparr>csfd = False, server = sv, pend = [], outp = [], errp = []\<rparr>" 0]
  by (simp add: cat_out_def[abs_def] cat_err_def[abs_def])

definition one_file :: opener where
  "one_file name oflg = (if name = ''a'' then Inr 7 else Inl ''none'')"

theorem open_session_cats_witness:
  "\<exists>ses. open_main (csopen one_file (map (\<lambda>c. [c])) 100) (\<lambda>f. (''hello'', False)) (\<lambda>i. (True, None, map Avail (replicate 4095 1))) 0
      (''a'' @ [NL] @ ''b'' @ [NL]) \<lparr>csfd = False, server = \<lparr>errmsg = [], pathname = [], oflag = 0\<rparr>, pend = [], outp = [], errp = []\<rparr> = Inr ses
    \<and> outp ses = ''hello'' \<and> errp ses = ''can'' @ [CHR 0x27] @ ''t open b: none'' @ [NL]"
proof -
  have p: "pieces_of (map (\<lambda>c. [c]))" by (auto simp: pieces_of_def)
  have n: "\<forall>n \<in> set [''a'', ''b'']. clean n \<and> length n \<le> 4088" by (simp add: clean_def white_def)
  have a: "\<forall>i :: nat. goes_well ((\<lambda>i. (True, None, map Avail (replicate 4095 1))) i)" unfolding goes_well_def by (intro allI exI[of _ "replicate 4095 1"]) simp
  have e: "\<forall>n e. one_file n O_RDONLY = Inl e \<longrightarrow> NUL \<notin> set e" by (auto simp: one_file_def split: if_splits)
  have c: "\<forall>f. \<not> snd ((\<lambda>f :: nat. (''hello'', False)) f)" by simp
  have o: "csopen one_file (map (\<lambda>c. [c])) 100 = csopen one_file (map (\<lambda>c. [c])) 100 \<or> csopen one_file (map (\<lambda>c. [c])) 100 = fe_csopen one_file (map (\<lambda>c. [c]))" by simp
  note open_session_cats[OF o p n a e c, of "\<lparr>errmsg = [], pathname = [], oflag = 0\<rparr>"]
  then show ?thesis by (simp add: one_file_def open_msg_def bounded_def MAXLINE_def)
qed

section \<open>A message that goes to the wrong client\<close>

text \<open>A request without words, or with more than 49 of them, is answered with whatever message the server formed last:
  the name of a file that one client could not open is sent to another client, of another user.\<close>
theorem stale_message_sent:
  assumes "clean name" "opn name oflg = Inl e" "last buf = NUL" "words (cstr buf) = [] \<or> 49 < length (words (cstr buf))"
    "handle_request opn pcs uid_a (request name oflg) st = (st1, replies)"
  shows "handle_request opn pcs uid_b buf st1 = (st1, send_err pcs (-1) (open_msg name e))"
proof -
  have "errmsg st1 = open_msg name e" using assms(1,2,5) by (auto simp: handle_request_def request_last serve_request)
  moreover have "buf_args buf cli_args st1 = (-1, st1)" unfolding buf_args_words Let_def using assms(4) by auto
  ultimately show ?thesis using assms(3) by (simp add: handle_request_def serve_def)
qed

theorem stale_message_sent_witness:
  "\<exists>st1 replies. handle_request one_file (\<lambda>s. [s]) 100 (request ''secret'' 0) \<lparr>errmsg = [], pathname = [], oflag = 0\<rparr> = (st1, replies)
    \<and> handle_request one_file (\<lambda>s. [s]) 200 [CHR '' '', NUL] st1 = (st1, send_err (\<lambda>s. [s]) (-1) (open_msg ''secret'' ''none''))"
proof -
  have c: "clean ''secret''" by (simp add: clean_def white_def)
  have o: "one_file ''secret'' 0 = Inl ''none''" by (simp add: one_file_def)
  obtain st1 replies where h: "handle_request one_file (\<lambda>s. [s]) 100 (request ''secret'' 0) \<lparr>errmsg = [], pathname = [], oflag = 0\<rparr> = (st1, replies)"
    by (cases "handle_request one_file (\<lambda>s. [s]) 100 (request ''secret'' 0) \<lparr>errmsg = [], pathname = [], oflag = 0\<rparr>")
  show ?thesis using stale_message_sent[OF c o _ _ h, of "[CHR '' '', NUL]" 200] h by (simp add: cstr_def words_simps)
qed

end
