(* ===== verification/OpenLoop.thy ===== *)
theory OpenLoop
  imports Prelude "HOL-Library.Multiset"
begin

text \<open>
  The loops of the connection server \<open>ipc2/opend\<close>: the table of clients (\<open>client.c\<close>), the loop over
  \<open>select\<close> (\<open>loop.select.c\<close>) and the one over \<open>poll\<close> (\<open>loop.poll.c\<close>). A round is one pass of the endless
  loop; which descriptors are ready, the connection accepted and what each descriptor delivers are arguments.
  What the loop does to a connection is an event; a request is handed to \<open>handle_request\<close> as the event
  \<open>Handled\<close>. \<open>malloc\<close> and \<open>realloc\<close> succeed; a failing system call ends the server.
\<close>

section \<open>The table of clients\<close>

datatype quit = LogSys | LogQuit

type_synonym client_table = "(int \<times> int) list"
  \<comment> \<open>the descriptor, or -1, and the user of each entry\<close>

definition NALLOC :: nat where "NALLOC = 10"

definition client_alloc :: "client_table \<Rightarrow> client_table" where
  "client_alloc client = client @ replicate NALLOC (-1, 0)"

fun find_entry :: "int \<Rightarrow> client_table \<Rightarrow> nat option" where
  \<comment> \<open>the first entry with this descriptor\<close>
  "find_entry fd [] = None"
| "find_entry fd (c # cs) = (if fst c = fd then Some 0 else map_option Suc (find_entry fd cs))"

definition client_add :: "int \<Rightarrow> int \<Rightarrow> client_table \<Rightarrow> nat \<times> client_table" where
  "client_add fd uid client0 =
     (let client1 = (if client0 = [] then client_alloc client0 else client0);
          client2 = (if find_entry (-1) client1 = None then client_alloc client1 else client1);
          i = the (find_entry (-1) client2) in
      (i, client2[i := (fd, uid)]))"

definition client_del :: "int \<Rightarrow> client_table \<Rightarrow> quit + client_table" where
  "client_del fd client = (case find_entry fd client of
      Some i \<Rightarrow> Inr (client[i := (-1, snd (client ! i))])
    | None \<Rightarrow> Inl LogQuit)"

section \<open>Events\<close>

datatype event = NewConn int int | Closed int int | Handled int int string
  \<comment> \<open>with the descriptor and the user that the server takes it for\<close>

fun ev_fd :: "event \<Rightarrow> int" where
  "ev_fd (NewConn fd u) = fd"
| "ev_fd (Closed fd u) = fd"
| "ev_fd (Handled fd u b) = fd"

fun ev_uid :: "event \<Rightarrow> int" where
  "ev_uid (NewConn fd u) = u"
| "ev_uid (Closed fd u) = u"
| "ev_uid (Handled fd u b) = u"

type_synonym read_results = "int \<Rightarrow> string option"
  \<comment> \<open>what \<open>read\<close> gives on a descriptor: \<open>None\<close> is an error, no bytes the end\<close>

section \<open>The loop over select\<close>

record sloop =
  listenfd :: int
  client :: client_table
  allset :: "int set"
  maxfd :: int
  maxi :: int
  slog :: "event list"

definition select_start :: "int \<Rightarrow> sloop" where
  "select_start lfd = \<lparr>listenfd = lfd, client = [], allset = {lfd}, maxfd = lfd, maxi = -1, slog = []\<rparr>"

fun select_scan :: "int set \<Rightarrow> read_results \<Rightarrow> nat list \<Rightarrow> sloop \<Rightarrow> quit + sloop" where
  \<comment> \<open>the loop over the entries with these indices\<close>
  "select_scan rset rd [] st = Inr st"
| "select_scan rset rd (i # is) st =
     (let clifd = fst (client st ! i) in
      if clifd < 0 then select_scan rset rd is st
      else if clifd \<in> rset then
        (case rd clifd of
           None \<Rightarrow> Inl LogSys
         | Some buf \<Rightarrow>
             if buf = [] then
               bindE (client_del clifd (client st)) (\<lambda>c.
                 select_scan rset rd is (st\<lparr>slog := slog st @ [Closed clifd (snd (client st ! i))], client := c, allset := allset st - {clifd}\<rparr>))
             else select_scan rset rd is (st\<lparr>slog := slog st @ [Handled clifd (snd (client st ! i)) buf]\<rparr>))
      else select_scan rset rd is st)"

definition select_round :: "int set \<Rightarrow> (int \<times> int) option \<Rightarrow> read_results \<Rightarrow> sloop \<Rightarrow> quit + sloop" where
  \<comment> \<open>the descriptors that are ready and the result of \<open>serv_accept\<close>\<close>
  "select_round ready acc rd st =
     (let rset = {fd \<in> allset st. fd \<in> ready \<and> fd < maxfd st + 1} in
      if listenfd st \<in> rset then
        (case acc of None \<Rightarrow> Inl LogSys
         | Some (clifd, uid) \<Rightarrow>
             let (i, c) = client_add clifd uid (client st) in
             Inr (st\<lparr>client := c, allset := insert clifd (allset st),
                     maxfd := (if clifd > maxfd st then clifd else maxfd st),
                     maxi := (if int i > maxi st then int i else maxi st),
                     slog := slog st @ [NewConn clifd uid]\<rparr>))
      else select_scan rset rd [0..<nat (maxi st + 1)] st)"

section \<open>The loop over poll\<close>

type_synonym pollfd = "int \<times> bool \<times> bool"
  \<comment> \<open>the descriptor, and whether \<open>revents\<close> has \<open>POLLHUP\<close> and \<open>POLLIN\<close>\<close>

record ploop =
  pclient :: client_table
  pollfd :: "pollfd list"     \<comment> \<open>of \<open>maxfd\<close> entries\<close>
  numfd :: nat
  plog :: "event list"

definition grow_pollfd :: "pollfd list \<Rightarrow> pollfd list" where
  "grow_pollfd pfd = pfd @ replicate NALLOC (-1, False, False)"

definition poll_start :: "int \<Rightarrow> ploop" where
  "poll_start lfd = \<lparr>pclient = snd (client_add lfd 0 []), pollfd = (replicate NALLOC (-1, False, False))[0 := (lfd, False, False)],
     numfd = 1, plog = []\<rparr>"

definition hung_up :: "nat \<Rightarrow> ploop \<Rightarrow> quit + ploop" where
  \<comment> \<open>the code from the label \<open>hungup\<close>; packing moves the last entry to the place of this one\<close>
  "hung_up i st =
     (let fd = fst (pollfd st ! i) in
      bindE (client_del fd (pclient st)) (\<lambda>c.
        Inr (st\<lparr>plog := plog st @ [Closed fd (snd (pclient st ! i))], pclient := c,
                pollfd := (if i < numfd st - 1 then (pollfd st)[i := pollfd st ! (numfd st - 1)] else pollfd st),
                numfd := numfd st - 1\<rparr>)))"

lemma hung_up_numfd: "hung_up i st = Inr st1 \<Longrightarrow> numfd st1 = numfd st - 1"
  by (auto simp: hung_up_def Let_def)

function poll_scan :: "read_results \<Rightarrow> nat \<Rightarrow> ploop \<Rightarrow> quit + ploop" where
  \<comment> \<open>the loop over the entries from \<open>i\<close>; an entry that was packed is looked at again\<close>
  "poll_scan rd i st =
     (if i < numfd st then
        let (fd, hup, inn) = pollfd st ! i; next = (if i < numfd st - 1 then i else i + 1) in
        if hup then bindE (hung_up i st) (poll_scan rd next)
        else if inn then
          (case rd fd of
             None \<Rightarrow> Inl LogSys
           | Some buf \<Rightarrow>
               if buf = [] then bindE (hung_up i st) (poll_scan rd next)
               else poll_scan rd (i + 1) (st\<lparr>plog := plog st @ [Handled fd (snd (pclient st ! i)) buf]\<rparr>))
        else poll_scan rd (i + 1) st
      else Inr st)"
  by pat_completeness auto
termination
  by (relation "measure (\<lambda>(rd, i, st). numfd st - i)") (auto simp: Let_def dest!: hung_up_numfd split: if_splits)

declare poll_scan.simps [simp del]

definition poll_accept :: "(int \<times> int) option \<Rightarrow> ploop \<Rightarrow> quit + ploop" where
  "poll_accept acc st = (case acc of None \<Rightarrow> Inl LogSys
     | Some (clifd, uid) \<Rightarrow>
         let pfd = (if numfd st = length (pollfd st) then grow_pollfd (pollfd st) else pollfd st) in
         Inr (st\<lparr>pclient := snd (client_add clifd uid (pclient st)), pollfd := pfd[numfd st := (clifd, False, False)],
                 numfd := numfd st + 1, plog := plog st @ [NewConn clifd uid]\<rparr>))"

definition poll_round :: "(int \<Rightarrow> bool \<times> bool) \<Rightarrow> (int \<times> int) option \<Rightarrow> read_results \<Rightarrow> ploop \<Rightarrow> quit + ploop" where
  \<comment> \<open>what \<open>poll\<close> reports for each descriptor, the result of \<open>serv_accept\<close>, and what the descriptors deliver\<close>
  "poll_round revents acc rd st =
     (let st1 = st\<lparr>pollfd := map (\<lambda>(fd, _). (fd, revents fd)) (take (numfd st) (pollfd st)) @ drop (numfd st) (pollfd st)\<rparr> in
      bindE (if snd (snd (pollfd st1 ! 0)) then poll_accept acc st1 else Inr st1) (poll_scan rd 1))"

end
