(* ===== verification/OpenLoopProps.thy ===== *)
theory OpenLoopProps
  imports OpenLoop
begin

text \<open>
  What the loops of the connection server guarantee. Over \<open>select\<close> every request is taken for the user whose
  connection it came over; over both, a round serves every connection that is ready exactly once. Over \<open>poll\<close> the
  user is looked up at the wrong index once a connection has been closed.
\<close>

section \<open>The table\<close>

lemma find_entry_Some:
  "find_entry fd cs = Some i \<Longrightarrow> i < length cs \<and> fst (cs ! i) = fd"
  by (induction cs arbitrary: i) (auto split: if_splits)

lemma find_entry_None: "find_entry fd cs = None \<longleftrightarrow> (\<forall>c \<in> set cs. fst c \<noteq> fd)"
  by (induction cs) auto

lemma find_entry_unique:
  assumes "i < length cs" "fst (cs ! i) = fd" "\<forall>j < length cs. fst (cs ! j) = fd \<longrightarrow> j = i"
  shows "find_entry fd cs = Some i"
proof (cases "find_entry fd cs")
  case None
  then show ?thesis using assms(1,2) by (auto simp: find_entry_None)
next
  case (Some j)
  then show ?thesis using find_entry_Some[OF Some] assms(3) by simp
qed

lemma client_add_facts:
  assumes "client_add fd uid cs = (i, c)"
  shows "i < length c" "c ! i = (fd, uid)" "length cs \<le> length c"
    "\<forall>j < length c. j \<noteq> i \<longrightarrow> c ! j = (if j < length cs then cs ! j else (-1, 0))" "i < length cs \<longrightarrow> fst (cs ! i) = -1"
proof -
  define c1 where "c1 = (if cs = [] then client_alloc cs else cs)"
  define c2 where "c2 = (if find_entry (-1) c1 = None then client_alloc c1 else c1)"
  have "find_entry (-1) (client_alloc c1) \<noteq> None" by (auto simp: client_alloc_def find_entry_None NALLOC_def)
  then have "find_entry (-1) c2 \<noteq> None" unfolding c2_def by simp
  then obtain k where k: "find_entry (-1) c2 = Some k" by blast
  have e: "i = k" "c = c2[k := (fd, uid)]" using assms k unfolding client_add_def Let_def c1_def[symmetric] c2_def[symmetric] by auto
  have "\<exists>n. c1 = cs @ replicate n (-1, 0)" by (auto simp: c1_def client_alloc_def intro: exI[of _ 0])
  then obtain n1 where n1: "c1 = cs @ replicate n1 (-1, 0)" by blast
  have "\<exists>n. c2 = cs @ replicate n (-1, 0)"
  proof (cases "find_entry (-1) c1 = None")
    case True
    then have "c2 = cs @ replicate (n1 + NALLOC) (-1, 0)" by (simp add: c2_def client_alloc_def n1 replicate_add)
    then show ?thesis by blast
  next
    case False
    then have "c2 = c1" unfolding c2_def by (rule if_not_P)
    then show ?thesis using n1 by blast
  qed
  then obtain n where n: "c2 = cs @ replicate n (-1, 0)" by blast
  note f = find_entry_Some[OF k]
  show "i < length c" "c ! i = (fd, uid)" "length cs \<le> length c" using f e n by simp_all
  show "\<forall>j < length c. j \<noteq> i \<longrightarrow> c ! j = (if j < length cs then cs ! j else (-1, 0))" using e n by (auto simp: nth_append)
  show "i < length cs \<longrightarrow> fst (cs ! i) = -1" using f e n by (auto simp: nth_append)
qed

section \<open>Whose connection it is\<close>

definition owner :: "event list \<Rightarrow> int \<Rightarrow> int option" where
  \<comment> \<open>the user who made the connection that is now open on a descriptor\<close>
  "owner evs = foldl (\<lambda>m e. case e of NewConn f u \<Rightarrow> m(f \<mapsto> u) | Closed f u \<Rightarrow> m(f := None) | Handled f u b \<Rightarrow> m) Map.empty evs"

lemma owner_simps [simp]:
  "owner [] = Map.empty"
  "owner (evs @ [e]) = (case e of NewConn f u \<Rightarrow> (owner evs)(f \<mapsto> u) | Closed f u \<Rightarrow> (owner evs)(f := None) | Handled f u b \<Rightarrow> owner evs)"
  unfolding owner_def by simp_all

definition event_ok :: "event list \<Rightarrow> event \<Rightarrow> bool" where
  "event_ok evs e = (case e of NewConn f u \<Rightarrow> owner evs f = None | Closed f u \<Rightarrow> owner evs f = Some u | Handled f u b \<Rightarrow> owner evs f = Some u)"

definition log_ok :: "event list \<Rightarrow> bool" where
  \<comment> \<open>every event names the user of its connection\<close>
  "log_ok evs \<longleftrightarrow> (\<forall>i < length evs. event_ok (take i evs) (evs ! i))"

lemma log_ok_snoc [simp]: "log_ok [] " "log_ok (evs @ [e]) \<longleftrightarrow> log_ok evs \<and> event_ok evs e"
  by (auto simp: log_ok_def nth_append less_Suc_eq)

definition table_ok :: "client_table \<Rightarrow> (int \<Rightarrow> int option) \<Rightarrow> bool" where
  \<comment> \<open>the entries in use are the open connections with their users\<close>
  "table_ok cs m \<longleftrightarrow> (\<forall>i < length cs. fst (cs ! i) = -1 \<or> 0 \<le> fst (cs ! i))
     \<and> (\<forall>f u. m f = Some u \<longleftrightarrow> 0 \<le> f \<and> (\<exists>i < length cs. cs ! i = (f, u)))
     \<and> (\<forall>i < length cs. \<forall>j < length cs. 0 \<le> fst (cs ! i) \<and> fst (cs ! i) = fst (cs ! j) \<longrightarrow> i = j)"

lemma table_add:
  assumes "table_ok cs m" "client_add fd uid cs = (i, c)" "0 \<le> fd" "m fd = None"
  shows "table_ok c (m(fd \<mapsto> uid))"
proof -
  note A = client_add_facts[OF assms(2)]
  have old: "0 \<le> fst (c ! j) \<Longrightarrow> j < length c \<Longrightarrow> j \<noteq> i \<Longrightarrow> j < length cs \<and> c ! j = cs ! j" for j
    using A(4) by (metis fst_conv not_one_le_zero neg_0_le_iff_le)
  have fresh: "j < length cs \<Longrightarrow> fst (cs ! j) \<noteq> fd" for j
    using assms(1,3,4) unfolding table_ok_def by (metis option.distinct(1) prod.collapse)
  have a: "\<forall>j < length c. fst (c ! j) = -1 \<or> 0 \<le> fst (c ! j)"
    using A assms(1,3) unfolding table_ok_def by (metis fst_conv)
  have b: "(m(fd \<mapsto> uid)) f = Some u \<longleftrightarrow> 0 \<le> f \<and> (\<exists>j < length c. c ! j = (f, u))" for f u
  proof (cases "f = fd")
    case True
    then show ?thesis using A(1,2) old fresh assms(3) by (metis fst_conv fun_upd_same option.inject prod.inject)
  next
    case False
    have "(\<exists>j < length c. c ! j = (f, u)) \<longleftrightarrow> (\<exists>j < length cs. cs ! j = (f, u))" if "0 \<le> f"
    proof
      assume "\<exists>j < length c. c ! j = (f, u)"
      then show "\<exists>j < length cs. cs ! j = (f, u)" using old A(2) False that by (metis fst_conv)
    next
      assume "\<exists>j < length cs. cs ! j = (f, u)"
      then obtain j where j: "j < length cs" "cs ! j = (f, u)" by blast
      then have "j \<noteq> i" using A(5) that by auto
      then show "\<exists>j < length c. c ! j = (f, u)" using j A(3,4) by (metis order_less_le_trans)
    qed
    then show ?thesis using False assms(1) by (auto simp: table_ok_def)
  qed
  have "j = k" if "j < length c" "k < length c" "0 \<le> fst (c ! j)" "fst (c ! j) = fst (c ! k)" for j k
    using that old fresh A(2) assms(1) unfolding table_ok_def by (metis fst_conv)
  then show ?thesis using a b by (auto simp: table_ok_def)
qed

lemma table_del:
  assumes "table_ok cs m" "i < length cs" "fst (cs ! i) = fd" "0 \<le> fd"
  shows "client_del fd cs = Inr (cs[i := (-1, snd (cs ! i))])" "table_ok (cs[i := (-1, snd (cs ! i))]) (m(fd := None))"
proof -
  have un: "\<forall>j < length cs. fst (cs ! j) = fd \<longrightarrow> j = i" using assms unfolding table_ok_def by metis
  then show "client_del fd cs = Inr (cs[i := (-1, snd (cs ! i))])"
    using find_entry_unique[OF assms(2,3)] by (simp add: client_del_def)
  let ?c = "cs[i := (-1, snd (cs ! i))]"
  have "(m(fd := None)) f = Some u \<longleftrightarrow> 0 \<le> f \<and> (\<exists>j < length ?c. ?c ! j = (f, u))" for f u
  proof (cases "f = fd")
    case True
    then show ?thesis using un assms(2,4) by (auto simp: nth_list_update split: if_splits)
  next
    case False
    then have "(\<exists>j < length ?c. ?c ! j = (f, u)) \<longleftrightarrow> (\<exists>j < length cs. cs ! j = (f, u))" if "0 \<le> f"
      using assms(2,3) that by (auto simp: nth_list_update split: if_splits) (metis fst_conv)
    then show ?thesis using False assms(1) by (auto simp: table_ok_def)
  qed
  moreover have "\<forall>j < length ?c. fst (?c ! j) = -1 \<or> 0 \<le> fst (?c ! j)" using assms(1,2) by (auto simp: table_ok_def nth_list_update)
  moreover have "\<forall>j < length ?c. \<forall>k < length ?c. 0 \<le> fst (?c ! j) \<and> fst (?c ! j) = fst (?c ! k) \<longrightarrow> j = k"
    using assms(1,2) by (auto simp: table_ok_def nth_list_update)
  ultimately show "table_ok ?c (m(fd := None))" by (simp add: table_ok_def)
qed

section \<open>The loop over select\<close>

definition sinv :: "int \<Rightarrow> sloop \<Rightarrow> bool" where
  "sinv lfd st \<longleftrightarrow> listenfd st = lfd \<and> 0 \<le> lfd \<and> table_ok (client st) (owner (slog st)) \<and> allset st = insert lfd (dom (owner (slog st)))
     \<and> lfd \<notin> dom (owner (slog st)) \<and> (\<forall>f \<in> allset st. f \<le> maxfd st) \<and> (\<forall>i < length (client st). 0 \<le> fst (client st ! i) \<longrightarrow> int i \<le> maxi st)
     \<and> maxi st < int (length (client st)) \<and> -1 \<le> maxi st \<and> log_ok (slog st)"

definition served :: "read_results \<Rightarrow> int \<times> int \<Rightarrow> event" where
  \<comment> \<open>what a ready connection causes\<close>
  "served rd c = (if rd (fst c) = Some [] then Closed (fst c) (snd c) else Handled (fst c) (snd c) (the (rd (fst c))))"

lemma table_owner: "table_ok cs m \<Longrightarrow> i < length cs \<Longrightarrow> 0 \<le> fst (cs ! i) \<Longrightarrow> m (fst (cs ! i)) = Some (snd (cs ! i))"
  unfolding table_ok_def by (metis prod.collapse)

lemma select_scan_spec:
  assumes "sinv lfd st" "distinct is" "\<forall>i \<in> set is. i < length (client st)"
  shows "case select_scan rset rd is st of
      Inr st' \<Rightarrow> sinv lfd st' \<and> slog st' = slog st @ map (\<lambda>i. served rd (client st ! i)) (filter (\<lambda>i. 0 \<le> fst (client st ! i) \<and> fst (client st ! i) \<in> rset) is)
    | Inl q \<Rightarrow> q = LogSys \<and> (\<exists>i \<in> set is. 0 \<le> fst (client st ! i) \<and> fst (client st ! i) \<in> rset \<and> rd (fst (client st ! i)) = None)"
  using assms
proof (induction rset rd "is" st rule: select_scan.induct)
  case (2 rset rd i "is" st)
  let ?fd = "fst (client st ! i)" let ?u = "snd (client st ! i)"
  have i: "i < length (client st)" "i \<notin> set is" "distinct is" "\<forall>i \<in> set is. i < length (client st)" using "2.prems" by simp_all
  show ?case
  proof (cases "?fd < 0 \<or> ?fd \<notin> rset")
    case True
    then have e: "select_scan rset rd (i # is) st = select_scan rset rd is st" by (auto simp: Let_def)
    have "case select_scan rset rd is st of
      Inr st' \<Rightarrow> sinv lfd st' \<and> slog st' = slog st @ map (\<lambda>i. served rd (client st ! i)) (filter (\<lambda>i. 0 \<le> fst (client st ! i) \<and> fst (client st ! i) \<in> rset) is)
    | Inl q \<Rightarrow> q = LogSys \<and> (\<exists>i \<in> set is. 0 \<le> fst (client st ! i) \<and> fst (client st ! i) \<in> rset \<and> rd (fst (client st ! i)) = None)"
    proof (cases "?fd < 0")
      case t: True
      show ?thesis by (rule "2.IH"(1)[OF refl t "2.prems"(1) i(3,4)])
    next
      case f: False
      then show ?thesis using True by (intro "2.IH"(4)[OF refl f _ "2.prems"(1) i(3,4)]) simp
    qed
    then show ?thesis using True unfolding e by (auto split: sum.splits)
  next
    case False
    then have fd: "\<not> ?fd < 0" "?fd \<in> rset" by simp_all
    have own: "owner (slog st) ?fd = Some ?u" using table_owner[of "client st"] "2.prems"(1) i(1) fd(1) by (simp add: sinv_def)
    show ?thesis
    proof (cases "rd ?fd")
      case None
      then show ?thesis using fd by auto
    next
      case (Some buf)
      show ?thesis
      proof (cases "buf = []")
        case True
        let ?c = "(client st)[i := (-1, ?u)]"
        define st1 where "st1 = st\<lparr>slog := slog st @ [Closed ?fd ?u], client := ?c, allset := allset st - {?fd}\<rparr>"
        have tb: "table_ok (client st) (owner (slog st))" using "2.prems"(1) by (simp add: sinv_def)
        have d: "client_del ?fd (client st) = Inr ?c" "table_ok ?c ((owner (slog st))(?fd := None))"
          using table_del[OF tb i(1) refl] fd(1) by simp_all
        have s1: "sinv lfd st1" using "2.prems"(1) d(2) own i(1) by (auto simp: sinv_def st1_def event_ok_def nth_list_update)
        have "\<forall>i \<in> set is. i < length (client st1)" using i(4) by (simp add: st1_def)
        note IH = "2.IH"(2)[OF refl fd(1) fd(2) Some True d(1), folded st1_def, OF s1 i(3) this]
        have same: "j \<in> set is \<Longrightarrow> client st1 ! j = client st ! j" for j using i(2) by (cases "j = i") (auto simp: st1_def)
        have e: "select_scan rset rd (i # is) st = select_scan rset rd is st1" using fd Some True d(1) by (simp add: st1_def Let_def)
        have fl: "map (\<lambda>i. served rd (client st1 ! i)) (filter (\<lambda>i. 0 \<le> fst (client st1 ! i) \<and> fst (client st1 ! i) \<in> rset) is)
          = map (\<lambda>i. served rd (client st ! i)) (filter (\<lambda>i. 0 \<le> fst (client st ! i) \<and> fst (client st ! i) \<in> rset) is)"
          using same by (auto intro!: map_cong filter_cong)
        have sl: "slog st1 = slog st @ [served rd (client st ! i)]" using Some True by (simp add: st1_def served_def)
        show ?thesis using IH same fd unfolding e fl sl by (auto split: sum.splits)
      next
        case False
        define st1 where "st1 = st\<lparr>slog := slog st @ [Handled ?fd ?u buf]\<rparr>"
        have "sinv lfd st1" using "2.prems"(1) own by (auto simp: sinv_def st1_def event_ok_def)
        then have IH: "case select_scan rset rd is st1 of
          Inr st' \<Rightarrow> sinv lfd st' \<and> slog st' = slog st1 @ map (\<lambda>i. served rd (client st1 ! i)) (filter (\<lambda>i. 0 \<le> fst (client st1 ! i) \<and> fst (client st1 ! i) \<in> rset) is)
        | Inl q \<Rightarrow> q = LogSys \<and> (\<exists>i \<in> set is. 0 \<le> fst (client st1 ! i) \<and> fst (client st1 ! i) \<in> rset \<and> rd (fst (client st1 ! i)) = None)"
          using "2.IH"(3)[OF refl fd(1) fd(2) Some False] i(3,4) unfolding st1_def by simp
        have e: "select_scan rset rd (i # is) st = select_scan rset rd is st1" using fd Some False by (simp add: st1_def)
        have sl: "slog st1 = slog st @ [served rd (client st ! i)]" "client st1 = client st" using Some False by (simp_all add: st1_def served_def)
        show ?thesis using IH fd unfolding e sl by (auto split: sum.splits)
      qed
    qed
  qed
qed simp

inductive select_reach :: "int \<Rightarrow> sloop \<Rightarrow> bool" for lfd where
  start: "0 \<le> lfd \<Longrightarrow> select_reach lfd (select_start lfd)"
| round: "select_reach lfd st \<Longrightarrow> \<forall>f u. acc = Some (f, u) \<longrightarrow> 0 \<le> f \<and> f \<notin> allset st \<Longrightarrow> select_round ready acc rd st = Inr st' \<Longrightarrow> select_reach lfd st'"
  \<comment> \<open>the kernel gives a new connection a descriptor that is not in use\<close>

lemma table_ok_empty [simp]: "table_ok [] Map.empty"
  by (simp add: table_ok_def)

lemma sinv_start: "0 \<le> lfd \<Longrightarrow> sinv lfd (select_start lfd)"
  by (simp add: sinv_def select_start_def)

lemma sinv_accept:
  assumes "sinv lfd st" "0 \<le> f" "f \<notin> allset st" "client_add f u (client st) = (i, c)"
  shows "sinv lfd (st\<lparr>client := c, allset := insert f (allset st), maxfd := (if f > maxfd st then f else maxfd st),
    maxi := (if int i > maxi st then int i else maxi st), slog := slog st @ [NewConn f u]\<rparr>)"
proof -
  note A = client_add_facts[OF assms(4)]
  have fr: "owner (slog st) f = None" "f \<noteq> lfd" using assms(1,3) by (auto simp: sinv_def)
  have t: "table_ok c ((owner (slog st))(f \<mapsto> u))" using assms(1,2,4) fr(1) by (intro table_add) (auto simp: sinv_def)
  have "int j \<le> (if int i > maxi st then int i else maxi st)" if "j < length c" "0 \<le> fst (c ! j)" for j
  proof (cases "j = i")
    case False
    then have "j < length (client st)" "c ! j = client st ! j" using A(4) that by (metis fst_conv not_one_le_zero neg_0_le_iff_le)+
    then have "int j \<le> maxi st" using that(2) assms(1) by (simp add: sinv_def)
    then show ?thesis by simp
  qed simp
  moreover have "\<forall>g \<in> insert f (allset st). g \<le> (if f > maxfd st then f else maxfd st)"
  proof -
    have "\<forall>g \<in> allset st. g \<le> maxfd st" using assms(1) unfolding sinv_def by blast
    then show ?thesis by fastforce
  qed
  moreover have "insert f (allset st) = insert lfd (dom ((owner (slog st))(f \<mapsto> u)))" using assms(1) by (auto simp: sinv_def)
  moreover have "lfd \<notin> dom ((owner (slog st))(f \<mapsto> u))" using assms(1) fr(2) by (auto simp: sinv_def)
  moreover have "(if int i > maxi st then int i else maxi st) < int (length c)" "-1 \<le> (if int i > maxi st then int i else maxi st)"
    using assms(1) A(1,3) by (auto simp: sinv_def)
  moreover have "log_ok (slog st @ [NewConn f u])" using assms(1) fr(1) by (simp add: sinv_def event_ok_def)
  moreover have "listenfd st = lfd" "0 \<le> lfd" using assms(1) by (simp_all add: sinv_def)
  ultimately show ?thesis using t unfolding sinv_def by simp
qed

lemma select_round_cases:
  assumes "sinv lfd st"
  shows "select_round ready acc rd st =
     (if lfd \<in> ready then
        (case acc of None \<Rightarrow> Inl LogSys
         | Some (clifd, uid) \<Rightarrow>
             let (i, c) = client_add clifd uid (client st) in
             Inr (st\<lparr>client := c, allset := insert clifd (allset st), maxfd := (if clifd > maxfd st then clifd else maxfd st),
                     maxi := (if int i > maxi st then int i else maxi st), slog := slog st @ [NewConn clifd uid]\<rparr>))
      else select_scan {fd \<in> allset st. fd \<in> ready} rd [0..<nat (maxi st + 1)] st)"
proof -
  have r: "{fd \<in> allset st. fd \<in> ready \<and> fd < maxfd st + 1} = {fd \<in> allset st. fd \<in> ready}" "listenfd st = lfd" "lfd \<in> allset st"
    using assms by (force simp: sinv_def)+
  show ?thesis unfolding select_round_def Let_def r using r(3) by simp
qed

lemma sinv_round:
  assumes "sinv lfd st" "\<forall>f u. acc = Some (f, u) \<longrightarrow> 0 \<le> f \<and> f \<notin> allset st" "select_round ready acc rd st = Inr st'"
  shows "sinv lfd st'"
proof (cases "lfd \<in> ready")
  case True
  then obtain f u where a: "acc = Some (f, u)" using assms(3) select_round_cases[OF assms(1)] by (cases acc) auto
  obtain i c where c: "client_add f u (client st) = (i, c)" by (cases "client_add f u (client st)")
  show ?thesis using sinv_accept[OF assms(1) _ _ c] assms(2,3) a c True select_round_cases[OF assms(1)] by auto
next
  case False
  have "\<forall>i \<in> set [0..<nat (maxi st + 1)]. i < length (client st)" using assms(1) by (auto simp: sinv_def)
  from select_scan_spec[OF assms(1) distinct_upt this, of "{fd \<in> allset st. fd \<in> ready}" rd]
  show ?thesis using assms(3) False select_round_cases[OF assms(1)] by simp
qed

lemma select_reach_sinv: "select_reach lfd st \<Longrightarrow> sinv lfd st"
  by (induction rule: select_reach.induct) (auto intro: sinv_start sinv_round)

text \<open>C26. The loop over \<open>select\<close> takes every request for the right user: in every reachable state, each event it has
  logged (a request handled, a connection closed) names the user who made the connection that was open on the
  descriptor at that moment, no descriptor is accepted while it is open, and the loop waits for exactly the open
  connections and the listening descriptor.\<close>
theorem select_right_user:
  assumes "select_reach lfd st"
  shows "log_ok (slog st) \<and> allset st = insert lfd {fd. owner (slog st) fd \<noteq> None}"
  using select_reach_sinv[OF assms] by (auto simp: sinv_def)

lemma filter_map_nth:
  "n \<le> length xs \<Longrightarrow> \<forall>i < length xs. n \<le> i \<longrightarrow> \<not> P (xs ! i) \<Longrightarrow> map (\<lambda>i. xs ! i) (filter (\<lambda>i. P (xs ! i)) [0..<n]) = filter P xs"
proof (induction xs arbitrary: n rule: rev_induct)
  case (snoc x xs)
  show ?case
  proof (cases "n \<le> length xs")
    case True
    have "\<not> P ((xs @ [x]) ! length xs)" using snoc.prems(2)[rule_format, of "length xs"] True by simp
    moreover have "\<forall>i < length xs. n \<le> i \<longrightarrow> \<not> P (xs ! i)" using snoc.prems(2) by (auto simp: nth_append split: if_splits)
    moreover have "map (\<lambda>i. (xs @ [x]) ! i) (filter (\<lambda>i. P ((xs @ [x]) ! i)) [0..<n]) = map (\<lambda>i. xs ! i) (filter (\<lambda>i. P (xs ! i)) [0..<n])"
      using True by (auto simp: nth_append intro!: map_cong filter_cong)
    ultimately show ?thesis using snoc.IH[OF True] by simp
  next
    case False
    then have n: "n = Suc (length xs)" using snoc.prems(1) by simp
    have "map (\<lambda>i. (xs @ [x]) ! i) (filter (\<lambda>i. P ((xs @ [x]) ! i)) [0..<length xs]) = map (\<lambda>i. xs ! i) (filter (\<lambda>i. P (xs ! i)) [0..<length xs])"
      by (auto simp: nth_append intro!: map_cong filter_cong)
    moreover have "map (\<lambda>i. xs ! i) (filter (\<lambda>i. P (xs ! i)) [0..<length xs]) = filter P xs" by (rule snoc.IH) simp_all
    ultimately show ?thesis using n by simp
  qed
qed simp

text \<open>A round of the loop over \<open>select\<close> without a new connection serves every connection that is ready exactly
  once, in the order of the table: its bytes are handed on as a request, or the connection is closed when it delivers
  none. The round fails only when a \<open>read\<close> fails.\<close>
theorem select_round_serves:
  assumes "select_reach lfd st" "lfd \<notin> ready" "\<forall>c \<in> set (client st). 0 \<le> fst c \<and> fst c \<in> ready \<longrightarrow> rd (fst c) \<noteq> None"
  shows "\<exists>st'. select_round ready acc rd st = Inr st' \<and> slog st' = slog st @ map (served rd) (filter (\<lambda>c. 0 \<le> fst c \<and> fst c \<in> ready) (client st))"
proof -
  note inv = select_reach_sinv[OF assms(1)]
  let ?n = "nat (maxi st + 1)" let ?r = "{fd \<in> allset st. fd \<in> ready}"
  have n: "?n \<le> length (client st)" "\<forall>i < length (client st). ?n \<le> i \<longrightarrow> \<not> (0 \<le> fst (client st ! i) \<and> fst (client st ! i) \<in> ?r)"
    using inv by (auto simp: sinv_def)
  have b: "\<forall>i \<in> set [0..<?n]. i < length (client st)" using n(1) by auto
  note S = select_scan_spec[OF inv distinct_upt b, of ?r rd]
  have all: "0 \<le> fst c \<and> fst c \<in> ?r \<longleftrightarrow> 0 \<le> fst c \<and> fst c \<in> ready" if "c \<in> set (client st)" for c
  proof -
    have "owner (slog st) (fst c) = Some (snd c)" if "0 \<le> fst c"
      using table_owner[of "client st"] inv \<open>c \<in> set (client st)\<close> that by (auto simp: sinv_def in_set_conv_nth)
    then show ?thesis using inv by (auto simp: sinv_def)
  qed
  have f: "map (\<lambda>i. served rd (client st ! i)) (filter (\<lambda>i. 0 \<le> fst (client st ! i) \<and> fst (client st ! i) \<in> ?r) [0..<?n])
    = map (served rd) (filter (\<lambda>c. 0 \<le> fst c \<and> fst c \<in> ready) (client st))"
  proof -
    have "map (\<lambda>i. client st ! i) (filter (\<lambda>i. 0 \<le> fst (client st ! i) \<and> fst (client st ! i) \<in> ?r) [0..<?n]) = filter (\<lambda>c. 0 \<le> fst c \<and> fst c \<in> ?r) (client st)"
      using filter_map_nth[OF n] by blast
    also have "\<dots> = filter (\<lambda>c. 0 \<le> fst c \<and> fst c \<in> ready) (client st)" using all by (intro filter_cong) auto
    finally have "map (served rd) (map (\<lambda>i. client st ! i) (filter (\<lambda>i. 0 \<le> fst (client st ! i) \<and> fst (client st ! i) \<in> ?r) [0..<?n]))
      = map (served rd) (filter (\<lambda>c. 0 \<le> fst c \<and> fst c \<in> ready) (client st))" by simp
    then show ?thesis by (simp add: comp_def)
  qed
  show ?thesis
  proof (cases "select_scan ?r rd [0..<?n] st")
    case (Inl q)
    then obtain i where i: "i \<in> set [0..<?n]" "0 \<le> fst (client st ! i)" "fst (client st ! i) \<in> ?r" "rd (fst (client st ! i)) = None" using S by auto
    then have "client st ! i \<in> set (client st)" using b by simp
    then show ?thesis using assms(3) i by auto
  next
    case (Inr st')
    then show ?thesis using S assms(2) select_round_cases[OF inv] unfolding f by simp
  qed
qed

section \<open>The loop over poll\<close>

definition pfds :: "ploop \<Rightarrow> pollfd list" where
  \<comment> \<open>the entries in use\<close>
  "pfds st = take (numfd st) (pollfd st)"

definition poll_ok :: "int \<Rightarrow> ploop \<Rightarrow> (int \<Rightarrow> int option) \<Rightarrow> bool" where
  "poll_ok lfd st m \<longleftrightarrow> 1 \<le> numfd st \<and> numfd st \<le> length (pollfd st) \<and> table_ok (pclient st) m \<and> distinct (map fst (pfds st))
     \<and> set (map fst (pfds st)) = dom m \<and> fst (pollfd st ! 0) = lfd \<and> dom m = insert lfd (dom (owner (plog st))) \<and> lfd \<notin> dom (owner (plog st))"

lemma pack:
  assumes "i < n" "n \<le> length l"
  defines "l' \<equiv> (if i < n - 1 then l[i := l ! (n - 1)] else l)"
  shows "mset (take n l) = add_mset (l ! i) (mset (take (n - 1) l'))"
    "mset (drop (if i < n - 1 then i else i + 1) (take (n - 1) l')) = mset (drop (i + 1) (take n l))" "length l' = length l"
proof -
  define xs ys where "xs = take i l" and "ys = drop (i + 1) (take n l)"
  have x: "length xs = i" using assms(1,2) by (simp add: xs_def)
  have P: "take n l = xs @ l ! i # ys"
    using assms(1,2) id_take_nth_drop[of i "take n l"] by (simp add: xs_def ys_def min_def)
  have b: "take (n - 1) l = butlast (take n l)" using assms(2) by (simp add: butlast_take)
  show "length l' = length l" by (simp add: l'_def)
  have "mset (take n l) = add_mset (l ! i) (mset (take (n - 1) l')) \<and> mset (drop (if i < n - 1 then i else i + 1) (take (n - 1) l')) = mset ys"
  proof (cases "i < n - 1")
    case True
    have "length ys = n - i - 1" using assms(2) by (simp add: ys_def)
    then have ne: "ys \<noteq> []" using True by auto
    then obtain mid z where m: "ys = mid @ [z]" by (metis append_butlast_last_id)
    have "z = last (take n l)" unfolding P m by simp
    also have "\<dots> = l ! (n - 1)" using assms(1,2) by (subst last_conv_nth) (auto simp: min_def)
    finally have z: "l ! (n - 1) = z" by simp
    have "take (n - 1) l' = (take (n - 1) l)[i := z]" unfolding l'_def using True z by (simp add: take_update_swap)
    also have "take (n - 1) l = xs @ l ! i # mid" unfolding b P m by (simp add: butlast_append)
    also have "(xs @ l ! i # mid)[i := z] = xs @ z # mid" using list_update_length[of xs "l ! i" mid z] x by simp
    finally have t: "take (n - 1) l' = xs @ z # mid" .
    show ?thesis unfolding t P m using True x by simp
  next
    case False
    then have "ys = []" using assms(1) by (simp add: ys_def)
    moreover have "take (n - 1) l' = xs" unfolding l'_def using False b P \<open>ys = []\<close> by simp
    ultimately show ?thesis using False x P by simp
  qed
  then show "mset (take n l) = add_mset (l ! i) (mset (take (n - 1) l'))"
    "mset (drop (if i < n - 1 then i else i + 1) (take (n - 1) l')) = mset (drop (i + 1) (take n l))" unfolding ys_def by simp_all
qed

lemma table_find:
  assumes "table_ok cs m" "m f \<noteq> None"
  shows "\<exists>i < length cs. fst (cs ! i) = f \<and> 0 \<le> f"
  using assms unfolding table_ok_def by (metis fst_conv option.exhaust)

lemma hung_up_ok:
  assumes "poll_ok lfd st m" "1 \<le> i" "i < numfd st"
  shows "\<exists>st1. hung_up i st = Inr st1 \<and> poll_ok lfd st1 (m(fst (pollfd st ! i) := None)) \<and> plog st1 = plog st @ [Closed (fst (pollfd st ! i)) (snd (pclient st ! i))]
    \<and> mset (drop (if i < numfd st - 1 then i else i + 1) (pfds st1)) = mset (drop (i + 1) (pfds st)) \<and> numfd st1 = numfd st - 1"
proof -
  let ?fd = "fst (pollfd st ! i)"
  note O = assms(1)[unfolded poll_ok_def]
  have lp: "numfd st \<le> length (pollfd st)" using O by simp
  have mem: "?fd \<in> dom m" using O assms(3) by (metis (no_types, lifting) length_take list.set_map min.absorb2 nth_mem nth_take pfds_def image_eqI)
  have tb: "table_ok (pclient st) m" using O by simp
  then obtain k where k: "k < length (pclient st)" "fst (pclient st ! k) = ?fd" "0 \<le> ?fd" using table_find[OF tb, of ?fd] mem by blast
  note D = table_del[OF tb k]
  note K = pack[OF assms(3) lp]
  define c where "c = (pclient st)[k := (-1, snd (pclient st ! k))]"
  define l where "l = (if i < numfd st - 1 then (pollfd st)[i := pollfd st ! (numfd st - 1)] else pollfd st)"
  define st1 where "st1 = st\<lparr>plog := plog st @ [Closed ?fd (snd (pclient st ! i))], pclient := c, pollfd := l, numfd := numfd st - 1\<rparr>"
  have h: "hung_up i st = Inr st1" using D(1) by (simp add: hung_up_def Let_def st1_def c_def l_def)
  have pf: "pfds st1 = take (numfd st - 1) l" by (simp add: pfds_def st1_def)
  have "mset (pfds st) = add_mset (pollfd st ! i) (mset (pfds st1))" unfolding pf l_def unfolding pfds_def by (rule K(1))
  then have ms: "mset (map fst (pfds st)) = add_mset ?fd (mset (map fst (pfds st1)))" by simp
  have dm: "distinct (?fd # map fst (pfds st1))" using O ms by (metis mset.simps(2) mset_eq_imp_distinct_iff)
  have si: "set (map fst (pfds st)) = insert ?fd (set (map fst (pfds st1)))" using ms by (metis list.simps(15) mset.simps(2) mset_eq_setD)
  have "set (map fst (pfds st)) = dom m" using O by blast
  moreover have "?fd \<notin> set (map fst (pfds st1))" using dm unfolding distinct.simps by blast
  ultimately have st: "set (map fst (pfds st1)) = dom (m(?fd := None))" unfolding dom_fun_upd if_P[OF refl] si by blast
  have "?fd \<noteq> lfd"
  proof
    assume "?fd = lfd"
    then have "map fst (pfds st) ! i = map fst (pfds st) ! 0" using O assms(3) by (simp add: pfds_def)
    moreover have "distinct (map fst (pfds st))" "i < length (map fst (pfds st))" "0 < length (map fst (pfds st))" using O assms(3) by (auto simp: pfds_def)
    ultimately have "i = 0" using nth_eq_iff_index_eq by blast
    then show False using assms(2) by simp
  qed
  moreover have "fst (pollfd st1 ! 0) = lfd" using O assms(2) by (auto simp: l_def st1_def)
  moreover have "dom (m(?fd := None)) = insert lfd (dom (owner (plog st1)))" "lfd \<notin> dom (owner (plog st1))"
    using O \<open>?fd \<noteq> lfd\<close> by (auto simp: st1_def)
  moreover have "1 \<le> numfd st1" "table_ok (pclient st1) (m(?fd := None))" using D(2) assms(2,3) by (simp_all add: st1_def c_def)
  moreover have "length l = length (pollfd st)" by (simp add: l_def)
  then have "numfd st1 \<le> length (pollfd st1)" using lp by (simp add: st1_def)
  ultimately have "poll_ok lfd st1 (m(?fd := None))" using dm st unfolding poll_ok_def distinct.simps by blast
  then show ?thesis using h K(2) unfolding pfds_def by (intro exI[of _ st1]) (simp add: st1_def l_def)
qed

definition poll_ready :: "pollfd \<Rightarrow> bool" where
  "poll_ready e \<longleftrightarrow> fst (snd e) \<or> snd (snd e)"

definition answers_to :: "read_results \<Rightarrow> pollfd list \<Rightarrow> event \<Rightarrow> bool" where
  \<comment> \<open>the event is what a ready entry causes\<close>
  "answers_to rd es e = (case e of NewConn f u \<Rightarrow> False
     | Closed f u \<Rightarrow> \<exists>h n. (f, h, n) \<in> set es \<and> (h \<or> n \<and> rd f = Some [])
     | Handled f u b \<Rightarrow> b \<noteq> [] \<and> (f, False, True) \<in> set es \<and> rd f = Some b)"

lemma answers_to_mono: "answers_to rd es e \<Longrightarrow> set es \<subseteq> set es' \<Longrightarrow> answers_to rd es' e"
  by (auto simp: answers_to_def split: event.splits)

definition scan_result :: "int \<Rightarrow> read_results \<Rightarrow> pollfd list \<Rightarrow> ploop \<Rightarrow> quit + ploop \<Rightarrow> bool" where
  "scan_result lfd rd es st r = (case r of
      Inr st' \<Rightarrow> \<exists>evs m'. poll_ok lfd st' m' \<and> plog st' = plog st @ evs \<and> mset (map ev_fd evs) = mset (map fst (filter poll_ready es)) \<and> (\<forall>e \<in> set evs. answers_to rd es e)
    | Inl q \<Rightarrow> q = LogSys \<and> (\<exists>f. (f, False, True) \<in> set es \<and> rd f = None))"

lemma scan_result_step:
  assumes "scan_result lfd rd es1 st1 r" "mset es1 = mset es" "plog st1 = plog st @ [ev]" "ev_fd ev = fst e" "poll_ready e" "answers_to rd [e] ev"
  shows "scan_result lfd rd (e # es) st r"
proof (cases r)
  case (Inl q)
  then show ?thesis using assms(1) mset_eq_setD[OF assms(2)] by (auto simp: scan_result_def)
next
  case (Inr st')
  then obtain evs m' where r: "poll_ok lfd st' m'" "plog st' = plog st1 @ evs" "mset (map ev_fd evs) = mset (map fst (filter poll_ready es1))"
    "\<forall>e \<in> set evs. answers_to rd es1 e" using assms(1) by (auto simp: scan_result_def)
  have "mset (filter poll_ready es1) = mset (filter poll_ready es)" using assms(2) by simp
  then have "mset (map ev_fd (ev # evs)) = mset (map fst (filter poll_ready (e # es)))" using r(3) assms(4,5) by (metis (no_types, lifting) filter.simps(2) list.simps(9) mset.simps(2) mset_map)
  moreover have "\<forall>x \<in> set (ev # evs). answers_to rd (e # es) x"
  proof -
    have "answers_to rd (e # es) ev" by (rule answers_to_mono[OF assms(6)]) simp
    moreover have "answers_to rd (e # es) x" if "x \<in> set evs" for x
    proof (rule answers_to_mono)
      show "answers_to rd es1 x" using r(4) that by blast
      show "set es1 \<subseteq> set (e # es)" using mset_eq_setD[OF assms(2)] by auto
    qed
    ultimately show ?thesis by simp
  qed
  moreover have "plog st' = plog st @ ev # evs" using r(2) assms(3) by simp
  ultimately show ?thesis using r(1) Inr unfolding scan_result_def by auto
qed

lemma scan_result_skip:
  assumes "scan_result lfd rd es st r" "\<not> poll_ready e"
  shows "scan_result lfd rd (e # es) st r"
proof (cases r)
  case (Inr st')
  then obtain evs m' where r: "poll_ok lfd st' m'" "plog st' = plog st @ evs" "mset (map ev_fd evs) = mset (map fst (filter poll_ready es))"
    "\<forall>e \<in> set evs. answers_to rd es e" using assms(1) by (auto simp: scan_result_def)
  have "\<forall>x \<in> set evs. answers_to rd (e # es) x" using r(4) answers_to_mono[of rd es _ "e # es"] by auto
  then show ?thesis using r(1-3) Inr assms(2) unfolding scan_result_def by auto
qed (use assms(1) in \<open>auto simp: scan_result_def\<close>)

lemma drop_pfds:
  assumes "i < numfd st" "numfd st \<le> length (pollfd st)"
  shows "drop i (pfds st) = pollfd st ! i # drop (i + 1) (pfds st)"
  using assms Cons_nth_drop_Suc[of i "pfds st"] by (simp add: pfds_def)

lemma poll_scan_spec:
  "poll_ok lfd st m \<Longrightarrow> 1 \<le> i \<Longrightarrow> scan_result lfd rd (drop i (pfds st)) st (poll_scan rd i st)"
proof (induction rd i st arbitrary: m rule: poll_scan.induct)
  case (1 rd i st)
  show ?case
  proof (cases "i < numfd st")
    case False
    then have "drop i (pfds st) = []" by (simp add: pfds_def)
    then show ?thesis using False "1.prems" by (auto simp: poll_scan.simps[of rd i st] scan_result_def)
  next
    case i: True
    have ln: "numfd st \<le> length (pollfd st)" using "1.prems"(1) by (simp add: poll_ok_def)
    note dr = drop_pfds[OF i ln]
    obtain fd hup inn where e: "pollfd st ! i = (fd, hup, inn)" by (cases "pollfd st ! i")
    let ?next = "if i < numfd st - 1 then i else i + 1"
    have close: "scan_result lfd rd (drop i (pfds st)) st (bindE (hung_up i st) (poll_scan rd ?next))"
      if IH: "\<And>st1 m1. hung_up i st = Inr st1 \<Longrightarrow> poll_ok lfd st1 m1 \<Longrightarrow> 1 \<le> ?next \<Longrightarrow> scan_result lfd rd (drop ?next (pfds st1)) st1 (poll_scan rd ?next st1)"
        and c: "hup \<or> inn \<and> rd fd = Some []"
    proof -
      obtain st1 where h: "hung_up i st = Inr st1" "poll_ok lfd st1 (m(fd := None))" "plog st1 = plog st @ [Closed fd (snd (pclient st ! i))]"
        "mset (drop ?next (pfds st1)) = mset (drop (i + 1) (pfds st))"
        using hung_up_ok[OF "1.prems" i] e by auto
      have "1 \<le> ?next" using "1.prems"(2) by simp
      from IH[OF h(1,2) this] have "scan_result lfd rd (drop i (pfds st)) st (poll_scan rd ?next st1)" unfolding dr e
        by (rule scan_result_step[OF _ h(4,3)]) (use c in \<open>auto simp: poll_ready_def answers_to_def\<close>)
      then show ?thesis using h(1) by simp
    qed
    show ?thesis
    proof (cases hup)
      case True
      have "scan_result lfd rd (drop i (pfds st)) st (bindE (hung_up i st) (poll_scan rd ?next))"
        by (rule close) (use True "1.IH"(1)[OF i refl e[symmetric] refl refl True] in auto)
      then show ?thesis using i e True by (simp add: poll_scan.simps[of rd i st])
    next
      case nh: False
      show ?thesis
      proof (cases inn)
        case False
        have "scan_result lfd rd (drop i (pfds st)) st (poll_scan rd (i + 1) st)" unfolding dr e
        proof (rule scan_result_skip)
          show "scan_result lfd rd (drop (i + 1) (pfds st)) st (poll_scan rd (i + 1) st)"
          by (rule "1.IH"(4)[OF i refl e[symmetric] refl refl nh False "1.prems"(1)]) simp
          show "\<not> poll_ready (fd, hup, inn)" using nh False by (simp add: poll_ready_def)
        qed
        then show ?thesis using i e nh False by (simp add: poll_scan.simps[of rd i st])
      next
        case inn: True
        show ?thesis
        proof (cases "rd fd")
          case None
          then show ?thesis using i e nh inn unfolding poll_scan.simps[of rd i st] dr by (auto simp: scan_result_def)
        next
          case (Some buf)
          show ?thesis
          proof (cases "buf = []")
            case True
            have "scan_result lfd rd (drop i (pfds st)) st (bindE (hung_up i st) (poll_scan rd ?next))"
              by (rule close) (use True inn Some "1.IH"(2)[OF i refl e[symmetric] refl refl nh inn Some True] in auto)
            then show ?thesis using i e nh inn Some True by (simp add: poll_scan.simps[of rd i st])
          next
            case False
            define st1 where "st1 = st\<lparr>plog := plog st @ [Handled fd (snd (pclient st ! i)) buf]\<rparr>"
            have k: "poll_ok lfd st1 m" "pfds st1 = pfds st" using "1.prems"(1) by (simp_all add: poll_ok_def st1_def pfds_def)
            have "scan_result lfd rd (drop (i + 1) (pfds st1)) st1 (poll_scan rd (i + 1) st1)"
              using "1.IH"(3)[OF i refl e[symmetric] refl refl nh inn Some False, of m] k(1) by (simp add: st1_def)
            then have "scan_result lfd rd (drop i (pfds st)) st (poll_scan rd (i + 1) st1)" unfolding dr e k(2)
              by (rule scan_result_step[OF _ refl]) (use nh inn Some False in \<open>auto simp: poll_ready_def answers_to_def st1_def\<close>)
            then show ?thesis using i e nh inn Some False by (simp add: poll_scan.simps[of rd i st] st1_def)
          qed
        qed
      qed
    qed
  qed
qed

inductive poll_reach :: "int \<Rightarrow> ploop \<Rightarrow> bool" for lfd where
  start: "0 \<le> lfd \<Longrightarrow> poll_reach lfd (poll_start lfd)"
| round: "poll_reach lfd st \<Longrightarrow> \<forall>f u. acc = Some (f, u) \<longrightarrow> 0 \<le> f \<and> f \<notin> set (map fst (pfds st)) \<Longrightarrow> poll_round revents acc rd st = Inr st' \<Longrightarrow> poll_reach lfd st'"

lemma poll_ok_start:
  assumes "0 \<le> lfd"
  shows "poll_ok lfd (poll_start lfd) [lfd \<mapsto> 0]"
proof -
  obtain i c where c: "client_add lfd 0 [] = (i, c)" by (cases "client_add lfd 0 []")
  have "table_ok c (Map.empty(lfd \<mapsto> 0))" using table_add[OF table_ok_empty c assms] by simp
  then show ?thesis using c by (auto simp: poll_ok_def poll_start_def pfds_def NALLOC_def numeral_eq_Suc)
qed

definition polled :: "(int \<Rightarrow> bool \<times> bool) \<Rightarrow> ploop \<Rightarrow> ploop" where
  "polled revents st = st\<lparr>pollfd := map (\<lambda>(fd, _). (fd, revents fd)) (take (numfd st) (pollfd st)) @ drop (numfd st) (pollfd st)\<rparr>"

lemma polled_ok:
  assumes "poll_ok lfd st m"
  shows "poll_ok lfd (polled revents st) m" "pfds (polled revents st) = map (\<lambda>(fd, _). (fd, revents fd)) (pfds st)"
    "pollfd (polled revents st) ! 0 = (lfd, revents lfd)" "plog (polled revents st) = plog st" "numfd (polled revents st) = numfd st"
    "length (pollfd (polled revents st)) = length (pollfd st)"
proof -
  note O = assms[unfolded poll_ok_def]
  have n: "numfd st \<le> length (pollfd st)" "1 \<le> numfd st" using O by simp_all
  show p: "pfds (polled revents st) = map (\<lambda>(fd, _). (fd, revents fd)) (pfds st)" using n by (simp add: pfds_def polled_def)
  have f: "map fst (pfds (polled revents st)) = map fst (pfds st)" unfolding p by (simp add: comp_def case_prod_beta)
  have "pollfd st \<noteq> []" using n by auto
  then have "take (numfd st) (pollfd st) ! 0 = pollfd st ! 0" "take (numfd st) (pollfd st) \<noteq> []" using n by auto
  then show h: "pollfd (polled revents st) ! 0 = (lfd, revents lfd)" using O n by (auto simp: polled_def nth_append case_prod_beta)
  show r: "plog (polled revents st) = plog st" "numfd (polled revents st) = numfd st" "length (pollfd (polled revents st)) = length (pollfd st)"
    using n by (simp_all add: polled_def)
  have "pclient (polled revents st) = pclient st" by (simp add: polled_def)
  then show "poll_ok lfd (polled revents st) m" using O unfolding poll_ok_def f h r by simp
qed

lemma poll_accept_ok:
  assumes "poll_ok lfd st m" "0 \<le> f" "f \<notin> set (map fst (pfds st))"
  shows "\<exists>st1. poll_accept (Some (f, u)) st = Inr st1 \<and> poll_ok lfd st1 (m(f \<mapsto> u))"
proof -
  note O = assms(1)[unfolded poll_ok_def]
  define pfd where "pfd = (if numfd st = length (pollfd st) then grow_pollfd (pollfd st) else pollfd st)"
  obtain i c where c: "client_add f u (pclient st) = (i, c)" by (cases "client_add f u (pclient st)")
  define st1 where "st1 = st\<lparr>pclient := c, pollfd := pfd[numfd st := (f, False, False)], numfd := numfd st + 1, plog := plog st @ [NewConn f u]\<rparr>"
  have a: "poll_accept (Some (f, u)) st = Inr st1" using c by (simp add: poll_accept_def st1_def pfd_def)
  have n: "numfd st < length pfd" "take (numfd st) pfd = pfds st" using O by (auto simp: pfd_def grow_pollfd_def NALLOC_def pfds_def)
  have p: "pfds st1 = pfds st @ [(f, False, False)]"
    using n by (simp add: pfds_def st1_def take_Suc_conv_app_nth)
  have f: "m f = None" "f \<notin> dom m" using O assms(3) by auto
  then have t: "table_ok c (m(f \<mapsto> u))" using table_add[OF _ c assms(2)] O by simp
  have z: "fst (pollfd st1 ! 0) = lfd"
  proof -
    have "pollfd st1 ! 0 = pfd ! 0" using O by (simp add: st1_def)
    also have "\<dots> = pollfd st ! 0" using O by (auto simp: pfd_def grow_pollfd_def nth_append)
    finally show ?thesis using O by simp
  qed
  have d: "distinct (map fst (pfds st1))" "set (map fst (pfds st1)) = dom (m(f \<mapsto> u))" using O assms(3) unfolding p by auto
  have w: "dom (m(f \<mapsto> u)) = insert lfd (dom (owner (plog st1)))" "lfd \<notin> dom (owner (plog st1))"
    using O f(2) by (auto simp: st1_def)
  have l: "1 \<le> numfd st1" "numfd st1 \<le> length (pollfd st1)" "pclient st1 = c" using n(1) by (simp_all add: st1_def)
  show ?thesis unfolding poll_ok_def using a t z d w l by blast
qed

lemma poll_round_eq:
  assumes "poll_ok lfd st m"
  shows "poll_round revents acc rd st = bindE (if snd (revents lfd) then poll_accept acc (polled revents st) else Inr (polled revents st)) (poll_scan rd 1)"
  using polled_ok(3)[OF assms, of revents] by (simp add: poll_round_def Let_def polled_def[symmetric])

lemma poll_round_ok:
  assumes "poll_ok lfd st m" "\<forall>f u. acc = Some (f, u) \<longrightarrow> 0 \<le> f \<and> f \<notin> set (map fst (pfds st))" "poll_round revents acc rd st = Inr st'"
  shows "\<exists>m'. poll_ok lfd st' m'"
proof -
  note P = polled_ok[OF assms(1), of revents]
  have f: "map fst (pfds (polled revents st)) = map fst (pfds st)" unfolding P(2) by (simp add: comp_def case_prod_beta)
  have "\<exists>st1 m1. poll_ok lfd st1 m1 \<and> poll_scan rd 1 st1 = Inr st'"
  proof (cases "snd (revents lfd)")
    case True
    then obtain g u where g: "acc = Some (g, u)" using assms(3) poll_round_eq[OF assms(1)] by (cases acc) (auto simp: poll_accept_def)
    then have "0 \<le> g" "g \<notin> set (map fst (pfds (polled revents st)))" using assms(2) unfolding f by auto
    from poll_accept_ok[OF P(1) this, of u] show ?thesis using assms(3) poll_round_eq[OF assms(1)] True g by auto
  next
    case False
    then show ?thesis using assms(3) poll_round_eq[OF assms(1)] P(1) by auto
  qed
  then obtain st1 m1 where "poll_ok lfd st1 m1" "poll_scan rd 1 st1 = Inr st'" by blast
  then show ?thesis using poll_scan_spec[of lfd st1 m1 1 rd] by (auto simp: scan_result_def)
qed

lemma poll_reach_ok: "poll_reach lfd st \<Longrightarrow> \<exists>m. poll_ok lfd st m"
proof (induction rule: poll_reach.induct)
  case start
  then show ?case using poll_ok_start by blast
next
  case (round st acc revents rd st')
  then show ?case using poll_round_ok by blast
qed

text \<open>C27. A round of the loop over \<open>poll\<close> without a new connection serves every open connection that is ready exactly
  once, although closing one moves another to its place: it is closed when it was hung up or delivers nothing, and what
  it delivers is handed on as a request otherwise.\<close>
theorem poll_round_serves:
  assumes "poll_reach lfd st" "\<not> snd (revents lfd)" "\<forall>f. owner (plog st) f \<noteq> None \<longrightarrow> rd f \<noteq> None"
  shows "\<exists>st' evs. poll_round revents acc rd st = Inr st' \<and> plog st' = plog st @ evs \<and> distinct (map ev_fd evs)
    \<and> set (map ev_fd evs) = {f. owner (plog st) f \<noteq> None \<and> (fst (revents f) \<or> snd (revents f))}
    \<and> (\<forall>e \<in> set evs. case e of NewConn f u \<Rightarrow> False | Closed f u \<Rightarrow> fst (revents f) \<or> rd f = Some []
        | Handled f u b \<Rightarrow> \<not> fst (revents f) \<and> b \<noteq> [] \<and> rd f = Some b)"
proof -
  obtain m where m: "poll_ok lfd st m" using poll_reach_ok[OF assms(1)] by blast
  note P = polled_ok[OF m, of revents]
  note O = m[unfolded poll_ok_def]
  define es where "es = drop 1 (pfds (polled revents st))"
  have S: "scan_result lfd rd es (polled revents st) (poll_scan rd 1 (polled revents st))"
    unfolding es_def by (rule poll_scan_spec[OF P(1)]) simp
  have r: "poll_round revents acc rd st = poll_scan rd 1 (polled revents st)" using poll_round_eq[OF m] assms(2) by simp
  have ne: "pfds st \<noteq> []" "fst (pfds st ! 0) = lfd" using O by (auto simp: pfds_def)
  then obtain e0 t where t: "pfds st = e0 # t" "fst e0 = lfd" by (cases "pfds st") auto
  have es: "es = map (\<lambda>(fd, _). (fd, revents fd)) t" unfolding es_def P(2) t(1) by simp
  have fs: "map fst es = map fst t" unfolding es by (simp add: comp_def case_prod_beta)
  have dist: "distinct (map fst t)" "lfd \<notin> set (map fst t)" using O t by auto
  have own: "set (map fst t) = dom (owner (plog st))"
  proof -
    have "insert lfd (set (map fst t)) = insert lfd (dom (owner (plog st)))" using O t by (metis list.set(2) list.simps(9))
    moreover have "lfd \<notin> dom (owner (plog st))" using O by blast
    ultimately show ?thesis using dist(2) by (metis insert_ident)
  qed
  have rev: "(f, h, n) \<in> set es \<longleftrightarrow> h = fst (revents f) \<and> n = snd (revents f) \<and> f \<in> dom (owner (plog st))" for f h n
  proof -
    have "(\<lambda>(fd, _). (fd, revents fd)) = (\<lambda>e :: pollfd. (fst e, revents (fst e)))" by (simp add: fun_eq_iff split: prod.splits)
    then have "(f, h, n) \<in> set es \<longleftrightarrow> (\<exists>e \<in> set t. f = fst e) \<and> (h, n) = revents f" unfolding es by auto
    moreover have "f \<in> dom (owner (plog st)) \<longleftrightarrow> (\<exists>e \<in> set t. f = fst e)" unfolding own[symmetric] by auto
    moreover have "(h, n) = revents f \<longleftrightarrow> h = fst (revents f) \<and> n = snd (revents f)" by (cases "revents f") simp
    ultimately show ?thesis by blast
  qed
  show ?thesis
  proof (cases "poll_scan rd 1 (polled revents st)")
    case (Inl q)
    then obtain f where "(f, False, True) \<in> set es" "rd f = None" using S by (auto simp: scan_result_def)
    then show ?thesis using assms(3) rev by auto
  next
    case (Inr st')
    then obtain evs where e: "plog st' = plog st @ evs" "mset (map ev_fd evs) = mset (map fst (filter poll_ready es))" "\<forall>e \<in> set evs. answers_to rd es e"
      using S P(4) by (auto simp: scan_result_def)
    have "distinct (map fst (filter poll_ready es))" using dist(1) unfolding fs[symmetric] by (rule distinct_map_filter)
    then have d: "distinct (map ev_fd evs)" using e(2) by (metis mset_eq_imp_distinct_iff)
    have "set (map ev_fd evs) = fst ` {x \<in> set es. poll_ready x}" using mset_eq_setD[OF e(2)] by simp
    also have "\<dots> = {f. owner (plog st) f \<noteq> None \<and> (fst (revents f) \<or> snd (revents f))}"
      using rev by (auto simp: poll_ready_def image_iff)
    finally have s: "set (map ev_fd evs) = {f. owner (plog st) f \<noteq> None \<and> (fst (revents f) \<or> snd (revents f))}" .
    have k: "\<forall>e \<in> set evs. case e of NewConn f u \<Rightarrow> False | Closed f u \<Rightarrow> fst (revents f) \<or> rd f = Some []
        | Handled f u b \<Rightarrow> \<not> fst (revents f) \<and> b \<noteq> [] \<and> rd f = Some b"
    proof
      fix x assume "x \<in> set evs"
      then have "answers_to rd es x" using e(3) by blast
      then show "case x of NewConn f u \<Rightarrow> False | Closed f u \<Rightarrow> fst (revents f) \<or> rd f = Some []
        | Handled f u b \<Rightarrow> \<not> fst (revents f) \<and> b \<noteq> [] \<and> rd f = Some b" unfolding answers_to_def using rev by (cases x) auto
    qed
    have "poll_round revents acc rd st = Inr st'" using Inr r by simp
    then show ?thesis using e(1) d s k by (intro exI[of _ st'] exI[of _ evs] conjI)
  qed
qed

text \<open>The loop over \<open>poll\<close> takes a request for the wrong user: when the first of two clients closes its connection, the
  second one's entry moves in the array of \<open>poll\<close> but not in the table of clients, and its next request is handled as one
  of the user who has left.\<close>
theorem poll_wrong_user:
  assumes "0 \<le> l" "0 \<le> a" "0 \<le> b" "distinct [l, a, b]" "rd b = Some buf" "buf \<noteq> []"
  shows "\<exists>st. bindE (poll_round (\<lambda>f. (False, f = l)) (Some (a, ua)) rd (poll_start l)) (\<lambda>st1.
      bindE (poll_round (\<lambda>f. (False, f = l)) (Some (b, ub)) rd st1) (\<lambda>st2.
      bindE (poll_round (\<lambda>f. (f = a, False)) None rd st2)
        (poll_round (\<lambda>f. (False, f = b)) None rd))) = Inr st
    \<and> plog st = [NewConn a ua, NewConn b ub, Closed a ua, Handled b ua buf]"
  using assms
  by (simp add: poll_round_def poll_start_def poll_accept_def client_add_def client_alloc_def NALLOC_def numeral_eq_Suc poll_scan.simps hung_up_def client_del_def Let_def)

section \<open>Instances\<close>

lemma two_clients:
  "\<exists>st. select_reach 3 st \<and> client st = (4, 100) # (5, 200) # replicate 8 (-1, 0) \<and> slog st = [NewConn 4 100, NewConn 5 200] \<and> allset st = {3, 4, 5}"
proof -
  let ?rd = "\<lambda>f :: int. None :: string option"
  let ?st1 = "\<lparr>listenfd = 3, client = (4, 100) # replicate 9 (-1, 0), allset = {4, 3}, maxfd = 4, maxi = 0, slog = [NewConn 4 100]\<rparr> :: sloop"
  let ?st2 = "\<lparr>listenfd = 3, client = (4, 100) # (5, 200) # replicate 8 (-1, 0), allset = {5, 4, 3}, maxfd = 5, maxi = 1, slog = [NewConn 4 100, NewConn 5 200]\<rparr> :: sloop"
  have "select_round {3} (Some (4, 100)) ?rd (select_start 3) = Inr ?st1"
    by (simp add: select_round_def select_start_def client_add_def client_alloc_def NALLOC_def numeral_eq_Suc Let_def)
  then have a: "select_reach 3 ?st1" by (rule select_reach.round[rotated 2, OF _ select_reach.start]) (simp_all add: select_start_def)
  have "select_round {3} (Some (5, 200)) ?rd ?st1 = Inr ?st2"
    by (simp add: select_round_def client_add_def client_alloc_def NALLOC_def numeral_eq_Suc Let_def)
  then have "select_reach 3 ?st2" by (rule select_reach.round[rotated 2, OF _ a]) simp
  then show ?thesis by (intro exI[of _ ?st2]) auto
qed

theorem select_right_user_witness: "\<exists>st :: sloop. log_ok (slog st) \<and> allset st = insert 3 {fd. owner (slog st) fd \<noteq> None} \<and> slog st = [NewConn 4 100, NewConn 5 200]"
  using two_clients select_right_user by blast

theorem select_round_serves_witness:
  "\<exists>st st'. select_reach 3 st \<and> select_round {5} None (\<lambda>f. Some ''hi'') st = Inr st' \<and> slog st' = slog st @ [Handled 5 200 ''hi'']"
proof -
  obtain st where st: "select_reach 3 st" "client st = (4, 100) # (5, 200) # replicate 8 (-1, 0)" using two_clients by blast
  from select_round_serves[OF st(1), of "{5}" "\<lambda>f. Some ''hi''" None] show ?thesis using st by (auto simp: served_def)
qed

lemma two_polled:
  "\<exists>st. poll_reach 3 st \<and> plog st = [NewConn 4 100, NewConn 5 200]"
proof -
  let ?rd = "\<lambda>f :: int. None :: string option"
  let ?rv = "\<lambda>f. (False, f = 3)"
  let ?e = "replicate 8 (-1, False, False)"
  let ?st1 = "\<lparr>pclient = (3, 0) # (4, 100) # replicate 8 (-1, 0), pollfd = (3, False, True) # (4, False, False) # ?e, numfd = 2, plog = [NewConn 4 100]\<rparr> :: ploop"
  let ?st2 = "\<lparr>pclient = (3, 0) # (4, 100) # (5, 200) # replicate 7 (-1, 0), pollfd = (3, False, True) # (4, False, False) # (5, False, False) # replicate 7 (-1, False, False),
    numfd = 3, plog = [NewConn 4 100, NewConn 5 200]\<rparr> :: ploop"
  have a: "poll_round ?rv (Some (4, 100)) ?rd (poll_start 3) = Inr ?st1"
    by (simp add: poll_round_def poll_start_def poll_accept_def client_add_def client_alloc_def NALLOC_def numeral_eq_Suc poll_scan.simps Let_def)
  have r1: "poll_reach 3 ?st1" by (rule poll_reach.round[OF poll_reach.start _ a]) (simp_all add: poll_start_def pfds_def NALLOC_def numeral_eq_Suc)
  have b: "poll_round ?rv (Some (5, 200)) ?rd ?st1 = Inr ?st2"
    by (simp add: poll_round_def poll_accept_def client_add_def client_alloc_def NALLOC_def numeral_eq_Suc poll_scan.simps Let_def)
  have "poll_reach 3 ?st2" by (rule poll_reach.round[OF r1 _ b]) (simp add: pfds_def numeral_eq_Suc)
  then show ?thesis by (intro exI[of _ ?st2]) simp
qed

theorem poll_round_serves_witness:
  "\<exists>st st' evs. poll_reach 3 st \<and> poll_round (\<lambda>f. (f = 4, f = 5)) None (\<lambda>f. Some ''hi'') st = Inr st' \<and> plog st' = plog st @ evs \<and> set (map ev_fd evs) = {4, 5}"
proof -
  obtain st where st: "poll_reach 3 st" "plog st = [NewConn 4 100, NewConn 5 200]" using two_polled by blast
  have o: "owner (plog st) = [4 \<mapsto> 100, 5 \<mapsto> 200]" using st(2) by (simp add: owner_def)
  have "{f. owner (plog st) f \<noteq> None \<and> (fst (f = 4, f = 5) \<or> snd (f = 4, f = 5))} = {4, 5}" unfolding o by auto
  with poll_round_serves[OF st(1), of "\<lambda>f. (f = 4, f = 5)" "\<lambda>f. Some ''hi''" None] show ?thesis using st(1) by (auto 0 4)
qed

theorem poll_wrong_user_witness:
  "\<exists>st :: ploop. plog st = [NewConn 4 100, NewConn 5 200, Closed 4 100, Handled 5 100 ''x'']"
proof -
  from poll_wrong_user[of 3 4 5 "\<lambda>f. Some ''x''" "''x''" 100 200, simplified] show ?thesis by blast
qed

end
