(* ===== verification/Semaph.thy ===== *)
theory Semaph
  imports Prelude
begin

text \<open>
  The semaphores of \<open>lib/semaph.c\<close>, built on System V sets of three members: the value, the counter of
  processes and the lock. Any number of processes call the functions at the same time; a step is one system call of one
  process, so that every interleaving of the calls is a sequence of steps. A process can end at any step, and
  the kernel then undoes its operations marked \<open>SEM_UNDO\<close>.

  The kernel's side is modelled from its documentation: a set under one key, fresh identifiers, \<open>semop\<close> that does
  all of its operations or sleeps, \<open>SETVAL\<close> that clears the adjustments of a member, and the removal of a set,
  which gives \<open>EIDRM\<close> to a process that sleeps in \<open>semop\<close> and \<open>EINVAL\<close> to one that calls it later. The key is
  neither \<open>IPC_PRIVATE\<close> nor -1, tables are never full and permissions suffice.
\<close>

section \<open>The kernel\<close>

type_synonym sembuf = "nat \<times> int \<times> bool"
  \<comment> \<open>member, operation, \<open>SEM_UNDO\<close>\<close>

definition BIGCOUNT :: int where "BIGCOUNT = 10000"
definition op_lock :: "sembuf list" where "op_lock = [(2, 0, False), (2, 1, True)]"
definition op_endcreate :: "sembuf list" where "op_endcreate = [(1, -1, True), (2, -1, True)]"
definition op_open :: "sembuf list" where "op_open = [(1, -1, True)]"
definition op_close :: "sembuf list" where "op_close = [(2, 0, False), (2, 1, True), (1, 1, True)]"
definition op_unlock :: "sembuf list" where "op_unlock = [(2, -1, True)]"
definition op_op :: "int \<Rightarrow> sembuf list" where "op_op amount = [(0, amount, True)]"

datatype pc =
    Idle
  | Again int                \<comment> \<open>\<open>sem_create\<close> with this initial value, at the label\<close>
  | Lock int nat bool        \<comment> \<open>at its first \<open>semop\<close>, perhaps asleep in it\<close>
  | GetCount int nat
  | SetValue int nat
  | SetCount nat
  | EndCreate nat
  | OpenOp nat bool          \<comment> \<open>\<open>sem_open\<close> at its \<open>semop\<close>\<close>
  | Have nat                 \<comment> \<open>the semaphore is open\<close>
  | OpSleep nat int          \<comment> \<open>asleep in \<open>sem_op\<close>\<close>
  | CloseOp nat              \<comment> \<open>asleep in \<open>sem_close\<close>\<close>
  | CloseCount nat
  | Remove nat
  | Unlock nat
  | Died string              \<comment> \<open>after the \<open>err_sys\<close> or \<open>err_dump\<close> of this call, or after \<open>exit\<close>\<close>

record sys =
  sets :: "nat \<Rightarrow> int list option"      \<comment> \<open>the members of each set that exists\<close>
  cur :: "nat option"                   \<comment> \<open>the set under the key\<close>
  nxt :: nat                            \<comment> \<open>the next fresh identifier\<close>
  pcs :: "nat \<Rightarrow> pc"
  adj :: "nat \<Rightarrow> nat \<Rightarrow> int list"      \<comment> \<open>what is added to a set when a process ends\<close>

definition sem_start :: sys where
  "sem_start = \<lparr>sets = (\<lambda>_. None), cur = None, nxt = 0, pcs = (\<lambda>_. Idle), adj = (\<lambda>_ _. [0, 0, 0])\<rparr>"

definition SEMVMX :: int where "SEMVMX = 32767"

datatype tried = Fits "int list" "int list" | MustWait | TooLarge

fun semop_try :: "sembuf list \<Rightarrow> int list \<Rightarrow> int list \<Rightarrow> tried" where
  \<comment> \<open>all operations, with the values and the adjustments\<close>
  "semop_try [] v a = Fits v a"
| "semop_try ((n, x, undo) # ops) v a =
     (if x = 0 \<and> v ! n \<noteq> 0 \<or> x < 0 \<and> v ! n + x < 0 then MustWait
      else if v ! n + x > SEMVMX then TooLarge
      else semop_try ops (v[n := v ! n + x]) (if undo then a[n := a ! n - x] else a))"

datatype semop_result = Finished sys | Sleeps | Invalid | Range

definition semop :: "nat \<Rightarrow> nat \<Rightarrow> sembuf list \<Rightarrow> sys \<Rightarrow> semop_result" where
  "semop p sid ops st = (case sets st sid of None \<Rightarrow> Invalid
     | Some v \<Rightarrow> (case semop_try ops v (adj st p sid) of MustWait \<Rightarrow> Sleeps | TooLarge \<Rightarrow> Range
         | Fits v1 a1 \<Rightarrow> Finished (st\<lparr>sets := (sets st)(sid \<mapsto> v1), adj := (adj st)(p := (adj st p)(sid := a1))\<rparr>)))"

definition goto :: "nat \<Rightarrow> pc \<Rightarrow> sys \<Rightarrow> sys" where
  "goto p q st = st\<lparr>pcs := (pcs st)(p := q)\<rparr>"

definition undo_all :: "nat \<Rightarrow> sys \<Rightarrow> sys" where
  "undo_all p st = st\<lparr>sets := (\<lambda>sid. map_option (\<lambda>v. map (\<lambda>n. max 0 (min SEMVMX (v ! n + adj st p sid ! n))) [0, 1, 2]) (sets st sid)),
                      adj := (adj st)(p := (\<lambda>_. [0, 0, 0]))\<rparr>"

definition die :: "nat \<Rightarrow> string \<Rightarrow> sys \<Rightarrow> sys" where
  "die p msg st = goto p (Died msg) (undo_all p st)"

definition set_val :: "nat \<Rightarrow> nat \<Rightarrow> int \<Rightarrow> sys \<Rightarrow> sys" where
  \<comment> \<open>\<open>SETVAL\<close> on a set that exists\<close>
  "set_val sid n x st = st\<lparr>sets := (sets st)(sid := map_option (\<lambda>v. v[n := x]) (sets st sid)),
                          adj := (\<lambda>p. (adj st p)(sid := (adj st p sid)[n := 0]))\<rparr>"

definition rm_set :: "nat \<Rightarrow> sys \<Rightarrow> sys" where
  "rm_set sid st = st\<lparr>sets := (sets st)(sid := None), cur := (if cur st = Some sid then None else cur st),
                     adj := (\<lambda>p. (adj st p)(sid := [0, 0, 0]))\<rparr>"

definition new_set :: "sys \<Rightarrow> sys" where
  "new_set st = st\<lparr>sets := (sets st)(nxt st \<mapsto> [0, 0, 0]), cur := Some (nxt st), nxt := nxt st + 1\<rparr>"

section \<open>The functions\<close>

fun create_step :: "nat \<Rightarrow> pc \<Rightarrow> sys \<Rightarrow> sys option" where
  \<comment> \<open>\<open>sem_create\<close>\<close>
  "create_step p (Again iv) st =
     (case cur st of Some sid \<Rightarrow> Some (goto p (Lock iv sid False) st)
      | None \<Rightarrow> Some (goto p (Lock iv (nxt st) False) (new_set st)))"
| "create_step p (Lock iv sid slept) st =
     (case semop p sid op_lock st of
        Finished st1 \<Rightarrow> Some (goto p (GetCount iv sid) st1)
      | Sleeps \<Rightarrow> Some (goto p (Lock iv sid True) st)
      | Invalid \<Rightarrow> Some (if slept then die p ''lock'' st else goto p (Again iv) st)
      | Range \<Rightarrow> Some (die p ''lock'' st))"
| "create_step p (GetCount iv sid) st =
     (case sets st sid of None \<Rightarrow> Some (die p ''create: GETVAL'' st)
      | Some v \<Rightarrow> Some (goto p (if v ! 1 = 0 then SetValue iv sid else EndCreate sid) st))"
| "create_step p (SetValue iv sid) st =
     (if sets st sid = None \<or> iv < 0 \<or> iv > SEMVMX then Some (die p ''SETVAL[0]'' st) else Some (goto p (SetCount sid) (set_val sid 0 iv st)))"
| "create_step p (SetCount sid) st =
     (if sets st sid = None then Some (die p ''SETVAL[1]'' st) else Some (goto p (EndCreate sid) (set_val sid 1 BIGCOUNT st)))"
| "create_step p (EndCreate sid) st =
     (case semop p sid op_endcreate st of
        Finished st1 \<Rightarrow> Some (goto p (Have sid) st1)
      | Sleeps \<Rightarrow> Some st
      | _ \<Rightarrow> Some (die p ''end create'' st))"
| "create_step p q st = None"

fun open_step :: "nat \<Rightarrow> pc \<Rightarrow> sys \<Rightarrow> sys option" where
  \<comment> \<open>\<open>sem_open\<close>; it returns -1 when there is no set under the key\<close>
  "open_step p Idle st = (case cur st of None \<Rightarrow> Some st | Some sid \<Rightarrow> Some (goto p (OpenOp sid False) st))"
| "open_step p (OpenOp sid slept) st =
     (case semop p sid op_open st of
        Finished st1 \<Rightarrow> Some (goto p (Have sid) st1)
      | Sleeps \<Rightarrow> Some (goto p (OpenOp sid True) st)
      | _ \<Rightarrow> Some (die p ''open'' st))"
| "open_step p q st = None"

fun op_step :: "nat \<Rightarrow> int \<Rightarrow> pc \<Rightarrow> sys \<Rightarrow> sys option" where
  \<comment> \<open>\<open>sem_op\<close>\<close>
  "op_step p amount (Have sid) st =
     (if amount = 0 then Some (die p ''value == 0'' st)
      else case semop p sid (op_op amount) st of
        Finished st1 \<Rightarrow> Some st1
      | Sleeps \<Rightarrow> Some (goto p (OpSleep sid amount) st)
      | _ \<Rightarrow> Some (die p ''sem_op'' st))"
| "op_step p amount (OpSleep sid x) st =
     (case semop p sid (op_op x) st of
        Finished st1 \<Rightarrow> Some (goto p (Have sid) st1)
      | Sleeps \<Rightarrow> Some st
      | _ \<Rightarrow> Some (die p ''sem_op'' st))"
| "op_step p amount q st = None"

definition sem_rm :: "nat \<Rightarrow> nat \<Rightarrow> pc \<Rightarrow> sys \<Rightarrow> sys" where
  \<comment> \<open>and what the caller does next\<close>
  "sem_rm p sid q st = (if sets st sid = None then die p ''IPC_RMID'' st else goto p q (rm_set sid st))"

fun close_step :: "nat \<Rightarrow> pc \<Rightarrow> sys \<Rightarrow> sys option" where
  \<comment> \<open>\<open>sem_close\<close>\<close>
  "close_step p (Have sid) st =
     (case semop p sid op_close st of
        Finished st1 \<Rightarrow> Some (goto p (CloseCount sid) st1)
      | Sleeps \<Rightarrow> Some (goto p (CloseOp sid) st)
      | _ \<Rightarrow> Some (die p ''semop'' st))"
| "close_step p (CloseOp sid) st =
     (case semop p sid op_close st of
        Finished st1 \<Rightarrow> Some (goto p (CloseCount sid) st1)
      | Sleeps \<Rightarrow> Some st
      | _ \<Rightarrow> Some (die p ''semop'' st))"
| "close_step p (CloseCount sid) st =
     (case sets st sid of None \<Rightarrow> Some (die p ''close: GETVAL'' st)
      | Some v \<Rightarrow> Some (if v ! 1 > BIGCOUNT then die p ''sem[1] > BIGCOUNT'' st
                        else goto p (if v ! 1 = BIGCOUNT then Remove sid else Unlock sid) st))"
| "close_step p (Remove sid) st = Some (sem_rm p sid Idle st)"
| "close_step p (Unlock sid) st =
     (case semop p sid op_unlock st of
        Finished st1 \<Rightarrow> Some (goto p Idle st1)
      | Sleeps \<Rightarrow> Some st
      | _ \<Rightarrow> Some (die p ''unlock'' st))"
| "close_step p q st = None"

datatype act = DoCreate int | DoOpen | DoOp int | DoClose | Cont | Exit

fun cont_step :: "nat \<Rightarrow> pc \<Rightarrow> sys \<Rightarrow> sys option" where
  \<comment> \<open>the next system call of the function that a process is in\<close>
  "cont_step p Idle st = None"
| "cont_step p (Have sid) st = None"
| "cont_step p (OpenOp sid b) st = open_step p (OpenOp sid b) st"
| "cont_step p (OpSleep sid x) st = op_step p x (OpSleep sid x) st"
| "cont_step p (CloseOp sid) st = close_step p (CloseOp sid) st"
| "cont_step p (CloseCount sid) st = close_step p (CloseCount sid) st"
| "cont_step p (Remove sid) st = close_step p (Remove sid) st"
| "cont_step p (Unlock sid) st = close_step p (Unlock sid) st"
| "cont_step p q st = create_step p q st"

definition sem_step :: "nat \<Rightarrow> act \<Rightarrow> sys \<Rightarrow> sys option" where
  "sem_step p a st = (case a of
      DoCreate iv \<Rightarrow> if pcs st p = Idle then Some (goto p (Again iv) st) else None
    | DoOpen \<Rightarrow> if pcs st p = Idle then open_step p Idle st else None
    | DoOp x \<Rightarrow> (case pcs st p of Have sid \<Rightarrow> op_step p x (Have sid) st | _ \<Rightarrow> None)
    | DoClose \<Rightarrow> (case pcs st p of Have sid \<Rightarrow> close_step p (Have sid) st | _ \<Rightarrow> None)
    | Cont \<Rightarrow> cont_step p (pcs st p) st
    | Exit \<Rightarrow> (case pcs st p of Died m \<Rightarrow> None | _ \<Rightarrow> Some (die p ''exit'' st)))"

definition sem_wait_op :: act where "sem_wait_op = DoOp (-1)"
definition sem_signal_op :: act where "sem_signal_op = DoOp 1"

inductive sem_reach :: "(nat \<Rightarrow> act \<Rightarrow> sys \<Rightarrow> bool) \<Rightarrow> nat \<Rightarrow> sys \<Rightarrow> bool" for ok N where
  \<comment> \<open>the states that \<open>N\<close> processes reach when they take only the actions that are allowed\<close>
  start: "sem_reach ok N sem_start"
| step: "sem_reach ok N st \<Longrightarrow> p < N \<Longrightarrow> ok p a st \<Longrightarrow> sem_step p a st = Some st' \<Longrightarrow> sem_reach ok N st'"

fun run :: "(nat \<times> act) list \<Rightarrow> sys \<Rightarrow> sys option" where
  "run [] st = Some st"
| "run ((p, a) # xs) st = (case sem_step p a st of None \<Rightarrow> None | Some st1 \<Rightarrow> run xs st1)"

section \<open>Two races\<close>

text \<open>\<open>sem_create\<close> does not survive the race that its comment describes: a process that sleeps at the lock when the last
  user closes the semaphore gets \<open>EIDRM\<close> instead of \<open>EINVAL\<close>, and the call ends the process.\<close>
theorem create_killed_by_close:
  assumes "0 \<le> iv" "iv \<le> SEMVMX"
  shows "\<exists>st. run [(0, DoCreate iv), (0, Cont), (0, Cont), (0, Cont), (0, Cont), (0, Cont), (0, Cont),
      (0, DoClose), (0, Cont), (1, DoCreate iv), (1, Cont), (1, Cont), (0, Cont), (1, Cont)] sem_start = Some st
    \<and> pcs st 1 = Died ''lock'' \<and> pcs st 0 = Idle"
  using assms by (simp add: SEMVMX_def sem_step_def sem_start_def goto_def new_set_def semop_def op_lock_def op_endcreate_def op_close_def set_val_def BIGCOUNT_def
      sem_rm_def rm_set_def die_def undo_all_def)


theorem create_killed_by_close_witness:
  "\<exists>st. run [(0, DoCreate 1), (0, Cont), (0, Cont), (0, Cont), (0, Cont), (0, Cont), (0, Cont),
      (0, DoClose), (0, Cont), (1, DoCreate 1), (1, Cont), (1, Cont), (0, Cont), (1, Cont)] sem_start = Some st \<and> pcs st 1 = Died ''lock''"
proof -
  have "(0 :: int) \<le> 1" "(1 :: int) \<le> SEMVMX" by (simp_all add: SEMVMX_def)
  from create_killed_by_close[OF this] show ?thesis by blast
qed


end
