(* ===== verification/SemaphInv.thy ===== *)
theory SemaphInv
  imports Semaph
begin

text \<open>
  The semaphores of \<open>lib/semaph.c\<close> are sound among processes that use \<open>sem_create\<close>, whatever the interleaving and
  whichever processes end in the middle of a call: the counter counts the users, the lock admits one process, and
  the set is not removed while it is in use.
\<close>

section \<open>The invariant\<close>

fun counted :: "nat \<Rightarrow> pc \<Rightarrow> bool" where
  \<comment> \<open>the process counts as a user of the set\<close>
  "counted sid (Have s) = (s = sid)"
| "counted sid (OpSleep s x) = (s = sid)"
| "counted sid (CloseOp s) = (s = sid)"
| "counted sid q = False"

fun early :: "nat \<Rightarrow> pc \<Rightarrow> bool" where
  \<comment> \<open>inside the lock, the set not initialised\<close>
  "early sid (SetValue iv s) = (s = sid)"
| "early sid (SetCount s) = (s = sid)"
| "early sid q = False"

fun late :: "nat \<Rightarrow> pc \<Rightarrow> bool" where
  \<comment> \<open>inside the lock, the set initialised\<close>
  "late sid (EndCreate s) = (s = sid)"
| "late sid (CloseCount s) = (s = sid)"
| "late sid (Remove s) = (s = sid)"
| "late sid (Unlock s) = (s = sid)"
| "late sid q = False"

fun incs :: "nat \<Rightarrow> pc \<Rightarrow> bool" where
  \<comment> \<open>the process has the lock\<close>
  "incs sid (GetCount iv s) = (s = sid)"
| "incs sid q = (early sid q \<or> late sid q)"

fun pc_ok :: "pc \<Rightarrow> bool" where
  "pc_ok (Again iv) = (0 \<le> iv \<and> iv \<le> SEMVMX)"
| "pc_ok (Lock iv s b) = (0 \<le> iv \<and> iv \<le> SEMVMX)"
| "pc_ok (GetCount iv s) = (0 \<le> iv \<and> iv \<le> SEMVMX)"
| "pc_ok (SetValue iv s) = (0 \<le> iv \<and> iv \<le> SEMVMX)"
| "pc_ok (OpSleep s x) = (x < 0)"
| "pc_ok (OpenOp s b) = False"
| "pc_ok (Died m) = (m = ''exit'' \<or> m = ''lock'')"
| "pc_ok q = True"

definition b2i :: "bool \<Rightarrow> int" where
  "b2i b = (if b then 1 else 0)"

lemma b2i_simps [simp]: "b2i True = 1" "b2i False = 0"
  by (simp_all add: b2i_def)

definition users :: "nat \<Rightarrow> sys \<Rightarrow> int" where
  "users sid st = int (card {p. counted sid (pcs st p)})"

definition phase :: "nat \<Rightarrow> int list \<Rightarrow> sys \<Rightarrow> bool" where
  "phase sid v st \<longleftrightarrow> (v ! 1 = 0 \<and> users sid st = 0 \<and> (\<forall>p. \<not> late sid (pcs st p)) \<or> v ! 1 = BIGCOUNT - users sid st \<and> (\<forall>p. \<not> early sid (pcs st p)))
     \<and> (\<forall>p. pcs st p = Remove sid \<longrightarrow> users sid st = 0)"

definition set_ok :: "nat \<Rightarrow> int list \<Rightarrow> sys \<Rightarrow> bool" where
  "set_ok sid v st \<longleftrightarrow> length v = 3 \<and> (0 \<le> v ! 0 \<and> v ! 0 \<le> SEMVMX) \<and> v ! 2 = int (card {p. incs sid (pcs st p)}) \<and> v ! 2 \<le> 1 \<and> phase sid v st
     \<and> (\<forall>p. length (adj st p sid) = 3 \<and> adj st p sid ! 1 = b2i (counted sid (pcs st p)) \<and> adj st p sid ! 2 = - b2i (incs sid (pcs st p)))"

definition seminv :: "nat \<Rightarrow> sys \<Rightarrow> bool" where
  "seminv N st \<longleftrightarrow> (\<forall>sid v. sets st sid = Some v \<longrightarrow> cur st = Some sid \<and> sid < nxt st \<and> set_ok sid v st)
     \<and> (\<forall>sid. cur st = Some sid \<longrightarrow> sets st sid \<noteq> None)
     \<and> (\<forall>p sid. counted sid (pcs st p) \<or> incs sid (pcs st p) \<longrightarrow> sets st sid \<noteq> None)
     \<and> (\<forall>p sid. sets st sid = None \<longrightarrow> adj st p sid = [0, 0, 0])
     \<and> (\<forall>p \<ge> N. pcs st p = Idle) \<and> (\<forall>p. pc_ok (pcs st p))"

lemma seminvD:
  assumes "seminv N st"
  shows "sets st sid = Some v \<Longrightarrow> cur st = Some sid" "sets st sid = Some v \<Longrightarrow> set_ok sid v st" "sets st sid = Some v \<Longrightarrow> sid < nxt st"
    "cur st = Some sid \<Longrightarrow> sets st sid \<noteq> None" "counted sid (pcs st p) \<or> incs sid (pcs st p) \<Longrightarrow> sets st sid \<noteq> None"
    "sets st sid = None \<Longrightarrow> adj st p sid = [0, 0, 0]" "N \<le> p \<Longrightarrow> pcs st p = Idle" "pc_ok (pcs st p)"
  using assms by (auto simp: seminv_def)

lemma finite_pcs: "seminv N st \<Longrightarrow> \<not> P Idle \<Longrightarrow> finite {p. P (pcs st p)}"
proof (rule finite_subset[of _ "{..<N}"])
  assume "seminv N st" "\<not> P Idle"
  then show "{p. P (pcs st p)} \<subseteq> {..<N}" using seminvD(7) by (metis (mono_tags, lifting) lessThan_iff mem_Collect_eq not_le subsetI)
qed simp

lemma users_less: "seminv N st \<Longrightarrow> int N < BIGCOUNT \<Longrightarrow> users sid st < BIGCOUNT"
proof -
  assume i: "seminv N st" "int N < BIGCOUNT"
  have "{p. counted sid (pcs st p)} \<subseteq> {..<N}" using seminvD(7)[OF i(1)] by (metis (mono_tags, lifting) counted.simps(4) lessThan_iff mem_Collect_eq not_le subsetI)
  then have "card {p. counted sid (pcs st p)} \<le> N" using card_mono[of "{..<N}"] by simp
  then show ?thesis using i(2) by (simp add: users_def)
qed

lemma card_upd:
  assumes "finite {r. P (f r)}"
  shows "int (card {r. P ((f(p := q)) r)}) = int (card {r. P (f r)}) - b2i (P (f p)) + b2i (P q)"
proof -
  define A where "A = {r. P (f r)} - {p}"
  have a: "{r. P ((f(p := q)) r)} = (if P q then insert p A else A)" by (auto simp: A_def)
  have f: "finite A" "p \<notin> A" using assms by (auto simp: A_def)
  have "int (card {r. P (f r)}) = int (card A) + b2i (P (f p))"
  proof (cases "P (f p)")
    case True
    then have "card {r. P (f r)} = Suc (card A)" unfolding A_def using assms by (intro card.remove) simp_all
    then show ?thesis using True by simp
  next
    case False
    then have "A = {r. P (f r)}" by (auto simp: A_def)
    then show ?thesis using False by simp
  qed
  moreover have "int (card {r. P ((f(p := q)) r)}) = int (card A) + b2i (P q)" using f unfolding a by simp
  ultimately show ?thesis by simp
qed

lemma solo:
  assumes "seminv N st" "sets st sid = Some v" "incs sid (pcs st p) \<or> v ! 2 = 0" "r \<noteq> p"
  shows "\<not> incs sid (pcs st r)"
proof
  assume r: "incs sid (pcs st r)"
  have f: "finite {p. incs sid (pcs st p)}" using finite_pcs[OF assms(1), of "incs sid"] by simp
  have c: "card {p. incs sid (pcs st p)} \<le> 1" "v ! 2 = int (card {p. incs sid (pcs st p)})" using seminvD(2)[OF assms(1,2)] by (simp_all add: set_ok_def)
  then have "{p. incs sid (pcs st p)} = {} \<or> (\<exists>x. {p. incs sid (pcs st p)} = {x})" using f by (metis card_0_eq card_1_singletonE le_Suc_eq le_zero_eq One_nat_def)
  then obtain x where x: "{p. incs sid (pcs st p)} = {x}" using r by blast
  then have "v ! 2 \<noteq> 0" using c(2) by simp
  then have "p \<in> {p. incs sid (pcs st p)}" "r \<in> {p. incs sid (pcs st p)}" using assms(3) r by simp_all
  then show False using x assms(4) by simp
qed

lemma incs_phases: "early sid q \<Longrightarrow> incs sid q" "late sid q \<Longrightarrow> incs sid q" "late sid (Remove sid)"
  by (cases q; simp)+

section \<open>Steps of the live set\<close>

definition upd :: "nat \<Rightarrow> pc \<Rightarrow> nat \<Rightarrow> int list \<Rightarrow> int list \<Rightarrow> sys \<Rightarrow> sys" where
  "upd p q sid v a st = st\<lparr>sets := (sets st)(sid \<mapsto> v), adj := (adj st)(p := (adj st p)(sid := a)), pcs := (pcs st)(p := q)\<rparr>"

lemma upd_simps [simp]:
  "sets (upd p q sid v a st) = (sets st)(sid \<mapsto> v)" "pcs (upd p q sid v a st) = (pcs st)(p := q)" "cur (upd p q sid v a st) = cur st"
  "nxt (upd p q sid v a st) = nxt st" "adj (upd p q sid v a st) = (adj st)(p := (adj st p)(sid := a))"
  by (simp_all add: upd_def)

lemma upd_seminv:
  assumes "seminv N st" "p < N" "sets st sid = Some v" "\<forall>s. s \<noteq> sid \<longrightarrow> \<not> counted s q \<and> \<not> incs s q" "pc_ok q"
    "length w = 3" "0 \<le> w ! 0 \<and> w ! 0 \<le> SEMVMX" "w ! 2 = v ! 2 - b2i (incs sid (pcs st p)) + b2i (incs sid q)" "w ! 2 \<le> 1"
    "length a = 3" "a ! 1 = b2i (counted sid q)" "a ! 2 = - b2i (incs sid q)" "phase sid w (upd p q sid w a st)"
  shows "seminv N (upd p q sid w a st)"
proof -
  have one: "s = sid" if "sets st s \<noteq> None" for s
    using seminvD(1)[OF assms(1)] that assms(3) by (metis option.exhaust option.inject)
  have so: "set_ok sid v st" by (rule seminvD(2)[OF assms(1,3)])
  have "int (card {r. incs sid (((pcs st)(p := q)) r)}) = int (card {r. incs sid (pcs st r)}) - b2i (incs sid (pcs st p)) + b2i (incs sid q)"
    by (rule card_upd) (use finite_pcs[OF assms(1), of "incs sid"] in simp)
  then have ok: "set_ok sid w (upd p q sid w a st)" using so assms(6-13) by (simp add: set_ok_def)
  show ?thesis unfolding seminv_def
  proof (intro conjI allI impI)
    fix s u assume "sets (upd p q sid w a st) s = Some u"
    then have "s = sid" "u = w" using one by (auto split: if_splits)
    then show "cur (upd p q sid w a st) = Some s" "s < nxt (upd p q sid w a st)" "set_ok s u (upd p q sid w a st)"
      using ok seminvD(1,3)[OF assms(1,3)] by simp_all
  next
    fix s assume "cur (upd p q sid w a st) = Some s" then show "sets (upd p q sid w a st) s \<noteq> None" using seminvD(4)[OF assms(1)] by simp
  next
    fix r s assume "counted s (pcs (upd p q sid w a st) r) \<or> incs s (pcs (upd p q sid w a st) r)"
    then show "sets (upd p q sid w a st) s \<noteq> None" using assms(4) seminvD(5)[OF assms(1), of s r] by (auto split: if_splits)
  next
    fix r s assume "sets (upd p q sid w a st) s = None"
    then show "adj (upd p q sid w a st) r s = [0, 0, 0]" using seminvD(6)[OF assms(1), of s] by (auto split: if_splits)
  next
    fix r assume "N \<le> r" then show "pcs (upd p q sid w a st) r = Idle" using seminvD(7)[OF assms(1)] assms(2) by simp
  next
    fix r show "pc_ok (pcs (upd p q sid w a st) r)" using seminvD(8)[OF assms(1)] assms(5) by simp
  qed
qed

text \<open>The phase after a step, from the numbers before it.\<close>

lemma users_upd:
  assumes "seminv N st"
  shows "users sid (upd p q sid w a st) = users sid st - b2i (counted sid (pcs st p)) + b2i (counted sid q)"
  unfolding users_def upd_simps by (rule card_upd) (use finite_pcs[OF assms, of "counted sid"] in simp)

lemma phase_outside:
  \<comment> \<open>a step that neither takes nor gives up the lock\<close>
  assumes "seminv N st" "sets st sid = Some v" "\<not> incs sid (pcs st p)" "\<not> incs sid q" "w ! 1 = v ! 1" "counted sid q = counted sid (pcs st p)"
  shows "phase sid w (upd p q sid w a st)"
proof -
  have ph: "phase sid v st" using seminvD(2)[OF assms(1,2)] by (simp add: set_ok_def)
  have u: "users sid (upd p q sid w a st) = users sid st" using users_upd[OF assms(1)] assms(6) by simp
  have "early sid (((pcs st)(p := q)) r) = early sid (pcs st r)" "late sid (((pcs st)(p := q)) r) = late sid (pcs st r)" for r
    using assms(3,4) incs_phases by (cases "r = p", auto)+
  moreover have "(((pcs st)(p := q)) r = Remove sid) = (pcs st r = Remove sid)" for r
    using assms(3,4) by (cases "r = p") auto
  ultimately show ?thesis using ph assms(5) unfolding phase_def u upd_simps by presburger
qed

lemma phase_inside:
  \<comment> \<open>a step of the process that has the lock before or after it, and no other has\<close>
  assumes "seminv N st" "sets st sid = Some v" "incs sid (pcs st p) \<or> v ! 2 = 0"
    "w ! 1 = 0 \<and> users sid st - b2i (counted sid (pcs st p)) + b2i (counted sid q) = 0 \<and> \<not> late sid q
     \<or> w ! 1 = BIGCOUNT - (users sid st - b2i (counted sid (pcs st p)) + b2i (counted sid q)) \<and> \<not> early sid q"
    "q = Remove sid \<Longrightarrow> users sid st - b2i (counted sid (pcs st p)) + b2i (counted sid q) = 0"
  shows "phase sid w (upd p q sid w a st)"
proof -
  note S = solo[OF assms(1,2,3)]
  have o: "\<not> early sid (pcs st r)" "\<not> late sid (pcs st r)" "pcs st r \<noteq> Remove sid" if "r \<noteq> p" for r
    using S[OF that] incs_phases by auto
  show ?thesis using assms(4,5) o unfolding phase_def users_upd[OF assms(1)] upd_simps by auto
qed

lemma phase_before: "seminv N st \<Longrightarrow> sets st sid = Some v \<Longrightarrow> phase sid v st"
  using seminvD(2) by (simp add: set_ok_def)

lemma users_pos: "seminv N st \<Longrightarrow> counted sid (pcs st p) \<Longrightarrow> 1 \<le> users sid st"
proof -
  assume a: "seminv N st" "counted sid (pcs st p)"
  have "finite {p. counted sid (pcs st p)}" using finite_pcs[OF a(1), of "counted sid"] by simp
  then have "0 < card {p. counted sid (pcs st p)}" using a(2) by (auto simp: card_gt_0_iff)
  then show ?thesis by (simp add: users_def)
qed

lemma users_nonneg [simp]: "0 \<le> users sid st"
  by (simp add: users_def)

lemma phase_leave:
  \<comment> \<open>a user outside the lock that ends\<close>
  assumes "seminv N st" "sets st sid = Some v" "\<not> incs sid (pcs st p)" "\<not> incs sid q" "\<not> counted sid q" "w ! 1 = v ! 1 + b2i (counted sid (pcs st p))"
  shows "phase sid w (upd p q sid w a st)"
proof (cases "counted sid (pcs st p)")
  case False
  then show ?thesis using phase_outside[OF assms(1-4)] assms(5,6) by simp
next
  case True
  note ph = phase_before[OF assms(1,2)]
  have "1 \<le> users sid st" by (rule users_pos[OF assms(1) True])
  then have i: "v ! 1 = BIGCOUNT - users sid st" "\<forall>r. \<not> early sid (pcs st r)" "\<forall>r. pcs st r \<noteq> Remove sid" using ph by (auto simp: phase_def)
  have "\<not> early sid q" "q \<noteq> Remove sid" using assms(4) incs_phases by auto
  moreover have "users sid (upd p q sid w a st) = users sid st - 1" using users_upd[OF assms(1)] True assms(5) by simp
  ultimately show ?thesis using i assms(6) True unfolding phase_def upd_simps by auto
qed

lemma live_cases:
  obtains (none) "\<forall>s. sets st s = None" | (live) sid v where "sets st sid = Some v"
  by (metis option.exhaust)

lemma only_one: "seminv N st \<Longrightarrow> sets st sid = Some v \<Longrightarrow> s \<noteq> sid \<Longrightarrow> sets st s = None"
  using seminvD(1) by (metis option.exhaust option.inject)

lemma refers_live:
  assumes "seminv N st" "sets st sid = Some v" "counted s (pcs st r) \<or> incs s (pcs st r)"
  shows "s = sid"
proof (rule ccontr)
  assume "s \<noteq> sid"
  from only_one[OF assms(1,2) this] seminvD(5)[OF assms(1,3)] show False by simp
qed

lemma list3: "length v = 3 \<Longrightarrow> v = [v ! 0, v ! 1, v ! 2]"
  by (auto simp: numeral_eq_Suc length_Suc_conv)

lemma goto_upd: "sets st sid = Some v \<Longrightarrow> goto p q st = upd p q sid v (adj st p sid) st"
  by (simp add: goto_def upd_def fun_upd_idem)

lemma goto_plain:
  assumes "seminv N st" "p < N" "\<forall>s. \<not> counted s q \<and> \<not> incs s q" "\<forall>s. \<not> counted s (pcs st p) \<and> \<not> incs s (pcs st p)" "pc_ok q"
  shows "seminv N (goto p q st)"
proof (cases st rule: live_cases)
  case none
  then have "cur st = None" using seminvD(4)[OF assms(1)] by (cases "cur st") auto
  then show ?thesis using none assms seminvD(5-8)[OF assms(1)] unfolding seminv_def goto_def by auto
next
  case (live sid v)
  have so: "set_ok sid v st" by (rule seminvD(2)[OF assms(1) live])
  show ?thesis unfolding goto_upd[OF live]
  proof (rule upd_seminv[OF assms(1,2) live])
    show "phase sid v (upd p q sid v (adj st p sid) st)" by (rule phase_outside[OF assms(1) live]) (use assms(3,4) in auto)
  qed (use assms(3-5) so in \<open>auto simp: set_ok_def\<close>)
qed

lemma die_upd:
  assumes "seminv N st" "sets st sid = Some v"
  shows "die p m st = upd p (Died m) sid (map (\<lambda>n. max 0 (min SEMVMX (v ! n + adj st p sid ! n))) [0, 1, 2]) [0, 0, 0] st"
proof -
  have "(\<lambda>_. [0, 0, 0]) = (adj st p)(sid := [0, 0, 0])" using only_one[OF assms] seminvD(6)[OF assms(1)] by (auto simp: fun_eq_iff)
  moreover have "(\<lambda>s. map_option (\<lambda>v. map (\<lambda>n. max 0 (min SEMVMX (v ! n + adj st p s ! n))) [0, 1, 2]) (sets st s))
    = (sets st)(sid \<mapsto> map (\<lambda>n. max 0 (min SEMVMX (v ! n + adj st p sid ! n))) [0, 1, 2])" using only_one[OF assms] assms(2) by (auto simp: fun_eq_iff)
  ultimately show ?thesis by (simp add: die_def undo_all_def goto_def upd_def)
qed

lemma die_seminv:
  assumes "seminv N st" "p < N" "int N < BIGCOUNT" "m = ''exit'' \<or> m = ''lock''"
  shows "seminv N (die p m st)"
proof (cases st rule: live_cases)
  case none
  then have "cur st = None" using seminvD(4)[OF assms(1)] by (cases "cur st") auto
  then show ?thesis using none assms(2,4) seminvD(5-8)[OF assms(1)] unfolding seminv_def die_def goto_def undo_all_def by auto
next
  case (live sid v)
  have so: "set_ok sid v st" by (rule seminvD(2)[OF assms(1) live])
  let ?q = "pcs st p" let ?w = "map (\<lambda>n. max 0 (min SEMVMX (v ! n + adj st p sid ! n))) [0, 1, 2]"
  note ph = phase_before[OF assms(1) live]
  have a: "adj st p sid ! 1 = b2i (counted sid ?q)" "adj st p sid ! 2 = - b2i (incs sid ?q)" using so by (simp_all add: set_ok_def)
  have "0 \<le> v ! 1" "v ! 1 \<le> BIGCOUNT" using ph users_less[OF assms(1,3), of sid] by (auto simp: phase_def BIGCOUNT_def)
  then have w1: "?w ! 1 = v ! 1 + b2i (counted sid ?q)" using a(1) by (simp add: b2i_def SEMVMX_def BIGCOUNT_def)
  have v2: "v ! 2 = int (card {r. incs sid (pcs st r)})" "v ! 2 \<le> 1" using so by (simp_all add: set_ok_def)
  have f: "finite {r. incs sid (pcs st r)}" using finite_pcs[OF assms(1), of "incs sid"] by simp
  have "1 \<le> v ! 2" if "incs sid ?q"
    unfolding v2(1) using that f by (simp add: card_gt_0_iff Suc_le_eq) blast
  then have w2: "?w ! 2 = v ! 2 - b2i (incs sid ?q)" using a(2) v2 by (auto simp: b2i_def SEMVMX_def)
  show ?thesis unfolding die_upd[OF assms(1) live]
  proof (rule upd_seminv[OF assms(1,2) live])
    show "phase sid ?w (upd p (Died m) sid ?w [0, 0, 0] st)"
    proof (cases "incs sid ?q")
      case False
      then show ?thesis by (intro phase_leave[OF assms(1) live]) (use w1 in simp_all)
    next
      case True
      then have nh: "\<not> counted sid ?q" by (cases ?q) auto
      show ?thesis
      proof (rule phase_inside[OF assms(1) live disjI1[OF True]])
        show "?w ! 1 = 0 \<and> users sid st - b2i (counted sid ?q) + b2i (counted sid (Died m)) = 0 \<and> \<not> late sid (Died m) \<or>
          ?w ! 1 = BIGCOUNT - (users sid st - b2i (counted sid ?q) + b2i (counted sid (Died m))) \<and> \<not> early sid (Died m)"
          using ph nh unfolding w1 by (auto simp: phase_def)
      qed simp
    qed
    show "?w ! 2 = v ! 2 - b2i (incs sid ?q) + b2i (incs sid (Died m))" using w2 by simp
    show "?w ! 2 \<le> 1" unfolding w2 using v2(2) by (simp add: b2i_def)
  qed (use assms(4) in \<open>auto simp: b2i_def SEMVMX_def\<close>)
qed

lemma new_set_seminv:
  assumes "seminv N st" "cur st = None"
  shows "seminv N (new_set st)"
proof -
  have n: "sets st s = None" for s using seminvD(1)[OF assms(1)] assms(2) by (metis option.exhaust option.distinct(1))
  have h: "\<not> counted s (pcs st p)" "\<not> incs s (pcs st p)" for s p using seminvD(5)[OF assms(1)] n by blast+
  then have h': "\<not> late s (pcs st p)" "\<not> early s (pcs st p)" "pcs st p \<noteq> Remove s" for s p using incs_phases by metis+
  have "set_ok (nxt st) [0, 0, 0] (new_set st)"
    using h h' seminvD(6)[OF assms(1) n] by (auto simp: set_ok_def phase_def users_def new_set_def SEMVMX_def)
  then show ?thesis using n h seminvD(6-8)[OF assms(1)] unfolding seminv_def new_set_def by auto
qed

lemma rm_seminv:
  assumes "seminv N st" "p < N" "pcs st p = Remove sid"
  shows "seminv N (sem_rm p sid Idle st)"
proof -
  have ne: "sets st sid \<noteq> None" using seminvD(5)[OF assms(1), of sid p] assms(3) by simp
  then obtain v where v: "sets st sid = Some v" by blast
  have u: "users sid st = 0" using phase_before[OF assms(1) v] assms(3) by (auto simp: phase_def)
  have nh: "\<not> counted sid (pcs st r)" for r
  proof
    assume "counted sid (pcs st r)" from users_pos[OF assms(1) this] u show False by simp
  qed
  have ni: "r \<noteq> p \<Longrightarrow> \<not> incs sid (pcs st r)" for r using solo[OF assms(1) v, of p r] assms(3) by simp
  have n: "s \<noteq> sid \<Longrightarrow> sets st s = None" for s using only_one[OF assms(1) v] by simp
  have hs: "counted s (pcs st r) \<Longrightarrow> s = sid" "incs s (pcs st r) \<Longrightarrow> s = sid" for r s by (rule refers_live[OF assms(1) v, of s r], simp)+
  have c: "cur st = Some sid" by (rule seminvD(1)[OF assms(1) v])
  let ?st = "goto p Idle (rm_set sid st)"
  have gone: "sets ?st s = None" for s using n by (simp add: goto_def rm_set_def)
  have "\<not> counted s (pcs ?st r)" "\<not> incs s (pcs ?st r)" for s r using hs[of s r] nh[of r] ni[of r] by (auto simp: goto_def rm_set_def)
  moreover have "cur ?st = None" using c by (simp add: goto_def rm_set_def)
  moreover have "adj ?st r s = [0, 0, 0]" for r s using seminvD(6)[OF assms(1) n] by (cases "s = sid") (simp_all add: goto_def rm_set_def)
  moreover have "N \<le> r \<Longrightarrow> pcs ?st r = Idle" "pc_ok (pcs ?st r)" for r using seminvD(7,8)[OF assms(1)] by (simp_all add: goto_def rm_set_def)
  ultimately have "seminv N ?st" using gone unfolding seminv_def by simp
  then show ?thesis unfolding sem_rm_def if_not_P[OF ne] .
qed

lemma set_value_seminv:
  assumes "seminv N st" "sets st sid = Some v" "0 \<le> x \<and> x \<le> SEMVMX"
  shows "seminv N (set_val sid 0 x st)"
proof -
  have so: "set_ok sid v st" by (rule seminvD(2)[OF assms(1,2)])
  have s: "sets (set_val sid 0 x st) = (sets st)(sid \<mapsto> v[0 := x])" "pcs (set_val sid 0 x st) = pcs st" "cur (set_val sid 0 x st) = cur st"
    "nxt (set_val sid 0 x st) = nxt st" using assms(2) by (simp_all add: set_val_def)
  have "set_ok sid (v[0 := x]) (set_val sid 0 x st)" using so assms(3) by (auto simp: set_ok_def phase_def users_def s set_val_def)
  moreover have "s \<noteq> sid \<Longrightarrow> adj (set_val sid 0 x st) r s = adj st r s" for r s by (simp add: set_val_def)
  moreover have "s = sid" if "counted s (pcs st r) \<or> incs s (pcs st r)" for r s using refers_live[OF assms(1,2) that] .
  moreover have "sets st s = None" if "s \<noteq> sid" for s using only_one[OF assms(1,2) that] .
  ultimately show ?thesis unfolding seminv_def s
  proof (intro conjI allI impI, goal_cases)
    case (1 t u) then show ?case using seminvD(1)[OF assms(1,2)] by (cases "t = sid") simp_all
  next
    case (2 t u) then show ?case using seminvD(3)[OF assms(1,2)] by (cases "t = sid") simp_all
  next
    case (3 t u) then show ?case by (cases "t = sid") simp_all
  next
    case (4 t) then show ?case using seminvD(1)[OF assms(1,2)] by simp
  next
    case (5 r t) then show ?case by simp
  next
    case (6 r t) then show ?case using seminvD(6)[OF assms(1)] by (cases "t = sid") simp_all
  qed (use seminvD(7,8)[OF assms(1)] in simp_all)
qed

section \<open>Every step keeps the invariant\<close>

lemma tries:
  assumes "length v = 3" "length a = 3" "0 \<le> v ! 1" "v ! 1 \<le> BIGCOUNT" "v ! 2 \<le> 1"
  shows "semop_try op_lock v a = (if v ! 2 \<noteq> 0 then MustWait else Fits (v[2 := 1]) (a[2 := a ! 2 - 1]))"
    "semop_try op_endcreate v a = (if v ! 1 < 1 \<or> v ! 2 < 1 then MustWait else Fits (v[1 := v ! 1 - 1, 2 := v ! 2 - 1]) (a[1 := a ! 1 + 1, 2 := a ! 2 + 1]))"
    "semop_try op_close v a = (if v ! 2 \<noteq> 0 then MustWait else Fits (v[2 := 1, 1 := v ! 1 + 1]) (a[2 := a ! 2 - 1, 1 := a ! 1 - 1]))"
    "semop_try op_unlock v a = (if v ! 2 < 1 then MustWait else Fits (v[2 := v ! 2 - 1]) (a[2 := a ! 2 + 1]))"
    "x \<noteq> 0 \<Longrightarrow> semop_try (op_op x) v a = (if x < 0 \<and> v ! 0 + x < 0 then MustWait else if v ! 0 + x > SEMVMX then TooLarge else Fits (v[0 := v ! 0 + x]) (a[0 := a ! 0 - x]))"
proof -
  obtain v0 v1 v2 where v: "v = [v0, v1, v2]" using list3[OF assms(1)] by blast
  obtain a0 a1 a2 where a: "a = [a0, a1, a2]" using list3[OF assms(2)] by blast
  note d = BIGCOUNT_def SEMVMX_def
  show "semop_try op_lock v a = (if v ! 2 \<noteq> 0 then MustWait else Fits (v[2 := 1]) (a[2 := a ! 2 - 1]))"
    by (simp add: v a op_lock_def d)
  show "semop_try op_endcreate v a = (if v ! 1 < 1 \<or> v ! 2 < 1 then MustWait else Fits (v[1 := v ! 1 - 1, 2 := v ! 2 - 1]) (a[1 := a ! 1 + 1, 2 := a ! 2 + 1]))"
    using assms(3-5) by (auto simp: v a op_endcreate_def d)
  show "semop_try op_close v a = (if v ! 2 \<noteq> 0 then MustWait else Fits (v[2 := 1, 1 := v ! 1 + 1]) (a[2 := a ! 2 - 1, 1 := a ! 1 - 1]))"
    using assms(3-5) by (auto simp: v a op_close_def d)
  show "semop_try op_unlock v a = (if v ! 2 < 1 then MustWait else Fits (v[2 := v ! 2 - 1]) (a[2 := a ! 2 + 1]))"
    using assms(3-5) by (auto simp: v a op_unlock_def d)
  show "x \<noteq> 0 \<Longrightarrow> semop_try (op_op x) v a = (if x < 0 \<and> v ! 0 + x < 0 then MustWait else if v ! 0 + x > SEMVMX then TooLarge else Fits (v[0 := v ! 0 + x]) (a[0 := a ! 0 - x]))"
    by (auto simp: v a op_op_def)
qed

definition after :: "nat \<Rightarrow> int list \<Rightarrow> int list \<Rightarrow> nat \<Rightarrow> sys \<Rightarrow> sys" where
  "after p v a sid st = st\<lparr>sets := (sets st)(sid \<mapsto> v), adj := (adj st)(p := (adj st p)(sid := a))\<rparr>"

lemma semop_eq:
  assumes "sets st sid = Some v"
  shows "semop p sid ops st = (case semop_try ops v (adj st p sid) of MustWait \<Rightarrow> Sleeps | TooLarge \<Rightarrow> Range | Fits w a \<Rightarrow> Finished (after p w a sid st))"
  using assms by (simp add: semop_def after_def split: tried.split)

lemma goto_after: "goto p q (after p w a sid st) = upd p q sid w a st"
  by (simp add: goto_def after_def upd_def)

lemma live_facts:
  assumes "seminv N st" "int N < BIGCOUNT" "sets st sid = Some v"
  shows "length v = 3" "0 \<le> v ! 0 \<and> v ! 0 \<le> SEMVMX" "0 \<le> v ! 1" "v ! 1 \<le> BIGCOUNT" "0 \<le> v ! 2" "v ! 2 \<le> 1" "length (adj st p sid) = 3"
    "adj st p sid ! 1 = b2i (counted sid (pcs st p))" "adj st p sid ! 2 = - b2i (incs sid (pcs st p))"
    "incs sid (pcs st p) \<Longrightarrow> v ! 2 = 1"
proof -
  have so: "set_ok sid v st" by (rule seminvD(2)[OF assms(1,3)])
  then show l: "length v = 3" "0 \<le> v ! 0 \<and> v ! 0 \<le> SEMVMX" "0 \<le> v ! 2" "v ! 2 \<le> 1" "length (adj st p sid) = 3"
    "adj st p sid ! 1 = b2i (counted sid (pcs st p))" "adj st p sid ! 2 = - b2i (incs sid (pcs st p))" by (simp_all add: set_ok_def)
  show "0 \<le> v ! 1" "v ! 1 \<le> BIGCOUNT" using phase_before[OF assms(1,3)] users_less[OF assms(1,2), of sid] by (auto simp: phase_def BIGCOUNT_def)
  have f: "finite {r. incs sid (pcs st r)}" using finite_pcs[OF assms(1), of "incs sid"] by simp
  show "v ! 2 = 1" if "incs sid (pcs st p)"
  proof -
    have "{r. incs sid (pcs st r)} \<noteq> {}" using that by blast
    then have "0 < card {r. incs sid (pcs st r)}" using f by (simp add: card_gt_0_iff)
    then show ?thesis using so by (simp add: set_ok_def)
  qed
qed

lemma must_live:
  assumes "seminv N st" "counted sid (pcs st p) \<or> incs sid (pcs st p)"
  obtains v where "sets st sid = Some v"
  using seminvD(5)[OF assms] by blast

definition no_open :: "nat \<Rightarrow> act \<Rightarrow> sys \<Rightarrow> bool" where
  \<comment> \<open>processes that call \<open>sem_create\<close>, with values in the range of the system, but not \<open>sem_open\<close>\<close>
  "no_open p a st = (case a of DoOpen \<Rightarrow> False | DoCreate iv \<Rightarrow> 0 \<le> iv \<and> iv \<le> SEMVMX
     | DoOp x \<Rightarrow> x \<noteq> 0 \<and> (\<forall>sid v. sets st sid = Some v \<longrightarrow> v ! 0 + x \<le> SEMVMX) | _ \<Rightarrow> True)"

lemma create_seminv:
  assumes "seminv N st" "int N < BIGCOUNT" "p < N" "create_step p (pcs st p) st = Some st'"
  shows "seminv N st'"
proof (cases "pcs st p")
  case (Again iv)
  have iv: "pc_ok (Again iv)" using seminvD(8)[OF assms(1), of p] Again by simp
  show ?thesis
  proof (cases "cur st")
    case None
    have "seminv N (goto p (Lock iv (nxt st) False) (new_set st))"
      by (rule goto_plain[OF new_set_seminv[OF assms(1) None] assms(3)]) (use Again iv in \<open>auto simp: new_set_def\<close>)
    then show ?thesis using assms(4) Again None by simp
  next
    case (Some s)
    have "seminv N (goto p (Lock iv s False) st)" by (rule goto_plain[OF assms(1,3)]) (use Again iv in auto)
    then show ?thesis using assms(4) Again Some by simp
  qed
next
  case (Lock iv sid slept)
  have iv: "pc_ok (Lock iv sid slept)" using seminvD(8)[OF assms(1), of p] Lock by simp
  show ?thesis
  proof (cases "sets st sid")
    case None
    have "seminv N (goto p (Again iv) st)" by (rule goto_plain[OF assms(1,3)]) (use Lock iv in auto)
    then show ?thesis using assms(4) Lock None die_seminv[OF assms(1,3,2), of "''lock''"] by (simp add: semop_def split: if_splits)
  next
    case (Some v)
    note L = live_facts[OF assms(1,2) Some]
    note T = tries(1)[OF L(1) L(7) L(3,4,6), of p]
    show ?thesis
    proof (cases "v ! 2 = 0")
      case False
      have "seminv N (goto p (Lock iv sid True) st)" by (rule goto_plain[OF assms(1,3)]) (use Lock iv in auto)
      then show ?thesis using assms(4) Lock False T by (simp add: semop_eq[OF Some])
    next
      case True
      have "seminv N (upd p (GetCount iv sid) sid (v[2 := 1]) ((adj st p sid)[2 := adj st p sid ! 2 - 1]) st)"
      proof (rule upd_seminv[OF assms(1,3) Some])
        show "phase sid (v[2 := 1]) (upd p (GetCount iv sid) sid (v[2 := 1]) ((adj st p sid)[2 := adj st p sid ! 2 - 1]) st)"
          by (rule phase_inside[OF assms(1) Some]) (use True Lock phase_before[OF assms(1) Some] in \<open>auto simp: phase_def\<close>)
      qed (use True Lock iv L(1,2) L(7-9)[of p] in auto)
      then show ?thesis using assms(4) Lock True T by (simp add: semop_eq[OF Some] goto_after)
    qed
  qed
next
  case (GetCount iv sid)
  have iv: "pc_ok (GetCount iv sid)" using seminvD(8)[OF assms(1), of p] GetCount by simp
  obtain v where v: "sets st sid = Some v" using must_live[OF assms(1), of sid p] GetCount by auto
  note L = live_facts[OF assms(1,2) v]
  let ?q = "if v ! 1 = 0 then SetValue iv sid else EndCreate sid"
  have "seminv N (upd p ?q sid v (adj st p sid) st)"
  proof (rule upd_seminv[OF assms(1,3) v])
    show "phase sid v (upd p ?q sid v (adj st p sid) st)"
      by (rule phase_inside[OF assms(1) v]) (use GetCount phase_before[OF assms(1) v] users_less[OF assms(1,2), of sid] in \<open>auto simp: phase_def\<close>)
  qed (use GetCount iv L(1,2,6) L(7-9)[of p] in auto)
  then show ?thesis using assms(4) GetCount v by (simp add: goto_upd[OF v])
next
  case (SetValue iv sid)
  have iv: "0 \<le> iv" "iv \<le> SEMVMX" using seminvD(8)[OF assms(1), of p] SetValue by simp_all
  obtain v0 where v0: "sets st sid = Some v0" using must_live[OF assms(1), of sid p] SetValue by auto
  let ?st = "set_val sid 0 iv st"
  have i: "seminv N ?st" by (rule set_value_seminv[OF assms(1) v0 conjI[OF iv]])
  have pc: "pcs ?st p = SetValue iv sid" using SetValue by (simp add: set_val_def)
  obtain v where v: "sets ?st sid = Some v" using must_live[OF i, of sid p] pc by auto
  note L = live_facts[OF i assms(2) v]
  have "seminv N (upd p (SetCount sid) sid v (adj ?st p sid) ?st)"
  proof (rule upd_seminv[OF i assms(3) v])
    show "phase sid v (upd p (SetCount sid) sid v (adj ?st p sid) ?st)"
    proof (rule phase_inside[OF i v])
      have "early sid (pcs ?st p)" using pc by simp
      then have "v ! 1 = 0" "users sid ?st = 0" using phase_before[OF i v] unfolding phase_def by blast+
      then show "v ! 1 = 0 \<and> users sid ?st - b2i (counted sid (pcs ?st p)) + b2i (counted sid (SetCount sid)) = 0 \<and> \<not> late sid (SetCount sid) \<or>
        v ! 1 = BIGCOUNT - (users sid ?st - b2i (counted sid (pcs ?st p)) + b2i (counted sid (SetCount sid))) \<and> \<not> early sid (SetCount sid)"
        using pc by simp
    qed (use pc in simp_all)
  qed (use pc L(1,2,6) L(7-9)[of p] in auto)
  then show ?thesis using assms(4) SetValue v0 iv by (simp add: goto_upd[OF v])
next
  case (SetCount sid)
  obtain v where v: "sets st sid = Some v" using must_live[OF assms(1), of sid p] SetCount by auto
  note L = live_facts[OF assms(1,2) v]
  have "early sid (pcs st p)" using SetCount by simp
  then have u: "users sid st = 0" using phase_before[OF assms(1) v] by (auto simp: phase_def)
  have nh: "\<not> counted sid (pcs st r)" for r
  proof
    assume "counted sid (pcs st r)" from users_pos[OF assms(1) this] u show False by simp
  qed
  have "(adj st r sid)[1 := 0] = adj st r sid" for r using L(8)[of r] nh[of r] by (metis b2i_simps(2) list_update_id)
  then have e: "goto p (EndCreate sid) (set_val sid 1 BIGCOUNT st) = upd p (EndCreate sid) sid (v[1 := BIGCOUNT]) (adj st p sid) st"
    using v by (simp add: set_val_def goto_def upd_def)
  have "seminv N (upd p (EndCreate sid) sid (v[1 := BIGCOUNT]) (adj st p sid) st)"
  proof (rule upd_seminv[OF assms(1,3) v])
    show "phase sid (v[1 := BIGCOUNT]) (upd p (EndCreate sid) sid (v[1 := BIGCOUNT]) (adj st p sid) st)"
      by (rule phase_inside[OF assms(1) v]) (use SetCount u L(1) in auto)
  qed (use SetCount L(1,2,6) L(7-9)[of p] in auto)
  then show ?thesis using assms(4) SetCount v e by simp
next
  case (EndCreate sid)
  obtain v where v: "sets st sid = Some v" using must_live[OF assms(1), of sid p] EndCreate by auto
  note L = live_facts[OF assms(1,2) v]
  have "late sid (pcs st p)" using EndCreate by simp
  then have ph: "v ! 1 = BIGCOUNT - users sid st" using phase_before[OF assms(1) v] unfolding phase_def by blast
  then have c: "1 \<le> v ! 1" "v ! 2 = 1" using users_less[OF assms(1,2), of sid] L(10)[of p] EndCreate by simp_all
  let ?w = "v[1 := v ! 1 - 1, 2 := v ! 2 - 1]" let ?a = "(adj st p sid)[1 := adj st p sid ! 1 + 1, 2 := adj st p sid ! 2 + 1]"
  have "seminv N (upd p (Have sid) sid ?w ?a st)"
  proof (rule upd_seminv[OF assms(1,3) v])
    show "phase sid ?w (upd p (Have sid) sid ?w ?a st)"
      by (rule phase_inside[OF assms(1) v]) (use EndCreate ph L(1) in auto)
  qed (use EndCreate c L(1,2) L(7-9)[of p] in auto)
  then show ?thesis using assms(4) EndCreate c tries(2)[OF L(1) L(7) L(3,4,6), of p] by (simp add: semop_eq[OF v] goto_after)
qed (use assms(4) in auto)

lemma phase_user:
  assumes "seminv N st" "sets st sid = Some v" "counted sid (pcs st p)"
  shows "v ! 1 = BIGCOUNT - users sid st" "pcs st r \<noteq> Remove sid"
  using phase_before[OF assms(1,2)] users_pos[OF assms(1,3)] by (auto simp: phase_def)

lemma op_seminv:
  assumes "seminv N st" "int N < BIGCOUNT" "p < N" "sets st sid = Some v" "pcs st p = Have sid \<or> (\<exists>y. pcs st p = OpSleep sid y)"
    "x \<noteq> 0" "v ! 0 + x \<le> SEMVMX"
  shows "case semop p sid (op_op x) st of Finished st1 \<Rightarrow> seminv N (goto p (Have sid) st1) | Sleeps \<Rightarrow> x < 0 | _ \<Rightarrow> False"
proof -
  note L = live_facts[OF assms(1,2,4)]
  note T = tries(5)[OF L(1) L(7) L(3,4,6) assms(6), of p]
  let ?w = "v[0 := v ! 0 + x]" let ?a = "(adj st p sid)[0 := adj st p sid ! 0 - x]"
  have "seminv N (upd p (Have sid) sid ?w ?a st)" if "\<not> (x < 0 \<and> v ! 0 + x < 0)"
  proof (rule upd_seminv[OF assms(1,3,4)])
    show "phase sid ?w (upd p (Have sid) sid ?w ?a st)"
      by (rule phase_outside[OF assms(1,4)]) (use assms(5) L(1) in auto)
  qed (use assms(5,7) that L(1,2,6) L(7-9)[of p] in auto)
  then show ?thesis using T assms(7) by (simp add: semop_eq[OF assms(4)] goto_after)
qed

lemma close_op_seminv:
  assumes "seminv N st" "int N < BIGCOUNT" "p < N" "sets st sid = Some v" "pcs st p = Have sid \<or> pcs st p = CloseOp sid"
  shows "case semop p sid op_close st of Finished st1 \<Rightarrow> seminv N (goto p (CloseCount sid) st1) | Sleeps \<Rightarrow> True | _ \<Rightarrow> False"
proof -
  note L = live_facts[OF assms(1,2,4)]
  note T = tries(3)[OF L(1) L(7) L(3,4,6), of p]
  let ?w = "v[2 := 1, 1 := v ! 1 + 1]" let ?a = "(adj st p sid)[2 := adj st p sid ! 2 - 1, 1 := adj st p sid ! 1 - 1]"
  have h: "counted sid (pcs st p)" using assms(5) by auto
  note ph = phase_user(1)[OF assms(1,4) h]
  have "seminv N (upd p (CloseCount sid) sid ?w ?a st)" if "v ! 2 = 0"
  proof (rule upd_seminv[OF assms(1,3,4)])
    show "phase sid ?w (upd p (CloseCount sid) sid ?w ?a st)"
      by (rule phase_inside[OF assms(1,4)]) (use assms(5) that h ph L(1) in auto)
  qed (use assms(5) that L(1,2,6) L(7-9)[of p] in auto)
  then show ?thesis using T by (simp add: semop_eq[OF assms(4)] goto_after)
qed

lemma close_seminv:
  assumes "seminv N st" "int N < BIGCOUNT" "p < N" "close_step p (pcs st p) st = Some st'"
  shows "seminv N st'"
proof (cases "pcs st p")
  case (Have sid)
  obtain v where v: "sets st sid = Some v" using must_live[OF assms(1), of sid p] Have by auto
  note L = live_facts[OF assms(1,2) v]
  have "seminv N (upd p (CloseOp sid) sid v (adj st p sid) st)"
  proof (rule upd_seminv[OF assms(1,3) v])
    show "phase sid v (upd p (CloseOp sid) sid v (adj st p sid) st)" by (rule phase_outside[OF assms(1) v]) (use Have in auto)
  qed (use Have L(1,2,6) L(7-9)[of p] in auto)
  then show ?thesis using close_op_seminv[OF assms(1-3) v] assms(4) Have by (auto simp: goto_upd[OF v] split: semop_result.splits)
next
  case (CloseOp sid)
  obtain v where v: "sets st sid = Some v" using must_live[OF assms(1), of sid p] CloseOp by auto
  show ?thesis using close_op_seminv[OF assms(1-3) v] assms(1,4) CloseOp by (auto split: semop_result.splits)
next
  case (CloseCount sid)
  obtain v where v: "sets st sid = Some v" using must_live[OF assms(1), of sid p] CloseCount by auto
  note L = live_facts[OF assms(1,2) v]
  have "late sid (pcs st p)" using CloseCount by simp
  then have ph: "v ! 1 = BIGCOUNT - users sid st" using phase_before[OF assms(1) v] unfolding phase_def by blast
  let ?q = "if v ! 1 = BIGCOUNT then Remove sid else Unlock sid"
  have "seminv N (upd p ?q sid v (adj st p sid) st)"
  proof (rule upd_seminv[OF assms(1,3) v])
    show "phase sid v (upd p ?q sid v (adj st p sid) st)" by (rule phase_inside[OF assms(1) v]) (use CloseCount ph in \<open>auto split: if_splits\<close>)
  qed (use CloseCount L(1,2,6) L(7-9)[of p] in auto)
  then show ?thesis using assms(4) CloseCount v L(4) by (auto simp: goto_upd[OF v] split: if_splits)
next
  case (Remove sid)
  then show ?thesis using assms(4) rm_seminv[OF assms(1,3) Remove] by simp
next
  case (Unlock sid)
  obtain v where v: "sets st sid = Some v" using must_live[OF assms(1), of sid p] Unlock by auto
  note L = live_facts[OF assms(1,2) v]
  have "late sid (pcs st p)" using Unlock by simp
  then have ph: "v ! 1 = BIGCOUNT - users sid st" using phase_before[OF assms(1) v] unfolding phase_def by blast
  have v2: "v ! 2 = 1" using L(10)[of p] Unlock by simp
  let ?w = "v[2 := v ! 2 - 1]" let ?a = "(adj st p sid)[2 := adj st p sid ! 2 + 1]"
  have "seminv N (upd p Idle sid ?w ?a st)"
  proof (rule upd_seminv[OF assms(1,3) v])
    show "phase sid ?w (upd p Idle sid ?w ?a st)" by (rule phase_inside[OF assms(1) v]) (use Unlock ph L(1) in auto)
  qed (use Unlock v2 L(1,2) L(7-9)[of p] in auto)
  then show ?thesis using assms(4) Unlock v2 tries(4)[OF L(1) L(7) L(3,4,6), of p] by (simp add: semop_eq[OF v] goto_after)
qed (use assms(4) in auto)

lemma have_idem: "pcs st p = q \<Longrightarrow> pcs (after p w a sid st) = pcs st" "pcs st p = Have sid \<Longrightarrow> goto p (Have sid) (after p w a sid st) = after p w a sid st"
  by (simp_all add: after_def goto_def fun_upd_idem)

lemma step_seminv:
  assumes "seminv N st" "int N < BIGCOUNT" "p < N" "no_open p a st" "sem_step p a st = Some st'"
  shows "seminv N st'"
proof (cases a)
  case (DoCreate iv)
  then have i: "pcs st p = Idle" "st' = goto p (Again iv) st" using assms(5) by (auto simp: sem_step_def split: if_splits)
  show ?thesis unfolding i(2) by (rule goto_plain[OF assms(1,3)]) (use i(1) assms(4) DoCreate in \<open>auto simp: no_open_def\<close>)
next
  case (DoOp x)
  then obtain sid where h: "pcs st p = Have sid" "op_step p x (Have sid) st = Some st'" using assms(5) by (auto simp: sem_step_def split: pc.splits)
  obtain v where v: "sets st sid = Some v" using must_live[OF assms(1), of sid p] h(1) by auto
  have x: "x \<noteq> 0" "v ! 0 + x \<le> SEMVMX" using assms(4) DoOp v by (auto simp: no_open_def)
  note O = op_seminv[OF assms(1-3) v _ x]
  note L = live_facts[OF assms(1,2) v]
  have "seminv N (upd p (OpSleep sid x) sid v (adj st p sid) st)" if "x < 0"
  proof (rule upd_seminv[OF assms(1,3) v])
    show "phase sid v (upd p (OpSleep sid x) sid v (adj st p sid) st)" by (rule phase_outside[OF assms(1) v]) (use h(1) in auto)
  qed (use h(1) that L(1,2,6) L(7-9)[of p] in auto)
  then show ?thesis using O h x(1) have_idem(2)[OF h(1)]
    by (auto simp: goto_upd[OF v] semop_eq[OF v] split: semop_result.splits tried.splits)
next
  case DoClose
  then obtain sid where "pcs st p = Have sid" "close_step p (Have sid) st = Some st'" using assms(5) by (auto simp: sem_step_def split: pc.splits)
  then show ?thesis using close_seminv[OF assms(1-3)] by simp
next
  case Exit
  then show ?thesis using assms(5) die_seminv[OF assms(1,3,2), of "''exit''"] by (auto simp: sem_step_def split: pc.splits)
next
  case Cont
  then have c: "cont_step p (pcs st p) st = Some st'" using assms(5) by (simp add: sem_step_def)
  note OK = seminvD(8)[OF assms(1), of p]
  show ?thesis
  proof (cases "pcs st p")
    case (OpSleep sid x)
    obtain v where v: "sets st sid = Some v" using must_live[OF assms(1), of sid p] OpSleep by auto
    have x: "x < 0" using OK OpSleep by simp
    note L = live_facts[OF assms(1,2) v]
    have "v ! 0 + x \<le> SEMVMX" using L(2) x by simp
    then show ?thesis using op_seminv[OF assms(1-3) v, of x] x c OpSleep assms(1) by (auto split: semop_result.splits)
  qed (use c OK create_seminv[OF assms(1-3)] close_seminv[OF assms(1-3)] in auto)
qed (use assms(4) in \<open>simp add: no_open_def\<close>)

lemma seminv_start: "seminv N sem_start"
  by (simp add: seminv_def sem_start_def)

lemma reach_seminv:
  "sem_reach no_open N st \<Longrightarrow> int N < BIGCOUNT \<Longrightarrow> seminv N st"
  by (induction rule: sem_reach.induct) (auto intro: seminv_start step_seminv)

text \<open>C28. Among processes that use \<open>sem_create\<close>, fewer than 10000, the semaphores are sound in every interleaving, even if
  processes end in the middle of a call: the set of a process that has the semaphore open exists and is the one under the
  key, its counter is 10000 less the number of users, at most one process is between locking and unlocking, and no
  system call fails but the \<open>semop\<close> of \<open>sem_create\<close> on a set that is removed while it sleeps.\<close>
theorem sem_create_sound:
  assumes "sem_reach no_open N st" "int N < BIGCOUNT"
  shows "(\<forall>p sid. pcs st p = Have sid \<longrightarrow> cur st = Some sid \<and> (\<exists>v. sets st sid = Some v \<and> 0 \<le> v ! 0 \<and> v ! 1 = BIGCOUNT - users sid st))
    \<and> (\<forall>p q sid. incs sid (pcs st p) \<and> incs sid (pcs st q) \<longrightarrow> p = q)
    \<and> (\<forall>p m. pcs st p = Died m \<longrightarrow> m = ''exit'' \<or> m = ''lock'')"
proof -
  note inv = reach_seminv[OF assms]
  have "cur st = Some sid \<and> (\<exists>v. sets st sid = Some v \<and> 0 \<le> v ! 0 \<and> v ! 1 = BIGCOUNT - users sid st)" if "pcs st p = Have sid" for p sid
  proof -
    have h: "counted sid (pcs st p)" using that by simp
    obtain v where v: "sets st sid = Some v" using must_live[OF inv disjI1[OF h]] .
    show ?thesis using seminvD(1)[OF inv v] live_facts(2)[OF inv assms(2) v] phase_user(1)[OF inv v h] v by simp
  qed
  moreover have "p = q" if i: "incs sid (pcs st p)" "incs sid (pcs st q)" for p q sid
  proof (rule ccontr)
    assume "p \<noteq> q"
    obtain v where v: "sets st sid = Some v" using must_live[OF inv disjI2[OF i(1)]] .
    show False using solo[OF inv v disjI1[OF i(1)], of q] \<open>p \<noteq> q\<close> i(2) by simp
  qed
  moreover have "m = ''exit'' \<or> m = ''lock''" if "pcs st p = Died m" for p m
    using seminvD(8)[OF inv, of p] that by simp
  ultimately show ?thesis by blast
qed

fun allowed :: "(nat \<Rightarrow> act \<Rightarrow> sys \<Rightarrow> bool) \<Rightarrow> nat \<Rightarrow> (nat \<times> act) list \<Rightarrow> sys \<Rightarrow> bool" where
  "allowed ok N [] st = True"
| "allowed ok N ((p, a) # xs) st = (p < N \<and> ok p a st \<and> (case sem_step p a st of None \<Rightarrow> False | Some st1 \<Rightarrow> allowed ok N xs st1))"

lemma reach_run: "sem_reach ok N st \<Longrightarrow> allowed ok N xs st \<Longrightarrow> run xs st = Some st' \<Longrightarrow> sem_reach ok N st'"
proof (induction xs arbitrary: st)
  case (Cons x xs)
  obtain p a where x: "x = (p, a)" by (cases x)
  then obtain st1 where s: "sem_step p a st = Some st1" "allowed ok N xs st1" "run xs st1 = Some st'" using Cons.prems(2,3) by (auto split: option.splits)
  then show ?case using Cons.IH[OF sem_reach.step[OF Cons.prems(1) _ _ s(1)]] Cons.prems(2) x by simp
qed simp

lemmas sem_run_defs = SEMVMX_def sem_step_def sem_start_def goto_def new_set_def semop_def op_lock_def op_endcreate_def op_close_def op_open_def op_op_def op_unlock_def
  set_val_def BIGCOUNT_def sem_rm_def rm_set_def die_def undo_all_def

theorem sem_create_sound_witness:
  "\<exists>st. sem_reach no_open 2 st \<and> pcs st 0 = Have 0 \<and> pcs st 1 = Lock 5 0 False \<and> cur st = Some 0 \<and> (\<exists>v. sets st 0 = Some v \<and> v ! 1 = BIGCOUNT - users 0 st)"
proof -
  let ?xs = "[(0, DoCreate 1), (0, Cont), (0, Cont), (0, Cont), (1, DoCreate 5), (0, Cont), (0, Cont), (0, Cont), (1, Cont)]"
  have r: "\<exists>st. run ?xs sem_start = Some st \<and> pcs st 0 = Have 0 \<and> pcs st 1 = Lock 5 0 False" by (simp add: sem_run_defs)
  then obtain st where st: "run ?xs sem_start = Some st" "pcs st 0 = Have 0" "pcs st 1 = Lock 5 0 False" by blast
  have "allowed no_open 2 ?xs sem_start" by (simp add: sem_run_defs no_open_def)
  from reach_run[OF sem_reach.start this st(1)] have R: "sem_reach no_open 2 st" .
  have b: "int 2 < BIGCOUNT" by (simp add: BIGCOUNT_def)
  show ?thesis using R st(2,3) sem_create_sound[OF R b] by blast
qed

end
