(* ===== verification/SemaphMutex.thy ===== *)
theory SemaphMutex
  imports SemaphInv
begin

text \<open>
  The semaphores of \<open>lib/semaph.c\<close> as a lock: processes that create the semaphore with the value 1 and call
  \<open>sem_wait\<close> and \<open>sem_signal\<close> in turns exclude each other, and the lock is free again when a process ends
  inside its critical region.
\<close>

definition mutex_use :: "nat \<Rightarrow> act \<Rightarrow> sys \<Rightarrow> bool" where
  \<comment> \<open>wait when outside, signal when inside, and close outside; the kernel's adjustment tells which\<close>
  "mutex_use p a st = (case a of DoOpen \<Rightarrow> False | DoCreate iv \<Rightarrow> iv = 1
     | DoOp x \<Rightarrow> (\<forall>sid. pcs st p = Have sid \<longrightarrow> x = -1 \<and> adj st p sid ! 0 = 0 \<or> x = 1 \<and> adj st p sid ! 0 = 1)
     | DoClose \<Rightarrow> (\<forall>sid. pcs st p = Have sid \<longrightarrow> adj st p sid ! 0 = 0)
     | _ \<Rightarrow> True)"

definition inside :: "nat \<Rightarrow> nat \<Rightarrow> sys \<Rightarrow> bool" where
  \<comment> \<open>the process has waited and not yet signalled\<close>
  "inside p sid st \<longleftrightarrow> pcs st p = Have sid \<and> adj st p sid ! 0 = 1"

fun mpc :: "pc \<Rightarrow> bool" where
  "mpc (Again iv) = (iv = 1)"
| "mpc (Lock iv s b) = (iv = 1)"
| "mpc (GetCount iv s) = (iv = 1)"
| "mpc (SetValue iv s) = (iv = 1)"
| "mpc (OpSleep s x) = (x = -1)"
| "mpc q = True"

definition mset_ok :: "nat \<Rightarrow> nat \<Rightarrow> int list \<Rightarrow> sys \<Rightarrow> bool" where
  "mset_ok N sid v st \<longleftrightarrow> (\<forall>p. adj st p sid ! 0 = 0 \<or> adj st p sid ! 0 = 1)
     \<and> (if v ! 1 = 0 then \<forall>p. adj st p sid ! 0 = 0 else v ! 0 + (\<Sum>p<N. adj st p sid ! 0) = 1)
     \<and> (\<forall>p. pcs st p = SetCount sid \<longrightarrow> v ! 0 = 1) \<and> (\<forall>p. adj st p sid ! 0 = 1 \<longrightarrow> pcs st p = Have sid)"

definition minv :: "nat \<Rightarrow> sys \<Rightarrow> bool" where
  "minv N st \<longleftrightarrow> (\<forall>sid v. sets st sid = Some v \<longrightarrow> mset_ok N sid v st) \<and> (\<forall>p. mpc (pcs st p))"

lemma minvD: "minv N st \<Longrightarrow> sets st sid = Some v \<Longrightarrow> mset_ok N sid v st" "minv N st \<Longrightarrow> mpc (pcs st p)"
  by (simp_all add: minv_def)

lemma sum_upd: "(p :: nat) < N \<Longrightarrow> (\<Sum>r<N. (f(p := a)) r) = (\<Sum>r<N. f r) - f p + (a :: int)"
  using sum.remove[OF finite_lessThan, of p N f] sum.remove[OF finite_lessThan, of p N "f(p := a)"] by simp

lemma upd_minv:
  assumes "seminv N st" "minv N st" "p < N" "sets st sid = Some v" "mpc q"
    "w ! 1 = 0 \<Longrightarrow> v ! 1 = 0 \<and> a ! 0 = 0"
    "w ! 1 \<noteq> 0 \<Longrightarrow> v ! 1 \<noteq> 0 \<and> w ! 0 + a ! 0 = v ! 0 + adj st p sid ! 0 \<or> v ! 1 = 0 \<and> w ! 0 + a ! 0 = 1" "a ! 0 = 0 \<or> a ! 0 = 1"
    "q = SetCount sid \<Longrightarrow> w ! 0 = 1" "incs sid (pcs st p) \<or> w ! 0 = v ! 0 \<or> v ! 1 \<noteq> 0" "a ! 0 = 1 \<Longrightarrow> q = Have sid"
  shows "minv N (upd p q sid w a st)"
proof -
  have M: "mset_ok N sid v st" by (rule minvD(1)[OF assms(2,4)])
  let ?st = "upd p q sid w a st"
  have ad: "adj ?st r sid ! 0 = ((\<lambda>r. adj st r sid ! 0)(p := a ! 0)) r" for r by simp
  have sum: "(\<Sum>r<N. adj ?st r sid ! 0) = (\<Sum>r<N. adj st r sid ! 0) - adj st p sid ! 0 + a ! 0"
    unfolding ad by (rule sum_upd[OF assms(3)])
  have sc: "w ! 0 = 1" if "pcs st r = SetCount sid" "r \<noteq> p" for r
  proof -
    have "early sid (pcs st r)" "incs sid (pcs st r)" using that(1) by simp_all
    then have "v ! 1 = 0" "\<not> incs sid (pcs st p)"
      using phase_before[OF assms(1,4)] solo[OF assms(1,4), of r p] that(2) unfolding phase_def by blast+
    then have "w ! 0 = v ! 0" using assms(10) by simp
    then show ?thesis using M that(1) unfolding mset_ok_def by metis
  qed
  have "mset_ok N sid w ?st" unfolding mset_ok_def
  proof (intro conjI)
    show "\<forall>r. adj ?st r sid ! 0 = 0 \<or> adj ?st r sid ! 0 = 1" using M assms(8) by (auto simp: mset_ok_def)
    show "if w ! 1 = 0 then \<forall>r. adj ?st r sid ! 0 = 0 else w ! 0 + (\<Sum>r<N. adj ?st r sid ! 0) = 1"
    proof (cases "w ! 1 = 0")
      case True
      then show ?thesis using M assms(6) by (auto simp: mset_ok_def)
    next
      case False
      show ?thesis unfolding sum using M assms(7)[OF False] False by (auto simp: mset_ok_def)
    qed
    show "\<forall>r. pcs ?st r = SetCount sid \<longrightarrow> w ! 0 = 1"
    proof (intro allI impI)
      fix r assume "pcs ?st r = SetCount sid"
      then show "w ! 0 = 1" using sc[of r] assms(9) by (cases "r = p") simp_all
    qed
    show "\<forall>r. adj ?st r sid ! 0 = 1 \<longrightarrow> pcs ?st r = Have sid" using M assms(11) by (auto simp: mset_ok_def)
  qed
  then show ?thesis using only_one[OF assms(1,4)] minvD(2)[OF assms(2)] assms(5) unfolding minv_def by (auto split: if_splits)
qed

lemma goto_minv:
  assumes "seminv N st" "minv N st" "p < N" "mpc q" "\<And>t. q \<noteq> SetCount t" "\<And>t. pcs st p \<noteq> Have t"
  shows "minv N (goto p q st)"
proof (cases st rule: live_cases)
  case none
  then show ?thesis using minvD(2)[OF assms(2)] assms(4) by (simp add: minv_def goto_def)
next
  case (live sid v)
  have M: "mset_ok N sid v st" by (rule minvD(1)[OF assms(2) live])
  show ?thesis unfolding goto_upd[OF live]
    by (rule upd_minv[OF assms(1-3) live assms(4)]) (use M assms(5,6) in \<open>auto simp: mset_ok_def split: if_splits\<close>)
qed

lemma die_minv:
  assumes "seminv N st" "minv N st" "p < N" "int N < BIGCOUNT"
  shows "minv N (die p m st)"
proof (cases st rule: live_cases)
  case none
  then show ?thesis using minvD(2)[OF assms(2)] by (simp add: minv_def die_def goto_def undo_all_def)
next
  case (live sid v)
  have M: "mset_ok N sid v st" by (rule minvD(1)[OF assms(2) live])
  note L = live_facts[OF assms(1,4) live]
  have a: "adj st p sid ! 0 = 0 \<or> adj st p sid ! 0 = 1 \<and> v ! 1 \<noteq> 0" using M unfolding mset_ok_def by (cases "v ! 1 = 0") auto
  have v0: "v ! 0 + adj st p sid ! 0 \<le> SEMVMX"
  proof (cases "adj st p sid ! 0 = 0")
    case False
    then have "v ! 0 + (\<Sum>p<N. adj st p sid ! 0) = 1" using M a by (simp add: mset_ok_def)
    moreover have "0 \<le> adj st r sid ! 0" for r using M unfolding mset_ok_def by (metis order_refl zero_le_one)
    then have "0 \<le> (\<Sum>p<N. adj st p sid ! 0)" by (rule sum_nonneg)
    ultimately show ?thesis using a by (auto simp: SEMVMX_def)
  qed (use L(2) in simp)
  have "0 \<le> v ! 1 + adj st p sid ! 1" "v ! 1 + adj st p sid ! 1 \<le> SEMVMX" using L(3,4) L(8)[of p] by (auto simp: b2i_def BIGCOUNT_def SEMVMX_def)
  then have w1: "max 0 (min SEMVMX (v ! 1 + adj st p sid ! 1)) = v ! 1 + b2i (counted sid (pcs st p))" using L(8)[of p] by simp
  have z: "(v ! 1 + b2i (counted sid (pcs st p)) = 0) = (v ! 1 = 0)"
  proof (cases "counted sid (pcs st p)")
    case True
    then have "v ! 1 = BIGCOUNT - users sid st" by (rule phase_user(1)[OF assms(1) live])
    then show ?thesis using users_less[OF assms(1,4), of sid] True by simp
  qed simp
  have u: "max 0 (min SEMVMX (v ! 0 + adj st p sid ! 0)) = v ! 0 + adj st p sid ! 0" using v0 L(2) a by auto
  show ?thesis unfolding die_upd[OF assms(1) live]
    by (rule upd_minv[OF assms(1-3) live]) (use u a w1 z in auto)
qed

lemma new_set_minv:
  assumes "seminv N st" "minv N st" "cur st = None"
  shows "minv N (new_set st)"
proof -
  have n: "sets st s = None" for s using seminvD(1)[OF assms(1)] assms(3) by (metis option.exhaust option.distinct(1))
  have "pcs st p \<noteq> SetCount s" for s p using seminvD(5)[OF assms(1), of s p] n[of s] by auto
  then show ?thesis using n seminvD(6)[OF assms(1) n] minvD(2)[OF assms(2)] by (auto simp: minv_def mset_ok_def new_set_def)
qed

lemma upd_quiet:
  \<comment> \<open>a step that leaves the value and its adjustment\<close>
  assumes "seminv N st" "minv N st" "p < N" "sets st sid = Some v" "mpc q" "(w ! 1 = 0) = (v ! 1 = 0)" "w ! 0 = v ! 0" "a ! 0 = adj st p sid ! 0"
    "\<And>t. q \<noteq> SetCount t" "adj st p sid ! 0 = 1 \<Longrightarrow> q = Have sid"
  shows "minv N (upd p q sid w a st)"
proof (rule upd_minv[OF assms(1-5)])
  have M: "mset_ok N sid v st" by (rule minvD(1)[OF assms(2,4)])
  show "w ! 1 = 0 \<Longrightarrow> v ! 1 = 0 \<and> a ! 0 = 0" using M assms(6,8) by (simp add: mset_ok_def)
  show "a ! 0 = 0 \<or> a ! 0 = 1" using M assms(8) by (simp add: mset_ok_def)
qed (use assms in auto)

lemma outside_zero:
  assumes "minv N st" "sets st sid = Some v" "pcs st p \<noteq> Have sid"
  shows "adj st p sid ! 0 = 0"
  using minvD(1)[OF assms(1,2)] assms(3) unfolding mset_ok_def by blast

lemma create_minv:
  assumes "seminv N st" "minv N st" "int N < BIGCOUNT" "p < N" "create_step p (pcs st p) st = Some st'"
  shows "minv N st'"
proof (cases "pcs st p")
  case (Again iv)
  have iv: "iv = 1" using minvD(2)[OF assms(2), of p] Again by simp
  show ?thesis
  proof (cases "cur st")
    case None
    have "minv N (goto p (Lock iv (nxt st) False) (new_set st))"
      by (rule goto_minv[OF new_set_seminv[OF assms(1) None] new_set_minv[OF assms(1,2) None] assms(4)]) (use Again iv in \<open>auto simp: new_set_def\<close>)
    then show ?thesis using assms(5) Again None by simp
  next
    case (Some s)
    have "minv N (goto p (Lock iv s False) st)" by (rule goto_minv[OF assms(1,2,4)]) (use Again iv in auto)
    then show ?thesis using assms(5) Again Some by simp
  qed
next
  case (Lock iv sid slept)
  have iv: "iv = 1" using minvD(2)[OF assms(2), of p] Lock by simp
  note D = die_minv[OF assms(1,2,4,3)]
  show ?thesis
  proof (cases "sets st sid")
    case None
    have "minv N (goto p (Again iv) st)" by (rule goto_minv[OF assms(1,2,4)]) (use Lock iv in auto)
    then show ?thesis using assms(5) Lock None D by (auto simp: semop_def split: if_splits)
  next
    case (Some v)
    note L = live_facts[OF assms(1,3) Some]
    have g: "minv N (goto p (Lock iv sid True) st)" by (rule goto_minv[OF assms(1,2,4)]) (use Lock iv in auto)
    have "minv N (upd p (GetCount iv sid) sid (v[2 := 1]) ((adj st p sid)[2 := adj st p sid ! 2 - 1]) st)"
      by (rule upd_quiet[OF assms(1,2,4) Some]) (use outside_zero[OF assms(2) Some, of p] Lock iv L(1) in auto)
    then show ?thesis using assms(5) Lock g tries(1)[OF L(1) L(7) L(3,4,6), of p] by (simp add: semop_eq[OF Some] goto_after split: if_splits)
  qed
next
  case (GetCount iv sid)
  have iv: "iv = 1" using minvD(2)[OF assms(2), of p] GetCount by simp
  obtain v where v: "sets st sid = Some v" using must_live[OF assms(1), of sid p] GetCount by auto
  have "minv N (upd p (if v ! 1 = 0 then SetValue iv sid else EndCreate sid) sid v (adj st p sid) st)"
    by (rule upd_quiet[OF assms(1,2,4) v]) (use outside_zero[OF assms(2) v, of p] GetCount iv in auto)
  then show ?thesis using assms(5) GetCount v by (simp add: goto_upd[OF v])
next
  case (SetValue iv sid)
  have iv: "iv = 1" using minvD(2)[OF assms(2), of p] SetValue by simp
  obtain v where v: "sets st sid = Some v" using must_live[OF assms(1), of sid p] SetValue by auto
  note L = live_facts[OF assms(1,3) v]
  have M: "mset_ok N sid v st" by (rule minvD(1)[OF assms(2) v])
  have "early sid (pcs st p)" using SetValue by simp
  then have v1: "v ! 1 = 0" using phase_before[OF assms(1) v] unfolding phase_def by blast
  then have z: "adj st r sid ! 0 = 0" for r using M by (simp add: mset_ok_def)
  have "(adj st r sid)[0 := 0] = adj st r sid" for r using z[of r] by (metis list_update_id)
  then have e: "goto p (SetCount sid) (set_val sid 0 iv st) = upd p (SetCount sid) sid (v[0 := iv]) (adj st p sid) st"
    using v by (simp add: set_val_def goto_def upd_def)
  have "minv N (upd p (SetCount sid) sid (v[0 := iv]) (adj st p sid) st)"
    by (rule upd_minv[OF assms(1,2,4) v]) (use SetValue v1 z L(1) iv in auto)
  then show ?thesis using assms(5) SetValue v e iv by (simp add: SEMVMX_def)
next
  case (SetCount sid)
  obtain v where v: "sets st sid = Some v" using must_live[OF assms(1), of sid p] SetCount by auto
  note L = live_facts[OF assms(1,3) v]
  have M: "mset_ok N sid v st" by (rule minvD(1)[OF assms(2) v])
  have "early sid (pcs st p)" using SetCount by simp
  then have v1: "v ! 1 = 0" "users sid st = 0" using phase_before[OF assms(1) v] unfolding phase_def by blast+
  have nh: "\<not> counted sid (pcs st r)" for r
  proof
    assume "counted sid (pcs st r)" from users_pos[OF assms(1) this] v1(2) show False by simp
  qed
  have "(adj st r sid)[1 := 0] = adj st r sid" for r using L(8)[of r] nh[of r] by (metis b2i_simps(2) list_update_id)
  then have e: "goto p (EndCreate sid) (set_val sid 1 BIGCOUNT st) = upd p (EndCreate sid) sid (v[1 := BIGCOUNT]) (adj st p sid) st"
    using v by (simp add: set_val_def goto_def upd_def)
  have v0: "v ! 0 = 1" "adj st p sid ! 0 = 0" using M SetCount v1(1) unfolding mset_ok_def by simp_all blast+
  have "minv N (upd p (EndCreate sid) sid (v[1 := BIGCOUNT]) (adj st p sid) st)"
    by (rule upd_minv[OF assms(1,2,4) v]) (use SetCount v0 v1 L(1) in \<open>auto simp: BIGCOUNT_def\<close>)
  then show ?thesis using assms(5) SetCount v e by simp
next
  case (EndCreate sid)
  obtain v where v: "sets st sid = Some v" using must_live[OF assms(1), of sid p] EndCreate by auto
  note L = live_facts[OF assms(1,3) v]
  have "late sid (pcs st p)" using EndCreate by simp
  then have ph: "v ! 1 = BIGCOUNT - users sid st" using phase_before[OF assms(1) v] unfolding phase_def by blast
  have c: "1 \<le> v ! 1" "v ! 2 = 1" using ph users_less[OF assms(1,3), of sid] L(10)[of p] EndCreate by simp_all
  let ?w = "v[1 := v ! 1 - 1, 2 := v ! 2 - 1]" let ?a = "(adj st p sid)[1 := adj st p sid ! 1 + 1, 2 := adj st p sid ! 2 + 1]"
  have st: "st' = upd p (Have sid) sid ?w ?a st" using assms(5) EndCreate c tries(2)[OF L(1) L(7) L(3,4,6), of p] by (simp add: semop_eq[OF v] goto_after)
  have "seminv N st'" by (rule create_seminv[OF assms(1,3,4,5)])
  then have "users sid st' < BIGCOUNT" by (rule users_less[OF _ assms(3)])
  then have "users sid st + 1 < BIGCOUNT" unfolding st users_upd[OF assms(1)] using EndCreate by simp
  then have "v ! 1 - 1 \<noteq> 0" using ph by simp
  then show ?thesis unfolding st
    by (intro upd_quiet[OF assms(1,2,4) v]) (use EndCreate c L(1) in auto)
qed (use assms(5) in auto)

lemma op_minv:
  assumes "seminv N st" "minv N st" "int N < BIGCOUNT" "p < N" "sets st sid = Some v" "counted sid (pcs st p)"
    "x = -1 \<and> adj st p sid ! 0 = 0 \<or> x = 1 \<and> adj st p sid ! 0 = 1"
  shows "case semop p sid (op_op x) st of Finished st1 \<Rightarrow> minv N (goto p (Have sid) st1) | _ \<Rightarrow> True"
proof -
  note L = live_facts[OF assms(1,3,5)]
  have x: "x \<noteq> 0" using assms(7) by auto
  note T = tries(5)[OF L(1) L(7) L(3,4,6) x, of p]
  have v1: "v ! 1 \<noteq> 0" using phase_user(1)[OF assms(1,5,6)] users_less[OF assms(1,3), of sid] by simp
  have "minv N (upd p (Have sid) sid (v[0 := v ! 0 + x]) ((adj st p sid)[0 := adj st p sid ! 0 - x]) st)"
    by (rule upd_minv[OF assms(1,2,4,5)]) (use assms(7) v1 L(1) L(7)[of p] in auto)
  then show ?thesis using T by (simp add: semop_eq[OF assms(5)] goto_after)
qed

lemma mutex_no_open:
  assumes "seminv N st" "minv N st" "mutex_use p a st" "sem_step p a st = Some st'"
  shows "no_open p a st"
proof (cases a)
  case (DoOp x)
  then obtain sid where h: "pcs st p = Have sid" using assms(4) by (auto simp: sem_step_def split: pc.splits)
  then have x: "x = -1 \<and> adj st p sid ! 0 = 0 \<or> x = 1 \<and> adj st p sid ! 0 = 1" using assms(3) DoOp by (simp add: mutex_use_def)
  have "v ! 0 + x \<le> SEMVMX" if v: "sets st s = Some v" for s v
  proof -
    have M: "mset_ok N s v st" by (rule minvD(1)[OF assms(2) v])
    have b: "v ! 0 \<le> SEMVMX" using seminvD(2)[OF assms(1) v] by (simp add: set_ok_def)
    show ?thesis
    proof (cases "x = 1")
      case False
      then show ?thesis using b x by simp
    next
      case True
      have s: "s = sid" using refers_live[OF assms(1) v, of sid p] h by simp
      then have "v ! 1 \<noteq> 0" using M True x by (auto simp: mset_ok_def)
      then have "v ! 0 + (\<Sum>p<N. adj st p s ! 0) = 1" using M by (simp add: mset_ok_def)
      moreover have "0 \<le> adj st r s ! 0" for r using M unfolding mset_ok_def by (metis order_refl zero_le_one)
      then have "0 \<le> (\<Sum>p<N. adj st p s ! 0)" by (rule sum_nonneg)
      ultimately show ?thesis using True by (simp add: SEMVMX_def)
    qed
  qed
  then show ?thesis using DoOp x by (auto simp: no_open_def)
qed (use assms(3) in \<open>auto simp: mutex_use_def no_open_def SEMVMX_def\<close>)

lemma close_op_minv:
  assumes "seminv N st" "minv N st" "int N < BIGCOUNT" "p < N" "sets st sid = Some v" "counted sid (pcs st p)" "adj st p sid ! 0 = 0"
  shows "case semop p sid op_close st of Finished st1 \<Rightarrow> minv N (goto p (CloseCount sid) st1) | _ \<Rightarrow> True"
proof -
  note L = live_facts[OF assms(1,3,5)]
  have v1: "0 < v ! 1" using phase_user(1)[OF assms(1,5,6)] users_less[OF assms(1,3), of sid] by simp
  have "minv N (upd p (CloseCount sid) sid (v[2 := 1, 1 := v ! 1 + 1]) ((adj st p sid)[2 := adj st p sid ! 2 - 1, 1 := adj st p sid ! 1 - 1]) st)"
    by (rule upd_quiet[OF assms(1,2,4,5)]) (use assms(7) v1 L(1) L(7)[of p] in auto)
  then show ?thesis using tries(3)[OF L(1) L(7) L(3,4,6), of p] by (simp add: semop_eq[OF assms(5)] goto_after)
qed

lemma close_minv:
  assumes "seminv N st" "minv N st" "int N < BIGCOUNT" "p < N" "close_step p (pcs st p) st = Some st'"
    "\<And>sid. pcs st p = Have sid \<Longrightarrow> adj st p sid ! 0 = 0"
  shows "minv N st'"
proof (cases "pcs st p")
  case (Have sid)
  obtain v where v: "sets st sid = Some v" using must_live[OF assms(1), of sid p] Have by auto
  have z: "adj st p sid ! 0 = 0" by (rule assms(6)[OF Have])
  have "minv N (upd p (CloseOp sid) sid v (adj st p sid) st)" by (rule upd_quiet[OF assms(1,2,4) v]) (use z in auto)
  then show ?thesis using close_op_minv[OF assms(1-4) v _ z] assms(5) Have die_minv[OF assms(1,2,4,3)]
    by (auto simp: goto_upd[OF v] split: semop_result.splits)
next
  case (CloseOp sid)
  obtain v where v: "sets st sid = Some v" using must_live[OF assms(1), of sid p] CloseOp by auto
  have z: "adj st p sid ! 0 = 0" using outside_zero[OF assms(2) v, of p] CloseOp by simp
  show ?thesis using close_op_minv[OF assms(1-4) v _ z] assms(2,5) CloseOp die_minv[OF assms(1,2,4,3)] by (auto split: semop_result.splits)
next
  case (CloseCount sid)
  obtain v where v: "sets st sid = Some v" using must_live[OF assms(1), of sid p] CloseCount by auto
  have z: "adj st p sid ! 0 = 0" using outside_zero[OF assms(2) v, of p] CloseCount by simp
  have "minv N (upd p (if v ! 1 = BIGCOUNT then Remove sid else Unlock sid) sid v (adj st p sid) st)"
    by (rule upd_quiet[OF assms(1,2,4) v]) (use z in auto)
  then show ?thesis using assms(5) CloseCount v die_minv[OF assms(1,2,4,3)] by (auto simp: goto_upd[OF v] split: if_splits)
next
  case (Remove sid)
  have ne: "sets st sid \<noteq> None" using seminvD(5)[OF assms(1), of sid p] Remove by simp
  then obtain v where v: "sets st sid = Some v" by blast
  have "sets (goto p Idle (rm_set sid st)) s = None" for s using only_one[OF assms(1) v, of s] by (simp add: goto_def rm_set_def)
  moreover have "mpc (pcs (goto p Idle (rm_set sid st)) r)" for r using minvD(2)[OF assms(2), of r] by (simp add: goto_def rm_set_def)
  ultimately show ?thesis using assms(5) Remove v by (simp add: sem_rm_def minv_def)
next
  case (Unlock sid)
  obtain v where v: "sets st sid = Some v" using must_live[OF assms(1), of sid p] Unlock by auto
  note L = live_facts[OF assms(1,3) v]
  have z: "adj st p sid ! 0 = 0" using outside_zero[OF assms(2) v, of p] Unlock by simp
  have "minv N (upd p Idle sid (v[2 := v ! 2 - 1]) ((adj st p sid)[2 := adj st p sid ! 2 + 1]) st)"
    by (rule upd_quiet[OF assms(1,2,4) v]) (use z L(1) in auto)
  then show ?thesis using assms(5) Unlock L(10)[of p] tries(4)[OF L(1) L(7) L(3,4,6), of p] by (simp add: semop_eq[OF v] goto_after)
qed (use assms(5) in auto)

lemma step_minv:
  assumes "seminv N st" "minv N st" "int N < BIGCOUNT" "p < N" "mutex_use p a st" "sem_step p a st = Some st'"
  shows "minv N st'"
proof (cases a)
  case (DoCreate iv)
  then have i: "pcs st p = Idle" "st' = goto p (Again iv) st" using assms(6) by (auto simp: sem_step_def split: if_splits)
  show ?thesis unfolding i(2) by (rule goto_minv[OF assms(1,2,4)]) (use i(1) assms(5) DoCreate in \<open>auto simp: mutex_use_def\<close>)
next
  case (DoOp x)
  then obtain sid where h: "pcs st p = Have sid" "op_step p x (Have sid) st = Some st'" using assms(6) by (auto simp: sem_step_def split: pc.splits)
  obtain v where v: "sets st sid = Some v" using must_live[OF assms(1), of sid p] h(1) by auto
  have x: "x = -1 \<and> adj st p sid ! 0 = 0 \<or> x = 1 \<and> adj st p sid ! 0 = 1" using assms(5) DoOp h(1) by (simp add: mutex_use_def)
  note L = live_facts[OF assms(1,3) v]
  have O: "case semop p sid (op_op x) st of Finished st1 \<Rightarrow> minv N (goto p (Have sid) st1) | _ \<Rightarrow> True"
    by (rule op_minv[OF assms(1-4) v _ x]) (use h(1) in simp)
  have S: "minv N (upd p (OpSleep sid x) sid v (adj st p sid) st)" if "x = -1"
    by (rule upd_quiet[OF assms(1,2,4) v]) (use that x in auto)
  have x0: "x \<noteq> 0" using x by auto
  have sl: "semop p sid (op_op x) st = Sleeps \<Longrightarrow> x = -1" using tries(5)[OF L(1) L(7) L(3,4,6) x0, of p] x
    by (auto simp: semop_eq[OF v] split: if_splits)
  show ?thesis
  proof (cases "semop p sid (op_op x) st")
    case (Finished st1)
    then obtain w b where "st1 = after p w b sid st" by (auto simp: semop_eq[OF v] split: tried.splits)
    then show ?thesis using O h x0 Finished have_idem(2)[OF h(1)] by simp
  qed (use h x0 S sl die_minv[OF assms(1,2,4,3)] in \<open>auto simp: goto_upd[OF v]\<close>)
next
  case DoClose
  then obtain sid where "pcs st p = Have sid" "close_step p (Have sid) st = Some st'" using assms(6) by (auto simp: sem_step_def split: pc.splits)
  then show ?thesis using close_minv[OF assms(1-4)] assms(5) DoClose by (simp add: mutex_use_def)
next
  case Exit
  then show ?thesis using assms(6) die_minv[OF assms(1,2,4,3)] by (auto simp: sem_step_def split: pc.splits)
next
  case Cont
  then have c: "cont_step p (pcs st p) st = Some st'" using assms(6) by (simp add: sem_step_def)
  show ?thesis
  proof (cases "pcs st p")
    case (OpSleep sid x)
    obtain v where v: "sets st sid = Some v" using must_live[OF assms(1), of sid p] OpSleep by auto
    have x: "x = -1" using minvD(2)[OF assms(2), of p] OpSleep by simp
    have z: "adj st p sid ! 0 = 0" using outside_zero[OF assms(2) v, of p] OpSleep by simp
    have "case semop p sid (op_op x) st of Finished st1 \<Rightarrow> minv N (goto p (Have sid) st1) | _ \<Rightarrow> True"
      by (rule op_minv[OF assms(1-4) v]) (use OpSleep x z in auto)
    then show ?thesis using c OpSleep assms(2) die_minv[OF assms(1,2,4,3)] by (auto split: semop_result.splits)
  qed (use c seminvD(8)[OF assms(1), of p] create_minv[OF assms(1-4)] close_minv[OF assms(1-4)] in auto)
qed (use assms(5) in \<open>simp add: mutex_use_def\<close>)

lemma minv_start: "minv N sem_start"
  by (simp add: minv_def sem_start_def)

lemma mutex_reach:
  "sem_reach mutex_use N st \<Longrightarrow> int N < BIGCOUNT \<Longrightarrow> seminv N st \<and> minv N st"
proof (induction rule: sem_reach.induct)
  case start
  then show ?case by (simp add: seminv_start minv_start)
next
  case (step st p a st')
  then have i: "seminv N st" "minv N st" by simp_all
  have "no_open p a st" by (rule mutex_no_open[OF i step.hyps(3,4)])
  then show ?case using step_seminv[OF i(1) step.prems step.hyps(2) _ step.hyps(4)] step_minv[OF i step.prems step.hyps(2-4)] by blast
qed

lemma sum_one:
  fixes f :: "nat \<Rightarrow> int"
  assumes "\<forall>r. f r = 0 \<or> f r = 1" "p < N" "q < N" "p \<noteq> q" "f p = 1" "f q = 1"
  shows "2 \<le> (\<Sum>r<N. f r)"
proof -
  have "(\<Sum>r \<in> {p, q}. f r) \<le> (\<Sum>r<N. f r)" using assms(1-3) by (intro sum_mono2) (auto, metis order_refl zero_le_one)
  then show ?thesis using assms(4-6) by simp
qed

text \<open>C29. The semaphore is a lock: when processes create it with the value 1 and wait and signal in turns, at most one of
  them is between its wait and its signal, in every interleaving and whichever processes end, even inside; and as
  long as one of them has it open and none is inside, its value is 1, so that the next wait succeeds.\<close>
theorem sem_mutual_exclusion:
  assumes "sem_reach mutex_use N st" "int N < BIGCOUNT"
  shows "(\<forall>p q sid. inside p sid st \<and> inside q sid st \<longrightarrow> p = q)
    \<and> (\<forall>r sid. pcs st r = Have sid \<and> (\<forall>p. \<not> inside p sid st) \<longrightarrow> (\<exists>v. sets st sid = Some v \<and> v ! 0 = 1))"
proof -
  have inv: "seminv N st" "minv N st" using mutex_reach[OF assms] by simp_all
  have ex: "\<exists>v. sets st sid = Some v \<and> v ! 0 + (\<Sum>r<N. adj st r sid ! 0) = 1 \<and> 0 \<le> v ! 0 \<and> (\<forall>r. adj st r sid ! 0 = 0 \<or> adj st r sid ! 0 = 1 \<and> pcs st r = Have sid)"
    if "pcs st p = Have sid" for p sid
  proof -
    have h: "counted sid (pcs st p)" using that by simp
    obtain v where v: "sets st sid = Some v" using must_live[OF inv(1) disjI1[OF h]] .
    have "v ! 1 \<noteq> 0" using phase_user(1)[OF inv(1) v h] users_less[OF inv(1) assms(2), of sid] by simp
    then have "v ! 0 + (\<Sum>r<N. adj st r sid ! 0) = 1" "\<forall>r. adj st r sid ! 0 = 0 \<or> adj st r sid ! 0 = 1 \<and> pcs st r = Have sid"
      using minvD(1)[OF inv(2) v] unfolding mset_ok_def by (simp, blast)
    then show ?thesis using v live_facts(2)[OF inv(1) assms(2) v] by blast
  qed
  have "p = q" if i: "inside p sid st" "inside q sid st" for p q sid
  proof (rule ccontr)
    assume ne: "p \<noteq> q"
    have pq: "p < N" "q < N" using i seminvD(7)[OF inv(1)] by (metis inside_def not_le pc.distinct(15))+
    obtain v where v: "v ! 0 + (\<Sum>r<N. adj st r sid ! 0) = 1" "0 \<le> v ! 0" "\<forall>r. adj st r sid ! 0 = 0 \<or> adj st r sid ! 0 = 1"
      using ex[of p sid] i(1) by (auto simp: inside_def)
    have "2 \<le> (\<Sum>r<N. adj st r sid ! 0)" by (rule sum_one[OF v(3) pq ne]) (use i in \<open>simp_all add: inside_def\<close>)
    then show False using v(1,2) by simp
  qed
  moreover have "\<exists>v. sets st sid = Some v \<and> v ! 0 = 1" if r: "pcs st r = Have sid" "\<forall>p. \<not> inside p sid st" for r sid
  proof -
    obtain v where v: "sets st sid = Some v" "v ! 0 + (\<Sum>r<N. adj st r sid ! 0) = 1" "\<forall>r. adj st r sid ! 0 = 0 \<or> adj st r sid ! 0 = 1 \<and> pcs st r = Have sid"
      using ex[OF r(1)] by blast
    have "\<forall>r. adj st r sid ! 0 = 0" using v(3) r(2) unfolding inside_def by blast
    then show ?thesis using v(1,2) by simp
  qed
  ultimately show ?thesis by blast
qed

theorem sem_mutual_exclusion_witness:
  "\<exists>st. sem_reach mutex_use 2 st \<and> inside 0 0 st \<and> (\<forall>q. inside q 0 st \<longrightarrow> q = 0) \<and> pcs st 1 = OpSleep 0 (-1)"
proof -
  let ?xs = "[(0, DoCreate 1), (0, Cont), (0, Cont), (0, Cont), (0, Cont), (0, Cont), (0, Cont), (1, DoCreate 1), (1, Cont), (1, Cont), (1, Cont), (1, Cont),
    (0, sem_wait_op), (1, sem_wait_op)]"
  have r: "\<exists>st. run ?xs sem_start = Some st \<and> inside 0 0 st \<and> pcs st 1 = OpSleep 0 (-1)" by (simp add: sem_run_defs inside_def sem_wait_op_def)
  then obtain st where st: "run ?xs sem_start = Some st" "inside 0 0 st" "pcs st 1 = OpSleep 0 (-1)" by blast
  have "allowed mutex_use 2 ?xs sem_start" by (simp add: sem_run_defs mutex_use_def sem_wait_op_def)
  from reach_run[OF sem_reach.start this st(1)] have R: "sem_reach mutex_use 2 st" .
  have b: "int 2 < BIGCOUNT" by (simp add: BIGCOUNT_def)
  show ?thesis using R st(2,3) sem_mutual_exclusion[OF R b] by blast
qed

end
