(* ===== verification/FooTable.thy ===== *)
theory FooTable
  imports Prelude
begin

text \<open>
  What \<open>threads/mutex2.c\<close> and \<open>threads/mutex3.c\<close> share: the objects of type \<open>struct foo\<close>, the hash table of their
  chains, the mutexes, and the threads that call the functions. A function is a sequence of steps, one for every
  access to shared memory or call, and any thread can take the next step. A step that uses freed memory, follows a null pointer
  or misuses a mutex, or whose addition overflows, is a fault.

  A thread calls \<open>foo_hold\<close> and \<open>foo_rele\<close> only with a reference it has, and may hand a reference over to another
  thread. The locale \<open>foo_program\<close> states what each program counter owns and keeps locked; its lemmas show for every kind of
  step that the ownership is kept, and both programs instantiate it.
\<close>

section \<open>Memory\<close>

datatype mutex = Raw | Free | Held nat

record 'pc foo_sys =
  alive :: "nat set"                \<comment> \<open>the addresses of allocated objects\<close>
  f_count :: "nat \<Rightarrow> int"
  f_lock :: "nat \<Rightarrow> mutex"
  f_id :: "nat \<Rightarrow> int"
  f_next :: "nat \<Rightarrow> nat option"
  fh :: "nat \<Rightarrow> nat option"
  hashlock :: "nat option"          \<comment> \<open>the thread that has it\<close>
  pcs :: "nat \<Rightarrow> 'pc"
  hands :: "nat \<Rightarrow> nat list"         \<comment> \<open>the references a thread has, outside of calls\<close>

definition NHASH :: nat where "NHASH = 29"

definition HASH :: "int \<Rightarrow> nat" where
  \<comment> \<open>the conversion to \<open>unsigned long\<close> adds \<open>2^64\<close> to a negative number\<close>
  "HASH k = nat (k mod 2 ^ 64) mod NHASH"

datatype fault = UseAfterFree | NullPointer | BadMutex | CountOverflow
datatype 's outcome = Next 's | Wait | Bad fault

datatype call =
    Alloc int "nat option"   \<comment> \<open>\<open>foo_alloc(id)\<close> and what \<open>malloc\<close> gives\<close>
  | Find int
  | Hold nat
  | Rele nat
  | Give nat nat             \<comment> \<open>hand the reference over to this thread\<close>
  | Run                      \<comment> \<open>the next step of the call\<close>
  | InitFails                \<comment> \<open>the next step, a \<open>pthread_mutex_init\<close> that fails\<close>

definition goto :: "nat \<Rightarrow> 'pc \<Rightarrow> 'pc foo_sys \<Rightarrow> 'pc foo_sys" where
  "goto t q s = s\<lparr>pcs := (pcs s)(t := q)\<rparr>"

definition get_ref :: "nat \<Rightarrow> nat \<Rightarrow> 'pc foo_sys \<Rightarrow> 'pc foo_sys" where
  "get_ref t a s = s\<lparr>hands := (hands s)(t := a # hands s t)\<rparr>"

definition put_ref :: "nat \<Rightarrow> nat \<Rightarrow> 'pc foo_sys \<Rightarrow> 'pc foo_sys" where
  "put_ref t a s = s\<lparr>hands := (hands s)(t := remove1 a (hands s t))\<rparr>"

definition deref :: "nat \<Rightarrow> 'pc foo_sys \<Rightarrow> 'pc foo_sys outcome \<Rightarrow> 'pc foo_sys outcome" where
  "deref a s r = (if a \<in> alive s then r else Bad UseAfterFree)"

definition lock_hash :: "nat \<Rightarrow> 'pc foo_sys \<Rightarrow> 'pc foo_sys outcome" where
  "lock_hash t s = (if hashlock s = None then Next (s\<lparr>hashlock := Some t\<rparr>) else Wait)"

definition unlock_hash :: "nat \<Rightarrow> 'pc foo_sys \<Rightarrow> 'pc foo_sys outcome" where
  "unlock_hash t s = (if hashlock s = Some t then Next (s\<lparr>hashlock := None\<rparr>) else Bad BadMutex)"

definition lock_foo :: "nat \<Rightarrow> nat \<Rightarrow> 'pc foo_sys \<Rightarrow> 'pc foo_sys outcome" where
  "lock_foo t a s = deref a s (case f_lock s a of Raw \<Rightarrow> Bad BadMutex | Free \<Rightarrow> Next (s\<lparr>f_lock := (f_lock s)(a := Held t)\<rparr>) | Held u \<Rightarrow> Wait)"

definition unlock_foo :: "nat \<Rightarrow> nat \<Rightarrow> 'pc foo_sys \<Rightarrow> 'pc foo_sys outcome" where
  "unlock_foo t a s = deref a s (if f_lock s a = Held t then Next (s\<lparr>f_lock := (f_lock s)(a := Free)\<rparr>) else Bad BadMutex)"

definition init_lock :: "nat \<Rightarrow> 'pc foo_sys \<Rightarrow> 'pc foo_sys outcome" where
  "init_lock a s = deref a s (Next (s\<lparr>f_lock := (f_lock s)(a := Free)\<rparr>))"

definition destroy_lock :: "nat \<Rightarrow> 'pc foo_sys \<Rightarrow> 'pc foo_sys outcome" where
  "destroy_lock a s = deref a s (if f_lock s a = Free then Next (s\<lparr>f_lock := (f_lock s)(a := Raw)\<rparr>) else Bad BadMutex)"

definition free_foo :: "nat \<Rightarrow> 'pc foo_sys \<Rightarrow> 'pc foo_sys outcome" where
  "free_foo a s = deref a s (Next (s\<lparr>alive := alive s - {a}\<rparr>))"

definition new_foo :: "nat \<Rightarrow> int \<Rightarrow> 'pc foo_sys \<Rightarrow> 'pc foo_sys" where
  \<comment> \<open>a fresh object after \<open>fp->f_count = 1; fp->f_id = id;\<close>\<close>
  "new_foo a k s = s\<lparr>alive := insert a (alive s), f_count := (f_count s)(a := 1), f_id := (f_id s)(a := k), f_lock := (f_lock s)(a := Raw)\<rparr>"

definition set_count :: "nat \<Rightarrow> int \<Rightarrow> 'pc foo_sys \<Rightarrow> 'pc foo_sys" where
  "set_count a n s = s\<lparr>f_count := (f_count s)(a := n)\<rparr>"

definition set_next :: "nat \<Rightarrow> nat option \<Rightarrow> 'pc foo_sys \<Rightarrow> 'pc foo_sys" where
  "set_next a p s = s\<lparr>f_next := (f_next s)(a := p)\<rparr>"

definition set_head :: "nat \<Rightarrow> nat option \<Rightarrow> 'pc foo_sys \<Rightarrow> 'pc foo_sys" where
  "set_head i p s = s\<lparr>fh := (fh s)(i := p)\<rparr>"

definition increment :: "nat \<Rightarrow> 'pc foo_sys \<Rightarrow> 'pc foo_sys outcome" where
  \<comment> \<open>\<open>fp->f_count++\<close>, a signed int\<close>
  "increment a s = deref a s (if f_count s a = 2 ^ 31 - 1 then Bad CountOverflow else Next (set_count a (f_count s a + 1) s))"

fun first_step :: "'s outcome option list \<Rightarrow> 's outcome" where
  "first_step [] = Wait"
| "first_step (None # rs) = first_step rs"
| "first_step (Some r # rs) = r"

lemma first_step_elem: "P Wait \<Longrightarrow> (\<And>r. Some r \<in> set rs \<Longrightarrow> P r) \<Longrightarrow> P (first_step rs)"
  by (induction rs rule: first_step.induct) auto

lemmas mem_defs = goto_def get_ref_def put_ref_def new_foo_def set_count_def set_next_def set_head_def
lemmas sync_defs = deref_def lock_hash_def unlock_hash_def lock_foo_def unlock_foo_def init_lock_def destroy_lock_def free_foo_def increment_def

definition foo_start :: "'pc \<Rightarrow> 'pc foo_sys" where
  "foo_start idle = \<lparr>alive = {}, f_count = (\<lambda>_. 0), f_lock = (\<lambda>_. Raw), f_id = (\<lambda>_. 0), f_next = (\<lambda>_. None), fh = (\<lambda>_. None),
     hashlock = None, pcs = (\<lambda>_. idle), hands = (\<lambda>_. [])\<rparr>"

text \<open>The order in which the fields of a state are written.\<close>

lemma upd_order:
  fixes s :: "'pc foo_sys"
  shows "s\<lparr>hands := h1, pcs := p1\<rparr> = s\<lparr>pcs := p1, hands := h1\<rparr>"
    "s\<lparr>pcs := h2, alive := p2\<rparr> = s\<lparr>alive := p2, pcs := h2\<rparr>"
    "s\<lparr>hands := h3, alive := p3\<rparr> = s\<lparr>alive := p3, hands := h3\<rparr>"
    "s\<lparr>pcs := h4, f_count := p4\<rparr> = s\<lparr>f_count := p4, pcs := h4\<rparr>"
    "s\<lparr>hands := h5, f_count := p5\<rparr> = s\<lparr>f_count := p5, hands := h5\<rparr>"
    "s\<lparr>pcs := h6, f_lock := p6\<rparr> = s\<lparr>f_lock := p6, pcs := h6\<rparr>"
    "s\<lparr>hands := h7, f_lock := p7\<rparr> = s\<lparr>f_lock := p7, hands := h7\<rparr>"
    "s\<lparr>pcs := h8, f_id := p8\<rparr> = s\<lparr>f_id := p8, pcs := h8\<rparr>"
    "s\<lparr>hands := h9, f_id := p9\<rparr> = s\<lparr>f_id := p9, hands := h9\<rparr>"
    "s\<lparr>pcs := h10, f_next := p10\<rparr> = s\<lparr>f_next := p10, pcs := h10\<rparr>"
    "s\<lparr>hands := h11, f_next := p11\<rparr> = s\<lparr>f_next := p11, hands := h11\<rparr>"
    "s\<lparr>pcs := h12, fh := p12\<rparr> = s\<lparr>fh := p12, pcs := h12\<rparr>"
    "s\<lparr>hands := h13, fh := p13\<rparr> = s\<lparr>fh := p13, hands := h13\<rparr>"
    "s\<lparr>pcs := h14, hashlock := p14\<rparr> = s\<lparr>hashlock := p14, pcs := h14\<rparr>"
    "s\<lparr>hands := h15, hashlock := p15\<rparr> = s\<lparr>hashlock := p15, hands := h15\<rparr>"
  by simp_all

section \<open>Chains\<close>

fun path :: "(nat \<Rightarrow> nat option) \<Rightarrow> nat option \<Rightarrow> nat list \<Rightarrow> nat option \<Rightarrow> bool" where
  "path nx p [] r \<longleftrightarrow> p = r"
| "path nx p (a # xs) r \<longleftrightarrow> p = Some a \<and> path nx (nx a) xs r"

abbreviation chain :: "(nat \<Rightarrow> nat option) \<Rightarrow> nat option \<Rightarrow> nat list \<Rightarrow> bool" where
  "chain nx p xs \<equiv> path nx p xs None"

lemma path_append: "path nx p (xs @ ys) r \<longleftrightarrow> (\<exists>m. path nx p xs m \<and> path nx m ys r)"
  by (induction xs arbitrary: p) auto

lemma path_upd [simp]: "a \<notin> set xs \<Longrightarrow> path (nx(a := q)) p xs r = path nx p xs r"
  by (induction xs arbitrary: p) auto

lemma path_cong: "(\<And>a. a \<in> set xs \<Longrightarrow> nx a = nx' a) \<Longrightarrow> path nx p xs r = path nx' p xs r"
  by (induction xs arbitrary: p) auto

lemma chain_unlink:
  assumes "chain nx p (xs @ b # a # zs)" "distinct (xs @ b # a # zs)"
  shows "chain (nx(b := nx a)) p (xs @ b # zs)"
  using assms by (auto simp: path_append)

lemma chain_mid: "chain nx p (xs @ b # ys) \<Longrightarrow> chain nx (nx b) ys"
  by (auto simp: path_append)

section \<open>The table the functions implement\<close>

text \<open>For every key, the objects with their counts, the newest first.\<close>

type_synonym table = "int \<Rightarrow> (nat \<times> int) list"
type_synonym chains = "nat \<Rightarrow> nat list"

datatype table_op = Insert int nat | Lookup int "nat option" | Up int nat | Down int nat

definition bump :: "int \<Rightarrow> nat \<Rightarrow> int \<Rightarrow> table \<Rightarrow> table" where
  \<comment> \<open>add to the count of an object; one without references leaves the table\<close>
  "bump k a d T = T(k := filter (\<lambda>(b, n). n > 0) (map (\<lambda>(b, n). (b, if b = a then n + d else n)) (T k)))"

fun table_step :: "table_op \<Rightarrow> table \<Rightarrow> table option" where
  "table_step (Insert k a) T = (if a \<in> fst ` set (T k) then None else Some (T(k := (a, 1) # T k)))"
| "table_step (Lookup k None) T = (if T k = [] then Some T else None)"
| "table_step (Lookup k (Some a)) T = (case T k of [] \<Rightarrow> None | (b, n) # r \<Rightarrow> if b = a then Some (bump k a 1 T) else None)"
| "table_step (Up k a) T = (if a \<in> fst ` set (T k) then Some (bump k a 1 T) else None)"
| "table_step (Down k a) T = (if a \<in> fst ` set (T k) then Some (bump k a (-1) T) else None)"

definition follows :: "table_op option \<Rightarrow> table \<Rightarrow> table \<Rightarrow> bool" where
  "follows ev T T' \<longleftrightarrow> (case ev of None \<Rightarrow> T' = T | Some e \<Rightarrow> table_step e T = Some T')"

fun read_chain :: "nat \<Rightarrow> (nat \<Rightarrow> nat option) \<Rightarrow> nat option \<Rightarrow> nat list" where
  \<comment> \<open>at most as many objects as there are\<close>
  "read_chain (Suc n) nx (Some a) = a # read_chain n nx (nx a)"
| "read_chain n nx p = []"

definition table_of :: "chains \<Rightarrow> 'pc foo_sys \<Rightarrow> table" where
  "table_of L s = (\<lambda>k. map (\<lambda>a. (a, f_count s a)) (filter (\<lambda>a. f_id s a = k \<and> f_count s a > 0) (L (HASH k))))"

definition table :: "'pc foo_sys \<Rightarrow> table" where
  "table s = table_of (\<lambda>i. read_chain (card (alive s)) (f_next s) (fh s i)) s"

lemma read_chain: "chain nx p xs \<Longrightarrow> length xs \<le> n \<Longrightarrow> read_chain n nx p = xs"
proof (induction xs arbitrary: n p)
  case Nil
  then show ?case by (cases n) simp_all
next
  case (Cons a xs)
  then show ?case by (cases n) simp_all
qed

lemma table_of_cong:
  "(\<And>i a. a \<in> set (L i) \<Longrightarrow> f_id s' a = f_id s a \<and> f_count s' a = f_count s a) \<Longrightarrow> table_of L s' = table_of L s"
  unfolding table_of_def by (intro ext map_cong filter_cong) auto

lemma fst_table_of: "fst ` set (table_of L s k) = {a \<in> set (L (HASH k)). f_id s a = k \<and> f_count s a > 0}"
  by (auto simp: table_of_def image_image)

lemma filter_map_pairs:
  "filter (\<lambda>(b, n). n > 0) (map (\<lambda>(b, n). (b, if b = a then n + d else n)) (map (\<lambda>b. (b, f b)) xs))
     = map (\<lambda>b. (b, (f(a := f a + d)) b)) (filter (\<lambda>b. (f(a := f a + d)) b > 0) xs)" for f :: "nat \<Rightarrow> int"
  by (induction xs) auto

lemma table_of_count:
  assumes "f_id s' = f_id s" "f_count s' = (f_count s)(a := f_count s a + d)" "f_count s a > 0" "f_id s a = k"
  shows "table_of L s' = bump k a d (table_of L s)"
proof
  fix j
  have "filter (\<lambda>b. (f_count s') b > 0) (filter (\<lambda>b. f_id s b = k \<and> f_count s b > 0) xs) = filter (\<lambda>b. f_id s b = k \<and> f_count s' b > 0) xs" for xs
    using assms by (induction xs) auto
  moreover have "j \<noteq> k \<Longrightarrow> table_of L s' j = table_of L s j"
    unfolding table_of_def using assms by (intro map_cong filter_cong) auto
  ultimately show "table_of L s' j = bump k a d (table_of L s) j"
    unfolding bump_def table_of_def filter_map_pairs assms(2)[symmetric] by (cases "j = k") (simp_all add: assms(1) table_of_def)
qed

lemma table_of_insert:
  assumes "f_id s a = k" "f_count s a = 1"
  shows "table_of (L(HASH k := a # L (HASH k))) s = (table_of L s)(k := (a, 1) # table_of L s k)"
  by (rule ext) (use assms in \<open>auto simp: table_of_def\<close>)

lemma table_of_remove_0: "f_count s a = 0 \<Longrightarrow> distinct (L i) \<Longrightarrow> table_of (L(i := remove1 a (L i))) s = table_of L s"
  unfolding table_of_def by (rule ext) (auto simp: distinct_remove1_removeAll removeAll_filter_not_eq intro!: map_cong filter_cong)

lemma table_of_remove_1:
  assumes "f_count s a = 1" "f_id s a = k" "distinct (L (HASH k))"
  shows "table_of (L(HASH k := remove1 a (L (HASH k)))) s = bump k a (-1) (table_of L s)"
proof
  fix j
  have "filter (\<lambda>b. ((f_count s)(a := 0)) b > 0) (filter (\<lambda>b. f_id s b = k \<and> f_count s b > 0) xs) = filter (\<lambda>b. f_id s b = k \<and> f_count s b > 0) (removeAll a xs)" for xs
    unfolding removeAll_filter_not_eq filter_filter by (intro filter_cong) (use assms in auto)
  moreover have "map (\<lambda>b. (b, ((f_count s)(a := 0)) b)) (filter (\<lambda>b. f_id s b = k \<and> f_count s b > 0) (removeAll a xs)) = map (\<lambda>b. (b, f_count s b)) (filter (\<lambda>b. f_id s b = k \<and> f_count s b > 0) (removeAll a xs))" for xs
    by (intro map_cong) auto
  moreover have "j \<noteq> k \<Longrightarrow> filter (\<lambda>b. f_id s b = j \<and> f_count s b > 0) (removeAll a xs) = filter (\<lambda>b. f_id s b = j \<and> f_count s b > 0) xs" for xs
    using assms(2) by (induction xs) auto
  ultimately show "table_of (L(HASH k := remove1 a (L (HASH k)))) s j = bump k a (-1) (table_of L s) j"
    using assms(1) filter_map_pairs[of a "-1" "f_count s"] unfolding bump_def table_of_def distinct_remove1_removeAll[OF assms(3)] by (cases "j = k") auto
qed

section \<open>Ownership\<close>

definition handed :: "('pc \<Rightarrow> nat \<Rightarrow> nat) \<Rightarrow> 'pc \<Rightarrow> nat list \<Rightarrow> nat \<Rightarrow> nat" where
  \<comment> \<open>the references to an object a thread has, in a call or outside of one\<close>
  "handed own q h a = own q a + count_list h a"

definition refs :: "nat \<Rightarrow> ('pc \<Rightarrow> nat \<Rightarrow> nat) \<Rightarrow> (nat \<Rightarrow> 'pc) \<Rightarrow> (nat \<Rightarrow> nat list) \<Rightarrow> nat \<Rightarrow> nat" where
  \<comment> \<open>all references to an object\<close>
  "refs N own pc h a = (\<Sum>t<N. handed own (pc t) (h t) a)"

lemma refs_upd:
  assumes "t < N"
  shows "refs N own (pc(t := q)) (h(t := l)) a + handed own (pc t) (h t) a = refs N own pc h a + handed own q l a"
proof -
  have r: "refs N own f g a = handed own (f t) (g t) a + (\<Sum>u\<in>{..<N} - {t}. handed own (f u) (g u) a)" for f g
    unfolding refs_def using assms by (subst sum.remove[of _ t]) simp_all
  show ?thesis unfolding r[of pc] r[of "pc(t := q)"] by simp
qed

lemma refs_ge: "t < N \<Longrightarrow> handed own (pc t) (h t) a \<le> refs N own pc h a"
  unfolding refs_def by (rule member_le_sum) simp_all

lemma refs_ge2:
  assumes "t < N" "u < N" "t \<noteq> u"
  shows "handed own (pc t) (h t) a + handed own (pc u) (h u) a \<le> refs N own pc h a"
proof -
  have "(\<Sum>v\<in>{t, u}. handed own (pc v) (h v) a) \<le> refs N own pc h a" unfolding refs_def using assms by (intro sum_mono2) auto
  then show ?thesis using assms(3) by simp
qed

lemma count_list_remove1: "a \<in> set xs \<Longrightarrow> count_list (remove1 a xs) b + (if b = a then 1 else 0) = count_list xs b"
  by (induction xs) auto

lemma refs_hands:
  assumes "t < N"
  shows "refs N own pc (h(t := l)) a + count_list (h t) a = refs N own pc h a + count_list l a"
  using refs_upd[OF assms, of own pc "pc t" h l a] by (simp add: handed_def)

definition chains_ok :: "chains \<Rightarrow> 'pc foo_sys \<Rightarrow> bool" where
  "chains_ok L s \<longleftrightarrow> (\<forall>i. chain (f_next s) (fh s i) (L i) \<and> distinct (L i) \<and> (\<forall>a\<in>set (L i). a \<in> alive s \<and> HASH (f_id s a) = i))"

text \<open>Where a thread is in a chain: the objects before do not have the key; the first with the key; before an object.\<close>

definition walk_at :: "int \<Rightarrow> nat option \<Rightarrow> chains \<Rightarrow> 'pc foo_sys \<Rightarrow> bool" where
  "walk_at k p L s \<longleftrightarrow> (\<exists>xs ys. L (HASH k) = xs @ ys \<and> chain (f_next s) p ys \<and> (\<forall>x\<in>set xs. f_id s x \<noteq> k))"

definition found_at :: "int \<Rightarrow> nat \<Rightarrow> chains \<Rightarrow> 'pc foo_sys \<Rightarrow> bool" where
  "found_at k a L s \<longleftrightarrow> (\<exists>xs ys. L (HASH k) = xs @ a # ys \<and> f_id s a = k \<and> (\<forall>x\<in>set xs. f_id s x \<noteq> k))"

definition before_at :: "nat \<Rightarrow> nat option \<Rightarrow> chains \<Rightarrow> 'pc foo_sys \<Rightarrow> bool" where
  "before_at a p L s \<longleftrightarrow> (\<exists>xs b ys zs. p = Some b \<and> L (HASH (f_id s a)) = xs @ b # ys @ a # zs)"

definition linked_at :: "nat \<Rightarrow> nat \<Rightarrow> chains \<Rightarrow> 'pc foo_sys \<Rightarrow> bool" where
  "linked_at a b L s \<longleftrightarrow> (\<exists>xs zs. L (HASH (f_id s a)) = xs @ b # a # zs)"

lemma before_step:
  assumes "chain (f_next s) (fh s i) (L i)" "distinct (L i)" "i = HASH (f_id s a)" "before_at a (Some b) L s"
  shows "if f_next s b = Some a then linked_at a b L s else before_at a (f_next s b) L s"
proof -
  obtain xs ys zs where x: "L i = xs @ b # ys @ a # zs" using assms(3,4) unfolding before_at_def by blast
  then have c: "chain (f_next s) (f_next s b) (ys @ a # zs)" using assms(1) chain_mid[of "f_next s" "fh s i" xs b "ys @ a # zs"] by simp
  show ?thesis
  proof (cases ys)
    case Nil
    then show ?thesis using c x assms(3) unfolding linked_at_def by auto
  next
    case (Cons d ds)
    then have n: "f_next s b = Some d" "d \<noteq> a" using c x assms(2) by auto
    have "L i = (xs @ [b]) @ d # ds @ a # zs" using x Cons by simp
    then have "before_at a (Some d) L s" unfolding before_at_def using assms(3) by blast
    then show ?thesis using n by simp
  qed
qed

lemma before_head:
  assumes "chain (f_next s) (fh s i) (L i)" "i = HASH (f_id s a)" "a \<in> set (L i)" "fh s i \<noteq> Some a"
  shows "before_at a (fh s i) L s"
proof -
  obtain ys zs where x: "L i = ys @ a # zs" using split_list[OF assms(3)] by blast
  then obtain b ys' where "ys = b # ys'" using assms(1,4) by (cases ys) auto
  then show ?thesis using x assms(1,2) unfolding before_at_def by (intro exI[of _ "[]"]) auto
qed

lemma linked_unlink:
  assumes "chain (f_next s) (fh s i) (L i)" "distinct (L i)" "i = HASH (f_id s a)" "linked_at a b L s"
  shows "chain ((f_next s)(b := f_next s a)) (fh s i) (remove1 a (L i))" "b \<in> set (L i)"
proof -
  obtain xs zs where x: "L i = xs @ b # a # zs" using assms(3,4) unfolding linked_at_def by blast
  then have "remove1 a (L i) = xs @ b # zs" using assms(2) by (simp add: remove1_append)
  then show "chain ((f_next s)(b := f_next s a)) (fh s i) (remove1 a (L i))" "b \<in> set (L i)" using chain_unlink[of "f_next s" "fh s i" xs b a zs] x assms(1,2) by simp_all
qed

lemma head_unlink:
  assumes "chain (f_next s) (fh s i) (L i)" "fh s i = Some a" "a \<in> set (L i)"
  shows "chain (f_next s) (f_next s a) (remove1 a (L i))"
  using assms by (cases "L i") auto

lemma walk_start: "chain (f_next s) (fh s (HASH k)) (L (HASH k)) \<Longrightarrow> walk_at k (fh s (HASH k)) L s"
  unfolding walk_at_def by (rule exI[of _ "[]"], rule exI[of _ "L (HASH k)"]) simp

lemma walk_step:
  assumes "walk_at k (Some a) L s"
  shows "a \<in> set (L (HASH k))" "if f_id s a = k then found_at k a L s else walk_at k (f_next s a) L s"
proof -
  obtain xs ys where x: "L (HASH k) = xs @ ys" "chain (f_next s) (Some a) ys" "\<forall>x\<in>set xs. f_id s x \<noteq> k" using assms unfolding walk_at_def by blast
  then obtain zs where z: "ys = a # zs" by (cases ys) auto
  show "a \<in> set (L (HASH k))" using x z by simp
  have "L (HASH k) = (xs @ [a]) @ zs" using x z by simp
  then show "if f_id s a = k then found_at k a L s else walk_at k (f_next s a) L s"
    using x z unfolding found_at_def walk_at_def by (cases "f_id s a = k") (auto intro: exI[of _ "xs @ [a]"])
qed

lemma walk_end: "walk_at k None L s \<Longrightarrow> table_of L s k = []"
proof -
  assume "walk_at k None L s"
  then obtain xs ys where x: "L (HASH k) = xs @ ys" "chain (f_next s) None ys" "\<forall>x\<in>set xs. f_id s x \<noteq> k" unfolding walk_at_def by blast
  then have "ys = []" by (cases ys) auto
  then show ?thesis using x unfolding table_of_def by (auto simp: filter_empty_conv)
qed

lemma found_table:
  assumes "found_at k a L s" "f_count s a > 0"
  shows "table_step (Lookup k (Some a)) (table_of L s) = Some (bump k a 1 (table_of L s))"
proof -
  obtain xs ys where x: "L (HASH k) = xs @ a # ys" "f_id s a = k" "\<forall>x\<in>set xs. f_id s x \<noteq> k" using assms(1) unfolding found_at_def by blast
  then have "filter (\<lambda>b. f_id s b = k \<and> f_count s b > 0) xs = []" by (simp add: filter_empty_conv)
  then show ?thesis using x assms(2) by (simp add: table_of_def)
qed

lemma found_in: "found_at k a L s \<Longrightarrow> a \<in> set (L (HASH k)) \<and> f_id s a = k"
  unfolding found_at_def by auto

lemma walk_frame: "walk_at k p L s \<Longrightarrow> (\<And>i a. a \<in> set (L i) \<Longrightarrow> f_id s' a = f_id s a \<and> f_next s' a = f_next s a) \<Longrightarrow> walk_at k p L s'"
  unfolding walk_at_def
proof (elim exE conjE)
  fix xs ys
  assume a: "\<And>i a. a \<in> set (L i) \<Longrightarrow> f_id s' a = f_id s a \<and> f_next s' a = f_next s a" "L (HASH k) = xs @ ys" "chain (f_next s) p ys" "\<forall>x\<in>set xs. f_id s x \<noteq> k"
  have "\<And>b. b \<in> set ys \<Longrightarrow> f_next s b = f_next s' b" "\<And>b. b \<in> set xs \<Longrightarrow> f_id s' b = f_id s b" using a(1)[of _ "HASH k"] a(2) by auto
  then show "\<exists>xs ys. L (HASH k) = xs @ ys \<and> chain (f_next s') p ys \<and> (\<forall>x\<in>set xs. f_id s' x \<noteq> k)"
    using a(2-4) path_cong[of ys "f_next s" "f_next s'" p None] by (intro exI[of _ xs] exI[of _ ys]) simp
qed

lemma found_frame: "found_at k a L s \<Longrightarrow> (\<And>i a. a \<in> set (L i) \<Longrightarrow> f_id s' a = f_id s a) \<Longrightarrow> found_at k a L s'"
proof -
  assume a: "found_at k a L s" "\<And>i a. a \<in> set (L i) \<Longrightarrow> f_id s' a = f_id s a"
  obtain xs ys where x: "L (HASH k) = xs @ a # ys" "f_id s a = k" "\<forall>x\<in>set xs. f_id s x \<noteq> k" using a(1) unfolding found_at_def by blast
  show ?thesis unfolding found_at_def using x a(2)[of _ "HASH k"] by (intro exI[of _ xs] exI[of _ ys]) auto
qed

text \<open>A program counter keeps the mutex of the table (\<open>hh\<close>) and that of an object (\<open>hf\<close>), owns references (\<open>own\<close>), is the only
  one that may free an object (\<open>sole\<close>), which is outside of the chains (\<open>priv\<close>) and is without its mutex (\<open>raw\<close>), relies on
  the count of an object (\<open>cnt\<close>), and has assertions of its own (\<open>loc\<close>).\<close>

locale foo_program =
  fixes idle :: 'pc and hh :: "'pc \<Rightarrow> bool" and hf :: "'pc \<Rightarrow> nat option" and own :: "'pc \<Rightarrow> nat \<Rightarrow> nat"
    and sole :: "'pc \<Rightarrow> nat option" and priv :: "'pc \<Rightarrow> bool" and raw :: "'pc \<Rightarrow> bool"
    and cnt :: "'pc \<Rightarrow> nat \<Rightarrow> bool" and loc :: "'pc foo_sys \<Rightarrow> chains \<Rightarrow> 'pc \<Rightarrow> bool"
  assumes idle_free: "\<not> hh idle" "hf idle = None" "own idle a = 0" "sole idle = None" "loc s L idle"
    and own_finite: "finite {a. own q a > 0}"
    and cnt_held: "cnt q a \<Longrightarrow> hf q = Some a"
    and sole_where: "sole q \<noteq> None \<Longrightarrow> priv q \<or> hh q"
    and loc_frame: "loc s L q \<Longrightarrow> (hh q \<Longrightarrow> L' = L \<and> fh s' = fh s \<and> (\<forall>i. \<forall>a\<in>set (L i). f_id s' a = f_id s a \<and> f_next s' a = f_next s a))
      \<Longrightarrow> (\<And>a. sole q = Some a \<Longrightarrow> f_id s' a = f_id s a \<and> f_next s' a = f_next s a)
      \<Longrightarrow> (\<And>a. cnt q a \<Longrightarrow> f_count s' a = f_count s a) \<Longrightarrow> loc s' L' q"
begin

definition hash_ok :: "'pc foo_sys \<Rightarrow> bool" where
  "hash_ok s \<longleftrightarrow> (\<forall>t. hashlock s = Some t \<longleftrightarrow> hh (pcs s t))"

definition mutex_ok :: "'pc foo_sys \<Rightarrow> bool" where
  "mutex_ok s \<longleftrightarrow> (\<forall>t a. hf (pcs s t) = Some a \<longleftrightarrow> a \<in> alive s \<and> f_lock s a = Held t)
     \<and> (\<forall>a\<in>alive s. f_lock s a = Raw \<longrightarrow> (\<exists>t. raw (pcs s t) \<and> sole (pcs s t) = Some a))
     \<and> (\<forall>t a. raw (pcs s t) \<and> sole (pcs s t) = Some a \<longrightarrow> f_lock s a = Raw)
     \<and> (\<forall>t u a. sole (pcs s t) = Some a \<and> hf (pcs s u) = Some a \<longrightarrow> u = t)"

definition count_ok :: "nat \<Rightarrow> 'pc foo_sys \<Rightarrow> bool" where
  "count_ok N s \<longleftrightarrow> (\<forall>a. if a \<in> alive s then f_count s a = int (refs N own (pcs s) (hands s) a) \<and> (refs N own (pcs s) (hands s) a > 0 \<or> (\<exists>t. sole (pcs s t) = Some a))
     else refs N own (pcs s) (hands s) a = 0)"

definition sole_ok :: "nat \<Rightarrow> 'pc foo_sys \<Rightarrow> bool" where
  "sole_ok N s \<longleftrightarrow> (\<forall>t a. sole (pcs s t) = Some a \<longrightarrow> a \<in> alive s \<and> refs N own (pcs s) (hands s) a = own (pcs s t) a \<and> (\<forall>u. sole (pcs s u) = Some a \<longrightarrow> u = t))"

definition priv_ok :: "chains \<Rightarrow> 'pc foo_sys \<Rightarrow> bool" where
  "priv_ok L s \<longleftrightarrow> (\<forall>t a i. priv (pcs s t) \<and> sole (pcs s t) = Some a \<longrightarrow> a \<notin> set (L i))
     \<and> (\<forall>a\<in>alive s. a \<in> set (L (HASH (f_id s a))) \<or> (\<exists>t. priv (pcs s t) \<and> sole (pcs s t) = Some a))"

definition inv :: "nat \<Rightarrow> chains \<Rightarrow> 'pc foo_sys \<Rightarrow> bool" where
  "inv N L s \<longleftrightarrow> hash_ok s \<and> mutex_ok s \<and> count_ok N s \<and> sole_ok N s \<and> priv_ok L s \<and> chains_ok L s \<and> (\<forall>t. loc s L (pcs s t))
     \<and> (\<forall>t\<ge>N. pcs s t = idle \<and> hands s t = [])"

lemmas inv_defs = hash_ok_def mutex_ok_def count_ok_def sole_ok_def priv_ok_def chains_ok_def

text \<open>What the invariant gives a thread that takes a step.\<close>

lemma inv_loc: "inv N L s \<Longrightarrow> loc s L (pcs s t)"
  by (simp add: inv_def)

lemma inv_hash: "inv N L s \<Longrightarrow> hh (pcs s t) \<Longrightarrow> hashlock s = Some t"
  by (simp add: inv_def hash_ok_def)

lemma inv_held: "inv N L s \<Longrightarrow> hf (pcs s t) = Some a \<Longrightarrow> a \<in> alive s \<and> f_lock s a = Held t"
  unfolding inv_def mutex_ok_def by blast

lemma cnt_alive: "inv N L s \<Longrightarrow> cnt (pcs s t) a \<Longrightarrow> a \<in> alive s"
  using inv_held cnt_held by blast

lemma inv_sole: "inv N L s \<Longrightarrow> sole (pcs s t) = Some a \<Longrightarrow> a \<in> alive s"
  unfolding inv_def sole_ok_def by blast

lemma inv_chain: "inv N L s \<Longrightarrow> chain (f_next s) (fh s i) (L i)" "inv N L s \<Longrightarrow> distinct (L i)"
  "inv N L s \<Longrightarrow> a \<in> set (L i) \<Longrightarrow> a \<in> alive s \<and> HASH (f_id s a) = i"
  unfolding inv_def chains_ok_def by blast+

lemma inv_owner: "inv N L s \<Longrightarrow> t < N \<Longrightarrow> handed own (pcs s t) (hands s t) a > 0 \<Longrightarrow> a \<in> alive s"
  using refs_ge[of t N own "pcs s" "hands s" a] unfolding inv_def count_ok_def by (metis not_less0 le_zero_eq)

lemma inv_count: "inv N L s \<Longrightarrow> a \<in> alive s \<Longrightarrow> f_count s a = int (refs N own (pcs s) (hands s) a)"
  unfolding inv_def count_ok_def by metis

lemma inv_unlocked: "inv N L s \<Longrightarrow> a \<in> alive s \<Longrightarrow> f_lock s a = Raw \<Longrightarrow> \<exists>t. raw (pcs s t) \<and> sole (pcs s t) = Some a"
  unfolding inv_def mutex_ok_def by blast

lemma inv_sole_other:
  assumes "inv N L s" "t < N" "handed own (pcs s t) (hands s t) a > 0" "sole (pcs s u) = Some a"
  shows "u = t"
proof (rule ccontr)
  assume ne: "u \<noteq> t"
  have u: "u < N" using assms(1,4) idle_free unfolding inv_def by (metis not_le option.distinct(1))
  have "refs N own (pcs s) (hands s) a = own (pcs s u) a" using assms(1,4) unfolding inv_def sole_ok_def by blast
  moreover have "own (pcs s u) a \<le> handed own (pcs s u) (hands s u) a" by (simp add: handed_def)
  ultimately show False using refs_ge2[OF assms(2) u, of own "pcs s" "hands s" a] assms(3) ne by simp
qed

lemma inv_linked:
  assumes "inv N L s" "t < N" "handed own (pcs s t) (hands s t) a > 0" "\<not> priv (pcs s t)"
  shows "a \<in> set (L (HASH (f_id s a)))"
  using assms inv_owner[OF assms(1-3)] inv_sole_other[OF assms(1-3)] unfolding inv_def priv_ok_def by metis

lemma inv_raw: "inv N L s \<Longrightarrow> t < N \<Longrightarrow> handed own (pcs s t) (hands s t) a > 0 \<Longrightarrow> \<not> raw (pcs s t) \<Longrightarrow> f_lock s a \<noteq> Raw"
  using inv_unlocked inv_sole_other inv_owner by metis

lemma inv_hf_unique: "inv N L s \<Longrightarrow> hf (pcs s t) = Some a \<Longrightarrow> hf (pcs s u) = Some a \<Longrightarrow> u = t"
  using inv_held[of N L s t a] inv_held[of N L s u a] by simp

lemma inv_sole_linked:
  assumes "inv N L s" "a \<in> set (L i)" "hh (pcs s t)" "sole (pcs s u) = Some a"
  shows "u = t"
proof -
  have "\<not> priv (pcs s u)" using assms(1,2,4) unfolding inv_def priv_ok_def by blast
  then have "hh (pcs s u)" using sole_where[of "pcs s u"] assms(4) by simp
  then show ?thesis using inv_hash[OF assms(1), of u] inv_hash[OF assms(1,3)] by simp
qed

lemma inv_raw_linked: "inv N L s \<Longrightarrow> a \<in> set (L i) \<Longrightarrow> hh (pcs s t) \<Longrightarrow> \<not> raw (pcs s t) \<Longrightarrow> f_lock s a \<noteq> Raw"
  using inv_unlocked[of N L s a] inv_sole_linked[of N L s a i t] inv_chain(3)[of N L s a i] by blast

lemma loc_other: "inv N L s \<Longrightarrow> (\<And>a. a \<in> alive s \<Longrightarrow> f_id s' a = f_id s a)
   \<Longrightarrow> (hh (pcs s u) \<Longrightarrow> L' = L \<and> fh s' = fh s \<and> (\<forall>i. \<forall>a\<in>set (L i). f_next s' a = f_next s a))
   \<Longrightarrow> (\<And>a. sole (pcs s u) = Some a \<Longrightarrow> f_next s' a = f_next s a)
   \<Longrightarrow> (\<And>a. cnt (pcs s u) a \<Longrightarrow> f_count s' a = f_count s a) \<Longrightarrow> loc s' L' (pcs s u)"
  by (rule loc_frame[OF inv_loc[of N L s u]]) (auto simp: inv_chain(3)[of N L s] inv_sole)

section \<open>The kinds of steps\<close>

text \<open>A step that only changes locks and moves references between the call and the hands of its thread.\<close>

lemma inv_sync:
  assumes i: "inv N L s" and t: "t < N"
    and s': "s' = s\<lparr>hashlock := hl, f_lock := fl, pcs := (pcs s)(t := q), hands := (hands s)(t := l)\<rparr>"
    and h: "hash_ok s'" and m: "mutex_ok s'" and f: "sole q = sole (pcs s t)" "priv q = priv (pcs s t)"
    and o: "\<And>a. handed own q l a = handed own (pcs s t) (hands s t) a" "\<And>a. sole q = Some a \<Longrightarrow> own q a = own (pcs s t) a"
    and l: "loc s L q"
  shows "inv N L s'"
proof -
  have r: "refs N own (pcs s') (hands s') a = refs N own (pcs s) (hands s) a" for a
    using refs_upd[OF t, of own "pcs s" q "hands s" l a] o(1)[of a] by (simp add: s')
  have so: "sole (pcs s' u) = sole (pcs s u)" "priv (pcs s' u) = priv (pcs s u)" for u using f by (simp_all add: s')
  have al: "alive s' = alive s" "f_count s' = f_count s" "f_id s' = f_id s" "f_next s' = f_next s" "fh s' = fh s" by (simp_all add: s')
  have ow: "sole (pcs s u) = Some a \<Longrightarrow> own (pcs s' u) a = own (pcs s u) a" for u a using o(2)[of a] f(1) by (cases "u = t") (simp_all add: s')
  have lo: "loc s' L (pcs s' u)" for u
    by (rule loc_frame[of s]) (use i l in \<open>auto simp: al s' inv_def\<close>)
  have c: "count_ok N s'" "sole_ok N s'" "priv_ok L s'" "chains_ok L s'"
    using i ow unfolding inv_def count_ok_def sole_ok_def priv_ok_def chains_ok_def r so al by auto
  have z: "\<forall>u\<ge>N. pcs s' u = idle \<and> hands s' u = []" using i t by (auto simp: s' inv_def)
  show ?thesis unfolding inv_def using c h m lo z by simp
qed

lemma hash_ok_keep: "inv N L s \<Longrightarrow> hh q = hh (pcs s t) \<Longrightarrow> hashlock s' = hashlock s \<Longrightarrow> pcs s' = (pcs s)(t := q) \<Longrightarrow> hash_ok s'"
  by (auto simp: inv_def hash_ok_def)

lemma mutex_ok_keep: "inv N L s \<Longrightarrow> hf q = hf (pcs s t) \<Longrightarrow> sole q = sole (pcs s t) \<Longrightarrow> raw q = raw (pcs s t) \<Longrightarrow> f_lock s' = f_lock s \<Longrightarrow> alive s' = alive s
   \<Longrightarrow> pcs s' = (pcs s)(t := q) \<Longrightarrow> mutex_ok s'"
  unfolding inv_def mutex_ok_def by (auto split: if_splits)

definition same_refs :: "'pc \<Rightarrow> nat list \<Rightarrow> 'pc \<Rightarrow> nat list \<Rightarrow> bool" where
  "same_refs q l q' l' \<longleftrightarrow> sole q' = sole q \<and> priv q' = priv q \<and> (\<forall>a. handed own q' l' a = handed own q l a) \<and> (\<forall>a. sole q' = Some a \<longrightarrow> own q' a = own q a)"

lemma inv_move:
  assumes "inv N L s" "t < N" "same_refs (pcs s t) (hands s t) q l" "hh q = hh (pcs s t)" "hf q = hf (pcs s t)" "raw q = raw (pcs s t)" "loc s L q"
  shows "inv N L (s\<lparr>pcs := (pcs s)(t := q), hands := (hands s)(t := l)\<rparr>)"
  by (rule inv_sync[OF assms(1,2), where hl = "hashlock s" and fl = "f_lock s" and q = q and l = l])
    (use assms in \<open>auto simp: same_refs_def intro: hash_ok_keep[of N L s q t] mutex_ok_keep[of N L s q t]\<close>)

lemma inv_lock_hash:
  assumes "inv N L s" "t < N" "same_refs (pcs s t) (hands s t) q l" "hashlock s = None" "hh q" "hf q = hf (pcs s t)" "raw q = raw (pcs s t)" "loc s L q"
  shows "inv N L (s\<lparr>hashlock := Some t, pcs := (pcs s)(t := q), hands := (hands s)(t := l)\<rparr>)"
  by (rule inv_sync[OF assms(1,2), where hl = "Some t" and fl = "f_lock s" and q = q and l = l])
    (use assms in \<open>auto simp: same_refs_def inv_def hash_ok_def intro: mutex_ok_keep[of N L s q t]\<close>)

lemma inv_unlock_hash:
  assumes "inv N L s" "t < N" "same_refs (pcs s t) (hands s t) q l" "hh (pcs s t)" "\<not> hh q" "hf q = hf (pcs s t)" "raw q = raw (pcs s t)" "loc s L q"
  shows "inv N L (s\<lparr>hashlock := None, pcs := (pcs s)(t := q), hands := (hands s)(t := l)\<rparr>)"
proof -
  have "hash_ok (s\<lparr>hashlock := None, pcs := (pcs s)(t := q), hands := (hands s)(t := l)\<rparr>)"
    using assms(1,4,5) unfolding inv_def hash_ok_def by simp (metis option.inject)
  then show ?thesis
    by (intro inv_sync[OF assms(1,2), where hl = "None" and fl = "f_lock s" and q = q and l = l])
      (use assms in \<open>auto simp: same_refs_def intro: mutex_ok_keep[of N L s q t]\<close>)
qed

lemma mutex_set:
  assumes "inv N L s" "sole q = sole (pcs s t)" "a \<in> alive s" "alive s' = alive s" "f_lock s' = (f_lock s)(a := x)" "pcs s' = (pcs s)(t := q)"
    and "\<And>u. f_lock s a = Held u \<Longrightarrow> u = t" "\<And>u. x = Held u \<Longrightarrow> u = t" "x = Held t \<Longrightarrow> hf q = Some a" "x \<noteq> Held t \<Longrightarrow> hf q = None"
    and "hf (pcs s t) = None \<or> hf (pcs s t) = Some a" "x = Raw \<Longrightarrow> raw q \<and> sole q = Some a" "raw (pcs s t) \<Longrightarrow> raw q \<or> sole q = Some a"
    and "raw q \<Longrightarrow> sole q = Some a \<Longrightarrow> x = Raw" "raw q \<Longrightarrow> sole q \<noteq> Some a \<Longrightarrow> raw (pcs s t)" "f_lock s a = Raw \<Longrightarrow> sole q = Some a"
    and "\<And>u. x = Held t \<Longrightarrow> sole (pcs s u) = Some a \<Longrightarrow> u = t"
  shows "mutex_ok s'"
proof -
  have m: "hf (pcs s u) = Some b \<longleftrightarrow> b \<in> alive s \<and> f_lock s b = Held u" for u b using assms(1) unfolding inv_def mutex_ok_def by blast
  have r: "b \<in> alive s \<Longrightarrow> f_lock s b = Raw \<Longrightarrow> \<exists>u. raw (pcs s u) \<and> sole (pcs s u) = Some b" for b using inv_unlocked[OF assms(1)] by blast
  have "hf (pcs s' u) = Some b \<longleftrightarrow> b \<in> alive s' \<and> f_lock s' b = Held u" for u b
    using m[of u b] m[of t b] assms(3-11) by (cases "u = t"; cases "b = a"; cases x) auto
  moreover have "\<exists>u. raw (pcs s' u) \<and> sole (pcs s' u) = Some b" if b: "b \<in> alive s'" "f_lock s' b = Raw" for b
  proof (cases "b = a")
    case True
    then show ?thesis using b assms(5,6,12) by (intro exI[of _ t]) simp
  next
    case False
    then obtain u where u: "raw (pcs s u)" "sole (pcs s u) = Some b" using b r[of b] assms(4,5) by auto
    then show ?thesis using False assms(2,6,13) by (intro exI[of _ u]) (cases "u = t"; auto)
  qed
  moreover have "f_lock s' b = Raw" if b: "raw (pcs s' u)" "sole (pcs s' u) = Some b" for u b
  proof -
    have so: "sole (pcs s' v) = sole (pcs s v)" for v using assms(2,6) by simp
    have w: "raw (pcs s v) \<Longrightarrow> sole (pcs s v) = Some c \<Longrightarrow> f_lock s c = Raw" for v c using assms(1) unfolding inv_def mutex_ok_def by blast
    show ?thesis
    proof (cases "u = t")
      case True
      then show ?thesis using b w[of t b] assms(2,5,6,14,15) by (cases "b = a") auto
    next
      case False
      then have r: "f_lock s b = Raw" using b w[of u b] assms(6) by simp
      have "b \<noteq> a"
      proof
        assume "b = a"
        then have "sole (pcs s t) = Some a" "sole (pcs s u) = Some a" using r b so[of u] assms(2,16) by auto
        then show False using assms(1) False unfolding inv_def sole_ok_def by blast
      qed
      then show ?thesis using r assms(5) by simp
    qed
  qed
  moreover have "v = u" if v: "sole (pcs s' u) = Some b" "hf (pcs s' v) = Some b" for u v b
  proof -
    have so: "sole (pcs s u) = Some b" using v(1) assms(2,6) by (cases "u = t") auto
    have old: "hf (pcs s w) = Some b \<Longrightarrow> w = u" for w using assms(1) so unfolding inv_def mutex_ok_def by blast
    show ?thesis
    proof (cases "v = t")
      case True
      then have "hf q = Some b" using v(2) assms(6) by simp
      then have "x = Held t" "b = a" using assms(9,10) by (cases "x = Held t"; auto)+
      then show ?thesis using assms(17)[of u] so True by simp
    qed (use v(2) old[of v] assms(6) in simp)
  qed
  ultimately show ?thesis unfolding mutex_ok_def by blast
qed

lemma inv_lock_foo:
  assumes "inv N L s" "t < N" "same_refs (pcs s t) (hands s t) q l" "a \<in> alive s" "f_lock s a = Free \<or> f_lock s a = Raw \<and> raw (pcs s t) \<and> sole q = Some a" "hh q = hh (pcs s t)"
    "hf (pcs s t) = None" "x = Held t \<and> hf q = Some a \<or> x = Free \<and> hf q = None \<or> x = Raw \<and> hf q = None \<and> raw q \<and> sole q = Some a" "raw (pcs s t) \<Longrightarrow> sole q = Some a" "raw q \<longleftrightarrow> x = Raw" "loc s L q"
    "\<And>u. x = Held t \<Longrightarrow> sole (pcs s u) = Some a \<Longrightarrow> u = t"
  shows "inv N L (s\<lparr>f_lock := (f_lock s)(a := x), pcs := (pcs s)(t := q), hands := (hands s)(t := l)\<rparr>)"
proof (rule inv_sync[OF assms(1,2), where hl = "hashlock s" and fl = "(f_lock s)(a := x)" and q = q and l = l])
  show "mutex_ok (s\<lparr>f_lock := (f_lock s)(a := x), pcs := (pcs s)(t := q), hands := (hands s)(t := l)\<rparr>)"
  proof (rule mutex_set[OF assms(1), where q = q and t = t and a = a and x = x])
    show "\<And>u. x = Held t \<Longrightarrow> sole (pcs s u) = Some a \<Longrightarrow> u = t" using assms(12) .
  qed (use assms(3-10) in \<open>auto simp: same_refs_def\<close>)
qed (use assms(1-11) in \<open>auto simp: same_refs_def intro: hash_ok_keep[of N L s q t]\<close>)

lemma inv_unlock_foo:
  assumes "inv N L s" "t < N" "same_refs (pcs s t) (hands s t) q l" "hf (pcs s t) = Some a" "hf q = None" "hh q = hh (pcs s t)" "\<not> raw (pcs s t)" "\<not> raw q" "loc s L q"
  shows "inv N L (s\<lparr>f_lock := (f_lock s)(a := Free), pcs := (pcs s)(t := q), hands := (hands s)(t := l)\<rparr>)"
  by (rule inv_sync[OF assms(1,2), where hl = "hashlock s" and fl = "(f_lock s)(a := Free)" and q = q and l = l])
    (use assms inv_held[OF assms(1,4)] in \<open>auto simp: same_refs_def intro: hash_ok_keep[of N L s q t] mutex_set[of N L s q t a _ Free]\<close>)

lemma refs_move:
  assumes "t < N" "\<And>b. handed own q l b = handed own (pcs s t) (hands s t) b"
  shows "refs N own ((pcs s)(t := q)) ((hands s)(t := l)) a = refs N own (pcs s) (hands s) a"
  using refs_upd[OF assms(1), of own "pcs s" q "hands s" l a] assms(2)[of a] by simp

lemma idle_above: "inv N L s \<Longrightarrow> t < N \<Longrightarrow> \<forall>u\<ge>N. ((pcs s)(t := q)) u = idle \<and> ((hands s)(t := l)) u = []"
  by (auto simp: inv_def)

text \<open>A change of the count with the references of the thread.\<close>

lemma inv_set_count:
  assumes i: "inv N L s" and t: "t < N" and a: "a \<in> alive s" and s': "s' = s\<lparr>f_count := (f_count s)(a := n), pcs := (pcs s)(t := q), hands := (hands s)(t := l)\<rparr>"
    and o: "\<And>b. b \<noteq> a \<Longrightarrow> handed own q l b = handed own (pcs s t) (hands s t) b" "int (handed own q l a) = int (handed own (pcs s t) (hands s t) a) + n - f_count s a"
    and so: "sole (pcs s t) = None" "\<And>u. sole (pcs s u) \<noteq> Some a" "sole q = None \<and> n > 0 \<or> sole q = Some a \<and> n = int (own q a) \<and> \<not> priv q"
    and f: "hh q = hh (pcs s t)" "hf q = hf (pcs s t)" "\<not> raw (pcs s t)" "\<not> raw q" and c: "\<And>u. u \<noteq> t \<Longrightarrow> \<not> cnt (pcs s u) a" and l: "loc s' L q"
    and hu: "\<And>u. sole q = Some a \<Longrightarrow> hf (pcs s u) = Some a \<Longrightarrow> u = t"
  shows "inv N L s'"
proof -
  define r where "r b = refs N own (pcs s) (hands s) b" for b
  define r' where "r' b = refs N own (pcs s') (hands s') b" for b
  have rr: "r' b + handed own (pcs s t) (hands s t) b = r b + handed own q l b" for b
    unfolding r_def r'_def using refs_upd[OF t, of own "pcs s" q "hands s" l b] by (simp add: s')
  have r_other: "b \<noteq> a \<Longrightarrow> r' b = r b" for b using rr[of b] o(1)[of b] by simp
  have ra: "int (r' a) = n" using rr[of a] o(2) inv_count[OF i a] by (simp add: r_def)
  have al: "alive s' = alive s" "f_lock s' = f_lock s" "f_id s' = f_id s" "f_next s' = f_next s" "fh s' = fh s" "hashlock s' = hashlock s" by (simp_all add: s')
  have pc: "pcs s' t = q" "u \<noteq> t \<Longrightarrow> pcs s' u = pcs s u" for u by (simp_all add: s')
  have hs: "hash_ok s'" using hash_ok_keep[OF i f(1)] by (simp add: s')
  have mu: "mutex_ok s'"
  proof -
    have vu: "v = u" if v: "sole (pcs s' u) = Some b" "hf (pcs s' v) = Some b" for u v b
    proof -
      have h: "hf (pcs s v) = Some b" using v(2) f(2) pc by (cases "v = t") auto
      show ?thesis
      proof (cases "u = t")
        case True
        then show ?thesis using v(1) pc(1) so(3) h hu[of v] by auto
      next
        case False
        then show ?thesis using v(1) pc(2) h i unfolding inv_def mutex_ok_def by metis
      qed
    qed
    have hr: "hf (pcs s' u) = hf (pcs s u)" "raw (pcs s' u) = raw (pcs s u)" for u using f pc by (cases "u = t"; simp)+
    have rs: "raw (pcs s u) \<Longrightarrow> sole (pcs s' u) = sole (pcs s u)" for u using f pc by (cases "u = t"; simp)
    have m: "hf (pcs s u) = Some b \<longleftrightarrow> b \<in> alive s \<and> f_lock s b = Held u" "raw (pcs s u) \<and> sole (pcs s u) = Some b \<Longrightarrow> f_lock s b = Raw" for u b
      using i unfolding inv_def mutex_ok_def by blast+
    have "b \<in> alive s \<Longrightarrow> f_lock s b = Raw \<Longrightarrow> \<exists>u. raw (pcs s u) \<and> sole (pcs s' u) = Some b" for b using inv_unlocked[OF i, of b] rs by auto
    moreover have "raw (pcs s u) \<and> sole (pcs s' u) = Some b \<Longrightarrow> f_lock s b = Raw" for u b using m(2)[of u b] rs[of u] by auto
    ultimately show ?thesis unfolding mutex_ok_def al hr using m(1) vu[unfolded hr] by blast
  qed
  have cs: "count_ok N s'" "sole_ok N s'"
  proof -
    have old: "if b \<in> alive s then f_count s b = int (r b) \<and> (r b > 0 \<or> (\<exists>u. sole (pcs s u) = Some b)) else r b = 0" for b
      using i unfolding inv_def count_ok_def r_def by blast
    have sol: "sole (pcs s u) = Some b \<Longrightarrow> b \<in> alive s \<and> r b = own (pcs s u) b \<and> (\<forall>v. sole (pcs s v) = Some b \<longrightarrow> v = u)" for u b
      using i unfolding inv_def sole_ok_def r_def by blast
    have keep: "(\<exists>u. sole (pcs s' u) = Some b)" if "sole (pcs s u) = Some b" for u b
      using that so(1) pc(2)[of u] by (intro exI[of _ u]) (cases "u = t"; simp)
    have "if b \<in> alive s' then f_count s' b = int (r' b) \<and> (r' b > 0 \<or> (\<exists>u. sole (pcs s' u) = Some b)) else r' b = 0" for b
    proof (cases "b = a")
      case True
      then show ?thesis using ra a so(3) pc(1) by (auto simp: al s')
    next
      case False
      then have "f_count s' b = f_count s b" by (simp add: s')
      then show ?thesis using old[of b] r_other[OF False] keep[of _ b] unfolding al(1) by metis
    qed
    then show "count_ok N s'" unfolding count_ok_def r'_def by blast
    have "b \<in> alive s' \<and> r' b = own (pcs s' u) b \<and> (\<forall>v. sole (pcs s' v) = Some b \<longrightarrow> v = u)" if "sole (pcs s' u) = Some b" for u b
    proof (cases "u = t")
      case True
      then show ?thesis using that so ra a pc al(1) by auto metis
    next
      case False
      then have ub: "sole (pcs s u) = Some b" "b \<noteq> a" using that pc(2) so(2) by metis+
      then show ?thesis using sol[OF ub(1)] r_other[OF ub(2)] pc so(3) al(1) False by (metis option.distinct(1) option.inject)
    qed
    then show "sole_ok N s'" unfolding sole_ok_def r'_def by blast
  qed
  have pr: "priv_ok L s'"
  proof -
    have p1: "priv (pcs s u) \<and> sole (pcs s u) = Some b \<longleftrightarrow> priv (pcs s' u) \<and> sole (pcs s' u) = Some b" for u b using so(1,3) pc by (cases "u = t") auto
    show ?thesis using i unfolding inv_def priv_ok_def al p1 by blast
  qed
  have lo: "loc s' L (pcs s' u)" for u
  proof (cases "u = t")
    case False
    then show ?thesis unfolding pc(2)[OF False] by (intro loc_other[OF i]) (auto simp: s' dest: c)
  qed (use l in \<open>simp add: s'\<close>)
  have "chains_ok L s'" using i unfolding inv_def chains_ok_def al by blast
  then show ?thesis unfolding inv_def using hs mu cs pr lo idle_above[OF i t, of q l] by (simp add: s')
qed

text \<open>Changes of the chains.\<close>

lemma inv_pointers:
  assumes i: "inv N L s" and t: "t < N" and s': "s' = s\<lparr>f_next := nx, fh := h, pcs := (pcs s)(t := q), hands := (hands s)(t := l)\<rparr>"
    and o: "\<And>b. handed own q l b = handed own (pcs s t) (hands s t) b" and f: "hh q = hh (pcs s t)" "hf q = hf (pcs s t)" "\<not> raw (pcs s t)" "\<not> raw q"
    and so: "sole (pcs s t) = Some a" "sole q = Some a \<and> own q a = own (pcs s t) a \<or> sole q = None \<and> own q a > 0"
    and p: "priv_ok L' s'" "chains_ok L' s'" and l: "\<And>u. u \<noteq> t \<Longrightarrow> loc s' L' (pcs s u)" "loc s' L' q"
  shows "inv N L' s'"
proof -
  have r: "refs N own (pcs s') (hands s') b = refs N own (pcs s) (hands s) b" for b using refs_move[OF t o] by (simp add: s')
  have al: "alive s' = alive s" "f_lock s' = f_lock s" "f_count s' = f_count s" by (simp_all add: s')
  have pc: "pcs s' t = q" "u \<noteq> t \<Longrightarrow> pcs s' u = pcs s u" for u by (simp_all add: s')
  have hs: "hash_ok s'" using hash_ok_keep[OF i f(1)] by (simp add: s')
  have "a \<in> alive s" "f_lock s a \<noteq> Raw"
    using i so(1) f(3) unfolding inv_def sole_ok_def mutex_ok_def by metis+
  then have mu: "mutex_ok s'" using i f so unfolding inv_def mutex_ok_def al by (auto simp: s' split: if_splits)
  have "0 < refs N own (pcs s) (hands s) a" if "sole q = None"
    using that so(2) o[of a] refs_ge[OF t, of own "pcs s" "hands s" a] by (simp add: handed_def)
  then have k: "(\<exists>u. sole (pcs s u) = Some b) \<Longrightarrow> 0 < refs N own (pcs s) (hands s) b \<or> (\<exists>u. sole (pcs s' u) = Some b)" for b
    using so pc by (metis option.inject option.distinct(1))
  have c: "count_ok N s'" using i k unfolding inv_def count_ok_def r al by metis
  have sl: "sole_ok N s'"
    using i so(1,2) unfolding inv_def sole_ok_def r al by (auto simp: s')
  have lo: "loc s' L' (pcs s' u)" for u using l by (cases "u = t") (simp_all add: s')
  show ?thesis unfolding inv_def using hs mu c sl p lo idle_above[OF i t, of q l] by (simp add: s')
qed

lemma inv_link:
  assumes i: "inv N L s" and t: "t < N" and s': "s' = s\<lparr>f_next := (f_next s)(a := p), pcs := (pcs s)(t := q), hands := (hands s)(t := l)\<rparr>"
    and o: "same_refs (pcs s t) (hands s t) q l" and f: "hh q = hh (pcs s t)" "hf q = hf (pcs s t)" "\<not> raw (pcs s t)" "\<not> raw q"
    and so: "sole (pcs s t) = Some a" "priv (pcs s t)" and l: "loc s' L q"
  shows "inv N L s'"
proof (rule inv_pointers[OF i t, where s' = s' and nx = "(f_next s)(a := p)" and h = "fh s" and q = q and l = l and a = a])
  have a: "a \<notin> set (L j)" for j using i so unfolding inv_def priv_ok_def by blast
  show "priv_ok L s'" using i o unfolding inv_def priv_ok_def same_refs_def by (auto simp: s')
  show "chains_ok L s'" using i a unfolding inv_def chains_ok_def by (simp add: s')
  show "loc s' L (pcs s u)" if "u \<noteq> t" for u
    by (rule loc_other[OF i]) (use a so(1) that inv_sole[OF i] i in \<open>auto simp: s' inv_def sole_ok_def\<close>)
qed (use o f so l in \<open>auto simp: s' same_refs_def\<close>)

lemma inv_insert:
  assumes i: "inv N L s" and t: "t < N" and s': "s' = s\<lparr>fh := (fh s)(k := Some a), pcs := (pcs s)(t := q), hands := (hands s)(t := l)\<rparr>"
    and k: "k = HASH (f_id s a)" "f_next s a = fh s k"
    and o: "\<And>b. handed own q l b = handed own (pcs s t) (hands s t) b" and f: "hh (pcs s t)" "hh q" "hf q = hf (pcs s t)" "\<not> raw (pcs s t)" "\<not> raw q"
    and so: "sole (pcs s t) = Some a" "priv (pcs s t)" "sole q = None" "own q a > 0" and l: "loc s' (L(k := a # L k)) q"
  shows "inv N (L(k := a # L k)) s'"
proof (rule inv_pointers[OF i t, where s' = s' and nx = "f_next s" and h = "(fh s)(k := Some a)" and q = q and l = l and a = a])
  have a: "a \<notin> set (L j)" for j using i so unfolding inv_def priv_ok_def by blast
  have a': "a \<in> alive s" using inv_sole[OF i so(1)] .
  have un: "sole (pcs s u) = Some a \<Longrightarrow> u = t" for u using i so(1) unfolding inv_def sole_ok_def by blast
  have p: "priv (pcs s' u) \<and> sole (pcs s' u) = Some b \<longleftrightarrow> priv (pcs s u) \<and> sole (pcs s u) = Some b \<and> u \<noteq> t" for u b using so(3) by (simp add: s')
  have "\<forall>b\<in>alive s. b \<in> set (L (HASH (f_id s b))) \<or> (\<exists>u. priv (pcs s u) \<and> sole (pcs s u) = Some b)" using i unfolding inv_def priv_ok_def by blast
  then have "\<forall>b\<in>alive s. b \<in> set ((L(k := a # L k)) (HASH (f_id s b))) \<or> (\<exists>u. priv (pcs s u) \<and> sole (pcs s u) = Some b \<and> u \<noteq> t)" using so(1) k(1) by auto
  moreover have "priv (pcs s u) \<and> sole (pcs s u) = Some b \<and> u \<noteq> t \<Longrightarrow> b \<notin> set ((L(k := a # L k)) j)" for u b j
    using i un unfolding inv_def priv_ok_def by (auto simp: fun_upd_def)
  moreover have "alive s' = alive s" "f_id s' = f_id s" by (simp_all add: s')
  ultimately show "priv_ok (L(k := a # L k)) s'" unfolding priv_ok_def p by auto
  show "chains_ok (L(k := a # L k)) s'" using i a a' k unfolding inv_def chains_ok_def by (simp add: s')
  show "loc s' (L(k := a # L k)) (pcs s u)" if "u \<noteq> t" for u
    by (rule loc_other[OF i]) (use inv_hash[OF i f(1)] inv_hash[OF i, of u] that in \<open>auto simp: s'\<close>)
qed (use o f so l in \<open>auto simp: s'\<close>)

lemma inv_unlink:
  assumes i: "inv N L s" and t: "t < N" and s': "s' = s\<lparr>f_next := nx, fh := (fh s)(k := p), pcs := (pcs s)(t := q), hands := (hands s)(t := l)\<rparr>"
    and k: "k = HASH (f_id s a)" "chain nx p (remove1 a (L k))" "\<And>b. b \<notin> set (L k) \<Longrightarrow> nx b = f_next s b"
    and o: "\<And>b. handed own q l b = handed own (pcs s t) (hands s t) b" and f: "hh (pcs s t)" "hh q" "hf q = hf (pcs s t)" "\<not> raw (pcs s t)" "\<not> raw q"
    and so: "sole (pcs s t) = Some a" "\<not> priv (pcs s t)" "sole q = Some a" "priv q" "own q a = own (pcs s t) a" and l: "loc s' (L(k := remove1 a (L k))) q"
  shows "inv N (L(k := remove1 a (L k))) s'"
proof (rule inv_pointers[OF i t, where s' = s' and nx = nx and h = "(fh s)(k := p)" and q = q and l = l and a = a])
  have di: "distinct (L j)" for j using inv_chain(2)[OF i] .
  have hk: "b \<in> set (L j) \<Longrightarrow> HASH (f_id s b) = j" for b j using inv_chain(3)[OF i] by blast
  have p: "priv (pcs s' u) \<and> sole (pcs s' u) = Some b \<longleftrightarrow> priv (pcs s u) \<and> sole (pcs s u) = Some b \<or> u = t \<and> b = a" for u b using so by (auto simp: s')
  have m: "set ((L(k := remove1 a (L k))) j) = set (L j) - {a}" for j using di[of k] hk k(1) by auto
  have al: "alive s' = alive s" "f_id s' = f_id s" by (simp_all add: s')
  have pr: "\<forall>b\<in>alive s. b \<in> set (L (HASH (f_id s b))) \<or> (\<exists>u. priv (pcs s u) \<and> sole (pcs s u) = Some b)" "priv (pcs s u) \<and> sole (pcs s u) = Some b \<Longrightarrow> b \<notin> set (L j)" for u b j
    using i unfolding inv_def priv_ok_def by blast+
  show "priv_ok (L(k := remove1 a (L k))) s'" unfolding priv_ok_def p m al using pr by blast
  have "chain nx (fh s j) (L j)" if "j \<noteq> k" for j
  proof -
    have "b \<in> set (L j) \<Longrightarrow> f_next s b = nx b" for b using hk[of b j] hk[of b k] k(3)[of b] that by metis
    then show ?thesis using inv_chain(1)[OF i, of j] path_cong[of "L j" "f_next s" nx] by blast
  qed
  then show "chains_ok (L(k := remove1 a (L k))) s'" unfolding chains_ok_def m al using di k(2) inv_chain(3)[OF i] by (auto simp: s')
  show "loc s' (L(k := remove1 a (L k))) (pcs s u)" if "u \<noteq> t" for u
  proof (rule loc_other[OF i])
    have u: "\<not> hh (pcs s u)" using inv_hash[OF i f(1)] inv_hash[OF i, of u] that by auto
    then show "hh (pcs s u) \<Longrightarrow> L(k := remove1 a (L k)) = L \<and> fh s' = fh s \<and> (\<forall>j. \<forall>b\<in>set (L j). f_next s' b = f_next s b)" by simp
    show "f_next s' b = f_next s b" if "sole (pcs s u) = Some b" for b
      using that u sole_where[of "pcs s u"] pr(2)[of u b k] k(3)[of b] by (simp add: s')
  qed (simp_all add: s')
qed (use o f so l in \<open>auto simp: s'\<close>)

text \<open>Allocation and release of memory.\<close>

lemma inv_new:
  assumes i: "inv N L s" and t: "t < N" and a: "a \<notin> alive s"
    and s': "s' = s\<lparr>alive := insert a (alive s), f_count := (f_count s)(a := 1), f_id := (f_id s)(a := k), f_lock := (f_lock s)(a := Raw), pcs := (pcs s)(t := q)\<rparr>"
    and o: "\<And>b. own (pcs s t) b = 0" "\<And>b. own q b = (if b = a then 1 else 0)" and f: "\<not> hh (pcs s t)" "\<not> hh q" "hf (pcs s t) = None" "hf q = None"
    and so: "sole (pcs s t) = None" "sole q = Some a" "priv q" "raw q" and l: "loc s' L q"
  shows "inv N L s'"
proof -
  have h: "hands s' = (hands s)(t := hands s t)" by (simp add: s')
  have rr: "refs N own (pcs s') (hands s') b = refs N own (pcs s) (hands s) b + (if b = a then 1 else 0)" for b
    using refs_upd[OF t, of own "pcs s" q "hands s" "hands s t" b] o unfolding h by (simp add: s' handed_def)
  have pc: "pcs s' t = q" "u \<noteq> t \<Longrightarrow> pcs s' u = pcs s u" for u by (simp_all add: s')
  have al: "alive s' = insert a (alive s)" "f_lock s' = (f_lock s)(a := Raw)" "f_id s' = (f_id s)(a := k)" "f_count s' = (f_count s)(a := 1)" by (simp_all add: s')
  have na: "sole (pcs s u) \<noteq> Some a" for u using inv_sole[OF i] a by blast
  have r0: "refs N own (pcs s) (hands s) a = 0" using i a unfolding inv_def count_ok_def by metis
  have hs: "hash_ok s'" using hash_ok_keep[OF i, of q t s'] f(1,2) by (simp add: s')
  have so': "sole (pcs s' u) = Some b \<longleftrightarrow> (if u = t then b = a else sole (pcs s u) = Some b)" for u b using so pc by auto
  have so2: "sole (pcs s u) = Some b \<Longrightarrow> u \<noteq> t \<and> b \<noteq> a" for u b using so na by auto
  have mu: "mutex_ok s'"
  proof -
    have m: "hf (pcs s u) = Some b \<longleftrightarrow> b \<in> alive s \<and> f_lock s b = Held u" for u b using i unfolding inv_def mutex_ok_def by blast
    have "hf (pcs s' u) = Some b \<longleftrightarrow> b \<in> alive s' \<and> f_lock s' b = Held u" for u b using m[of u b] m[of t b] f pc a by (cases "u = t") (auto simp: al)
    moreover have "b \<in> alive s' \<Longrightarrow> f_lock s' b = Raw \<Longrightarrow> \<exists>u. raw (pcs s' u) \<and> sole (pcs s' u) = Some b" for b
    proof (cases "b = a")
      case False
      assume "b \<in> alive s'" "f_lock s' b = Raw"
      then obtain u where "raw (pcs s u)" "sole (pcs s u) = Some b" using inv_unlocked[OF i, of b] False by (auto simp: al)
      then show ?thesis using so2 pc by metis
    qed (use so pc in auto)
    moreover have "raw (pcs s' u) \<Longrightarrow> sole (pcs s' u) = Some b \<Longrightarrow> f_lock s' b = Raw" for u b
      using i so2 pc so' unfolding inv_def mutex_ok_def by (cases "u = t") (auto simp: al)
    moreover have "v = u" if v: "sole (pcs s' u) = Some b" "hf (pcs s' v) = Some b" for u v b
    proof -
      have "hf (pcs s v) = Some b" using v(2) f(3,4) pc by (cases "v = t") auto
      moreover from this have "b \<noteq> a" using m[of v b] a by auto
      ultimately show ?thesis using v(1) so' i unfolding inv_def mutex_ok_def by metis
    qed
    ultimately show ?thesis unfolding mutex_ok_def by blast
  qed
  have co: "count_ok N s'"
  proof -
    have "if b \<in> alive s' then f_count s' b = int (refs N own (pcs s') (hands s') b) \<and> (refs N own (pcs s') (hands s') b > 0 \<or> (\<exists>u. sole (pcs s' u) = Some b))
       else refs N own (pcs s') (hands s') b = 0" for b
    proof (cases "b = a")
      case False
      have "if b \<in> alive s then f_count s b = int (refs N own (pcs s) (hands s) b) \<and> (refs N own (pcs s) (hands s) b > 0 \<or> (\<exists>u. sole (pcs s u) = Some b)) else refs N own (pcs s) (hands s) b = 0"
        using i unfolding inv_def count_ok_def by blast
      moreover have "(\<exists>u. sole (pcs s u) = Some b) \<Longrightarrow> (\<exists>u. sole (pcs s' u) = Some b)" using so2 pc by metis
      ultimately show ?thesis unfolding rr using False by (auto simp: al split: if_splits)
    qed (simp add: rr r0 al)
    then show ?thesis unfolding count_ok_def by blast
  qed
  have sl: "sole_ok N s'"
    using i so2 pc(2) o(2) r0 unfolding inv_def sole_ok_def rr so' by (auto simp: al pc split: if_splits)
  have pr: "priv_ok L s'"
  proof -
    have "a \<notin> set (L j)" for j using inv_chain(3)[OF i] a by blast
    moreover have p: "priv (pcs s' u) \<and> sole (pcs s' u) = Some b \<longleftrightarrow> priv (pcs s u) \<and> sole (pcs s u) = Some b \<or> u = t \<and> b = a" for u b using so pc by (cases "u = t") auto
    ultimately show ?thesis using i unfolding inv_def priv_ok_def p by (auto simp: al)
  qed
  have ch: "chains_ok L s'" using i a unfolding inv_def chains_ok_def by (auto simp: s')
  have lo: "loc s' L (pcs s' u)" for u
  proof (cases "u = t")
    case False
    have "f_count s' b = f_count s b" if "cnt (pcs s u) b" for b using cnt_alive[OF i that] a by (auto simp: al)
    then show ?thesis unfolding pc(2)[OF False] by (intro loc_other[OF i]) (use a in \<open>auto simp: s'\<close>)
  qed (use l pc in simp)
  show ?thesis unfolding inv_def using hs mu co sl pr ch lo idle_above[OF i t, of q "hands s t"] by (simp add: s')
qed

lemma inv_free:
  assumes i: "inv N L s" and t: "t < N" and s': "s' = s\<lparr>alive := alive s - {a}, pcs := (pcs s)(t := q), hands := (hands s)(t := l)\<rparr>"
    and o: "\<And>b. b \<noteq> a \<Longrightarrow> handed own q l b = handed own (pcs s t) (hands s t) b" "handed own q l a = 0" and f: "hh q = hh (pcs s t)" "hf (pcs s t) = None" "hf q = None"
    and so: "sole (pcs s t) = Some a" "priv (pcs s t)" "raw (pcs s t)" "sole q = None" and l: "loc s' L q"
  shows "inv N L s'"
proof -
  have rr: "refs N own (pcs s') (hands s') b + handed own (pcs s t) (hands s t) b = refs N own (pcs s) (hands s) b + handed own q l b" for b
    using refs_upd[OF t, of own "pcs s" q "hands s" l b] by (simp add: s')
  have sol: "sole (pcs s u) = Some b \<Longrightarrow> b \<in> alive s \<and> refs N own (pcs s) (hands s) b = own (pcs s u) b \<and> (\<forall>v. sole (pcs s v) = Some b \<longrightarrow> v = u)" for u b
    using i unfolding inv_def sole_ok_def by blast
  have r0: "refs N own (pcs s') (hands s') a = 0" using rr[of a] o(2) sol[OF so(1)] by (simp add: handed_def)
  have r1: "b \<noteq> a \<Longrightarrow> refs N own (pcs s') (hands s') b = refs N own (pcs s) (hands s) b" for b using rr[of b] o(1)[of b] by simp
  have pc: "pcs s' t = q" "u \<noteq> t \<Longrightarrow> pcs s' u = pcs s u" for u by (simp_all add: s')
  have al: "alive s' = alive s - {a}" "f_lock s' = f_lock s" "f_id s' = f_id s" "f_count s' = f_count s" by (simp_all add: s')
  have so': "sole (pcs s' u) = Some b \<longleftrightarrow> sole (pcs s u) = Some b \<and> b \<noteq> a" for u b using so(1,4) pc sol by (cases "u = t") auto
  have ut: "sole (pcs s u) = Some b \<Longrightarrow> b \<noteq> a \<Longrightarrow> pcs s' u = pcs s u" for u b using so(1) pc by (cases "u = t") auto
  have fr: "f_lock s a = Raw" using i so unfolding inv_def mutex_ok_def by blast
  have hs: "hash_ok s'" using hash_ok_keep[OF i f(1), of s'] by (simp add: s')
  have mu: "mutex_ok s'"
  proof -
    have m: "hf (pcs s u) = Some b \<longleftrightarrow> b \<in> alive s \<and> f_lock s b = Held u" for u b using i unfolding inv_def mutex_ok_def by blast
    have "hf (pcs s' u) = Some b \<longleftrightarrow> b \<in> alive s' \<and> f_lock s' b = Held u" for u b using m[of u b] m[of t b] f fr pc by (cases "u = t") (auto simp: al)
    moreover have "b \<in> alive s' \<Longrightarrow> f_lock s' b = Raw \<Longrightarrow> \<exists>u. raw (pcs s' u) \<and> sole (pcs s' u) = Some b" for b
      using inv_unlocked[OF i, of b] ut so' by (auto simp: al) metis
    moreover have "raw (pcs s' u) \<Longrightarrow> sole (pcs s' u) = Some b \<Longrightarrow> f_lock s' b = Raw" for u b
      using i ut so' unfolding inv_def mutex_ok_def by (metis al(2))
    moreover have "v = u" if v: "sole (pcs s' u) = Some b" "hf (pcs s' v) = Some b" for u v b
    proof -
      have "hf (pcs s v) = Some b" using v(2) f(2,3) pc by (cases "v = t") auto
      then show ?thesis using v(1) so' i unfolding inv_def mutex_ok_def by metis
    qed
    ultimately show ?thesis unfolding mutex_ok_def by blast
  qed
  have co: "count_ok N s'"
  proof -
    have "if b \<in> alive s' then f_count s' b = int (refs N own (pcs s') (hands s') b) \<and> (refs N own (pcs s') (hands s') b > 0 \<or> (\<exists>u. sole (pcs s' u) = Some b))
       else refs N own (pcs s') (hands s') b = 0" for b
    proof (cases "b = a")
      case False
      have "if b \<in> alive s then f_count s b = int (refs N own (pcs s) (hands s) b) \<and> (refs N own (pcs s) (hands s) b > 0 \<or> (\<exists>u. sole (pcs s u) = Some b)) else refs N own (pcs s) (hands s) b = 0"
        using i unfolding inv_def count_ok_def by blast
      then show ?thesis unfolding so' r1[OF False] using False by (auto simp: al split: if_splits)
    qed (simp add: r0 al)
    then show ?thesis unfolding count_ok_def by blast
  qed
  have sl: "sole_ok N s'" using sol ut r1 unfolding sole_ok_def so' al by (metis DiffI singletonD)
  have nl: "a \<notin> set (L j)" for j using i so unfolding inv_def priv_ok_def by blast
  have pr: "priv_ok L s'"
  proof -
    have p: "priv (pcs s' u) \<and> sole (pcs s' u) = Some b \<longleftrightarrow> priv (pcs s u) \<and> sole (pcs s u) = Some b \<and> b \<noteq> a" for u b using so' ut by metis
    show ?thesis using i unfolding inv_def priv_ok_def p al by auto
  qed
  have ch: "chains_ok L s'" using i nl unfolding inv_def chains_ok_def by (auto simp: s')
  have lo: "loc s' L (pcs s' u)" for u
  proof (cases "u = t")
    case False
    then show ?thesis unfolding pc(2)[OF False] by (intro loc_other[OF i]) (auto simp: s')
  qed (use l pc in simp)
  show ?thesis unfolding inv_def using hs mu co sl pr ch lo idle_above[OF i t, of q l] by (simp add: s')
qed

lemma inv_start: "inv N (\<lambda>_. []) (foo_start idle)"
  unfolding inv_def inv_defs foo_start_def refs_def handed_def using idle_free by simp

lemma inv_finite:
  assumes "inv N L s"
  shows "finite (alive s)"
proof (rule finite_subset)
  show "alive s \<subseteq> (\<Union>t<N. {a. own (pcs s t) a > 0} \<union> set (hands s t) \<union> set_option (sole (pcs s t)))"
  proof
    fix a
    assume a: "a \<in> alive s"
    show "a \<in> (\<Union>t<N. {a. own (pcs s t) a > 0} \<union> set (hands s t) \<union> set_option (sole (pcs s t)))"
    proof (cases "\<exists>t. sole (pcs s t) = Some a")
      case True
      then obtain t where t: "sole (pcs s t) = Some a" by blast
      then have "t < N" using assms idle_free unfolding inv_def by (metis not_le option.distinct(1))
      then show ?thesis using t by auto
    next
      case False
      then have "refs N own (pcs s) (hands s) a > 0" using assms a unfolding inv_def count_ok_def by metis
      then have "\<exists>t\<in>{..<N}. handed own (pcs s t) (hands s t) a \<noteq> 0" unfolding refs_def using sum.neutral[of "{..<N}"] by (metis (no_types, lifting) less_numeral_extra(3))
      then obtain t where "t < N" "handed own (pcs s t) (hands s t) a > 0" by auto
      then have "own (pcs s t) a > 0 \<or> a \<in> set (hands s t)" using count_list_0_iff[of "hands s t" a] unfolding handed_def by (metis add_is_0 gr0I)
      then show ?thesis using \<open>t < N\<close> by blast
    qed
  qed
  have "finite {a. own (pcs s t) a > 0}" for t using own_finite .
  then show "finite (\<Union>t<N. {a. own (pcs s t) a > 0} \<union> set (hands s t) \<union> set_option (sole (pcs s t)))"
    by (intro finite_UN_I) auto
qed

lemma inv_table:
  assumes "inv N L s"
  shows "table s = table_of L s"
proof -
  note fin = inv_finite[OF assms]
  have "read_chain (card (alive s)) (f_next s) (fh s i) = L i" for i
  proof (rule read_chain)
    show "chain (f_next s) (fh s i) (L i)" using inv_chain(1)[OF assms] .
    have "set (L i) \<subseteq> alive s" using inv_chain(3)[OF assms] by blast
    then have "card (set (L i)) \<le> card (alive s)" by (rule card_mono[OF fin])
    then show "length (L i) \<le> card (alive s)" using distinct_card[OF inv_chain(2)[OF assms]] by simp
  qed
  then show ?thesis by (simp add: table_def)
qed

lemma inv_positive:
  assumes "inv N L s" "a \<in> set (L i)" "\<And>t. hh (pcs s t) \<Longrightarrow> sole (pcs s t) \<noteq> Some a \<or> own (pcs s t) a > 0"
  shows "f_count s a > 0"
proof -
  have a: "a \<in> alive s" using inv_chain(3)[OF assms(1,2)] by blast
  show ?thesis
  proof (cases "\<exists>t. sole (pcs s t) = Some a")
    case True
    then obtain t where t: "sole (pcs s t) = Some a" by blast
    have "\<not> priv (pcs s t)" using assms(1,2) t unfolding inv_def priv_ok_def by blast
    then have "own (pcs s t) a > 0" using sole_where[of "pcs s t"] t assms(3)[of t] by auto
    moreover have "refs N own (pcs s) (hands s) a = own (pcs s t) a" using assms(1) t unfolding inv_def sole_ok_def by blast
    ultimately show ?thesis using inv_count[OF assms(1) a] by simp
  next
    case False
    then have "refs N own (pcs s) (hands s) a > 0" using assms(1) a unfolding inv_def count_ok_def by metis
    then show ?thesis using inv_count[OF assms(1) a] by simp
  qed
qed

section \<open>Steps that keep the invariant and follow the table\<close>

definition good :: "nat \<Rightarrow> chains \<Rightarrow> 'pc foo_sys \<Rightarrow> table_op option \<Rightarrow> 'pc foo_sys outcome \<Rightarrow> bool" where
  "good N L s ev r \<longleftrightarrow> (case r of
       Next s' \<Rightarrow> (\<exists>L'. inv N L' s' \<and> follows ev (table_of L s) (table_of L' s'))
     | Wait \<Rightarrow> True
     | Bad e \<Rightarrow> e = CountOverflow \<and> (\<exists>a\<in>alive s. f_count s a = 2 ^ 31 - 1))"

lemma good_Next: "inv N L' s' \<Longrightarrow> follows ev (table_of L s) (table_of L' s') \<Longrightarrow> good N L s ev (Next s')"
  by (auto simp: good_def)

lemma good_same: "inv N L s' \<Longrightarrow> (\<And>i a. a \<in> set (L i) \<Longrightarrow> f_id s' a = f_id s a \<and> f_count s' a = f_count s a) \<Longrightarrow> good N L s None (Next s')"
  by (rule good_Next[of N L]) (simp_all add: follows_def table_of_cong[of L s' s])

lemma good_stutter: "good N L s None (Next s') \<Longrightarrow> table_step e (table_of L s) = Some (table_of L s) \<Longrightarrow> good N L s (Some e) (Next s')"
  by (auto simp: good_def follows_def)

lemma good_deref: "a \<in> alive s \<Longrightarrow> good N L s ev r \<Longrightarrow> good N L s ev (deref a s r)"
  by (simp add: deref_def)

lemma good_goto:
  assumes "inv N L s" "t < N" "s1 = s\<lparr>hands := (hands s)(t := l)\<rparr>" "same_refs (pcs s t) (hands s t) q l" "hh q = hh (pcs s t)" "hf q = hf (pcs s t)" "raw q = raw (pcs s t)" "loc s L q"
  shows "good N L s None (Next (goto t q s1))"
  using inv_move[OF assms(1,2,4-8)] by (intro good_same) (simp_all add: goto_def upd_order assms(3))

lemma good_lock_hash:
  assumes "inv N L s" "t < N" "same_refs (pcs s t) (hands s t) q (hands s t)" "hh q" "hf q = hf (pcs s t)" "raw q = raw (pcs s t)" "loc s L q"
  shows "good N L s None (lock_hash t (goto t q s))"
  using inv_lock_hash[OF assms(1-3) _ assms(4-7)] good_same[of N L _ s]
  by (cases "hashlock s") (simp_all add: lock_hash_def goto_def upd_order good_def[of _ _ _ _ Wait])

lemma good_unlock_hash:
  assumes "inv N L s" "t < N" "s1 = s\<lparr>hands := (hands s)(t := l)\<rparr>" "same_refs (pcs s t) (hands s t) q l" "hh (pcs s t)" "\<not> hh q" "hf q = hf (pcs s t)" "raw q = raw (pcs s t)" "loc s L q"
  shows "good N L s None (unlock_hash t (goto t q s1))"
  using inv_unlock_hash[OF assms(1,2,4-9)] good_same[of N L _ s] inv_hash[OF assms(1,5)]
  by (simp add: unlock_hash_def goto_def upd_order assms(3))

lemma good_lock_foo:
  assumes "inv N L s" "t < N" "same_refs (pcs s t) (hands s t) q (hands s t)" "a \<in> alive s" "f_lock s a \<noteq> Raw" "hh q = hh (pcs s t)" "hf (pcs s t) = None" "hf q = Some a"
    "\<not> raw (pcs s t)" "\<not> raw q" "loc s L q" "\<And>u. sole (pcs s u) = Some a \<Longrightarrow> u = t"
  shows "good N L s None (lock_foo t a (goto t q s))"
  using inv_lock_foo[OF assms(1-3), of a "Held t"] assms(4-) good_same[of N L _ s]
  by (cases "f_lock s a") (auto simp: lock_foo_def deref_def goto_def upd_order good_def[of _ _ _ _ Wait])

lemma good_unlock_foo:
  assumes "inv N L s" "t < N" "s1 = s\<lparr>hands := (hands s)(t := l)\<rparr>" "same_refs (pcs s t) (hands s t) q l" "hf (pcs s t) = Some a" "hf q = None" "hh q = hh (pcs s t)"
    "\<not> raw (pcs s t)" "\<not> raw q" "loc s L q"
  shows "good N L s None (unlock_foo t a (goto t q s1))"
  using inv_unlock_foo[OF assms(1,2,4-10)] good_same[of N L _ s] inv_held[OF assms(1,5)]
  by (simp add: unlock_foo_def deref_def goto_def upd_order assms(3))

lemma good_init_lock:
  assumes "inv N L s" "t < N" "same_refs (pcs s t) (hands s t) q (hands s t)" "sole (pcs s t) = Some a" "raw (pcs s t)" "\<not> raw q" "hf (pcs s t) = None" "hf q = None"
    "hh q = hh (pcs s t)" "loc s L q"
  shows "good N L s None (init_lock a (goto t q s))"
proof -
  have a: "a \<in> alive s" "f_lock s a = Raw" using inv_sole[OF assms(1,4)] assms(1,4,5) unfolding inv_def mutex_ok_def by blast+
  have q: "sole q = Some a" using assms(3,4) by (simp add: same_refs_def)
  have "inv N L (s\<lparr>f_lock := (f_lock s)(a := Free), pcs := (pcs s)(t := q), hands := (hands s)(t := hands s t)\<rparr>)"
    by (rule inv_lock_foo[OF assms(1-3)]) (use assms a q in auto)
  then show ?thesis using a by (simp add: init_lock_def deref_def goto_def upd_order good_same)
qed

lemma good_destroy:
  assumes "inv N L s" "t < N" "same_refs (pcs s t) (hands s t) q (hands s t)" "sole (pcs s t) = Some a" "\<not> raw (pcs s t)" "raw q" "hf (pcs s t) = None" "hf q = None"
    "hh q = hh (pcs s t)" "loc s L q"
  shows "good N L s None (destroy_lock a (goto t q s))"
proof -
  have a: "a \<in> alive s" using inv_sole[OF assms(1,4)] .
  have "f_lock s a = Free"
  proof (cases "f_lock s a")
    case Raw
    then obtain u where u: "raw (pcs s u)" "sole (pcs s u) = Some a" using inv_unlocked[OF assms(1) a] by blast
    then have "u = t" using assms(1,4) unfolding inv_def sole_ok_def by blast
    then show ?thesis using u assms(5) by simp
  next
    case (Held u)
    then have h: "hf (pcs s u) = Some a" using assms(1) a unfolding inv_def mutex_ok_def by blast
    then have "u = t" using assms(1,4) unfolding inv_def mutex_ok_def by blast
    then show ?thesis using h assms(7) by simp
  qed simp
  moreover have q: "sole q = Some a" using assms(3,4) by (simp add: same_refs_def)
  ultimately have "inv N L (s\<lparr>f_lock := (f_lock s)(a := Raw), pcs := (pcs s)(t := q), hands := (hands s)(t := hands s t)\<rparr>)"
    by (intro inv_lock_foo[OF assms(1-3)]) (use assms a in auto)
  then show ?thesis using a \<open>f_lock s a = Free\<close> by (simp add: destroy_lock_def deref_def goto_def upd_order good_same)
qed

lemma good_free:
  assumes "inv N L s" "t < N" "sole (pcs s t) = Some a" "priv (pcs s t)" "raw (pcs s t)" "sole q = None" "\<And>b. b \<noteq> a \<Longrightarrow> own (pcs s t) b = own q b"
    "handed own q (hands s t) a = 0" "hf (pcs s t) = None" "hf q = None" "hh q = hh (pcs s t)" "loc s L q"
  shows "good N L s None (free_foo a (goto t q s))"
proof -
  have "inv N L (s\<lparr>alive := alive s - {a}, pcs := (pcs s)(t := q), hands := (hands s)(t := hands s t)\<rparr>)"
    by (rule inv_free[OF assms(1,2) refl]) (use assms loc_frame[OF assms(12)] in \<open>auto simp: handed_def\<close>)
  then show ?thesis
    using inv_sole[OF assms(1,3)] by (simp add: free_foo_def deref_def goto_def upd_order good_same)
qed

lemma no_hands: "inv N L s \<Longrightarrow> t < N \<Longrightarrow> sole (pcs s t) = Some a \<Longrightarrow> count_list (hands s t) a = 0"
  using refs_ge[of t N own "pcs s" "hands s" a] unfolding inv_def sole_ok_def handed_def by fastforce

lemma good_new:
  assumes "inv N L s" "t < N" "a \<notin> alive s" "\<And>b. own (pcs s t) b = 0" "\<And>b. own q b = (if b = a then 1 else 0)" "\<not> hh (pcs s t)" "\<not> hh q" "hf (pcs s t) = None" "hf q = None"
    "sole (pcs s t) = None" "sole q = Some a" "priv q" "raw q" "loc (goto t q (new_foo a k s)) L q"
  shows "good N L s None (Next (goto t q (new_foo a k s)))"
proof (rule good_same)
  show "inv N L (goto t q (new_foo a k s))"
    by (rule inv_new[OF assms(1-3), where k = k and q = q]) (use assms in \<open>simp_all add: goto_def new_foo_def\<close>)
  show "f_id (goto t q (new_foo a k s)) b = f_id s b \<and> f_count (goto t q (new_foo a k s)) b = f_count s b" if "b \<in> set (L i)" for i b
    using inv_chain(3)[OF assms(1) that] assms(3) by (auto simp: goto_def new_foo_def)
qed

lemma good_count:
  assumes i: "inv N L s" and t: "t < N" and a: "a \<in> alive s"
    and o: "\<And>b. b \<noteq> a \<Longrightarrow> own q b = own (pcs s t) b" "int (own q a) = int (own (pcs s t) a) + d"
    and so: "sole (pcs s t) = None" "\<And>u. sole (pcs s u) \<noteq> Some a" "sole q = None \<and> f_count s a + d > 0 \<or> sole q = Some a \<and> f_count s a + d = int (own q a) \<and> \<not> priv q"
    and f: "hh q = hh (pcs s t)" "hf q = hf (pcs s t)" "\<not> raw (pcs s t)" "\<not> raw q" and c: "\<And>u. u \<noteq> t \<Longrightarrow> \<not> cnt (pcs s u) a"
    and l: "loc (goto t q (set_count a (f_count s a + d) s)) L q" and hu: "\<And>u. sole q = Some a \<Longrightarrow> hf (pcs s u) = Some a \<Longrightarrow> u = t"
    and e: "f_count s a > 0" "table_step e (table_of L s) = Some (bump (f_id s a) a d (table_of L s))"
  shows "good N L s (Some e) (Next (goto t q (set_count a (f_count s a + d) s)))"
proof (rule good_Next)
  show "inv N L (goto t q (set_count a (f_count s a + d) s))"
    by (rule inv_set_count[OF i t a, where n = "f_count s a + d" and q = q and l = "hands s t"]) (use o so f c l hu in \<open>auto simp: goto_def set_count_def handed_def\<close>)
  show "follows (Some e) (table_of L s) (table_of L (goto t q (set_count a (f_count s a + d) s)))"
    using e table_of_count[of "goto t q (set_count a (f_count s a + d) s)" s a d "f_id s a" L] by (simp add: follows_def goto_def set_count_def)
qed

lemma good_claim:
  assumes i: "inv N L s" and t: "t < N" and a: "a \<in> alive s" and o: "own q = own (pcs s t)" "own q a = 1" "f_count s a = 1"
    and so: "sole (pcs s t) = None" "sole q = Some a" "\<not> priv q"
    and f: "hh q = hh (pcs s t)" "hf q = hf (pcs s t)" "\<not> raw (pcs s t)" "\<not> raw q" and c: "\<And>u. u \<noteq> t \<Longrightarrow> \<not> cnt (pcs s u) a" and l: "loc s L q"
    and hu: "\<And>u. hf (pcs s u) = Some a \<Longrightarrow> u = t"
  shows "good N L s None (Next (goto t q s))"
proof (rule good_same)
  have n: "sole (pcs s u) \<noteq> Some a" for u using inv_sole_other[OF i t, of a u] o(1,2) so(1) by (auto simp: handed_def)
  have e: "goto t q s = s\<lparr>f_count := (f_count s)(a := f_count s a), pcs := (pcs s)(t := q), hands := (hands s)(t := hands s t)\<rparr>" by (simp add: goto_def)
  show "inv N L (goto t q s)"
    by (rule inv_set_count[OF i t a e]) (use o so f c n hu loc_frame[OF l] in \<open>auto simp: goto_def handed_def\<close>)
qed (simp add: goto_def)

lemma good_link:
  assumes "inv N L s" "t < N" "same_refs (pcs s t) (hands s t) q (hands s t)" "hh q = hh (pcs s t)" "hf q = hf (pcs s t)" "\<not> raw (pcs s t)" "\<not> raw q"
    "sole (pcs s t) = Some a" "priv (pcs s t)" "loc (goto t q (set_next a p s)) L q"
  shows "good N L s None (Next (goto t q (set_next a p s)))"
proof (rule good_same)
  show "inv N L (goto t q (set_next a p s))"
    by (rule inv_link[OF assms(1,2), where a = a and p = p and q = q and l = "hands s t"]) (use assms in \<open>auto simp: goto_def set_next_def\<close>)
qed (simp add: goto_def set_next_def)

lemma good_insert:
  assumes i: "inv N L s" and t: "t < N" and k: "f_id s a = k" "f_next s a = fh s (HASH k)" and o: "own q = own (pcs s t)" "own q a = 1"
    and f: "hh (pcs s t)" "hh q" "hf q = hf (pcs s t)" "\<not> raw (pcs s t)" "\<not> raw q"
    and so: "sole (pcs s t) = Some a" "priv (pcs s t)" "sole q = None" and l: "\<And>s L. loc s L q"
  shows "good N L s (Some (Insert k a)) (Next (goto t q (set_head (HASH k) (Some a) s)))"
proof (rule good_Next)
  let ?L = "L(HASH k := a # L (HASH k))" and ?s = "goto t q (set_head (HASH k) (Some a) s)"
  show "inv N ?L ?s"
    by (rule inv_insert[OF i t, where k = "HASH k" and a = a and q = q and l = "hands s t"]) (use k o f so l in \<open>auto simp: goto_def set_head_def handed_def\<close>)
  have "a \<in> alive s" "refs N own (pcs s) (hands s) a = own (pcs s t) a" using i so(1) unfolding inv_def sole_ok_def by blast+
  then have n: "f_count s a = 1" using inv_count[OF i] o by simp
  have "a \<notin> set (L (HASH k))" using i so unfolding inv_def priv_ok_def by blast
  moreover have "table_of ?L ?s = table_of ?L s" by (rule table_of_cong) (simp add: goto_def set_head_def)
  ultimately show "follows (Some (Insert k a)) (table_of L s) (table_of ?L ?s)"
    using table_of_insert[of s a k L, OF k(1) n] fst_table_of[of L s k] by (simp add: follows_def)
qed

lemma good_unlink:
  assumes i: "inv N L s" and t: "t < N" and s': "s' = goto t q (s\<lparr>f_next := nx, fh := (fh s)(HASH k := p)\<rparr>)"
    and k: "f_id s a = k" "chain nx p (remove1 a (L (HASH k)))" "\<And>b. b \<notin> set (L (HASH k)) \<Longrightarrow> nx b = f_next s b" and o: "own q = own (pcs s t)"
    and f: "hh (pcs s t)" "hh q" "hf q = hf (pcs s t)" "\<not> raw (pcs s t)" "\<not> raw q"
    and so: "sole (pcs s t) = Some a" "\<not> priv (pcs s t)" "sole q = Some a" "priv q" and l: "\<And>s L. loc s L q"
    and e: "ev = None \<and> own q a = 0 \<or> ev = Some (Down k a) \<and> own q a = 1 \<and> a \<in> set (L (HASH k))"
  shows "good N L s ev (Next s')"
proof (rule good_Next)
  let ?L = "L(HASH k := remove1 a (L (HASH k)))"
  show "inv N ?L s'"
    by (rule inv_unlink[OF i t, where k = "HASH k" and a = a and q = q and l = "hands s t" and nx = nx and p = p])
      (use k o f so l in \<open>auto simp: s' goto_def handed_def\<close>)
  have "a \<in> alive s" "refs N own (pcs s) (hands s) a = own (pcs s t) a" using i so(1) unfolding inv_def sole_ok_def by blast+
  then have n: "f_count s a = int (own q a)" using inv_count[OF i] o by simp
  have "table_of ?L s' = table_of ?L s" by (rule table_of_cong) (simp add: s' goto_def)
  then show "follows ev (table_of L s) (table_of ?L s')"
    using e n table_of_remove_0[of s a L "HASH k"] table_of_remove_1[of s a k L] k(1) inv_chain(2)[OF i, of "HASH k"] fst_table_of[of L s k]
    by (auto simp: follows_def)
qed

lemma good_give:
  assumes i: "inv N L s" and t: "t < N" "u < N" and a: "a \<in> set (hands s t)"
  shows "good N L s None (Next (get_ref u a (put_ref t a s)))"
proof (rule good_same)
  define h where "h = (hands s)(t := remove1 a (hands s t))"
  define h' where "h' = h(u := a # h u)"
  have e: "get_ref u a (put_ref t a s) = s\<lparr>hands := h'\<rparr>" by (simp add: get_ref_def put_ref_def h_def h'_def)
  have r: "refs N own (pcs s) h' b = refs N own (pcs s) (hands s) b" for b
    using refs_hands[OF t(1), of own "pcs s" "hands s" "remove1 a (hands s t)" b] refs_hands[OF t(2), of own "pcs s" h "a # h u" b] count_list_remove1[OF a, of b]
    unfolding h_def[symmetric] h'_def[symmetric] by (auto split: if_splits)
  have lo: "loc (s\<lparr>hands := h'\<rparr>) L (pcs s v)" for v by (rule loc_frame[OF inv_loc[OF i]]) simp_all
  show "inv N L (get_ref u a (put_ref t a s))"
    using i r lo t unfolding e inv_def inv_defs by (auto simp: h_def h'_def)
  show "f_id (get_ref u a (put_ref t a s)) b = f_id s b \<and> f_count (get_ref u a (put_ref t a s)) b = f_count s b" if "b \<in> set (L j)" for j b by (simp add: e)
qed

lemma good_enter:
  assumes i: "inv N L s" and t: "t < N" and p: "pcs s t = idle" and a: "a \<in> set (hands s t)" and q: "sole q = None" "\<And>b. own q b = (if b = a then 1 else 0)" "\<not> hh q" "hf q = None" "raw q = raw idle"
    "priv q = priv idle" "loc s L q"
  shows "good N L s None (Next (goto t q (put_ref t a s)))"
proof (rule good_goto[OF i t, where l = "remove1 a (hands s t)"])
  show "put_ref t a s = s\<lparr>hands := (hands s)(t := remove1 a (hands s t))\<rparr>" by (simp add: put_ref_def)
  have "handed own q (remove1 a (hands s t)) b = handed own (pcs s t) (hands s t) b" for b
    unfolding handed_def q(2) p idle_free(3) count_list_remove1[OF a, of b, symmetric] by simp
  then show "same_refs (pcs s t) (hands s t) q (remove1 a (hands s t))"
    using p q idle_free unfolding same_refs_def by simp
qed (use p q idle_free in auto)

text \<open>When every thread is outside of the calls, exactly the objects with references are there, all in the table.\<close>

lemma inv_quiet:
  assumes i: "inv N L s" and q: "\<forall>t. pcs s t = idle"
  shows "alive s = (\<Union>t<N. set (hands s t))" and "a \<in> alive s \<Longrightarrow> f_count s a = int (\<Sum>t<N. count_list (hands s t) a)"
    and "a \<in> alive s \<Longrightarrow> (a, f_count s a) \<in> set (table s (f_id s a))"
proof -
  have o: "handed own (pcs s t) (hands s t) b = count_list (hands s t) b" for t b using q idle_free(3) by (simp add: handed_def)
  have so: "sole (pcs s t) \<noteq> Some b" for t b using q idle_free(4) by simp
  have r: "refs N own (pcs s) (hands s) b = (\<Sum>t<N. count_list (hands s t) b)" for b unfolding refs_def o ..
  have n: "(\<Sum>t<N. count_list (hands s t) b) = 0 \<longleftrightarrow> (\<forall>t<N. b \<notin> set (hands s t))" for b by (simp add: count_list_0_iff Ball_def)
  have c: "if b \<in> alive s then f_count s b = int (\<Sum>t<N. count_list (hands s t) b) \<and> (\<Sum>t<N. count_list (hands s t) b) > 0 else (\<Sum>t<N. count_list (hands s t) b) = 0" for b
    using i so unfolding inv_def count_ok_def r by metis
  show "alive s = (\<Union>t<N. set (hands s t))"
  proof (rule set_eqI)
    fix b
    show "b \<in> alive s \<longleftrightarrow> b \<in> (\<Union>t<N. set (hands s t))" using c[of b] n[of b] by (cases "b \<in> alive s") auto
  qed
  show f: "a \<in> alive s \<Longrightarrow> f_count s a = int (\<Sum>t<N. count_list (hands s t) a)" using c[of a] by simp
  assume a: "a \<in> alive s"
  then have "a \<in> set (L (HASH (f_id s a)))" using i so unfolding inv_def priv_ok_def by metis
  moreover have "f_count s a > 0" using c[of a] a by (simp del: of_nat_sum)
  ultimately show "(a, f_count s a) \<in> set (table s (f_id s a))" unfolding inv_table[OF i] table_of_def by auto
qed

end

end
