(* ===== verification/Mutex2.thy ===== *)
theory Mutex2
  imports FooTable
begin

text \<open>
  \<open>threads/mutex2.c\<close>: the count of an object is protected by its own mutex, the chains by \<open>hashlock\<close>, and
  \<open>foo_rele\<close> gives up the one to take the other before it removes an object. Each step is one access to the table or
  to an object, or one call; the comment of a program counter is what it does next.
\<close>

section \<open>The functions\<close>

datatype pc2 =
    Idle
  | AInit int nat                 \<comment> \<open>\<open>foo_alloc\<close>: \<open>pthread_mutex_init\<close>\<close>
  | AHash int nat                 \<comment> \<open>lock the table\<close>
  | ANext int nat                 \<comment> \<open>\<open>fp->f_next = fh[idx]\<close>\<close>
  | AHead int nat                 \<comment> \<open>\<open>fh[idx] = fp\<close>\<close>
  | ALock nat                     \<comment> \<open>lock the object\<close>
  | AUnlHash nat                  \<comment> \<open>unlock the table\<close>
  | AUnl nat                      \<comment> \<open>unlock the object\<close>
  | HLock nat "int option"        \<comment> \<open>\<open>foo_hold\<close>, perhaps for \<open>foo_find\<close> of this key: lock the object\<close>
  | HInc nat "int option"         \<comment> \<open>\<open>fp->f_count++\<close>\<close>
  | HUnl nat "int option"         \<comment> \<open>unlock the object\<close>
  | FHash int                     \<comment> \<open>\<open>foo_find\<close>: lock the table\<close>
  | FStart int                    \<comment> \<open>\<open>fp = fh[HASH(id)]\<close>\<close>
  | FLoop int "nat option"        \<comment> \<open>look at this object\<close>
  | FUnl int "nat option"         \<comment> \<open>unlock the table and return this object\<close>
  | RLock nat                     \<comment> \<open>\<open>foo_rele\<close>: lock the object\<close>
  | RTest nat                     \<comment> \<open>\<open>fp->f_count == 1\<close>\<close>
  | RDec nat                      \<comment> \<open>not the last reference: \<open>fp->f_count--\<close>\<close>
  | RUnl nat                      \<comment> \<open>unlock the object and return\<close>
  | RAway nat                     \<comment> \<open>the last reference: unlock the object\<close>
  | RHash nat                     \<comment> \<open>lock the table\<close>
  | RRelock nat                   \<comment> \<open>lock the object\<close>
  | RRetest nat                   \<comment> \<open>\<open>fp->f_count != 1\<close>\<close>
  | RDec2 nat                     \<comment> \<open>\<open>fp->f_count--\<close>\<close>
  | RUnl2 nat                     \<comment> \<open>unlock the object\<close>
  | RUnlHash2                     \<comment> \<open>unlock the table and return\<close>
  | RHead nat                     \<comment> \<open>\<open>tfp = fh[idx]\<close>, and unlink when this is the object\<close>
  | RWalk nat "nat option"        \<comment> \<open>\<open>tfp->f_next != fp\<close> with this \<open>tfp\<close>\<close>
  | RLink nat nat                 \<comment> \<open>\<open>tfp->f_next = fp->f_next\<close>\<close>
  | RUnlHash nat                  \<comment> \<open>unlock the table\<close>
  | RUnlLast nat                  \<comment> \<open>unlock the object\<close>
  | RDestroy nat                  \<comment> \<open>\<open>pthread_mutex_destroy\<close>\<close>
  | RFree nat                     \<comment> \<open>\<open>free\<close>\<close>

fun alloc_run :: "nat \<Rightarrow> pc2 \<Rightarrow> pc2 foo_sys \<Rightarrow> pc2 foo_sys outcome option" where
  "alloc_run t (AInit k a) s = Some (init_lock a (goto t (AHash k a) s))"
| "alloc_run t (AHash k a) s = Some (lock_hash t (goto t (ANext k a) s))"
| "alloc_run t (ANext k a) s = Some (deref a s (Next (goto t (AHead k a) (set_next a (fh s (HASH k)) s))))"
| "alloc_run t (AHead k a) s = Some (Next (goto t (ALock a) (set_head (HASH k) (Some a) s)))"
| "alloc_run t (ALock a) s = Some (lock_foo t a (goto t (AUnlHash a) s))"
| "alloc_run t (AUnlHash a) s = Some (unlock_hash t (goto t (AUnl a) s))"
| "alloc_run t (AUnl a) s = Some (unlock_foo t a (goto t Idle (get_ref t a s)))"
| "alloc_run t q s = None"

definition foo_alloc :: "nat \<Rightarrow> call \<Rightarrow> pc2 \<Rightarrow> pc2 foo_sys \<Rightarrow> pc2 foo_sys outcome option" where
  "foo_alloc t c q s = (case c of
       Alloc k m \<Rightarrow> if q \<noteq> Idle then None else
         (case m of None \<Rightarrow> Some (Next s) | Some a \<Rightarrow> if a \<in> alive s then None else Some (Next (goto t (AInit k a) (new_foo a k s))))
     | InitFails \<Rightarrow> (case q of AInit k a \<Rightarrow> Some (free_foo a (goto t Idle s)) | _ \<Rightarrow> None)
     | Run \<Rightarrow> alloc_run t q s
     | _ \<Rightarrow> None)"

fun hold_run :: "nat \<Rightarrow> pc2 \<Rightarrow> pc2 foo_sys \<Rightarrow> pc2 foo_sys outcome option" where
  "hold_run t (HLock a w) s = Some (lock_foo t a (goto t (HInc a w) s))"
| "hold_run t (HInc a w) s = Some (increment a (goto t (HUnl a w) s))"
| "hold_run t (HUnl a None) s = Some (unlock_foo t a (goto t Idle (get_ref t a (get_ref t a s))))"
| "hold_run t (HUnl a (Some k)) s = Some (unlock_foo t a (goto t (FUnl k (Some a)) s))"
| "hold_run t q s = None"

definition foo_hold :: "nat \<Rightarrow> call \<Rightarrow> pc2 \<Rightarrow> pc2 foo_sys \<Rightarrow> pc2 foo_sys outcome option" where
  "foo_hold t c q s = (case c of
       Hold a \<Rightarrow> if q = Idle \<and> a \<in> set (hands s t) then Some (Next (goto t (HLock a None) (put_ref t a s))) else None
     | Run \<Rightarrow> hold_run t q s
     | _ \<Rightarrow> None)"

fun find_run :: "nat \<Rightarrow> pc2 \<Rightarrow> pc2 foo_sys \<Rightarrow> pc2 foo_sys outcome option" where
  "find_run t (FHash k) s = Some (lock_hash t (goto t (FStart k) s))"
| "find_run t (FStart k) s = Some (Next (goto t (FLoop k (fh s (HASH k))) s))"
| "find_run t (FLoop k None) s = Some (Next (goto t (FUnl k None) s))"
| "find_run t (FLoop k (Some a)) s = Some (deref a s (Next (goto t (if f_id s a = k then HLock a (Some k) else FLoop k (f_next s a)) s)))"
| "find_run t (FUnl k r) s = Some (unlock_hash t (goto t Idle (case r of None \<Rightarrow> s | Some a \<Rightarrow> get_ref t a s)))"
| "find_run t q s = None"

definition foo_find :: "nat \<Rightarrow> call \<Rightarrow> pc2 \<Rightarrow> pc2 foo_sys \<Rightarrow> pc2 foo_sys outcome option" where
  "foo_find t c q s = (case c of
       Find k \<Rightarrow> if q = Idle then Some (Next (goto t (FHash k) s)) else None
     | Run \<Rightarrow> find_run t q s
     | _ \<Rightarrow> None)"

fun rele_run :: "nat \<Rightarrow> pc2 \<Rightarrow> pc2 foo_sys \<Rightarrow> pc2 foo_sys outcome option" where
  "rele_run t (RLock a) s = Some (lock_foo t a (goto t (RTest a) s))"
| "rele_run t (RTest a) s = Some (deref a s (Next (goto t (if f_count s a = 1 then RAway a else RDec a) s)))"
| "rele_run t (RDec a) s = Some (deref a s (Next (goto t (RUnl a) (set_count a (f_count s a - 1) s))))"
| "rele_run t (RUnl a) s = Some (unlock_foo t a (goto t Idle s))"
| "rele_run t (RAway a) s = Some (unlock_foo t a (goto t (RHash a) s))"
| "rele_run t (RHash a) s = Some (lock_hash t (goto t (RRelock a) s))"
| "rele_run t (RRelock a) s = Some (lock_foo t a (goto t (RRetest a) s))"
| "rele_run t (RRetest a) s = Some (deref a s (Next (goto t (if f_count s a \<noteq> 1 then RDec2 a else RHead a) s)))"
| "rele_run t (RDec2 a) s = Some (deref a s (Next (goto t (RUnl2 a) (set_count a (f_count s a - 1) s))))"
| "rele_run t (RUnl2 a) s = Some (unlock_foo t a (goto t RUnlHash2 s))"
| "rele_run t RUnlHash2 s = Some (unlock_hash t (goto t Idle s))"
| "rele_run t (RHead a) s = Some (deref a s (let i = HASH (f_id s a) in
     Next (if fh s i = Some a then goto t (RUnlHash a) (set_head i (f_next s a) s) else goto t (RWalk a (fh s i)) s)))"
| "rele_run t (RWalk a None) s = Some (Bad NullPointer)"
| "rele_run t (RWalk a (Some b)) s = Some (deref b s (Next (goto t (if f_next s b = Some a then RLink a b else RWalk a (f_next s b)) s)))"
| "rele_run t (RLink a b) s = Some (deref a s (deref b s (Next (goto t (RUnlHash a) (set_next b (f_next s a) s)))))"
| "rele_run t (RUnlHash a) s = Some (unlock_hash t (goto t (RUnlLast a) s))"
| "rele_run t (RUnlLast a) s = Some (unlock_foo t a (goto t (RDestroy a) s))"
| "rele_run t (RDestroy a) s = Some (destroy_lock a (goto t (RFree a) s))"
| "rele_run t (RFree a) s = Some (free_foo a (goto t Idle s))"
| "rele_run t q s = None"

definition foo_rele :: "nat \<Rightarrow> call \<Rightarrow> pc2 \<Rightarrow> pc2 foo_sys \<Rightarrow> pc2 foo_sys outcome option" where
  "foo_rele t c q s = (case c of
       Rele a \<Rightarrow> if q = Idle \<and> a \<in> set (hands s t) then Some (Next (goto t (RLock a) (put_ref t a s))) else None
     | Run \<Rightarrow> rele_run t q s
     | _ \<Rightarrow> None)"

definition give :: "nat \<Rightarrow> nat \<Rightarrow> call \<Rightarrow> pc2 \<Rightarrow> pc2 foo_sys \<Rightarrow> pc2 foo_sys outcome option" where
  "give N t c q s = (case c of
       Give a u \<Rightarrow> if q = Idle \<and> a \<in> set (hands s t) \<and> u < N then Some (Next (get_ref u a (put_ref t a s))) else None
     | _ \<Rightarrow> None)"

definition foo2_step :: "nat \<Rightarrow> nat \<Rightarrow> call \<Rightarrow> pc2 foo_sys \<Rightarrow> pc2 foo_sys outcome" where
  \<comment> \<open>a step of thread \<open>t\<close> of \<open>N\<close>; \<open>Wait\<close> also when the thread is not at this call\<close>
  "foo2_step N t c s = (if t < N then first_step [foo_alloc t c (pcs s t) s, foo_hold t c (pcs s t) s, foo_find t c (pcs s t) s, foo_rele t c (pcs s t) s, give N t c (pcs s t) s] else Wait)"

inductive foo2_reach :: "nat \<Rightarrow> pc2 foo_sys \<Rightarrow> bool" for N where
  start: "foo2_reach N (foo_start Idle)"
| step: "foo2_reach N s \<Longrightarrow> foo2_step N t c s = Next s' \<Longrightarrow> foo2_reach N s'"

section \<open>What a step does to the table\<close>

fun event2 :: "pc2 \<Rightarrow> pc2 foo_sys \<Rightarrow> table_op option" where
  \<comment> \<open>where each call takes effect\<close>
  "event2 (AHead k a) s = Some (Insert k a)"
| "event2 (HInc a (Some k)) s = Some (Lookup k (Some a))"
| "event2 (HInc a None) s = Some (Up (f_id s a) a)"
| "event2 (FLoop k None) s = Some (Lookup k None)"
| "event2 (RDec a) s = Some (Down (f_id s a) a)"
| "event2 (RDec2 a) s = Some (Down (f_id s a) a)"
| "event2 (RHead a) s = (if fh s (HASH (f_id s a)) = Some a then Some (Down (f_id s a) a) else None)"
| "event2 (RLink a b) s = Some (Down (f_id s a) a)"
| "event2 q s = None"

end
