(* ===== verification/Mutex2Inv.thy ===== *)
theory Mutex2Inv
  imports Mutex2
begin

text \<open>
  \<open>threads/mutex2.c\<close> is correct in every interleaving: no step uses freed memory, every count is the number of
  references, memory is freed with the last one, the threads do not deadlock, and each call acts at one step as on a plain
  table of objects.
\<close>

section \<open>Ownership\<close>

fun hh2 :: "pc2 \<Rightarrow> bool" where
  "hh2 (ANext k a) = True" | "hh2 (AHead k a) = True" | "hh2 (ALock a) = True" | "hh2 (AUnlHash a) = True"
| "hh2 (HLock a w) = (w \<noteq> None)" | "hh2 (HInc a w) = (w \<noteq> None)" | "hh2 (HUnl a w) = (w \<noteq> None)"
| "hh2 (FStart k) = True" | "hh2 (FLoop k p) = True" | "hh2 (FUnl k r) = True"
| "hh2 (RRelock a) = True" | "hh2 (RRetest a) = True" | "hh2 (RDec2 a) = True" | "hh2 (RUnl2 a) = True" | "hh2 RUnlHash2 = True"
| "hh2 (RHead a) = True" | "hh2 (RWalk a p) = True" | "hh2 (RLink a b) = True" | "hh2 (RUnlHash a) = True"
| "hh2 q = False"

fun hf2 :: "pc2 \<Rightarrow> nat option" where
  "hf2 (AUnlHash a) = Some a" | "hf2 (AUnl a) = Some a" | "hf2 (HInc a w) = Some a" | "hf2 (HUnl a w) = Some a"
| "hf2 (RTest a) = Some a" | "hf2 (RDec a) = Some a" | "hf2 (RUnl a) = Some a" | "hf2 (RAway a) = Some a"
| "hf2 (RRetest a) = Some a" | "hf2 (RDec2 a) = Some a" | "hf2 (RUnl2 a) = Some a"
| "hf2 (RHead a) = Some a" | "hf2 (RWalk a p) = Some a" | "hf2 (RLink a b) = Some a" | "hf2 (RUnlHash a) = Some a" | "hf2 (RUnlLast a) = Some a"
| "hf2 q = None"

fun owned2 :: "pc2 \<Rightarrow> (nat \<times> nat) option" where
  \<comment> \<open>the object the call has references to, and how many\<close>
  "owned2 (AInit k a) = Some (a, 1)" | "owned2 (AHash k a) = Some (a, 1)" | "owned2 (ANext k a) = Some (a, 1)" | "owned2 (AHead k a) = Some (a, 1)"
| "owned2 (ALock a) = Some (a, 1)" | "owned2 (AUnlHash a) = Some (a, 1)" | "owned2 (AUnl a) = Some (a, 1)"
| "owned2 (HLock a w) = (if w = None then Some (a, 1) else None)" | "owned2 (HInc a w) = (if w = None then Some (a, 1) else None)"
| "owned2 (HUnl a w) = Some (a, if w = None then 2 else 1)" | "owned2 (FUnl k r) = map_option (\<lambda>a. (a, 1)) r"
| "owned2 (RLock a) = Some (a, 1)" | "owned2 (RTest a) = Some (a, 1)" | "owned2 (RDec a) = Some (a, 1)" | "owned2 (RAway a) = Some (a, 1)"
| "owned2 (RHash a) = Some (a, 1)" | "owned2 (RRelock a) = Some (a, 1)" | "owned2 (RRetest a) = Some (a, 1)" | "owned2 (RDec2 a) = Some (a, 1)"
| "owned2 (RHead a) = Some (a, 1)" | "owned2 (RWalk a p) = Some (a, 1)" | "owned2 (RLink a b) = Some (a, 1)" | "owned2 (RUnlHash a) = Some (a, 1)"
| "owned2 (RUnlLast a) = Some (a, 1)" | "owned2 (RDestroy a) = Some (a, 1)" | "owned2 (RFree a) = Some (a, 1)"
| "owned2 q = None"

definition own2 :: "pc2 \<Rightarrow> nat \<Rightarrow> nat" where
  "own2 q a = (case owned2 q of None \<Rightarrow> 0 | Some (b, n) \<Rightarrow> if b = a then n else 0)"

fun sole2 :: "pc2 \<Rightarrow> nat option" where
  "sole2 (AInit k a) = Some a" | "sole2 (AHash k a) = Some a" | "sole2 (ANext k a) = Some a" | "sole2 (AHead k a) = Some a"
| "sole2 (RHead a) = Some a" | "sole2 (RWalk a p) = Some a" | "sole2 (RLink a b) = Some a" | "sole2 (RUnlHash a) = Some a"
| "sole2 (RUnlLast a) = Some a" | "sole2 (RDestroy a) = Some a" | "sole2 (RFree a) = Some a"
| "sole2 q = None"

fun priv2 :: "pc2 \<Rightarrow> bool" where
  "priv2 (AInit k a) = True" | "priv2 (AHash k a) = True" | "priv2 (ANext k a) = True" | "priv2 (AHead k a) = True"
| "priv2 (RUnlHash a) = True" | "priv2 (RUnlLast a) = True" | "priv2 (RDestroy a) = True" | "priv2 (RFree a) = True"
| "priv2 q = False"

fun raw2 :: "pc2 \<Rightarrow> bool" where
  "raw2 (AInit k a) = True" | "raw2 (RFree a) = True" | "raw2 q = False"

fun cnt2 :: "pc2 \<Rightarrow> nat \<Rightarrow> bool" where
  "cnt2 (RDec a) b = (b = a)" | "cnt2 (RDec2 a) b = (b = a)" | "cnt2 q b = False"

fun loc2 :: "pc2 foo_sys \<Rightarrow> chains \<Rightarrow> pc2 \<Rightarrow> bool" where
  "loc2 s L (AInit k a) = (f_id s a = k)"
| "loc2 s L (AHash k a) = (f_id s a = k)"
| "loc2 s L (ANext k a) = (f_id s a = k)"
| "loc2 s L (AHead k a) = (f_id s a = k \<and> f_next s a = fh s (HASH k))"
| "loc2 s L (FLoop k p) = walk_at k p L s"
| "loc2 s L (HLock a w) = (\<forall>k. w = Some k \<longrightarrow> found_at k a L s)"
| "loc2 s L (HInc a w) = (\<forall>k. w = Some k \<longrightarrow> found_at k a L s)"
| "loc2 s L (HUnl a w) = (\<forall>k. w = Some k \<longrightarrow> found_at k a L s)"
| "loc2 s L (FUnl k r) = (case r of None \<Rightarrow> walk_at k None L s | Some a \<Rightarrow> found_at k a L s)"
| "loc2 s L (RDec a) = (f_count s a \<noteq> 1)"
| "loc2 s L (RDec2 a) = (f_count s a \<noteq> 1)"
| "loc2 s L (RWalk a p) = before_at a p L s"
| "loc2 s L (RLink a b) = linked_at a b L s"
| "loc2 s L q = True"

lemma own2_finite: "finite {a. own2 q a > 0}"
proof (cases "owned2 q")
  case (Some p)
  have "{a. own2 q a > 0} \<subseteq> {fst p}" unfolding own2_def Some by (cases p) auto
  then show ?thesis by (rule finite_subset) simp
qed (simp add: own2_def)

interpretation m2: foo_program Idle hh2 hf2 own2 sole2 priv2 raw2 cnt2 loc2
proof (unfold_locales, goal_cases)
  case (8 q)
  then show ?case by (cases q) simp_all
next
  case (7 q a)
  then show ?case by (cases q) simp_all
next
  case (9 s L q L' s')
  have f: "walk_at k p L s \<Longrightarrow> hh2 q \<Longrightarrow> walk_at k p L' s'" "found_at k a L s \<Longrightarrow> hh2 q \<Longrightarrow> found_at k a L' s'" for k a p
    using 9(2) walk_frame[of k p L s s'] found_frame[of k a L s s'] by auto
  show ?case using 9 f by (cases q) (auto simp: before_at_def linked_at_def split: option.splits)
qed (simp_all add: own2_finite, simp_all add: own2_def)

section \<open>Every step is good\<close>

lemmas m2_simps = m2.same_refs_def handed_def own2_def

lemma m2_lock_own:
  assumes i: "m2.inv N L s" and t: "t < N" and a: "handed own2 (pcs s t) (hands s t) a > 0" and q: "\<not> raw2 (pcs s t)"
  shows "a \<in> alive s" "f_lock s a \<noteq> Raw" "sole2 (pcs s u) = Some a \<Longrightarrow> u = t"
  using m2.inv_owner[OF i t a] m2.inv_raw[OF i t a q] m2.inv_sole_other[OF i t a] by blast+

lemma alloc_run_good:
  assumes i: "m2.inv N L s" and t: "t < N" and r: "alloc_run t (pcs s t) s = Some r"
  shows "m2.good N L s (event2 (pcs s t) s) r"
proof (cases "pcs s t")
  case (AInit k a)
  then show ?thesis using r m2.inv_loc[OF i, of t] by (auto intro!: m2.good_init_lock[OF i t] simp: m2_simps)
next
  case (AHash k a)
  then show ?thesis using r m2.inv_loc[OF i, of t] by (auto intro!: m2.good_lock_hash[OF i t] simp: m2_simps)
next
  case (ANext k a)
  then have "m2.good N L s None (Next (goto t (AHead k a) (set_next a (fh s (HASH k)) s)))"
    using m2.inv_loc[OF i, of t] by (intro m2.good_link[OF i t]) (simp_all add: m2_simps goto_def set_next_def)
  then show ?thesis using r ANext m2.inv_sole[OF i, of t a] by (auto intro!: m2.good_deref)
next
  case (AHead k a)
  then show ?thesis using r m2.inv_loc[OF i, of t] by (auto intro!: m2.good_insert[OF i t] simp: own2_def fun_eq_iff)
next
  case (ALock a)
  then show ?thesis using r m2_lock_own[OF i t, of a] by (auto intro!: m2.good_lock_foo[OF i t] simp: m2_simps)
next
  case (AUnlHash a)
  then show ?thesis using r by (auto intro!: m2.good_unlock_hash[OF i t, of s "hands s t"] simp: m2_simps)
next
  case (AUnl a)
  then have "m2.good N L s None (unlock_foo t a (goto t Idle (get_ref t a s)))"
    by (intro m2.good_unlock_foo[OF i t, of _ "a # hands s t"]) (simp_all add: m2_simps get_ref_def)
  then show ?thesis using r AUnl by auto
qed (use r in simp_all)

lemma hold_run_good:
  assumes i: "m2.inv N L s" and t: "t < N" and r: "hold_run t (pcs s t) s = Some r"
  shows "m2.good N L s (event2 (pcs s t) s) r"
proof (cases "pcs s t")
  case (HLock a w)
  show ?thesis
  proof (cases w)
    case None
    then show ?thesis using r HLock m2_lock_own[OF i t, of a] by (auto intro!: m2.good_lock_foo[OF i t] simp: m2_simps)
  next
    case (Some k)
    then have f: "found_at k a L s" "a \<in> set (L (HASH k))" using m2.inv_loc[OF i, of t] HLock found_in by auto
    have "f_lock s a \<noteq> Raw" "a \<in> alive s" using m2.inv_raw_linked[OF i f(2), of t] m2.inv_chain(3)[OF i f(2)] HLock Some by auto
    then show ?thesis using r HLock Some f m2.inv_sole_linked[OF i f(2), of t] by (auto intro!: m2.good_lock_foo[OF i t] simp: m2_simps)
  qed
next
  case (HInc a w)
  show ?thesis
  proof (cases w)
    case None
    then have o: "handed own2 (pcs s t) (hands s t) a > 0" using HInc by (simp add: handed_def own2_def)
    have a: "a \<in> alive s" "\<And>u. sole2 (pcs s u) \<noteq> Some a" using m2_lock_own[OF i t o] HInc by auto
    have l: "a \<in> set (L (HASH (f_id s a)))" using m2.inv_linked[OF i t o] HInc by simp
    have c: "f_count s a > 0" using m2.inv_positive[OF i l] a(2) by blast
    have u: "u \<noteq> t \<Longrightarrow> \<not> cnt2 (pcs s u) a" for u using m2.inv_hf_unique[OF i, of t a u] m2.cnt_held[of "pcs s u" a] HInc by auto
    have "table_step (Up (f_id s a) a) (table_of L s) = Some (bump (f_id s a) a 1 (table_of L s))" using l c by (simp add: fst_table_of)
    then have "m2.good N L s (Some (Up (f_id s a) a)) (Next (goto t (HUnl a w) (set_count a (f_count s a + 1) s)))"
      by (intro m2.good_count[OF i t a(1)]) (use HInc None c a u in \<open>auto simp: own2_def\<close>)
    then show ?thesis using r HInc None a(1) by (auto simp: increment_def deref_def m2.good_def[of _ _ _ _ "Bad e" for e] goto_def set_count_def upd_order)
  next
    case (Some k)
    then have f: "found_at k a L s" "a \<in> set (L (HASH k))" "f_id s a = k" using m2.inv_loc[OF i, of t] HInc found_in by auto
    have a: "a \<in> alive s" using m2.inv_chain(3)[OF i f(2)] by blast
    have so: "sole2 (pcs s u) \<noteq> Some a" for u using m2.inv_sole_linked[OF i f(2), of t u] HInc Some by auto
    have c: "f_count s a > 0" using m2.inv_positive[OF i f(2)] so by blast
    have u: "u \<noteq> t \<Longrightarrow> \<not> cnt2 (pcs s u) a" for u using m2.inv_hf_unique[OF i, of t a u] m2.cnt_held[of "pcs s u" a] HInc by auto
    have "found_at k a L (goto t (HUnl a w) (set_count a (f_count s a + 1) s))"
      by (rule found_frame[OF f(1)]) (simp add: goto_def set_count_def)
    then have "m2.good N L s (Some (Lookup k (Some a))) (Next (goto t (HUnl a w) (set_count a (f_count s a + 1) s)))"
      by (intro m2.good_count[OF i t a]) (use HInc Some c a u so f(3) found_table[OF f(1) c] in \<open>auto simp: own2_def simp del: table_step.simps\<close>)
    then show ?thesis using r HInc Some a by (auto simp: increment_def deref_def m2.good_def[of _ _ _ _ "Bad e" for e] goto_def set_count_def upd_order)
  qed
next
  case (HUnl a w)
  show ?thesis
  proof (cases w)
    case None
    then have "m2.good N L s None (unlock_foo t a (goto t Idle (get_ref t a (get_ref t a s))))"
      using HUnl by (intro m2.good_unlock_foo[OF i t, of _ "a # a # hands s t"]) (simp_all add: m2_simps get_ref_def)
    then show ?thesis using r HUnl None by auto
  next
    case (Some k)
    then show ?thesis using r HUnl m2.inv_loc[OF i, of t] by (auto intro!: m2.good_unlock_foo[OF i t, of s "hands s t"] simp: m2_simps)
  qed
qed (use r in simp_all)

lemma find_run_good:
  assumes i: "m2.inv N L s" and t: "t < N" and r: "find_run t (pcs s t) s = Some r"
  shows "m2.good N L s (event2 (pcs s t) s) r"
proof (cases "pcs s t")
  case (FHash k)
  then show ?thesis using r by (auto intro!: m2.good_lock_hash[OF i t] simp: m2_simps)
next
  case (FStart k)
  then show ?thesis using r walk_start[of s k L] m2.inv_chain(1)[OF i, of "HASH k"]
    by (auto intro!: m2.good_goto[OF i t, of s "hands s t"] simp: m2_simps)
next
  case (FLoop k p)
  then have w: "walk_at k p L s" using m2.inv_loc[OF i, of t] by simp
  show ?thesis
  proof (cases p)
    case None
    have "m2.good N L s None (Next (goto t (FUnl k None) s))" using FLoop None w by (intro m2.good_goto[OF i t, of s "hands s t"]) (simp_all add: m2_simps)
    then show ?thesis using r FLoop None w walk_end[of k L s] by (auto intro!: m2.good_stutter)
  next
    case (Some a)
    have "a \<in> alive s" using walk_step(1) w Some m2.inv_chain(3)[OF i] by blast
    then show ?thesis using r FLoop Some w walk_step(2)[of k a L s]
      by (auto intro!: m2.good_deref m2.good_goto[OF i t, of s "hands s t"] simp: m2_simps split: if_splits)
  qed
next
  case (FUnl k p)
  show ?thesis
  proof (cases p)
    case None
    then show ?thesis using r FUnl by (auto intro!: m2.good_unlock_hash[OF i t, of s "hands s t"] simp: m2_simps)
  next
    case (Some a)
    then have "m2.good N L s None (unlock_hash t (goto t Idle (get_ref t a s)))"
      using FUnl by (intro m2.good_unlock_hash[OF i t, of _ "a # hands s t"]) (simp_all add: m2_simps get_ref_def)
    then show ?thesis using r FUnl Some by auto
  qed
qed (use r in simp_all)

lemma down2:
  assumes i: "m2.inv N L s" and t: "t < N" and h: "hf2 (pcs s t) = Some a" "own2 (pcs s t) a = 1" "sole2 (pcs s t) = None" "\<not> raw2 (pcs s t)" "f_count s a \<noteq> 1"
    and q: "hf2 q = Some a" "hh2 q = hh2 (pcs s t)" "\<And>b. own2 q b = (if b = a then 0 else own2 (pcs s t) b)" "sole2 q = None" "\<not> raw2 q" "\<And>s L. loc2 s L q" "\<not> priv2 (pcs s t)"
  shows "m2.good N L s (Some (Down (f_id s a) a)) (deref a s (Next (goto t q (set_count a (f_count s a - 1) s))))"
proof -
  have o: "handed own2 (pcs s t) (hands s t) a > 0" using h(2) by (simp add: handed_def)
  have a: "a \<in> alive s" "\<And>u. sole2 (pcs s u) \<noteq> Some a" using m2_lock_own[OF i t o h(4)] h(3) by auto
  have l: "a \<in> set (L (HASH (f_id s a)))" using m2.inv_linked[OF i t o q(7)] .
  have c: "f_count s a > 0" using m2.inv_positive[OF i l] a(2) by blast
  have u: "u \<noteq> t \<Longrightarrow> \<not> cnt2 (pcs s u) a" for u using m2.inv_hf_unique[OF i h(1), of u] m2.cnt_held[of "pcs s u" a] by auto
  have e: "table_step (Down (f_id s a) a) (table_of L s) = Some (bump (f_id s a) a (-1) (table_of L s))" using l c by (simp add: fst_table_of)
  have "m2.good N L s (Some (Down (f_id s a) a)) (Next (goto t q (set_count a (f_count s a + (-1)) s)))"
    by (rule m2.good_count[OF i t a(1)]) (use h q c a u e in auto)
  then show ?thesis using a(1) by (simp add: m2.good_deref)
qed

lemma rele_run_good_lock:
  assumes i: "m2.inv N L s" and t: "t < N" and r: "rele_run t (pcs s t) s = Some r"
    and q: "pcs s t \<in> {RLock a, RTest a, RDec a, RUnl a, RAway a, RHash a, RRelock a}"
  shows "m2.good N L s (event2 (pcs s t) s) r"
  using q
proof (elim insertE emptyE)
  assume q: "pcs s t = RLock a"
  then show ?thesis using r m2_lock_own[OF i t, of a] by (auto intro!: m2.good_lock_foo[OF i t] simp: m2_simps)
next
  assume q: "pcs s t = RTest a"
  then show ?thesis using r m2.inv_held[OF i, of t a]
    by (cases "f_count s a = 1") (auto intro!: m2.good_deref m2.good_goto[OF i t, of s "hands s t"] simp: m2_simps)
next
  assume q: "pcs s t = RDec a"
  then have "m2.good N L s (Some (Down (f_id s a) a)) (deref a s (Next (goto t (RUnl a) (set_count a (f_count s a - 1) s))))"
    using m2.inv_loc[OF i, of t] by (intro down2[OF i t]) (simp_all add: own2_def)
  then show ?thesis using r q by auto
next
  assume q: "pcs s t = RUnl a"
  then show ?thesis using r by (auto intro!: m2.good_unlock_foo[OF i t, of s "hands s t"] simp: m2_simps)
next
  assume q: "pcs s t = RAway a"
  then show ?thesis using r by (auto intro!: m2.good_unlock_foo[OF i t, of s "hands s t"] simp: m2_simps)
next
  assume q: "pcs s t = RHash a"
  then show ?thesis using r by (auto intro!: m2.good_lock_hash[OF i t] simp: m2_simps)
next
  assume q: "pcs s t = RRelock a"
  then show ?thesis using r m2_lock_own[OF i t, of a] by (auto intro!: m2.good_lock_foo[OF i t] simp: m2_simps)
qed

lemma rele_run_good_last:
  assumes i: "m2.inv N L s" and t: "t < N" and r: "rele_run t (pcs s t) s = Some r"
    and q: "\<forall>a. pcs s t \<notin> {RLock a, RTest a, RDec a, RUnl a, RAway a, RHash a, RRelock a}"
  shows "m2.good N L s (event2 (pcs s t) s) r"
proof (cases "pcs s t")
  case (RRetest a)
  have h: "a \<in> alive s" "hf2 (pcs s u) = Some a \<Longrightarrow> u = t" for u using m2.inv_held[OF i, of t a] m2.inv_hf_unique[OF i, of t a u] RRetest by auto
  have u: "u \<noteq> t \<Longrightarrow> \<not> cnt2 (pcs s u) a" for u using h(2)[of u] m2.cnt_held[of "pcs s u" a] by auto
  show ?thesis
  proof (cases "f_count s a = 1")
    case True
    then have "m2.good N L s None (Next (goto t (RHead a) s))"
      using RRetest h u by (intro m2.good_claim[OF i t h(1)]) (auto simp: own2_def fun_eq_iff)
    then show ?thesis using r RRetest h True by (auto intro!: m2.good_deref)
  next
    case False
    then show ?thesis using r RRetest h by (auto intro!: m2.good_deref m2.good_goto[OF i t, of s "hands s t"] simp: m2_simps)
  qed
next
  case (RDec2 a)
  then have "m2.good N L s (Some (Down (f_id s a) a)) (deref a s (Next (goto t (RUnl2 a) (set_count a (f_count s a - 1) s))))"
    using m2.inv_loc[OF i, of t] by (intro down2[OF i t]) (simp_all add: own2_def)
  then show ?thesis using r RDec2 by auto
next
  case (RUnl2 a)
  then show ?thesis using r by (auto intro!: m2.good_unlock_foo[OF i t, of s "hands s t"] simp: m2_simps)
next
  case RUnlHash2
  then show ?thesis using r by (auto intro!: m2.good_unlock_hash[OF i t, of s "hands s t"] simp: m2_simps)
next
  case (RHead a)
  let ?k = "f_id s a"
  have l: "a \<in> set (L (HASH ?k))" using m2.inv_linked[OF i t, of a] RHead by (simp add: handed_def own2_def)
  have a: "a \<in> alive s" using m2.inv_held[OF i, of t a] RHead by simp
  show ?thesis
  proof (cases "fh s (HASH ?k) = Some a")
    case True
    have "m2.good N L s (Some (Down ?k a)) (Next (goto t (RUnlHash a) (set_head (HASH ?k) (f_next s a) s)))"
      by (rule m2.good_unlink[OF i t, where nx = "f_next s" and p = "f_next s a" and k = ?k])
        (use RHead True l head_unlink[of s "HASH ?k" L a, OF m2.inv_chain(1)[OF i] True l] in \<open>auto simp: set_head_def own2_def fun_eq_iff\<close>)
    then show ?thesis using r RHead True a by (auto simp: Let_def intro!: m2.good_deref)
  next
    case False
    have "before_at a (fh s (HASH ?k)) L s" by (rule before_head[of s "HASH ?k" L a, OF m2.inv_chain(1)[OF i] refl l False])
    then show ?thesis using r RHead False a by (auto simp: Let_def m2_simps intro!: m2.good_deref m2.good_goto[OF i t, of s "hands s t"])
  qed
next
  case (RWalk a p)
  then have b: "before_at a p L s" using m2.inv_loc[OF i, of t] by simp
  then obtain b where p: "p = Some b" "b \<in> set (L (HASH (f_id s a)))" unfolding before_at_def by auto
  have "b \<in> alive s" using m2.inv_chain(3)[OF i p(2)] by blast
  then show ?thesis using r RWalk b p before_step[of s "HASH (f_id s a)" L a b, OF m2.inv_chain(1)[OF i] m2.inv_chain(2)[OF i] refl]
    by (auto intro!: m2.good_deref m2.good_goto[OF i t, of s "hands s t"] simp: m2_simps split: if_splits)
next
  case (RLink a b)
  let ?k = "f_id s a"
  have l: "a \<in> set (L (HASH ?k))" using m2.inv_linked[OF i t, of a] RLink by (simp add: handed_def own2_def)
  have k: "linked_at a b L s" using m2.inv_loc[OF i, of t] RLink by simp
  note c = linked_unlink[of s "HASH ?k" L a b, OF m2.inv_chain(1)[OF i] m2.inv_chain(2)[OF i] refl k]
  have a: "a \<in> alive s" "b \<in> alive s" using m2.inv_held[OF i, of t a] RLink m2.inv_chain(3)[OF i c(2)] by auto
  have "m2.good N L s (Some (Down ?k a)) (Next (goto t (RUnlHash a) (set_next b (f_next s a) s)))"
    by (rule m2.good_unlink[OF i t, where nx = "(f_next s)(b := f_next s a)" and p = "fh s (HASH ?k)" and k = ?k])
      (use RLink l c in \<open>auto simp: set_next_def own2_def fun_eq_iff\<close>)
  then show ?thesis using r RLink a by (auto intro!: m2.good_deref)
next
  case (RUnlHash a)
  then show ?thesis using r by (auto intro!: m2.good_unlock_hash[OF i t, of s "hands s t"] simp: m2_simps)
next
  case (RUnlLast a)
  then show ?thesis using r by (auto intro!: m2.good_unlock_foo[OF i t, of s "hands s t"] simp: m2_simps)
next
  case (RDestroy a)
  then show ?thesis using r by (auto intro!: m2.good_destroy[OF i t] simp: m2_simps)
next
  case (RFree a)
  then show ?thesis using r m2.no_hands[OF i t, of a] by (auto intro!: m2.good_free[OF i t] simp: m2_simps)
qed (use r q in auto)

definition event2_of :: "nat \<Rightarrow> call \<Rightarrow> pc2 foo_sys \<Rightarrow> table_op option" where
  "event2_of t c s = (if c = Run then event2 (pcs s t) s else None)"

lemma foo2_step_good:
  assumes i: "m2.inv N L s"
  shows "m2.good N L s (event2_of t c s) (foo2_step N t c s)"
proof (cases "t < N")
  case t: True
  have w: "m2.good N L s ev Wait" for ev by (simp add: m2.good_def)
  show ?thesis
  proof (cases "c = Run")
    case True
    have "foo_rele t Run (pcs s t) s = Some r \<Longrightarrow> m2.good N L s (event2 (pcs s t) s) r" for r
      using rele_run_good_lock[OF i t, of r] rele_run_good_last[OF i t, of r] by (auto simp: foo_rele_def)
    note rele = this
    have e: "foo_alloc t Run (pcs s t) s = alloc_run t (pcs s t) s" "foo_hold t Run (pcs s t) s = hold_run t (pcs s t) s"
      "foo_find t Run (pcs s t) s = find_run t (pcs s t) s" "give N t Run (pcs s t) s = None"
      by (simp_all add: foo_alloc_def foo_hold_def foo_find_def give_def)
    have "m2.good N L s (event2 (pcs s t) s) (foo2_step N t Run s)"
      unfolding foo2_step_def if_P[OF t] e
    proof (rule first_step_elem)
      fix r
      assume "Some r \<in> set [alloc_run t (pcs s t) s, hold_run t (pcs s t) s, find_run t (pcs s t) s, foo_rele t Run (pcs s t) s, None]"
      then have "alloc_run t (pcs s t) s = Some r \<or> hold_run t (pcs s t) s = Some r \<or> find_run t (pcs s t) s = Some r \<or> foo_rele t Run (pcs s t) s = Some r"
        unfolding list.set by (elim insertE) (simp_all only: eq_commute[of "Some r"] empty_iff simp_thms option.distinct)
      then show "m2.good N L s (event2 (pcs s t) s) r"
        using alloc_run_good[OF i t] hold_run_good[OF i t] find_run_good[OF i t] rele by blast
    qed (rule w)
    then show ?thesis using True t by (simp add: event2_of_def)
  next
    case False
    show ?thesis
    proof (cases "pcs s t = Idle")
      case p: True
      have e: "event2_of t c s = None" using False by (simp add: event2_of_def)
      show ?thesis
      proof (cases c)
        case (Alloc k m)
        have "a \<notin> alive s \<Longrightarrow> m2.good N L s None (Next (goto t (AInit k a) (new_foo a k s)))" for a
          by (rule m2.good_new[OF i t]) (use p in \<open>auto simp: own2_def goto_def new_foo_def\<close>)
        moreover have "m2.good N L s None (Next s)" using i by (intro m2.good_same) simp_all
        ultimately show ?thesis unfolding e using t p w Alloc
          by (auto simp: foo2_step_def foo_alloc_def foo_hold_def foo_find_def foo_rele_def give_def split: option.splits)
      next
        case (Find k)
        have "m2.good N L s None (Next (goto t (FHash k) s))"
          using p by (intro m2.good_goto[OF i t, of s "hands s t"]) (simp_all add: m2_simps)
        then show ?thesis unfolding e using t p Find by (simp add: foo2_step_def foo_alloc_def foo_hold_def foo_find_def)
      next
        case (Hold a)
        have "a \<in> set (hands s t) \<Longrightarrow> m2.good N L s None (Next (goto t (HLock a None) (put_ref t a s)))"
          by (rule m2.good_enter[OF i t p]) (auto simp: own2_def)
        then show ?thesis unfolding e using t p Hold w by (auto simp: foo2_step_def foo_alloc_def foo_hold_def foo_find_def foo_rele_def give_def)
      next
        case (Rele a)
        have "a \<in> set (hands s t) \<Longrightarrow> m2.good N L s None (Next (goto t (RLock a) (put_ref t a s)))"
          by (rule m2.good_enter[OF i t p]) (auto simp: own2_def)
        then show ?thesis unfolding e using t p Rele w by (auto simp: foo2_step_def foo_alloc_def foo_hold_def foo_find_def foo_rele_def give_def)
      next
        case (Give a u)
        then show ?thesis unfolding e using t p w m2.good_give[OF i t, of u a]
          by (auto simp: foo2_step_def foo_alloc_def foo_hold_def foo_find_def foo_rele_def give_def)
      qed (use p w False in \<open>auto simp: foo2_step_def foo_alloc_def foo_hold_def foo_find_def foo_rele_def give_def\<close>)
    next
      case p: False
      have e: "event2_of t c s = None" using False by (simp add: event2_of_def)
      have "m2.good N L s None (free_foo a (goto t Idle s))" if "pcs s t = AInit k a" for k a
        by (rule m2.good_free[OF i t]) (use that m2.no_hands[OF i t, of a] in \<open>auto simp: m2_simps\<close>)
      then show ?thesis unfolding e using p False t w
        by (cases c) (auto simp: foo2_step_def foo_alloc_def foo_hold_def foo_find_def foo_rele_def give_def split: pc2.splits)
    qed
  qed
qed (simp add: foo2_step_def m2.good_def)

section \<open>The program\<close>

lemma foo2_reach_inv: "foo2_reach N s \<Longrightarrow> \<exists>L. m2.inv N L s"
proof (induction rule: foo2_reach.induct)
  case start
  then show ?case using m2.inv_start by blast
next
  case (step s t c s')
  then obtain L where "m2.inv N L s" by blast
  then show ?case using foo2_step_good[of N L s t c] step.hyps(2) by (auto simp: m2.good_def)
qed

fun wants2 :: "pc2 \<Rightarrow> nat option" where
  "wants2 (ALock a) = Some a" | "wants2 (HLock a w) = Some a" | "wants2 (RLock a) = Some a" | "wants2 (RRelock a) = Some a" | "wants2 q = None"

lemma run_cases:
  "hold_run t (HUnl a w) s = Some (unlock_foo t a (case w of None \<Rightarrow> goto t Idle (get_ref t a (get_ref t a s)) | Some k \<Rightarrow> goto t (FUnl k (Some a)) s))"
  "find_run t (FLoop k p) s = Some (case p of None \<Rightarrow> Next (goto t (FUnl k None) s) | Some a \<Rightarrow> deref a s (Next (goto t (if f_id s a = k then HLock a (Some k) else FLoop k (f_next s a)) s)))"
  "rele_run t (RWalk a p) s = Some (case p of None \<Rightarrow> Bad NullPointer | Some b \<Rightarrow> deref b s (Next (goto t (if f_next s b = Some a then RLink a b else RWalk a (f_next s b)) s)))"
  by (cases w; simp) (cases p; simp)+

lemma foo2_waits:
  assumes "t < N" "pcs s t \<noteq> Idle" "foo2_step N t Run s = Wait"
  shows "(\<not> hh2 (pcs s t) \<and> hf2 (pcs s t) = None \<and> hashlock s \<noteq> None) \<or> (\<exists>a u. wants2 (pcs s t) = Some a \<and> a \<in> alive s \<and> f_lock s a = Held u)"
  using assms
  by (cases "pcs s t")
    (auto simp: foo2_step_def foo_alloc_def foo_hold_def foo_find_def foo_rele_def run_cases sync_defs Let_def goto_def split: if_splits mutex.splits option.splits)

lemma foo2_progress:
  assumes i: "m2.inv N L s" and t: "t < N" "pcs s t \<noteq> Idle"
  shows "\<exists>u<N. pcs s u \<noteq> Idle \<and> foo2_step N u Run s \<noteq> Wait"
proof -
  have below: "pcs s u \<noteq> Idle \<Longrightarrow> u < N" for u using i unfolding m2.inv_def by (metis not_le)
  have holder: "foo2_step N v Run s \<noteq> Wait" if "hf2 (pcs s v) = Some a" for v a
  proof
    assume w: "foo2_step N v Run s = Wait"
    have "pcs s v \<noteq> Idle" "wants2 (pcs s v) = None" using that by (cases "pcs s v"; simp)+
    then show False using foo2_waits[OF below _ w] that by auto
  qed
  have other: "\<exists>v<N. pcs s v \<noteq> Idle \<and> foo2_step N v Run s \<noteq> Wait" if "a \<in> alive s" "f_lock s a = Held v" for a v
  proof -
    have h: "hf2 (pcs s v) = Some a" using i that unfolding m2.inv_def m2.mutex_ok_def by blast
    then have "pcs s v \<noteq> Idle" by auto
    then show ?thesis using holder[OF h] below by blast
  qed
  have moves: ?thesis if u: "pcs s u \<noteq> Idle" "hh2 (pcs s u) \<or> hashlock s = None" for u
  proof (cases "foo2_step N u Run s = Wait")
    case True
    then show ?thesis using foo2_waits[OF below[OF u(1)] u(1) True] u(2) other by auto
  qed (use u below in blast)
  show ?thesis
  proof (cases "hashlock s")
    case (Some u)
    then have "hh2 (pcs s u)" using i unfolding m2.inv_def m2.hash_ok_def by blast
    moreover from this have "pcs s u \<noteq> Idle" by auto
    ultimately show ?thesis using moves[of u] by blast
  qed (use moves[of t] t in simp)
qed

fun foo2_run :: "nat \<Rightarrow> (nat \<times> call) list \<Rightarrow> pc2 foo_sys \<Rightarrow> pc2 foo_sys option" where
  \<comment> \<open>the state after these steps\<close>
  "foo2_run N [] s = Some s"
| "foo2_run N ((t, c) # xs) s = (case foo2_step N t c s of Next s' \<Rightarrow> foo2_run N xs s' | _ \<Rightarrow> None)"

lemma foo2_run_reach: "foo2_run N xs s = Some s' \<Longrightarrow> foo2_reach N s \<Longrightarrow> foo2_reach N s'"
proof (induction xs arbitrary: s)
  case (Cons x xs)
  obtain t c where x: "x = (t, c)" by (cases x)
  from Cons.prems(1) x obtain s1 where "foo2_step N t c s = Next s1" "foo2_run N xs s1 = Some s'" by (auto split: outcome.splits)
  then show ?case using Cons.IH Cons.prems(2) foo2_reach.step by blast
qed simp

definition alloc_call :: "(nat \<times> call) list" where
  \<comment> \<open>thread 0 allocates an object for key 5 at address 10\<close>
  "alloc_call = (0, Alloc 5 (Some 10)) # replicate 7 (0, Run)"

definition find_call :: "(nat \<times> call) list" where
  \<comment> \<open>thread 1 finds it\<close>
  "find_call = (1, Find 5) # replicate 7 (1, Run)"

definition shared :: "pc2 foo_sys" where
  \<comment> \<open>both have a reference\<close>
  "shared = the (foo2_run 2 (alloc_call @ find_call) (foo_start Idle))"

lemma shared_reach: "foo2_reach 2 shared"
proof -
  have "foo2_run 2 (alloc_call @ find_call) (foo_start Idle) \<noteq> None" by code_simp
  then have "foo2_run 2 (alloc_call @ find_call) (foo_start Idle) = Some shared" by (auto simp: shared_def)
  then show ?thesis using foo2_run_reach foo2_reach.start by blast
qed

section \<open>Properties\<close>

text \<open>C31. In every interleaving no step uses freed memory, follows a null pointer, locks or destroys a mutex it must not, or
  overflows a count, as long as the counts are below \<open>INT_MAX\<close>.\<close>

theorem foo2_no_fault:
  assumes "foo2_reach N s" "\<forall>a\<in>alive s. f_count s a < 2 ^ 31 - 1"
  shows "foo2_step N t c s \<noteq> Bad f"
proof
  assume b: "foo2_step N t c s = Bad f"
  obtain L where "m2.inv N L s" using foo2_reach_inv[OF assms(1)] by blast
  from foo2_step_good[OF this, of t c] b show False using assms(2) by (auto simp: m2.good_def)
qed

theorem foo2_no_fault_witness: "foo2_step 2 0 (Rele 10) shared \<noteq> Bad UseAfterFree"
proof (rule foo2_no_fault[OF shared_reach])
  show "\<forall>a\<in>alive shared. f_count shared a < 2 ^ 31 - 1" by code_simp
qed

text \<open>C32. Every step either leaves the table of objects alone or is the one where its call takes effect, which does there what the
  sequential table does.\<close>

theorem foo2_refines_table:
  assumes "foo2_reach N s" "foo2_step N t c s = Next s'"
  shows "follows (event2_of t c s) (table s) (table s')"
proof -
  obtain L where i: "m2.inv N L s" using foo2_reach_inv[OF assms(1)] by blast
  obtain L' where "m2.inv N L' s'" "follows (event2_of t c s) (table_of L s) (table_of L' s')"
    using foo2_step_good[OF i, of t c] assms(2) by (auto simp: m2.good_def)
  then show ?thesis using m2.inv_table[OF i] m2.inv_table by simp
qed

theorem foo2_refines_table_witness:
  "\<exists>s s'. foo2_run 2 (alloc_call @ take 5 find_call) (foo_start Idle) = Some s \<and> foo2_step 2 1 Run s = Next s' \<and> event2_of 1 Run s = Some (Lookup 5 (Some 10))
     \<and> follows (Some (Lookup 5 (Some 10))) (table s) (table s')"
proof -
  define s where "s = the (foo2_run 2 (alloc_call @ take 5 find_call) (foo_start Idle))"
  have "foo2_run 2 (alloc_call @ take 5 find_call) (foo_start Idle) \<noteq> None" by code_simp
  then have s: "foo2_run 2 (alloc_call @ take 5 find_call) (foo_start Idle) = Some s" by (auto simp: s_def)
  have e: "event2_of 1 Run s = Some (Lookup 5 (Some 10))" unfolding s_def by code_simp
  have "(case foo2_step 2 1 Run s of Next s' \<Rightarrow> True | _ \<Rightarrow> False)" unfolding s_def by code_simp
  then obtain s' where s': "foo2_step 2 1 Run s = Next s'" by (auto split: outcome.splits)
  show ?thesis using foo2_refines_table[OF foo2_run_reach[OF s foo2_reach.start] s'] s s' e by auto
qed

text \<open>At the moment \<open>foo_find\<close> unlocks the table, its result is the newest object with the key, and it returns nothing only when there is
  none.\<close>

theorem foo2_find_result:
  assumes "foo2_reach N s" "pcs s t = FUnl k r"
  shows "r = map_option fst (case table s k of [] \<Rightarrow> None | x # _ \<Rightarrow> Some x)"
proof -
  obtain L where i: "m2.inv N L s" using foo2_reach_inv[OF assms(1)] by blast
  show ?thesis
  proof (cases r)
    case None
    then show ?thesis using m2.inv_loc[OF i, of t] assms(2) walk_end[of k L s] m2.inv_table[OF i] by simp
  next
    case (Some a)
    then have f: "found_at k a L s" using m2.inv_loc[OF i, of t] assms(2) by simp
    have "f_count s a > 0"
      using m2.inv_positive[OF i, of a "HASH k"] found_in[OF f] m2.inv_sole_linked[OF i, of a "HASH k" t] assms(2) by fastforce
    from found_table[OF f this] show ?thesis using Some m2.inv_table[OF i] by (auto split: list.splits if_splits)
  qed
qed

theorem foo2_find_result_witness:
  "\<exists>s. foo2_run 2 (alloc_call @ take 7 find_call) (foo_start Idle) = Some s \<and> pcs s 1 = FUnl 5 (Some 10) \<and> map_option fst (case table s 5 of [] \<Rightarrow> None | x # _ \<Rightarrow> Some x) = Some 10"
proof -
  define s where "s = the (foo2_run 2 (alloc_call @ take 7 find_call) (foo_start Idle))"
  have "foo2_run 2 (alloc_call @ take 7 find_call) (foo_start Idle) \<noteq> None" by code_simp
  then have s: "foo2_run 2 (alloc_call @ take 7 find_call) (foo_start Idle) = Some s" by (auto simp: s_def)
  have p: "pcs s 1 = FUnl 5 (Some 10)" unfolding s_def by code_simp
  show ?thesis using foo2_find_result[OF foo2_run_reach[OF s foo2_reach.start] p] s p by simp
qed

text \<open>C33. When no call is in progress, exactly the objects with a reference are allocated, each is in the table, and its count is the number of
  references: nothing leaks and nothing is freed early.\<close>

theorem foo2_no_leak:
  assumes "foo2_reach N s" "\<forall>t<N. pcs s t = Idle"
  shows "alive s = (\<Union>t<N. set (hands s t)) \<and> (\<forall>a\<in>alive s. f_count s a = int (\<Sum>t<N. count_list (hands s t) a) \<and> (a, f_count s a) \<in> set (table s (f_id s a)))"
proof -
  obtain L where i: "m2.inv N L s" using foo2_reach_inv[OF assms(1)] by blast
  then have "\<forall>t. pcs s t = Idle" using assms(2) unfolding m2.inv_def by (metis not_le)
  then show ?thesis using m2.inv_quiet[OF i] by blast
qed

theorem foo2_no_leak_witness: "alive shared = (\<Union>t<2. set (hands shared t)) \<and> hands shared 0 = [10] \<and> hands shared 1 = [10]"
proof -
  have h: "pcs shared 0 = Idle" "pcs shared 1 = Idle" "hands shared 0 = [10]" "hands shared 1 = [10]" by code_simp+
  then have "\<forall>t<2. pcs shared t = Idle" by (auto simp: less_2_cases_iff)
  then show ?thesis using foo2_no_leak[OF shared_reach] h by blast
qed

text \<open>C34. The threads never deadlock: while a call is in progress, some thread in a call can take its next step.\<close>

theorem foo2_deadlock_free:
  assumes "foo2_reach N s" "t < N" "pcs s t \<noteq> Idle"
  shows "\<exists>u<N. pcs s u \<noteq> Idle \<and> foo2_step N u Run s \<noteq> Wait"
proof -
  obtain L where "m2.inv N L s" using foo2_reach_inv[OF assms(1)] by blast
  then show ?thesis using foo2_progress assms(2,3) by blast
qed

theorem foo2_deadlock_free_witness:
  "\<exists>s. foo2_run 2 (alloc_call @ find_call @ [(0, Rele 10), (0, Run)] @ take 2 find_call @ [(1, Run), (1, Run)]) (foo_start Idle) = Some s
     \<and> foo2_step 2 1 Run s = Wait \<and> (\<exists>u<2. pcs s u \<noteq> Idle \<and> foo2_step 2 u Run s \<noteq> Wait)"
proof -
  let ?xs = "alloc_call @ find_call @ [(0, Rele 10), (0, Run)] @ take 2 find_call @ [(1, Run), (1, Run)]"
  define s where "s = the (foo2_run 2 ?xs (foo_start Idle))"
  have "foo2_run 2 ?xs (foo_start Idle) \<noteq> None" by code_simp
  then have s: "foo2_run 2 ?xs (foo_start Idle) = Some s" by (auto simp: s_def)
  have w: "(case foo2_step 2 1 Run s of Wait \<Rightarrow> True | _ \<Rightarrow> False)" unfolding s_def by code_simp
  have p: "pcs s 1 \<noteq> Idle" unfolding s_def by code_simp
  show ?thesis using foo2_deadlock_free[OF foo2_run_reach[OF s foo2_reach.start] _ p] s w by (auto split: outcome.splits)
qed

end
