(* ===== verification/Mutex3.thy ===== *)
theory Mutex3
  imports FooTable
begin

text \<open>
  \<open>threads/mutex3.c\<close>: \<open>hashlock\<close> protects the chains and the counts, and the mutex of an object is for its other
  data only. The steps are as in \<open>Mutex2\<close>; the two allocators are the same text.
\<close>

section \<open>The functions\<close>

datatype pc3 =
    Idle
  | AInit int nat                 \<comment> \<open>\<open>foo_alloc\<close>: \<open>pthread_mutex_init\<close>\<close>
  | AHash int nat                 \<comment> \<open>lock the table\<close>
  | ANext int nat                 \<comment> \<open>\<open>fp->f_next = fh[idx]\<close>\<close>
  | AHead int nat                 \<comment> \<open>\<open>fh[idx] = fp\<close>\<close>
  | ALock nat                     \<comment> \<open>lock the object\<close>
  | AUnlHash nat                  \<comment> \<open>unlock the table\<close>
  | AUnl nat                      \<comment> \<open>unlock the object\<close>
  | HHash nat                     \<comment> \<open>\<open>foo_hold\<close>: lock the table\<close>
  | HInc nat                      \<comment> \<open>\<open>fp->f_count++\<close>\<close>
  | HUnl nat                      \<comment> \<open>unlock the table\<close>
  | FHash int                     \<comment> \<open>\<open>foo_find\<close>: lock the table\<close>
  | FStart int                    \<comment> \<open>\<open>fp = fh[HASH(id)]\<close>\<close>
  | FLoop int "nat option"        \<comment> \<open>look at this object\<close>
  | FInc int nat                  \<comment> \<open>\<open>fp->f_count++\<close>\<close>
  | FUnl int "nat option"         \<comment> \<open>unlock the table and return this object\<close>
  | RHash nat                     \<comment> \<open>\<open>foo_rele\<close>: lock the table\<close>
  | RDec nat                      \<comment> \<open>\<open>--fp->f_count == 0\<close>\<close>
  | RUnl                          \<comment> \<open>not the last reference: unlock the table and return\<close>
  | RHead nat                     \<comment> \<open>\<open>tfp = fh[idx]\<close>, and unlink when this is the object\<close>
  | RWalk nat "nat option"        \<comment> \<open>\<open>tfp->f_next != fp\<close> with this \<open>tfp\<close>\<close>
  | RLink nat nat                 \<comment> \<open>\<open>tfp->f_next = fp->f_next\<close>\<close>
  | RUnlHash nat                  \<comment> \<open>unlock the table\<close>
  | RDestroy nat                  \<comment> \<open>\<open>pthread_mutex_destroy\<close>\<close>
  | RFree nat                     \<comment> \<open>\<open>free\<close>\<close>

fun alloc_run3 :: "nat \<Rightarrow> pc3 \<Rightarrow> pc3 foo_sys \<Rightarrow> pc3 foo_sys outcome option" where
  "alloc_run3 t (AInit k a) s = Some (init_lock a (goto t (AHash k a) s))"
| "alloc_run3 t (AHash k a) s = Some (lock_hash t (goto t (ANext k a) s))"
| "alloc_run3 t (ANext k a) s = Some (deref a s (Next (goto t (AHead k a) (set_next a (fh s (HASH k)) s))))"
| "alloc_run3 t (AHead k a) s = Some (Next (goto t (ALock a) (set_head (HASH k) (Some a) s)))"
| "alloc_run3 t (ALock a) s = Some (lock_foo t a (goto t (AUnlHash a) s))"
| "alloc_run3 t (AUnlHash a) s = Some (unlock_hash t (goto t (AUnl a) s))"
| "alloc_run3 t (AUnl a) s = Some (unlock_foo t a (goto t Idle (get_ref t a s)))"
| "alloc_run3 t q s = None"

definition foo_alloc3 :: "nat \<Rightarrow> call \<Rightarrow> pc3 \<Rightarrow> pc3 foo_sys \<Rightarrow> pc3 foo_sys outcome option" where
  "foo_alloc3 t c q s = (case c of
       Alloc k m \<Rightarrow> if q \<noteq> Idle then None else
         (case m of None \<Rightarrow> Some (Next s) | Some a \<Rightarrow> if a \<in> alive s then None else Some (Next (goto t (AInit k a) (new_foo a k s))))
     | InitFails \<Rightarrow> (case q of AInit k a \<Rightarrow> Some (free_foo a (goto t Idle s)) | _ \<Rightarrow> None)
     | Run \<Rightarrow> alloc_run3 t q s
     | _ \<Rightarrow> None)"

fun hold_run3 :: "nat \<Rightarrow> pc3 \<Rightarrow> pc3 foo_sys \<Rightarrow> pc3 foo_sys outcome option" where
  "hold_run3 t (HHash a) s = Some (lock_hash t (goto t (HInc a) s))"
| "hold_run3 t (HInc a) s = Some (increment a (goto t (HUnl a) s))"
| "hold_run3 t (HUnl a) s = Some (unlock_hash t (goto t Idle (get_ref t a (get_ref t a s))))"
| "hold_run3 t q s = None"

definition foo_hold3 :: "nat \<Rightarrow> call \<Rightarrow> pc3 \<Rightarrow> pc3 foo_sys \<Rightarrow> pc3 foo_sys outcome option" where
  "foo_hold3 t c q s = (case c of
       Hold a \<Rightarrow> if q = Idle \<and> a \<in> set (hands s t) then Some (Next (goto t (HHash a) (put_ref t a s))) else None
     | Run \<Rightarrow> hold_run3 t q s
     | _ \<Rightarrow> None)"

fun find_run3 :: "nat \<Rightarrow> pc3 \<Rightarrow> pc3 foo_sys \<Rightarrow> pc3 foo_sys outcome option" where
  "find_run3 t (FHash k) s = Some (lock_hash t (goto t (FStart k) s))"
| "find_run3 t (FStart k) s = Some (Next (goto t (FLoop k (fh s (HASH k))) s))"
| "find_run3 t (FLoop k None) s = Some (Next (goto t (FUnl k None) s))"
| "find_run3 t (FLoop k (Some a)) s = Some (deref a s (Next (goto t (if f_id s a = k then FInc k a else FLoop k (f_next s a)) s)))"
| "find_run3 t (FInc k a) s = Some (increment a (goto t (FUnl k (Some a)) s))"
| "find_run3 t (FUnl k r) s = Some (unlock_hash t (goto t Idle (case r of None \<Rightarrow> s | Some a \<Rightarrow> get_ref t a s)))"
| "find_run3 t q s = None"

definition foo_find3 :: "nat \<Rightarrow> call \<Rightarrow> pc3 \<Rightarrow> pc3 foo_sys \<Rightarrow> pc3 foo_sys outcome option" where
  "foo_find3 t c q s = (case c of
       Find k \<Rightarrow> if q = Idle then Some (Next (goto t (FHash k) s)) else None
     | Run \<Rightarrow> find_run3 t q s
     | _ \<Rightarrow> None)"

fun rele_run3 :: "nat \<Rightarrow> pc3 \<Rightarrow> pc3 foo_sys \<Rightarrow> pc3 foo_sys outcome option" where
  "rele_run3 t (RHash a) s = Some (lock_hash t (goto t (RDec a) s))"
| "rele_run3 t (RDec a) s = Some (deref a s (let n = f_count s a - 1 in Next (goto t (if n = 0 then RHead a else RUnl) (set_count a n s))))"
| "rele_run3 t RUnl s = Some (unlock_hash t (goto t Idle s))"
| "rele_run3 t (RHead a) s = Some (deref a s (let i = HASH (f_id s a) in
     Next (if fh s i = Some a then goto t (RUnlHash a) (set_head i (f_next s a) s) else goto t (RWalk a (fh s i)) s)))"
| "rele_run3 t (RWalk a None) s = Some (Bad NullPointer)"
| "rele_run3 t (RWalk a (Some b)) s = Some (deref b s (Next (goto t (if f_next s b = Some a then RLink a b else RWalk a (f_next s b)) s)))"
| "rele_run3 t (RLink a b) s = Some (deref a s (deref b s (Next (goto t (RUnlHash a) (set_next b (f_next s a) s)))))"
| "rele_run3 t (RUnlHash a) s = Some (unlock_hash t (goto t (RDestroy a) s))"
| "rele_run3 t (RDestroy a) s = Some (destroy_lock a (goto t (RFree a) s))"
| "rele_run3 t (RFree a) s = Some (free_foo a (goto t Idle s))"
| "rele_run3 t q s = None"

definition foo_rele3 :: "nat \<Rightarrow> call \<Rightarrow> pc3 \<Rightarrow> pc3 foo_sys \<Rightarrow> pc3 foo_sys outcome option" where
  "foo_rele3 t c q s = (case c of
       Rele a \<Rightarrow> if q = Idle \<and> a \<in> set (hands s t) then Some (Next (goto t (RHash a) (put_ref t a s))) else None
     | Run \<Rightarrow> rele_run3 t q s
     | _ \<Rightarrow> None)"

definition give3 :: "nat \<Rightarrow> nat \<Rightarrow> call \<Rightarrow> pc3 \<Rightarrow> pc3 foo_sys \<Rightarrow> pc3 foo_sys outcome option" where
  "give3 N t c q s = (case c of
       Give a u \<Rightarrow> if q = Idle \<and> a \<in> set (hands s t) \<and> u < N then Some (Next (get_ref u a (put_ref t a s))) else None
     | _ \<Rightarrow> None)"

definition foo3_step :: "nat \<Rightarrow> nat \<Rightarrow> call \<Rightarrow> pc3 foo_sys \<Rightarrow> pc3 foo_sys outcome" where
  \<comment> \<open>a step of thread \<open>t\<close> of \<open>N\<close>; \<open>Wait\<close> also when the thread is not at this call\<close>
  "foo3_step N t c s = (if t < N then first_step [foo_alloc3 t c (pcs s t) s, foo_hold3 t c (pcs s t) s, foo_find3 t c (pcs s t) s, foo_rele3 t c (pcs s t) s, give3 N t c (pcs s t) s] else Wait)"

inductive foo3_reach :: "nat \<Rightarrow> pc3 foo_sys \<Rightarrow> bool" for N where
  start: "foo3_reach N (foo_start Idle)"
| step: "foo3_reach N s \<Longrightarrow> foo3_step N t c s = Next s' \<Longrightarrow> foo3_reach N s'"

section \<open>What a step does to the table\<close>

fun event3 :: "pc3 \<Rightarrow> pc3 foo_sys \<Rightarrow> table_op option" where
  "event3 (AHead k a) s = Some (Insert k a)"
| "event3 (HInc a) s = Some (Up (f_id s a) a)"
| "event3 (FLoop k None) s = Some (Lookup k None)"
| "event3 (FInc k a) s = Some (Lookup k (Some a))"
| "event3 (RDec a) s = Some (Down (f_id s a) a)"
| "event3 q s = None"

end
