(* ===== verification/Mutex3Inv.thy ===== *)
theory Mutex3Inv
  imports Mutex3
begin

text \<open>
  \<open>threads/mutex3.c\<close> keeps the same promises as \<open>threads/mutex2.c\<close> with one lock less per call: it follows the same
  table of objects, so that a client cannot tell the two apart.
\<close>

section \<open>Ownership\<close>

fun hh3 :: "pc3 \<Rightarrow> bool" where
  "hh3 Idle = False" | "hh3 (AInit k a) = False" | "hh3 (AHash k a) = False" | "hh3 (AUnl a) = False" | "hh3 (HHash a) = False" | "hh3 (FHash k) = False"
| "hh3 (RHash a) = False" | "hh3 (RDestroy a) = False" | "hh3 (RFree a) = False"
| "hh3 q = True"

fun hf3 :: "pc3 \<Rightarrow> nat option" where
  "hf3 (AUnlHash a) = Some a" | "hf3 (AUnl a) = Some a" | "hf3 q = None"

fun owned3 :: "pc3 \<Rightarrow> (nat \<times> nat) option" where
  "owned3 (AInit k a) = Some (a, 1)" | "owned3 (AHash k a) = Some (a, 1)" | "owned3 (ANext k a) = Some (a, 1)" | "owned3 (AHead k a) = Some (a, 1)"
| "owned3 (ALock a) = Some (a, 1)" | "owned3 (AUnlHash a) = Some (a, 1)" | "owned3 (AUnl a) = Some (a, 1)"
| "owned3 (HHash a) = Some (a, 1)" | "owned3 (HInc a) = Some (a, 1)" | "owned3 (HUnl a) = Some (a, 2)" | "owned3 (FUnl k r) = map_option (\<lambda>a. (a, 1)) r"
| "owned3 (RHash a) = Some (a, 1)" | "owned3 (RDec a) = Some (a, 1)"
| "owned3 q = None"

definition own3 :: "pc3 \<Rightarrow> nat \<Rightarrow> nat" where
  "own3 q a = (case owned3 q of None \<Rightarrow> 0 | Some (b, n) \<Rightarrow> if b = a then n else 0)"

fun sole3 :: "pc3 \<Rightarrow> nat option" where
  "sole3 (AInit k a) = Some a" | "sole3 (AHash k a) = Some a" | "sole3 (ANext k a) = Some a" | "sole3 (AHead k a) = Some a"
| "sole3 (RHead a) = Some a" | "sole3 (RWalk a p) = Some a" | "sole3 (RLink a b) = Some a" | "sole3 (RUnlHash a) = Some a"
| "sole3 (RDestroy a) = Some a" | "sole3 (RFree a) = Some a"
| "sole3 q = None"

fun priv3 :: "pc3 \<Rightarrow> bool" where
  "priv3 (AInit k a) = True" | "priv3 (AHash k a) = True" | "priv3 (ANext k a) = True" | "priv3 (AHead k a) = True"
| "priv3 (RUnlHash a) = True" | "priv3 (RDestroy a) = True" | "priv3 (RFree a) = True"
| "priv3 q = False"

fun raw3 :: "pc3 \<Rightarrow> bool" where
  "raw3 (AInit k a) = True" | "raw3 (RFree a) = True" | "raw3 q = False"

fun loc3 :: "pc3 foo_sys \<Rightarrow> chains \<Rightarrow> pc3 \<Rightarrow> bool" where
  "loc3 s L (AInit k a) = (f_id s a = k)"
| "loc3 s L (AHash k a) = (f_id s a = k)"
| "loc3 s L (ANext k a) = (f_id s a = k)"
| "loc3 s L (AHead k a) = (f_id s a = k \<and> f_next s a = fh s (HASH k))"
| "loc3 s L (FLoop k p) = walk_at k p L s"
| "loc3 s L (FInc k a) = found_at k a L s"
| "loc3 s L (FUnl k r) = (case r of None \<Rightarrow> walk_at k None L s | Some a \<Rightarrow> found_at k a L s)"
| "loc3 s L (RHead a) = (a \<in> set (L (HASH (f_id s a))))"
| "loc3 s L (RWalk a p) = before_at a p L s"
| "loc3 s L (RLink a b) = linked_at a b L s"
| "loc3 s L q = True"

lemma own3_finite: "finite {a. own3 q a > 0}"
proof (cases "owned3 q")
  case (Some p)
  have "{a. own3 q a > 0} \<subseteq> {fst p}" unfolding own3_def Some by (cases p) auto
  then show ?thesis by (rule finite_subset) simp
qed (simp add: own3_def)

interpretation m3: foo_program Idle hh3 hf3 own3 sole3 priv3 raw3 "\<lambda>q a. False" loc3
proof (unfold_locales, goal_cases)
  case (8 q)
  then show ?case by (cases q) simp_all
next
  case (9 s L q L' s')
  have f: "walk_at k p L s \<Longrightarrow> hh3 q \<Longrightarrow> walk_at k p L' s'" "found_at k a L s \<Longrightarrow> hh3 q \<Longrightarrow> found_at k a L' s'" for k a p
    using 9(2) walk_frame[of k p L s s'] found_frame[of k a L s s'] by auto
  show ?case using 9 f by (cases q) (auto simp: before_at_def linked_at_def split: option.splits)
qed (simp_all add: own3_finite, simp_all add: own3_def)

section \<open>Every step is good\<close>

lemmas m3_simps = m3.same_refs_def handed_def own3_def

lemma m3_lock_own:
  assumes i: "m3.inv N L s" and t: "t < N" and a: "handed own3 (pcs s t) (hands s t) a > 0" and q: "\<not> raw3 (pcs s t)"
  shows "a \<in> alive s" "f_lock s a \<noteq> Raw" "sole3 (pcs s u) = Some a \<Longrightarrow> u = t"
  using m3.inv_owner[OF i t a] m3.inv_raw[OF i t a q] m3.inv_sole_other[OF i t a] by blast+

lemma alloc_run_good3:
  assumes i: "m3.inv N L s" and t: "t < N" and r: "alloc_run3 t (pcs s t) s = Some r"
  shows "m3.good N L s (event3 (pcs s t) s) r"
proof (cases "pcs s t")
  case (AInit k a)
  then show ?thesis using r m3.inv_loc[OF i, of t] by (auto intro!: m3.good_init_lock[OF i t] simp: m3_simps)
next
  case (AHash k a)
  then show ?thesis using r m3.inv_loc[OF i, of t] by (auto intro!: m3.good_lock_hash[OF i t] simp: m3_simps)
next
  case (ANext k a)
  then have "m3.good N L s None (Next (goto t (AHead k a) (set_next a (fh s (HASH k)) s)))"
    using m3.inv_loc[OF i, of t] by (intro m3.good_link[OF i t]) (simp_all add: m3_simps goto_def set_next_def)
  then show ?thesis using r ANext m3.inv_sole[OF i, of t a] by (auto intro!: m3.good_deref)
next
  case (AHead k a)
  then show ?thesis using r m3.inv_loc[OF i, of t] by (auto intro!: m3.good_insert[OF i t] simp: own3_def fun_eq_iff)
next
  case (ALock a)
  then show ?thesis using r m3_lock_own[OF i t, of a] by (auto intro!: m3.good_lock_foo[OF i t] simp: m3_simps)
next
  case (AUnlHash a)
  then show ?thesis using r by (auto intro!: m3.good_unlock_hash[OF i t, of s "hands s t"] simp: m3_simps)
next
  case (AUnl a)
  then have "m3.good N L s None (unlock_foo t a (goto t Idle (get_ref t a s)))"
    by (intro m3.good_unlock_foo[OF i t, of _ "a # hands s t"]) (simp_all add: m3_simps get_ref_def)
  then show ?thesis using r AUnl by auto
qed (use r in simp_all)

lemma bump3:
  assumes i: "m3.inv N L s" and t: "t < N" and l: "a \<in> set (L (HASH (f_id s a)))" and h: "hh3 (pcs s t)" "sole3 (pcs s t) = None" "hf3 (pcs s t) = None" "\<not> raw3 (pcs s t)"
    and q: "hh3 q" "hf3 q = None" "\<not> raw3 q" "\<And>b. b \<noteq> a \<Longrightarrow> own3 q b = own3 (pcs s t) b" "int (own3 q a) = int (own3 (pcs s t) a) + d" "\<not> priv3 q" "loc3 (goto t q (set_count a (f_count s a + d) s)) L q"
      "sole3 q = None \<and> f_count s a + d > 0 \<or> sole3 q = Some a \<and> f_count s a + d = int (own3 q a)"
    and hu: "\<And>u. sole3 q = Some a \<Longrightarrow> hf3 (pcs s u) = Some a \<Longrightarrow> u = t"
    and e: "table_step e (table_of L s) = Some (bump (f_id s a) a d (table_of L s))"
  shows "m3.good N L s (Some e) (Next (goto t q (set_count a (f_count s a + d) s)))" and "f_count s a > 0" and "a \<in> alive s"
proof -
  show a: "a \<in> alive s" using m3.inv_chain(3)[OF i l] by blast
  have so: "sole3 (pcs s u) \<noteq> Some a" for u using m3.inv_sole_linked[OF i l h(1), of u] h(2) by auto
  show c: "f_count s a > 0" using m3.inv_positive[OF i l] so by blast
  show "m3.good N L s (Some e) (Next (goto t q (set_count a (f_count s a + d) s)))"
    by (rule m3.good_count[OF i t a]) (use h q so c hu e in auto)
qed

lemma positive3:
  assumes i: "m3.inv N L s" and l: "a \<in> set (L j)" and h: "hh3 (pcs s t)" "sole3 (pcs s t) = None"
  shows "f_count s a > 0"
  using m3.inv_positive[OF i l] m3.inv_sole_linked[OF i l h(1)] h(2) by fastforce

lemma linked3:
  assumes i: "m3.inv N L s" and t: "t < N" and o: "own3 (pcs s t) a > 0" "\<not> priv3 (pcs s t)"
  shows "a \<in> set (L (HASH (f_id s a)))"
  using m3.inv_linked[OF i t _ o(2)] o(1) by (simp add: handed_def)

lemma increment3: "m3.good N L s (Some e) (Next (goto t q (set_count a (f_count s a + 1) s))) \<Longrightarrow> a \<in> alive s \<Longrightarrow> m3.good N L s (Some e) (increment a (goto t q s))"
  by (auto simp: increment_def deref_def m3.good_def[of _ _ _ _ "Bad e" for e] goto_def set_count_def upd_order)

lemma hold_run_good3:
  assumes i: "m3.inv N L s" and t: "t < N" and r: "hold_run3 t (pcs s t) s = Some r"
  shows "m3.good N L s (event3 (pcs s t) s) r"
proof (cases "pcs s t")
  case (HHash a)
  then show ?thesis using r by (auto intro!: m3.good_lock_hash[OF i t] simp: m3_simps)
next
  case (HInc a)
  have l: "a \<in> set (L (HASH (f_id s a)))" using linked3[OF i t, of a] HInc by (simp add: own3_def)
  have c: "f_count s a > 0" using positive3[OF i l, of t] HInc by simp
  have "m3.good N L s (Some (Up (f_id s a) a)) (Next (goto t (HUnl a) (set_count a (f_count s a + 1) s)))"
    by (rule bump3(1)[OF i t l]) (use HInc l c in \<open>auto simp: own3_def fst_table_of\<close>)
  then show ?thesis using r HInc increment3 m3.inv_chain(3)[OF i l] by auto
next
  case (HUnl a)
  then have "m3.good N L s None (unlock_hash t (goto t Idle (get_ref t a (get_ref t a s))))"
    by (intro m3.good_unlock_hash[OF i t, of _ "a # a # hands s t"]) (simp_all add: m3_simps get_ref_def)
  then show ?thesis using r HUnl by auto
qed (use r in simp_all)

lemma find_run_good3:
  assumes i: "m3.inv N L s" and t: "t < N" and r: "find_run3 t (pcs s t) s = Some r"
  shows "m3.good N L s (event3 (pcs s t) s) r"
proof (cases "pcs s t")
  case (FHash k)
  then show ?thesis using r by (auto intro!: m3.good_lock_hash[OF i t] simp: m3_simps)
next
  case (FStart k)
  then show ?thesis using r walk_start[of s k L] m3.inv_chain(1)[OF i, of "HASH k"]
    by (auto intro!: m3.good_goto[OF i t, of s "hands s t"] simp: m3_simps)
next
  case (FLoop k p)
  then have w: "walk_at k p L s" using m3.inv_loc[OF i, of t] by simp
  show ?thesis
  proof (cases p)
    case None
    have "m3.good N L s None (Next (goto t (FUnl k None) s))" using FLoop None w by (intro m3.good_goto[OF i t, of s "hands s t"]) (simp_all add: m3_simps)
    then show ?thesis using r FLoop None w walk_end[of k L s] by (auto intro!: m3.good_stutter)
  next
    case (Some a)
    have "a \<in> alive s" using walk_step(1) w Some m3.inv_chain(3)[OF i] by blast
    then show ?thesis using r FLoop Some w walk_step(2)[of k a L s]
      by (auto intro!: m3.good_deref m3.good_goto[OF i t, of s "hands s t"] simp: m3_simps split: if_splits)
  qed
next
  case (FInc k a)
  then have f: "found_at k a L s" using m3.inv_loc[OF i, of t] by simp
  have l: "a \<in> set (L (HASH (f_id s a)))" "f_id s a = k" using found_in[OF f] by auto
  have c: "f_count s a > 0" using positive3[OF i l(1), of t] FInc by simp
  have "found_at k a L (goto t (FUnl k (Some a)) (set_count a (f_count s a + 1) s))"
    by (rule found_frame[OF f]) (simp add: goto_def set_count_def)
  then have "m3.good N L s (Some (Lookup k (Some a))) (Next (goto t (FUnl k (Some a)) (set_count a (f_count s a + 1) s)))"
    by (intro bump3(1)[OF i t l(1)]) (use FInc c l(2) found_table[OF f c] in \<open>auto simp: own3_def simp del: table_step.simps\<close>)
  then show ?thesis using r FInc increment3 m3.inv_chain(3)[OF i l(1)] by auto
next
  case (FUnl k p)
  show ?thesis
  proof (cases p)
    case None
    then show ?thesis using r FUnl by (auto intro!: m3.good_unlock_hash[OF i t, of s "hands s t"] simp: m3_simps)
  next
    case (Some a)
    then have "m3.good N L s None (unlock_hash t (goto t Idle (get_ref t a s)))"
      using FUnl by (intro m3.good_unlock_hash[OF i t, of _ "a # hands s t"]) (simp_all add: m3_simps get_ref_def)
    then show ?thesis using r FUnl Some by auto
  qed
qed (use r in simp_all)

lemma rele_dec_good:
  assumes i: "m3.inv N L s" and t: "t < N" and p: "pcs s t = RDec a"
  shows "m3.good N L s (Some (Down (f_id s a) a)) (Next (goto t (if f_count s a = 1 then RHead a else RUnl) (set_count a (f_count s a - 1) s)))" "a \<in> alive s"
proof -
  have l: "a \<in> set (L (HASH (f_id s a)))" using linked3[OF i t, of a] p by (simp add: own3_def)
  have c: "f_count s a > 0" using positive3[OF i l, of t] p by simp
  show a: "a \<in> alive s" using m3.inv_chain(3)[OF i l] by blast
  have hu: "u = t" if "f_count s a = 1" "hf3 (pcs s u) = Some a" for u
  proof (rule ccontr)
    assume "u \<noteq> t"
    moreover have "own3 (pcs s u) a = 1" using that(2) by (cases "pcs s u") (simp_all add: own3_def)
    moreover have "u < N" using i that(2) unfolding m3.inv_def by (metis hf3.simps(3) not_le option.distinct(1))
    ultimately show False using refs_ge2[OF t, of u own3 "pcs s" "hands s" a] m3.inv_count[OF i a] that(1) p by (simp add: handed_def own3_def)
  qed
  have e: "table_step (Down (f_id s a) a) (table_of L s) = Some (bump (f_id s a) a (-1) (table_of L s))" using l c by (simp add: fst_table_of)
  let ?q = "if f_count s a = 1 then RHead a else RUnl"
  have "m3.good N L s (Some (Down (f_id s a) a)) (Next (goto t ?q (set_count a (f_count s a + (-1)) s)))"
    by (rule bump3(1)[OF i t l]) (use p l c e hu in \<open>auto simp: own3_def goto_def set_count_def simp del: table_step.simps split: if_splits\<close>)
  then show "m3.good N L s (Some (Down (f_id s a) a)) (Next (goto t ?q (set_count a (f_count s a - 1) s)))" by simp
qed

lemma rele_run_good3:
  assumes i: "m3.inv N L s" and t: "t < N" and r: "rele_run3 t (pcs s t) s = Some r"
  shows "m3.good N L s (event3 (pcs s t) s) r"
proof (cases "pcs s t")
  case (RHash a)
  then show ?thesis using r by (auto intro!: m3.good_lock_hash[OF i t] simp: m3_simps)
next
  case (RDec a)
  then show ?thesis using r rele_dec_good[OF i t RDec] by (auto simp: Let_def intro!: m3.good_deref)
next
  case RUnl
  then show ?thesis using r by (auto intro!: m3.good_unlock_hash[OF i t, of s "hands s t"] simp: m3_simps)
next
  case (RHead a)
  let ?k = "f_id s a"
  have l: "a \<in> set (L (HASH ?k))" using m3.inv_loc[OF i, of t] RHead by simp
  have a: "a \<in> alive s" using m3.inv_sole[OF i, of t a] RHead by simp
  show ?thesis
  proof (cases "fh s (HASH ?k) = Some a")
    case True
    have "m3.good N L s (None) (Next (goto t (RUnlHash a) (set_head (HASH ?k) (f_next s a) s)))"
      by (rule m3.good_unlink[OF i t, where nx = "f_next s" and p = "f_next s a" and k = ?k])
        (use RHead True l head_unlink[of s "HASH ?k" L a, OF m3.inv_chain(1)[OF i] True l] in \<open>auto simp: set_head_def own3_def fun_eq_iff\<close>)
    then show ?thesis using r RHead True a by (auto simp: Let_def intro!: m3.good_deref)
  next
    case False
    have "before_at a (fh s (HASH ?k)) L s" by (rule before_head[of s "HASH ?k" L a, OF m3.inv_chain(1)[OF i] refl l False])
    then show ?thesis using r RHead False a by (auto simp: Let_def m3_simps intro!: m3.good_deref m3.good_goto[OF i t, of s "hands s t"])
  qed
next
  case (RWalk a p)
  then have b: "before_at a p L s" using m3.inv_loc[OF i, of t] by simp
  then obtain b where p: "p = Some b" "b \<in> set (L (HASH (f_id s a)))" unfolding before_at_def by auto
  have "b \<in> alive s" using m3.inv_chain(3)[OF i p(2)] by blast
  then show ?thesis using r RWalk b p before_step[of s "HASH (f_id s a)" L a b, OF m3.inv_chain(1)[OF i] m3.inv_chain(2)[OF i] refl]
    by (auto intro!: m3.good_deref m3.good_goto[OF i t, of s "hands s t"] simp: m3_simps split: if_splits)
next
  case (RLink a b)
  let ?k = "f_id s a"
  have k: "linked_at a b L s" using m3.inv_loc[OF i, of t] RLink by simp
  note c = linked_unlink[of s "HASH ?k" L a b, OF m3.inv_chain(1)[OF i] m3.inv_chain(2)[OF i] refl k]
  have a: "a \<in> alive s" "b \<in> alive s" using m3.inv_sole[OF i, of t a] RLink m3.inv_chain(3)[OF i c(2)] by auto
  have "m3.good N L s (None) (Next (goto t (RUnlHash a) (set_next b (f_next s a) s)))"
    by (rule m3.good_unlink[OF i t, where nx = "(f_next s)(b := f_next s a)" and p = "fh s (HASH ?k)" and k = ?k])
      (use RLink c in \<open>auto simp: set_next_def own3_def fun_eq_iff\<close>)
  then show ?thesis using r RLink a by (auto intro!: m3.good_deref)
next
  case (RUnlHash a)
  then show ?thesis using r by (auto intro!: m3.good_unlock_hash[OF i t, of s "hands s t"] simp: m3_simps)
next
  case (RDestroy a)
  then show ?thesis using r by (auto intro!: m3.good_destroy[OF i t] simp: m3_simps)
next
  case (RFree a)
  then show ?thesis using r m3.no_hands[OF i t, of a] by (auto intro!: m3.good_free[OF i t] simp: m3_simps)
qed (use r in simp_all)

definition event3_of :: "nat \<Rightarrow> call \<Rightarrow> pc3 foo_sys \<Rightarrow> table_op option" where
  "event3_of t c s = (if c = Run then event3 (pcs s t) s else None)"

lemma foo3_step_good:
  assumes i: "m3.inv N L s"
  shows "m3.good N L s (event3_of t c s) (foo3_step N t c s)"
proof (cases "t < N")
  case t: True
  have w: "m3.good N L s ev Wait" for ev by (simp add: m3.good_def)
  show ?thesis
  proof (cases "c = Run")
    case True
    have "foo_rele3 t Run (pcs s t) s = Some r \<Longrightarrow> m3.good N L s (event3 (pcs s t) s) r" for r
      using rele_run_good3[OF i t, of r] by (auto simp: foo_rele3_def)
    note rele = this
    have e: "foo_alloc3 t Run (pcs s t) s = alloc_run3 t (pcs s t) s" "foo_hold3 t Run (pcs s t) s = hold_run3 t (pcs s t) s"
      "foo_find3 t Run (pcs s t) s = find_run3 t (pcs s t) s" "give3 N t Run (pcs s t) s = None"
      by (simp_all add: foo_alloc3_def foo_hold3_def foo_find3_def give3_def)
    have "m3.good N L s (event3 (pcs s t) s) (foo3_step N t Run s)"
      unfolding foo3_step_def if_P[OF t] e
    proof (rule first_step_elem)
      fix r
      assume "Some r \<in> set [alloc_run3 t (pcs s t) s, hold_run3 t (pcs s t) s, find_run3 t (pcs s t) s, foo_rele3 t Run (pcs s t) s, None]"
      then have "alloc_run3 t (pcs s t) s = Some r \<or> hold_run3 t (pcs s t) s = Some r \<or> find_run3 t (pcs s t) s = Some r \<or> foo_rele3 t Run (pcs s t) s = Some r"
        unfolding list.set by (elim insertE) (simp_all only: eq_commute[of "Some r"] empty_iff simp_thms option.distinct)
      then show "m3.good N L s (event3 (pcs s t) s) r"
        using alloc_run_good3[OF i t] hold_run_good3[OF i t] find_run_good3[OF i t] rele by blast
    qed (rule w)
    then show ?thesis using True t by (simp add: event3_of_def)
  next
    case False
    show ?thesis
    proof (cases "pcs s t = Idle")
      case p: True
      have e: "event3_of t c s = None" using False by (simp add: event3_of_def)
      show ?thesis
      proof (cases c)
        case (Alloc k m)
        have "a \<notin> alive s \<Longrightarrow> m3.good N L s None (Next (goto t (AInit k a) (new_foo a k s)))" for a
          by (rule m3.good_new[OF i t]) (use p in \<open>auto simp: own3_def goto_def new_foo_def\<close>)
        moreover have "m3.good N L s None (Next s)" using i by (intro m3.good_same) simp_all
        ultimately show ?thesis unfolding e using t p w Alloc
          by (auto simp: foo3_step_def foo_alloc3_def foo_hold3_def foo_find3_def foo_rele3_def give3_def split: option.splits)
      next
        case (Find k)
        have "m3.good N L s None (Next (goto t (FHash k) s))"
          using p by (intro m3.good_goto[OF i t, of s "hands s t"]) (simp_all add: m3_simps)
        then show ?thesis unfolding e using t p Find by (simp add: foo3_step_def foo_alloc3_def foo_hold3_def foo_find3_def)
      next
        case (Hold a)
        have "a \<in> set (hands s t) \<Longrightarrow> m3.good N L s None (Next (goto t (HHash a) (put_ref t a s)))"
          by (rule m3.good_enter[OF i t p]) (auto simp: own3_def)
        then show ?thesis unfolding e using t p Hold w by (auto simp: foo3_step_def foo_alloc3_def foo_hold3_def foo_find3_def foo_rele3_def give3_def)
      next
        case (Rele a)
        have "a \<in> set (hands s t) \<Longrightarrow> m3.good N L s None (Next (goto t (RHash a) (put_ref t a s)))"
          by (rule m3.good_enter[OF i t p]) (auto simp: own3_def)
        then show ?thesis unfolding e using t p Rele w by (auto simp: foo3_step_def foo_alloc3_def foo_hold3_def foo_find3_def foo_rele3_def give3_def)
      next
        case (Give a u)
        then show ?thesis unfolding e using t p w m3.good_give[OF i t, of u a]
          by (auto simp: foo3_step_def foo_alloc3_def foo_hold3_def foo_find3_def foo_rele3_def give3_def)
      qed (use p w False in \<open>auto simp: foo3_step_def foo_alloc3_def foo_hold3_def foo_find3_def foo_rele3_def give3_def\<close>)
    next
      case p: False
      have e: "event3_of t c s = None" using False by (simp add: event3_of_def)
      have "m3.good N L s None (free_foo a (goto t Idle s))" if "pcs s t = AInit k a" for k a
        by (rule m3.good_free[OF i t]) (use that m3.no_hands[OF i t, of a] in \<open>auto simp: m3_simps\<close>)
      then show ?thesis unfolding e using p False t w
        by (cases c) (auto simp: foo3_step_def foo_alloc3_def foo_hold3_def foo_find3_def foo_rele3_def give3_def split: pc3.splits)
    qed
  qed
qed (simp add: foo3_step_def m3.good_def)

section \<open>The program\<close>

lemma foo3_reach_inv: "foo3_reach N s \<Longrightarrow> \<exists>L. m3.inv N L s"
proof (induction rule: foo3_reach.induct)
  case start
  then show ?case using m3.inv_start by blast
next
  case (step s t c s')
  then obtain L where "m3.inv N L s" by blast
  then show ?case using foo3_step_good[of N L s t c] step.hyps(2) by (auto simp: m3.good_def)
qed

fun wants3 :: "pc3 \<Rightarrow> nat option" where
  "wants3 (ALock a) = Some a" | "wants3 q = None"

lemma run_cases3:
  "find_run3 t (FLoop k p) s = Some (case p of None \<Rightarrow> Next (goto t (FUnl k None) s) | Some a \<Rightarrow> deref a s (Next (goto t (if f_id s a = k then FInc k a else FLoop k (f_next s a)) s)))"
  "rele_run3 t (RWalk a p) s = Some (case p of None \<Rightarrow> Bad NullPointer | Some b \<Rightarrow> deref b s (Next (goto t (if f_next s b = Some a then RLink a b else RWalk a (f_next s b)) s)))"
  by (cases p; simp)+

lemma foo3_waits:
  assumes "t < N" "pcs s t \<noteq> Idle" "foo3_step N t Run s = Wait"
  shows "(\<not> hh3 (pcs s t) \<and> hf3 (pcs s t) = None \<and> hashlock s \<noteq> None) \<or> (\<exists>a u. wants3 (pcs s t) = Some a \<and> a \<in> alive s \<and> f_lock s a = Held u)"
  using assms
  by (cases "pcs s t")
    (auto simp: foo3_step_def foo_alloc3_def foo_hold3_def foo_find3_def foo_rele3_def run_cases3 sync_defs Let_def goto_def split: if_splits mutex.splits option.splits)

lemma foo3_progress:
  assumes i: "m3.inv N L s" and t: "t < N" "pcs s t \<noteq> Idle"
  shows "\<exists>u<N. pcs s u \<noteq> Idle \<and> foo3_step N u Run s \<noteq> Wait"
proof -
  have below: "pcs s u \<noteq> Idle \<Longrightarrow> u < N" for u using i unfolding m3.inv_def by (metis not_le)
  have holder: "foo3_step N v Run s \<noteq> Wait" if "hf3 (pcs s v) = Some a" for v a
  proof
    assume w: "foo3_step N v Run s = Wait"
    have "pcs s v \<noteq> Idle" "wants3 (pcs s v) = None" using that by (cases "pcs s v"; simp)+
    then show False using foo3_waits[OF below _ w] that by auto
  qed
  have other: "\<exists>v<N. pcs s v \<noteq> Idle \<and> foo3_step N v Run s \<noteq> Wait" if "a \<in> alive s" "f_lock s a = Held v" for a v
  proof -
    have h: "hf3 (pcs s v) = Some a" using i that unfolding m3.inv_def m3.mutex_ok_def by blast
    then have "pcs s v \<noteq> Idle" by auto
    then show ?thesis using holder[OF h] below by blast
  qed
  have moves: ?thesis if u: "pcs s u \<noteq> Idle" "hh3 (pcs s u) \<or> hashlock s = None" for u
  proof (cases "foo3_step N u Run s = Wait")
    case True
    then show ?thesis using foo3_waits[OF below[OF u(1)] u(1) True] u(2) other by auto
  qed (use u below in blast)
  show ?thesis
  proof (cases "hashlock s")
    case (Some u)
    then have "hh3 (pcs s u)" using i unfolding m3.inv_def m3.hash_ok_def by blast
    moreover from this have "pcs s u \<noteq> Idle" by auto
    ultimately show ?thesis using moves[of u] by blast
  qed (use moves[of t] t in simp)
qed

fun foo3_run :: "nat \<Rightarrow> (nat \<times> call) list \<Rightarrow> pc3 foo_sys \<Rightarrow> pc3 foo_sys option" where
  \<comment> \<open>the state after these steps\<close>
  "foo3_run N [] s = Some s"
| "foo3_run N ((t, c) # xs) s = (case foo3_step N t c s of Next s' \<Rightarrow> foo3_run N xs s' | _ \<Rightarrow> None)"

lemma foo3_run_reach: "foo3_run N xs s = Some s' \<Longrightarrow> foo3_reach N s \<Longrightarrow> foo3_reach N s'"
proof (induction xs arbitrary: s)
  case (Cons x xs)
  obtain t c where x: "x = (t, c)" by (cases x)
  from Cons.prems(1) x obtain s1 where "foo3_step N t c s = Next s1" "foo3_run N xs s1 = Some s'" by (auto split: outcome.splits)
  then show ?case using Cons.IH Cons.prems(2) foo3_reach.step by blast
qed simp

definition alloc_call3 :: "(nat \<times> call) list" where
  \<comment> \<open>thread 0 allocates an object for key 5 at address 10\<close>
  "alloc_call3 = (0, Alloc 5 (Some 10)) # replicate 7 (0, Run)"

definition find_call3 :: "(nat \<times> call) list" where
  \<comment> \<open>thread 1 finds it\<close>
  "find_call3 = (1, Find 5) # replicate 5 (1, Run)"

definition shared3 :: "pc3 foo_sys" where
  \<comment> \<open>both have a reference\<close>
  "shared3 = the (foo3_run 2 (alloc_call3 @ find_call3) (foo_start Idle))"

lemma shared_reach3: "foo3_reach 2 shared3"
proof -
  have "foo3_run 2 (alloc_call3 @ find_call3) (foo_start Idle) \<noteq> None" by code_simp
  then have "foo3_run 2 (alloc_call3 @ find_call3) (foo_start Idle) = Some shared3" by (auto simp: shared3_def)
  then show ?thesis using foo3_run_reach foo3_reach.start by blast
qed

section \<open>Properties\<close>

text \<open>In every interleaving no step uses freed memory, follows a null pointer, locks or destroys a mutex it must not, or
  overflows a count, as long as the counts are below \<open>INT_MAX\<close>.\<close>

theorem foo3_no_fault:
  assumes "foo3_reach N s" "\<forall>a\<in>alive s. f_count s a < 2 ^ 31 - 1"
  shows "foo3_step N t c s \<noteq> Bad f"
proof
  assume b: "foo3_step N t c s = Bad f"
  obtain L where "m3.inv N L s" using foo3_reach_inv[OF assms(1)] by blast
  from foo3_step_good[OF this, of t c] b show False using assms(2) by (auto simp: m3.good_def)
qed

theorem foo3_no_fault_witness: "foo3_step 2 0 (Rele 10) shared3 \<noteq> Bad UseAfterFree"
proof (rule foo3_no_fault[OF shared_reach3])
  show "\<forall>a\<in>alive shared3. f_count shared3 a < 2 ^ 31 - 1" by code_simp
qed

text \<open>C35. Every step either leaves the table of objects alone or is the one where its call takes effect, which does there what the
  sequential table does.\<close>

theorem foo3_refines_table:
  assumes "foo3_reach N s" "foo3_step N t c s = Next s'"
  shows "follows (event3_of t c s) (table s) (table s')"
proof -
  obtain L where i: "m3.inv N L s" using foo3_reach_inv[OF assms(1)] by blast
  obtain L' where "m3.inv N L' s'" "follows (event3_of t c s) (table_of L s) (table_of L' s')"
    using foo3_step_good[OF i, of t c] assms(2) by (auto simp: m3.good_def)
  then show ?thesis using m3.inv_table[OF i] m3.inv_table by simp
qed

theorem foo3_refines_table_witness:
  "\<exists>s s'. foo3_run 2 (alloc_call3 @ take 4 find_call3) (foo_start Idle) = Some s \<and> foo3_step 2 1 Run s = Next s' \<and> event3_of 1 Run s = Some (Lookup 5 (Some 10))
     \<and> follows (Some (Lookup 5 (Some 10))) (table s) (table s')"
proof -
  define s where "s = the (foo3_run 2 (alloc_call3 @ take 4 find_call3) (foo_start Idle))"
  have "foo3_run 2 (alloc_call3 @ take 4 find_call3) (foo_start Idle) \<noteq> None" by code_simp
  then have s: "foo3_run 2 (alloc_call3 @ take 4 find_call3) (foo_start Idle) = Some s" by (auto simp: s_def)
  have e: "event3_of 1 Run s = Some (Lookup 5 (Some 10))" unfolding s_def by code_simp
  have "(case foo3_step 2 1 Run s of Next s' \<Rightarrow> True | _ \<Rightarrow> False)" unfolding s_def by code_simp
  then obtain s' where s': "foo3_step 2 1 Run s = Next s'" by (auto split: outcome.splits)
  show ?thesis using foo3_refines_table[OF foo3_run_reach[OF s foo3_reach.start] s'] s s' e by auto
qed

text \<open>At the moment \<open>foo_find\<close> unlocks the table, its result is the newest object with the key, and it returns nothing only when there is
  none.\<close>

theorem foo3_find_result:
  assumes "foo3_reach N s" "pcs s t = FUnl k r"
  shows "r = map_option fst (case table s k of [] \<Rightarrow> None | x # _ \<Rightarrow> Some x)"
proof -
  obtain L where i: "m3.inv N L s" using foo3_reach_inv[OF assms(1)] by blast
  show ?thesis
  proof (cases r)
    case None
    then show ?thesis using m3.inv_loc[OF i, of t] assms(2) walk_end[of k L s] m3.inv_table[OF i] by simp
  next
    case (Some a)
    then have f: "found_at k a L s" using m3.inv_loc[OF i, of t] assms(2) by simp
    have "f_count s a > 0"
      using m3.inv_positive[OF i, of a "HASH k"] found_in[OF f] m3.inv_sole_linked[OF i, of a "HASH k" t] assms(2) by fastforce
    from found_table[OF f this] show ?thesis using Some m3.inv_table[OF i] by (auto split: list.splits if_splits)
  qed
qed

theorem foo3_find_result_witness:
  "\<exists>s. foo3_run 2 (alloc_call3 @ take 5 find_call3) (foo_start Idle) = Some s \<and> pcs s 1 = FUnl 5 (Some 10) \<and> map_option fst (case table s 5 of [] \<Rightarrow> None | x # _ \<Rightarrow> Some x) = Some 10"
proof -
  define s where "s = the (foo3_run 2 (alloc_call3 @ take 5 find_call3) (foo_start Idle))"
  have "foo3_run 2 (alloc_call3 @ take 5 find_call3) (foo_start Idle) \<noteq> None" by code_simp
  then have s: "foo3_run 2 (alloc_call3 @ take 5 find_call3) (foo_start Idle) = Some s" by (auto simp: s_def)
  have p: "pcs s 1 = FUnl 5 (Some 10)" unfolding s_def by code_simp
  show ?thesis using foo3_find_result[OF foo3_run_reach[OF s foo3_reach.start] p] s p by simp
qed

text \<open>When no call is in progress, exactly the objects with a reference are allocated, each is in the table, and its count is the number of
  references: nothing leaks and nothing is freed early.\<close>

theorem foo3_no_leak:
  assumes "foo3_reach N s" "\<forall>t<N. pcs s t = Idle"
  shows "alive s = (\<Union>t<N. set (hands s t)) \<and> (\<forall>a\<in>alive s. f_count s a = int (\<Sum>t<N. count_list (hands s t) a) \<and> (a, f_count s a) \<in> set (table s (f_id s a)))"
proof -
  obtain L where i: "m3.inv N L s" using foo3_reach_inv[OF assms(1)] by blast
  then have "\<forall>t. pcs s t = Idle" using assms(2) unfolding m3.inv_def by (metis not_le)
  then show ?thesis using m3.inv_quiet[OF i] by blast
qed

theorem foo3_no_leak_witness: "alive shared3 = (\<Union>t<2. set (hands shared3 t)) \<and> hands shared3 0 = [10] \<and> hands shared3 1 = [10]"
proof -
  have h: "pcs shared3 0 = Idle" "pcs shared3 1 = Idle" "hands shared3 0 = [10]" "hands shared3 1 = [10]" by code_simp+
  then have "\<forall>t<2. pcs shared3 t = Idle" by (auto simp: less_2_cases_iff)
  then show ?thesis using foo3_no_leak[OF shared_reach3] h by blast
qed

text \<open>The threads never deadlock: while a call is in progress, some thread in a call can take its next step.\<close>

theorem foo3_deadlock_free:
  assumes "foo3_reach N s" "t < N" "pcs s t \<noteq> Idle"
  shows "\<exists>u<N. pcs s u \<noteq> Idle \<and> foo3_step N u Run s \<noteq> Wait"
proof -
  obtain L where "m3.inv N L s" using foo3_reach_inv[OF assms(1)] by blast
  then show ?thesis using foo3_progress assms(2,3) by blast
qed

theorem foo3_deadlock_free_witness:
  "\<exists>s. foo3_run 2 (alloc_call3 @ find_call3 @ [(0, Rele 10), (0, Run)] @ take 1 find_call3) (foo_start Idle) = Some s
     \<and> foo3_step 2 1 Run s = Wait \<and> (\<exists>u<2. pcs s u \<noteq> Idle \<and> foo3_step 2 u Run s \<noteq> Wait)"
proof -
  let ?xs = "alloc_call3 @ find_call3 @ [(0, Rele 10), (0, Run)] @ take 1 find_call3"
  define s where "s = the (foo3_run 2 ?xs (foo_start Idle))"
  have "foo3_run 2 ?xs (foo_start Idle) \<noteq> None" by code_simp
  then have s: "foo3_run 2 ?xs (foo_start Idle) = Some s" by (auto simp: s_def)
  have w: "(case foo3_step 2 1 Run s of Wait \<Rightarrow> True | _ \<Rightarrow> False)" unfolding s_def by code_simp
  have p: "pcs s 1 \<noteq> Idle" unfolding s_def by code_simp
  show ?thesis using foo3_deadlock_free[OF foo3_run_reach[OF s foo3_reach.start] _ p] s w by (auto split: outcome.splits)
qed

end
