(* ===== verification/TellWait.thy ===== *)
theory TellWait
  imports Prelude
begin

text \<open>
  The synchronisation of parent and child by signals, \<open>lib/tellwait.c\<close>, in the program that uses it in a loop,
  \<open>ipc1/devzero.c\<close>: the two take turns to increment a counter in shared memory. A step is one statement of one
  process or the delivery of a signal, so that a signal can arrive between any two statements.

  Each process is sent one of the two signals only. A blocked signal stays pending; \<open>sigsuspend\<close> unblocks it while the
  process sleeps and returns after the handler.
\<close>

section \<open>The functions and the program\<close>

datatype who = Parent | Child

datatype tw_pc =
    Update         \<comment> \<open>\<open>update\<close> the counter and compare it\<close>
  | Tell           \<comment> \<open>\<open>kill\<close>\<close>
  | Test           \<comment> \<open>\<open>while (sigflag == 0)\<close>\<close>
  | Suspend        \<comment> \<open>before \<open>sigsuspend\<close>\<close>
  | Asleep         \<comment> \<open>in \<open>sigsuspend\<close>\<close>
  | Clear          \<comment> \<open>\<open>sigflag = 0\<close>\<close>
  | Unmask         \<comment> \<open>\<open>sigprocmask(SIG_SETMASK, &oldmask, NULL)\<close>\<close>
  | Exited
  | Quit           \<comment> \<open>after \<open>err_quit\<close>: the counter was not the expected one\<close>

record tw_proc =
  at :: tw_pc
  i :: int
  blocked :: bool
  pending :: bool
  sigflag :: bool

record tw_sys =
  procs :: "who \<Rightarrow> tw_proc"
  area :: int

definition NLOOPS :: int where "NLOOPS = 1000"

fun other :: "who \<Rightarrow> who" where
  "other Parent = Child"
| "other Child = Parent"

definition set_proc :: "who \<Rightarrow> tw_proc \<Rightarrow> tw_sys \<Rightarrow> tw_sys" where
  "set_proc w p s = s\<lparr>procs := (procs s)(w := p)\<rparr>"

definition TELL_WAIT :: "tw_proc \<Rightarrow> tw_proc" where
  \<comment> \<open>before the fork; the mask of before, in \<open>oldmask\<close>, does not block\<close>
  "TELL_WAIT p = p\<lparr>blocked := True\<rparr>"

definition TELL :: "who \<Rightarrow> tw_sys \<Rightarrow> tw_sys" where
  \<comment> \<open>\<open>kill\<close> by this process: the signal is pending for the other one, once\<close>
  "TELL w s = set_proc (other w) ((procs s (other w))\<lparr>pending := True\<rparr>) s"

fun WAIT :: "tw_proc \<Rightarrow> tw_pc \<Rightarrow> tw_proc option" where
  \<comment> \<open>the next statement of a wait; \<open>nxt\<close> is where the caller goes on\<close>
  "WAIT p nxt = (case at p of
       Test \<Rightarrow> Some (p\<lparr>at := if sigflag p then Clear else Suspend\<rparr>)
     | Suspend \<Rightarrow> Some (p\<lparr>at := Asleep\<rparr>)
     | Clear \<Rightarrow> Some (p\<lparr>sigflag := False, at := Unmask\<rparr>)
     | Unmask \<Rightarrow> Some (p\<lparr>blocked := False, at := nxt\<rparr>)
     | _ \<Rightarrow> None)"

definition TELL_PARENT :: "tw_sys \<Rightarrow> tw_sys" where
  [simp]: "TELL_PARENT s = TELL Child s"

definition TELL_CHILD :: "tw_sys \<Rightarrow> tw_sys" where
  [simp]: "TELL_CHILD s = TELL Parent s"

definition WAIT_PARENT :: "tw_proc \<Rightarrow> tw_pc \<Rightarrow> tw_proc option" where
  [simp]: "WAIT_PARENT p nxt = WAIT p nxt"

definition WAIT_CHILD :: "tw_proc \<Rightarrow> tw_pc \<Rightarrow> tw_proc option" where
  [simp]: "WAIT_CHILD p nxt = WAIT p nxt"

definition sig_usr :: "tw_proc \<Rightarrow> tw_proc option" where
  \<comment> \<open>delivery of the signal to the handler\<close>
  "sig_usr p = (if pending p \<and> (\<not> blocked p \<or> at p = Asleep) \<and> at p \<notin> {Exited, Quit}
     then Some (p\<lparr>pending := False, sigflag := True, at := (if at p = Asleep then Test else at p)\<rparr>) else None)"

definition update :: "who \<Rightarrow> tw_sys \<Rightarrow> tw_sys" where
  \<comment> \<open>the comparison and, when it is as expected, on to the \<open>TELL\<close>\<close>
  "update w s = set_proc w ((procs s w)\<lparr>at := if area s \<noteq> i (procs s w) then Quit else Tell\<rparr>) (s\<lparr>area := area s + 1\<rparr>)"

definition parent_next :: "tw_proc \<Rightarrow> tw_proc" where
  \<comment> \<open>\<open>i += 2\<close> and the test of the parent's loop\<close>
  "parent_next p = p\<lparr>i := i p + 2, at := if i p + 2 < NLOOPS then Update else Exited\<rparr>"

definition child_next :: "tw_proc \<Rightarrow> tw_proc" where
  "child_next p = p\<lparr>i := i p + 2, at := if i p + 2 < NLOOPS + 1 then Test else Exited\<rparr>"

fun devzero :: "who \<Rightarrow> tw_sys \<Rightarrow> tw_sys option" where
  \<comment> \<open>the next statement of the process\<close>
  "devzero Parent s = (let p = procs s Parent in case at p of
       Update \<Rightarrow> Some (update Parent s)
     | Tell \<Rightarrow> Some (set_proc Parent (p\<lparr>at := Test\<rparr>) (TELL_CHILD s))
     | Unmask \<Rightarrow> map_option (\<lambda>p1. set_proc Parent (parent_next p1) s) (WAIT_CHILD p Unmask)
     | _ \<Rightarrow> map_option (\<lambda>p1. set_proc Parent p1 s) (WAIT_CHILD p Unmask))"
| "devzero Child s = (let p = procs s Child in case at p of
       Update \<Rightarrow> Some (update Child s)
     | Tell \<Rightarrow> Some (set_proc Child (child_next p) (TELL_PARENT s))
     | _ \<Rightarrow> map_option (\<lambda>p1. set_proc Child p1 s) (WAIT_PARENT p Update))"

datatype tw_act = Go | Signal

fun tw_step :: "who \<Rightarrow> tw_act \<Rightarrow> tw_sys \<Rightarrow> tw_sys option" where
  "tw_step w Go s = devzero w s"
| "tw_step w Signal s = map_option (\<lambda>p. set_proc w p s) (sig_usr (procs s w))"

definition devzero_start :: tw_sys where
  \<comment> \<open>after \<open>fork\<close>: both have the mask of \<open>TELL_WAIT\<close>\<close>
  "devzero_start = (let p = TELL_WAIT \<lparr>at = Test, i = 0, blocked = False, pending = False, sigflag = False\<rparr>
     in \<lparr>procs = (\<lambda>w. case w of Parent \<Rightarrow> p\<lparr>at := Update, i := 0\<rparr> | Child \<Rightarrow> p\<lparr>at := Test, i := 1\<rparr>), area = 0\<rparr>)"

inductive devzero_reach :: "tw_sys \<Rightarrow> bool" where
  start: "devzero_reach devzero_start"
| step: "devzero_reach s \<Longrightarrow> tw_step w a s = Some s' \<Longrightarrow> devzero_reach s'"

section \<open>Turns\<close>

definition waits :: "tw_proc \<Rightarrow> bool" where
  \<comment> \<open>in a wait that has not seen the signal\<close>
  "waits p \<longleftrightarrow> at p \<in> {Test, Suspend, Asleep} \<and> \<not> pending p \<and> \<not> sigflag p"

definition told :: "tw_proc \<Rightarrow> bool" where
  \<comment> \<open>the signal is on its way; it has been caught already, perhaps too early\<close>
  "told p \<longleftrightarrow> at p \<in> {Test, Suspend, Asleep} \<and> pending p \<noteq> sigflag p \<and> (sigflag p \<and> at p \<noteq> Test \<longrightarrow> \<not> blocked p) \<or> at p = Clear \<and> sigflag p \<and> \<not> pending p"

definition holds :: "tw_proc \<Rightarrow> bool" where
  "holds p \<longleftrightarrow> at p \<in> {Update, Tell, Unmask} \<and> \<not> pending p \<and> \<not> sigflag p"

datatype turn = ParentHas | ToChild | ChildHas | ToParent | Over

fun turn_ok :: "turn \<Rightarrow> tw_sys \<Rightarrow> bool" where
  "turn_ok ParentHas s = (holds (procs s Parent) \<and> at (procs s Parent) \<noteq> Unmask \<and> waits (procs s Child) \<and> i (procs s Child) = i (procs s Parent) + 1
     \<and> area s = (if at (procs s Parent) = Update then i (procs s Parent) else i (procs s Parent) + 1) \<and> i (procs s Parent) < NLOOPS)"
| "turn_ok ToChild s = (waits (procs s Parent) \<and> told (procs s Child) \<and> i (procs s Child) = i (procs s Parent) + 1 \<and> area s = i (procs s Parent) + 1 \<and> i (procs s Parent) < NLOOPS)"
| "turn_ok ChildHas s = (waits (procs s Parent) \<and> holds (procs s Child) \<and> i (procs s Child) = i (procs s Parent) + 1
     \<and> area s = (if at (procs s Child) = Tell then i (procs s Parent) + 2 else i (procs s Parent) + 1) \<and> i (procs s Parent) < NLOOPS)"
| "turn_ok ToParent s = ((told (procs s Parent) \<or> holds (procs s Parent) \<and> at (procs s Parent) = Unmask)
     \<and> (if NLOOPS \<le> i (procs s Parent) + 2 then at (procs s Child) = Exited else waits (procs s Child))
     \<and> i (procs s Child) = i (procs s Parent) + 3 \<and> area s = i (procs s Parent) + 2 \<and> i (procs s Parent) < NLOOPS)"
| "turn_ok Over s = (at (procs s Parent) = Exited \<and> at (procs s Child) = Exited \<and> area s = i (procs s Parent) \<and> NLOOPS \<le> i (procs s Parent) \<and> i (procs s Parent) < NLOOPS + 2)"

lemma turn_start: "turn_ok ParentHas devzero_start"
  by (simp add: devzero_start_def TELL_WAIT_def holds_def waits_def NLOOPS_def Let_def)

lemma WAIT_waits: "waits p \<Longrightarrow> WAIT p nxt = Some q \<Longrightarrow> waits q \<and> i q = i p"
  by (auto simp: waits_def split: tw_pc.splits if_splits)

lemma WAIT_told: "told p \<Longrightarrow> WAIT p nxt = Some q \<Longrightarrow> (told q \<or> holds q \<and> at q = Unmask) \<and> i q = i p"
  by (auto simp: told_def holds_def split: tw_pc.splits if_splits)

lemma sig_waits: "waits p \<or> holds p \<or> at p = Exited \<Longrightarrow> sig_usr p = None"
  by (auto simp: waits_def holds_def sig_usr_def)

lemma sig_told: "told p \<Longrightarrow> sig_usr p = Some q \<Longrightarrow> told q \<and> i q = i p"
  by (auto simp: told_def sig_usr_def split: if_splits)

lemma waits_at: "waits p \<Longrightarrow> at p \<in> {Test, Suspend, Asleep}" "told p \<Longrightarrow> at p \<in> {Test, Suspend, Asleep, Clear}"
  by (auto simp: waits_def told_def)

lemma told_start: "waits p \<Longrightarrow> told (p\<lparr>pending := True\<rparr>)"
  by (auto simp: waits_def told_def)

lemma parent_steps:
  assumes "at (procs s Parent) \<in> {Test, Suspend, Asleep, Clear}" "devzero Parent s = Some s'"
  shows "\<exists>q. WAIT (procs s Parent) Unmask = Some q \<and> s' = set_proc Parent q s"
  using assms by (auto simp: Let_def split: tw_pc.splits)

lemma child_steps:
  assumes "at (procs s Child) \<in> {Test, Suspend, Asleep, Clear, Unmask}" "devzero Child s = Some s'"
  shows "\<exists>q. WAIT (procs s Child) Update = Some q \<and> s' = set_proc Child q s"
  using assms by (auto simp: Let_def split: tw_pc.splits)

lemma set_proc_simps [simp]: "procs (set_proc w p s) w = p" "w \<noteq> v \<Longrightarrow> procs (set_proc w p s) v = procs s v" "area (set_proc w p s) = area s"
  by (simp_all add: set_proc_def)

declare WAIT.simps [simp del]

lemma turn_signal:
  assumes t: "turn_ok u s" and a: "sig_usr (procs s w) = Some q"
  shows "turn_ok u (set_proc w q s)"
proof (cases u)
  case ToChild
  then show ?thesis using t a sig_waits[of "procs s Parent"] sig_told[of "procs s Child" q] by (cases w) auto
next
  case ToParent
  then show ?thesis using t a sig_waits[of "procs s Child"] sig_waits[of "procs s Parent"] sig_told[of "procs s Parent" q] by (cases w) (auto split: if_splits)
qed (use t a sig_waits[of "procs s Child"] sig_waits[of "procs s Parent"] in \<open>cases w; auto\<close>)+

lemma turn_parent:
  assumes t: "turn_ok u s" and a: "devzero Parent s = Some s'"
  shows "\<exists>v. turn_ok v s'"
proof (cases u)
  case ParentHas
  then consider "at (procs s Parent) = Update" | "at (procs s Parent) = Tell" using t by (auto simp: holds_def)
  then show ?thesis
  proof cases
    case 1
    then have "turn_ok ParentHas s'" using t a ParentHas by (auto simp: Let_def update_def holds_def set_proc_def)
    then show ?thesis by blast
  next
    case 2
    then have "turn_ok ToChild s'" using t a ParentHas told_start[of "procs s Child"] by (auto simp: Let_def TELL_def holds_def waits_def)
    then show ?thesis by blast
  qed
next
  case ToChild
  then obtain q where q: "WAIT (procs s Parent) Unmask = Some q" "s' = set_proc Parent q s" using t waits_at(1)[of "procs s Parent"] parent_steps[OF _ a] by auto
  then have "turn_ok ToChild s'" using t ToChild WAIT_waits[OF _ q(1)] by auto
  then show ?thesis by blast
next
  case ChildHas
  then obtain q where q: "WAIT (procs s Parent) Unmask = Some q" "s' = set_proc Parent q s" using t waits_at(1)[of "procs s Parent"] parent_steps[OF _ a] by auto
  then have "turn_ok ChildHas s'" using t ChildHas WAIT_waits[OF _ q(1)] by auto
  then show ?thesis by blast
next
  case ToParent
  show ?thesis
  proof (cases "at (procs s Parent) = Unmask")
    case True
    then have "s' = set_proc Parent (parent_next ((procs s Parent)\<lparr>blocked := False, at := Unmask\<rparr>)) s" using a by (auto simp: Let_def WAIT.simps)
    then have "turn_ok (if NLOOPS \<le> i (procs s Parent) + 2 then Over else ParentHas) s'"
      using t ToParent True by (auto simp: parent_next_def holds_def told_def)
    then show ?thesis by blast
  next
    case False
    then have p: "told (procs s Parent)" using t ToParent by auto
    then obtain q where q: "WAIT (procs s Parent) Unmask = Some q" "s' = set_proc Parent q s" using waits_at(2)[OF p] parent_steps[OF _ a] by auto
    then have "turn_ok ToParent s'" using t ToParent WAIT_told[OF p q(1)] by auto
    then show ?thesis by blast
  qed
qed (use t a in \<open>auto simp: Let_def WAIT.simps\<close>)

lemma turn_child:
  assumes t: "turn_ok u s" and a: "devzero Child s = Some s'"
  shows "\<exists>v. turn_ok v s'"
proof (cases u)
  case ParentHas
  then obtain q where q: "WAIT (procs s Child) Update = Some q" "s' = set_proc Child q s" using t waits_at(1)[of "procs s Child"] child_steps[OF _ a] by auto
  then have "turn_ok ParentHas s'" using t ParentHas WAIT_waits[OF _ q(1)] by auto
  then show ?thesis by blast
next
  case ToChild
  then have p: "told (procs s Child)" using t by simp
  then obtain q where q: "WAIT (procs s Child) Update = Some q" "s' = set_proc Child q s" using waits_at(2)[OF p] child_steps[OF _ a] by auto
  have "turn_ok ToChild s' \<or> turn_ok ChildHas s'" using t q(2) ToChild WAIT_told[OF p q(1)] by auto
  then show ?thesis by blast
next
  case ChildHas
  then consider "at (procs s Child) = Update" | "at (procs s Child) = Tell" | "at (procs s Child) = Unmask" using t by (auto simp: holds_def)
  then show ?thesis
  proof cases
    case 1
    then have "turn_ok ChildHas s'" using t a ChildHas by (auto simp: Let_def update_def holds_def set_proc_def)
    then show ?thesis by blast
  next
    case 2
    then have "turn_ok ToParent s'" using t a ChildHas told_start[of "procs s Parent"]
      by (auto simp: Let_def TELL_def holds_def waits_def child_next_def)
    then show ?thesis by blast
  next
    case 3
    then obtain q where q: "WAIT (procs s Child) Update = Some q" "s' = set_proc Child q s" using child_steps[OF _ a] by auto
    then have "turn_ok ChildHas s'" using t ChildHas 3 by (auto simp: holds_def WAIT.simps)
    then show ?thesis by blast
  qed
next
  case ToParent
  then have "waits (procs s Child) \<and> \<not> NLOOPS \<le> i (procs s Parent) + 2" using t a by (auto simp: Let_def WAIT.simps split: if_splits)
  moreover from this obtain q where q: "WAIT (procs s Child) Update = Some q" "s' = set_proc Child q s" using waits_at(1)[of "procs s Child"] child_steps[OF _ a] by auto
  ultimately have "turn_ok ToParent s'" using t ToParent WAIT_waits[OF _ q(1)] by auto
  then show ?thesis by blast
qed (use t a in \<open>auto simp: Let_def WAIT.simps\<close>)

lemma devzero_turn: "devzero_reach s \<Longrightarrow> \<exists>u. turn_ok u s"
proof (induction rule: devzero_reach.induct)
  case start
  then show ?case using turn_start by blast
next
  case (step s w a s')
  then show ?case
    using turn_signal turn_parent turn_child by (cases a; cases w) (auto simp del: turn_ok.simps devzero.simps, blast+)
qed

lemma devzero_even: "devzero_reach s \<Longrightarrow> even (i (procs s Parent))"
proof (induction rule: devzero_reach.induct)
  case (step s w a s')
  have "i q = i p \<or> i q = i p + 2" if "WAIT p x = Some q" for p q x using that by (auto simp: WAIT.simps split: tw_pc.splits)
  then have "i (procs s' Parent) = i (procs s Parent) \<or> i (procs s' Parent) = i (procs s Parent) + 2"
    using step.hyps(2) by (cases w; cases a)
      (auto simp: Let_def update_def TELL_def parent_next_def sig_usr_def WAIT.simps split: tw_pc.splits if_splits)
  then show ?case using step.IH by auto
qed (simp add: devzero_start_def TELL_WAIT_def Let_def)

fun tw_run :: "(who \<times> tw_act) list \<Rightarrow> tw_sys \<Rightarrow> tw_sys option" where
  "tw_run [] s = Some s"
| "tw_run ((w, a) # xs) s = (case tw_step w a s of None \<Rightarrow> None | Some s' \<Rightarrow> tw_run xs s')"

lemma tw_run_reach: "tw_run xs s = Some s' \<Longrightarrow> devzero_reach s \<Longrightarrow> devzero_reach s'"
proof (induction xs arbitrary: s)
  case (Cons x xs)
  obtain w a where x: "x = (w, a)" by (cases x)
  with Cons.prems(1) obtain s1 where "tw_step w a s = Some s1" "tw_run xs s1 = Some s'" by (auto simp del: tw_step.simps split: option.splits)
  then show ?case using Cons.IH Cons.prems(2) devzero_reach.step by blast
qed simp

definition one_round :: "(who \<times> tw_act) list" where
  \<comment> \<open>each process has incremented the counter once and the parent has been told; every wait slept\<close>
  "one_round = replicate 2 (Parent, Go) @ replicate 2 (Child, Go) @ [(Child, Signal)] @ replicate 5 (Child, Go)
     @ replicate 2 (Parent, Go) @ [(Parent, Signal)] @ replicate 3 (Parent, Go)"

definition caught_early :: "(who \<times> tw_act) list" where
  \<comment> \<open>the child is between the test and \<open>sigsuspend\<close> when the parent tells it again\<close>
  "caught_early = one_round @ [(Child, Go)] @ replicate 2 (Parent, Go) @ [(Child, Signal), (Child, Go)] @ replicate 2 (Parent, Go)"

definition hung :: tw_sys where
  "hung = the (tw_run caught_early devzero_start)"

definition stuck :: "tw_sys \<Rightarrow> bool" where
  \<comment> \<open>no process can go on and no signal is delivered\<close>
  "stuck s \<longleftrightarrow> (\<forall>w\<in>{Parent, Child}. \<forall>a\<in>{Go, Signal}. tw_step w a s = None)"

lemma hung_run:
  "case tw_run caught_early devzero_start of None \<Rightarrow> False | Some s \<Rightarrow> stuck s \<and> area s = 3 \<and> at (procs s Parent) \<noteq> Exited"
  by code_simp

lemma hung_reach: "devzero_reach hung" "stuck hung" "area hung = 3" "at (procs hung Parent) \<noteq> Exited"
proof -
  have h: "tw_run caught_early devzero_start = Some hung" "stuck hung" "area hung = 3" "at (procs hung Parent) \<noteq> Exited"
    using hung_run by (auto simp: hung_def split: option.splits)
  show "devzero_reach hung" using tw_run_reach[OF h(1) devzero_reach.start] .
  show "stuck hung" "area hung = 3" "at (procs hung Parent) \<noteq> Exited" by (fact h)+
qed

lemma busy_at: "holds p \<or> waits p \<or> told p \<Longrightarrow> at p \<noteq> Quit \<and> at p \<noteq> Exited"
  by (auto simp: holds_def waits_def told_def)

lemma turn_busy:
  assumes "turn_ok u s" "u \<noteq> Over"
  shows "at (procs s Parent) \<noteq> Quit \<and> at (procs s Parent) \<noteq> Exited \<and> at (procs s Child) \<noteq> Quit"
  using assms busy_at[of "procs s Parent"] busy_at[of "procs s Child"] by (cases u) (auto split: if_splits)

section \<open>Properties\<close>

text \<open>C37. Parent and child take turns: whatever the interleaving and whenever the signals arrive, neither ever finds another value in
  the shared counter than the one it expects, and when both have exited it is \<open>NLOOPS\<close>.\<close>

theorem devzero_turns:
  assumes "devzero_reach s"
  shows "at (procs s w) \<noteq> Quit \<and> (at (procs s Parent) = Exited \<and> at (procs s Child) = Exited \<longrightarrow> area s = NLOOPS)"
proof -
  obtain u where u: "turn_ok u s" using devzero_turn[OF assms] by blast
  show ?thesis
  proof (cases "u = Over")
    case True
    moreover have "NLOOPS \<le> n \<Longrightarrow> n < NLOOPS + 2 \<Longrightarrow> even n \<Longrightarrow> n = NLOOPS" for n by (auto simp: NLOOPS_def elim!: evenE)
    ultimately show ?thesis using u devzero_even[OF assms] by (cases w) simp_all
  next
    case False
    then show ?thesis using turn_busy[OF u] by (cases w) auto
  qed
qed

theorem devzero_turns_witness: "at (procs hung Child) \<noteq> Quit \<and> area hung = 3"
  using devzero_turns[OF hung_reach(1), of Child] hung_reach(3) by simp

text \<open>C38. The two can hang, and in one way only: the first wait of a process restores the old mask, so that a later signal can be caught
  between the test of \<open>sigflag\<close> and \<open>sigsuspend\<close>, which then sleeps for ever although the flag is set. While the signals are still blocked
  no signal is lost.\<close>

theorem devzero_hangs_only:
  assumes "devzero_reach s" "stuck s" "at (procs s Parent) \<noteq> Exited \<or> at (procs s Child) \<noteq> Exited"
  shows "\<exists>w. at (procs s w) = Asleep \<and> sigflag (procs s w) \<and> \<not> blocked (procs s w)"
proof -
  have told: "at (procs s w) = Asleep \<and> sigflag (procs s w) \<and> \<not> blocked (procs s w)" if "told (procs s w)" for w
    using that assms(2) by (cases w; cases "at (procs s w)") (auto simp: told_def stuck_def sig_usr_def Let_def WAIT.simps)
  have holds: "\<not> holds (procs s w)" for w
    using assms(2) by (cases w; cases "at (procs s w)") (auto simp: holds_def stuck_def Let_def WAIT.simps)
  obtain u where "turn_ok u s" using devzero_turn[OF assms(1)] by blast
  then show ?thesis using told holds assms(3) by (cases u) auto
qed

theorem devzero_hangs_only_witness:
  "stuck hung \<and> (\<exists>w. at (procs hung w) = Asleep \<and> sigflag (procs hung w) \<and> \<not> blocked (procs hung w))"
  using devzero_hangs_only[OF hung_reach(1,2)] hung_reach(2,4) by blast

end
