(* ===== verification/Popen.thy ===== *)
theory Popen
  imports CStd
begin

text \<open>
  \<open>lib/popen.c\<close>: \<open>popen\<close> and \<open>pclose\<close> with the table that remembers the child of each descriptor. The descriptors of
  the process are a map to what they refer to; \<open>pipe\<close>, \<open>fork\<close>, \<open>fdopen\<close>, \<open>fclose\<close> and \<open>waitpid\<close> answer
  as their arguments say. A stream is its descriptor. The child is what its descriptors are when it executes the shell.
\<close>

section \<open>The functions\<close>

datatype obj = ReadEnd nat | WriteEnd nat | File nat

record popen_sys =
  childpid :: "nat list option"          \<comment> \<open>the array, once allocated\<close>
  fdtab :: "nat \<Rightarrow> obj option"
  pipes :: nat                           \<comment> \<open>the pipes made so far\<close>
  reaped :: "nat set"                    \<comment> \<open>children that have been waited for\<close>

datatype perrno = EINVAL | EMFILE | CallocError | PipeError | ForkError | FdopenError | FcloseError | WaitFails

record kernel =
  k_calloc :: bool
  k_pipe :: "(nat \<times> nat) option"        \<comment> \<open>two free descriptors\<close>
  k_fork :: "nat option"                 \<comment> \<open>the process ID of the child\<close>
  k_fdopen :: bool

definition close_fd :: "nat \<Rightarrow> (nat \<Rightarrow> obj option) \<Rightarrow> nat \<Rightarrow> obj option" where
  "close_fd n t = t(n := None)"

definition dup2 :: "nat \<Rightarrow> nat \<Rightarrow> (nat \<Rightarrow> obj option) \<Rightarrow> nat \<Rightarrow> obj option" where
  "dup2 a b t = t(b := t a)"

fun close_children :: "nat \<Rightarrow> nat list \<Rightarrow> (nat \<Rightarrow> obj option) \<Rightarrow> nat \<Rightarrow> obj option" where
  \<comment> \<open>\<open>for (i = 0; i < maxfd; i++) if (childpid[i] > 0) close(i);\<close>\<close>
  "close_children n [] t = t"
| "close_children n (p # ps) t = close_children (Suc n) ps (if p > 0 then close_fd n t else t)"

definition popen_child :: "bool \<Rightarrow> nat \<times> nat \<Rightarrow> nat list \<Rightarrow> (nat \<Rightarrow> obj option) \<Rightarrow> nat \<Rightarrow> obj option" where
  \<comment> \<open>the child's branch up to \<open>execl\<close>; the type is "r"\<close>
  "popen_child r pfd arr t =
     (let (p0, p1) = pfd;
          t1 = (if r then (let u = close_fd p0 t in if p1 \<noteq> 1 then close_fd p1 (dup2 p1 1 u) else u)
                else (let u = close_fd p1 t in if p0 \<noteq> 0 then close_fd p0 (dup2 p0 0 u) else u))
      in close_children 0 arr t1)"

definition bad_type :: "string \<Rightarrow> bool" where
  "bad_type ty = (let c = ty @ [NUL] in (c ! 0 \<noteq> CHR ''r'' \<and> c ! 0 \<noteq> CHR ''w'') \<or> c ! 1 \<noteq> NUL)"

text \<open>The result of \<open>popen\<close> is an error or the stream, the state, and the descriptors of the child when there is one.\<close>

type_synonym popen_result = "(perrno + nat) \<times> popen_sys \<times> (nat \<Rightarrow> obj option) option"

definition popen :: "nat \<Rightarrow> kernel \<Rightarrow> string \<Rightarrow> popen_sys \<Rightarrow> popen_result" where
  \<comment> \<open>\<open>maxfd\<close> is what \<open>open_max\<close> gives\<close>
  "popen maxfd k ty s =
     (if bad_type ty then (Inl EINVAL, s, None)
      else if childpid s = None \<and> \<not> k_calloc k then (Inl CallocError, s, None)
      else let arr = (case childpid s of None \<Rightarrow> replicate maxfd 0 | Some a \<Rightarrow> a); s1 = s\<lparr>childpid := Some arr\<rparr> in
      case k_pipe k of None \<Rightarrow> (Inl PipeError, s1, None)
      | Some (p0, p1) \<Rightarrow>
        let t = (fdtab s)(p0 \<mapsto> ReadEnd (pipes s), p1 \<mapsto> WriteEnd (pipes s)); s2 = s1\<lparr>fdtab := t, pipes := pipes s + 1\<rparr> in
        if p0 \<ge> maxfd \<or> p1 \<ge> maxfd then (Inl EMFILE, s2\<lparr>fdtab := close_fd p1 (close_fd p0 t)\<rparr>, None)
        else case k_fork k of None \<Rightarrow> (Inl ForkError, s2, None)
        | Some pid \<Rightarrow>
          let r = (ty ! 0 = CHR ''r''); child = Some (popen_child r (p0, p1) arr t);
              mine = (if r then p0 else p1); s3 = s2\<lparr>fdtab := close_fd (if r then p1 else p0) t\<rparr> in
          if \<not> k_fdopen k then (Inl FdopenError, s3, child)
          else (Inr mine, s3\<lparr>childpid := Some (arr[mine := pid])\<rparr>, child))"

datatype wait_answer = EINTR | WaitError | Exits

fun wait_loop :: "wait_answer list \<Rightarrow> bool option" where
  \<comment> \<open>\<open>while (waitpid(pid, &stat, 0) < 0) if (errno != EINTR) return(-1);\<close> with these answers; \<open>None\<close> when it still waits\<close>
  "wait_loop [] = None"
| "wait_loop (EINTR # as) = wait_loop as"
| "wait_loop (WaitError # as) = Some False"
| "wait_loop (Exits # as) = Some True"

definition pclose :: "nat \<Rightarrow> bool \<Rightarrow> wait_answer list \<Rightarrow> (nat \<Rightarrow> int) \<Rightarrow> nat \<Rightarrow> popen_sys \<Rightarrow> ((perrno + int) \<times> popen_sys) option" where
  \<comment> \<open>\<open>status\<close> has how each child ends; the descriptor is closed even when \<open>fclose\<close> reports an error\<close>
  "pclose maxfd fclose_ok answers status fd s =
     (case childpid s of None \<Rightarrow> Some (Inl EINVAL, s)
      | Some arr \<Rightarrow>
        if fd \<ge> maxfd then Some (Inl EINVAL, s)
        else let pid = arr ! fd in
        if pid = 0 then Some (Inl EINVAL, s)
        else let s1 = s\<lparr>childpid := Some (arr[fd := 0]), fdtab := close_fd fd (fdtab s)\<rparr> in
        if \<not> fclose_ok then Some (Inl FcloseError, s1)
        else case wait_loop answers of None \<Rightarrow> None
          | Some ok \<Rightarrow> Some (if ok then (Inr (status pid), s1\<lparr>reaped := insert pid (reaped s1)\<rparr>) else (Inl WaitFails, s1)))"

section \<open>The table of children\<close>

definition streams :: "popen_sys \<Rightarrow> nat \<Rightarrow> nat" where
  \<comment> \<open>the child of a stream; 0 when \<open>popen\<close> did not open it\<close>
  "streams s fd = (case childpid s of None \<Rightarrow> 0 | Some arr \<Rightarrow> if fd < length arr then arr ! fd else 0)"

definition popen_ok :: "nat \<Rightarrow> popen_sys \<Rightarrow> bool" where
  "popen_ok maxfd s \<longleftrightarrow> (\<forall>arr. childpid s = Some arr \<longrightarrow> length arr = maxfd) \<and> (\<forall>fd. streams s fd > 0 \<longrightarrow> fdtab s fd \<noteq> None)"

definition kernel_ok :: "kernel \<Rightarrow> popen_sys \<Rightarrow> bool" where
  \<comment> \<open>\<open>pipe\<close> gives free descriptors, \<open>fork\<close> a positive number\<close>
  "kernel_ok k s \<longleftrightarrow> (\<forall>a b. k_pipe k = Some (a, b) \<longrightarrow> a \<noteq> b \<and> fdtab s a = None \<and> fdtab s b = None) \<and> k_fork k \<noteq> Some 0"

lemma bad_type_iff: "bad_type ty \<longleftrightarrow> ty \<noteq> ''r'' \<and> ty \<noteq> ''w''" if "NUL \<notin> set ty"
proof (cases ty)
  case (Cons c cs)
  then show ?thesis using that by (cases cs) (auto simp: bad_type_def Let_def)
qed (simp add: bad_type_def Let_def)

lemma close_children_at: "close_children n ps t m = (if n \<le> m \<and> m < n + length ps \<and> ps ! (m - n) > 0 then None else t m)"
proof (induction ps arbitrary: n t)
  case (Cons p ps)
  show ?case
  proof (cases "m \<le> n")
    case True
    then show ?thesis using Cons by (auto simp: close_fd_def)
  next
    case False
    then obtain d where "m - n = Suc d" by (metis Suc_diff_Suc not_le)
    moreover from this have "m - Suc n = d" by simp
    ultimately show ?thesis using Cons False by (auto simp: close_fd_def)
  qed
qed auto

text \<open>A successful \<open>popen\<close>.\<close>

lemma popen_success:
  assumes "popen maxfd k ty s = (Inr fp, s', child)" "popen_ok maxfd s" "kernel_ok k s"
  shows "\<exists>p0 p1 pid. k_pipe k = Some (p0, p1) \<and> k_fork k = Some pid \<and> pid > 0 \<and> fp < maxfd \<and> fp = (if ty ! 0 = CHR ''r'' then p0 else p1)
     \<and> streams s' = (streams s)(fp := pid) \<and> fdtab s' = (fdtab s)(fp \<mapsto> (if ty ! 0 = CHR ''r'' then ReadEnd (pipes s) else WriteEnd (pipes s)))
     \<and> reaped s' = reaped s \<and> popen_ok maxfd s'
     \<and> child = Some (popen_child (ty ! 0 = CHR ''r'') (p0, p1) (map (streams s) [0..<maxfd]) ((fdtab s)(p0 \<mapsto> ReadEnd (pipes s), p1 \<mapsto> WriteEnd (pipes s))))"
proof -
  define arr where "arr = (case childpid s of None \<Rightarrow> replicate maxfd 0 | Some a \<Rightarrow> a)"
  have len: "length arr = maxfd" using assms(2) by (auto simp: arr_def popen_ok_def split: option.splits)
  have arr: "streams s fd = (if fd < maxfd then arr ! fd else 0)" for fd using assms(2) by (auto simp: streams_def arr_def popen_ok_def split: option.splits)
  have m: "map (streams s) [0..<maxfd] = arr" by (rule nth_equalityI) (simp_all add: len arr)
  obtain p0 p1 pid where k: "k_pipe k = Some (p0, p1)" "k_fork k = Some pid"
    using assms(1) by (auto simp: popen_def Let_def split: if_splits option.splits)
  have free: "p0 \<noteq> p1" "fdtab s p0 = None" "fdtab s p1 = None" "pid > 0" using assms(3) k by (auto simp: kernel_ok_def)
  define r where "r = (ty ! 0 = CHR ''r'')"
  have res: "fp = (if r then p0 else p1)" "p0 < maxfd" "p1 < maxfd"
    "s' = s\<lparr>childpid := Some (arr[fp := pid]), fdtab := close_fd (if r then p1 else p0) ((fdtab s)(p0 \<mapsto> ReadEnd (pipes s), p1 \<mapsto> WriteEnd (pipes s))), pipes := pipes s + 1\<rparr>"
    "child = Some (popen_child r (p0, p1) arr ((fdtab s)(p0 \<mapsto> ReadEnd (pipes s), p1 \<mapsto> WriteEnd (pipes s))))"
    using assms(1) k by (auto simp: popen_def Let_def arr_def[symmetric] r_def split: if_splits)
  have st: "streams s' = (streams s)(fp := pid)" using res(1-3) by (auto simp: res(4) fun_eq_iff streams_def[of "_\<lparr>pipes := _\<rparr>"] len arr nth_list_update)
  have ft: "fdtab s' = (fdtab s)(fp \<mapsto> (if r then ReadEnd (pipes s) else WriteEnd (pipes s)))"
    using free by (auto simp: res(4) close_fd_def res(1) fun_eq_iff)
  have "popen_ok maxfd s'" using assms(2) st ft unfolding popen_ok_def by (auto simp: res(4) len)
  then show ?thesis using k free res st ft m unfolding r_def by auto
qed

lemma popen_failure:
  assumes "popen maxfd k ty s = (Inl e, s', child)" "popen_ok maxfd s" "kernel_ok k s"
  shows "streams s' = streams s \<and> reaped s' = reaped s \<and> popen_ok maxfd s' \<and> (\<forall>fd. fdtab s fd \<noteq> None \<longrightarrow> fdtab s' fd = fdtab s fd)"
proof -
  define arr where "arr = (case childpid s of None \<Rightarrow> replicate maxfd 0 | Some a \<Rightarrow> a)"
  have len: "length arr = maxfd" using assms(2) by (auto simp: arr_def popen_ok_def split: option.splits)
  have arr: "streams s fd = (if fd < maxfd then arr ! fd else 0)" for fd using assms(2) by (auto simp: streams_def arr_def popen_ok_def split: option.splits)
  have c: "s' = s \<or> childpid s' = Some arr \<and> reaped s' = reaped s" and f: "fdtab s fd \<noteq> None \<Longrightarrow> fdtab s' fd = fdtab s fd" for fd
    using assms(1,3) by (auto simp: popen_def Let_def arr_def[symmetric] kernel_ok_def close_fd_def split: if_splits option.splits)
  have st: "streams s' = streams s"
  proof (cases "s' = s")
    case False
    then show ?thesis using c arr by (auto simp: streams_def[of s'] len fun_eq_iff)
  qed simp
  have "length a = maxfd" if "childpid s' = Some a" for a using that c len assms(2) by (auto simp: popen_ok_def)
  moreover have "streams s' fd > 0 \<Longrightarrow> fdtab s' fd \<noteq> None" for fd using assms(2) f[of fd] unfolding st popen_ok_def by auto
  ultimately show ?thesis using st c f unfolding popen_ok_def by auto
qed

lemma pclose_cases:
  assumes "pclose maxfd ok as status fd s = Some (r, s')" "popen_ok maxfd s"
  shows "(streams s fd = 0 \<and> r = Inl EINVAL \<and> s' = s)
    \<or> (streams s fd > 0 \<and> streams s' = (streams s)(fd := 0) \<and> fdtab s' = (fdtab s)(fd := None) \<and> popen_ok maxfd s'
       \<and> (case r of Inr st \<Rightarrow> st = status (streams s fd) \<and> reaped s' = insert (streams s fd) (reaped s) \<and> ok \<and> wait_loop as = Some True
          | Inl e \<Rightarrow> reaped s' = reaped s \<and> (\<not> ok \<or> wait_loop as = Some False)))"
proof (cases "childpid s")
  case (Some arr)
  have len: "length arr = maxfd" using assms(2) Some by (simp add: popen_ok_def)
  show ?thesis
  proof (cases "streams s fd = 0")
    case True
    then show ?thesis using assms(1) Some len by (auto simp: pclose_def streams_def Let_def split: if_splits)
  next
    case False
    then have fd: "fd < maxfd" "arr ! fd = streams s fd" using Some len by (auto simp: streams_def split: if_splits)
    have s': "childpid s' = Some (arr[fd := 0])" "fdtab s' = (fdtab s)(fd := None)"
      using assms(1) Some fd False by (auto simp: pclose_def Let_def close_fd_def split: if_splits option.splits)
    have st: "streams s' = (streams s)(fd := 0)" using s'(1) len Some by (auto simp: streams_def fun_eq_iff nth_list_update)
    have "popen_ok maxfd s'" using assms(2) s' st len unfolding popen_ok_def by auto
    then show ?thesis using assms(1) Some fd False s' st by (auto simp: pclose_def Let_def split: if_splits option.splits)
  qed
qed (use assms in \<open>auto simp: pclose_def streams_def\<close>)

datatype popen_op = Popen kernel string | Pclose nat bool "wait_answer list"

fun popen_run :: "nat \<Rightarrow> (nat \<Rightarrow> int) \<Rightarrow> popen_op list \<Rightarrow> popen_sys \<Rightarrow> popen_sys option" where
  \<comment> \<open>a sequence of calls; \<open>None\<close> when one does not return or the kernel gives what it cannot give\<close>
  "popen_run maxfd status [] s = Some s"
| "popen_run maxfd status (Popen k ty # ops) s =
     (if (case k_pipe k of None \<Rightarrow> True | Some (a, b) \<Rightarrow> a \<noteq> b \<and> fdtab s a = None \<and> fdtab s b = None) \<and> k_fork k \<noteq> Some 0
      then popen_run maxfd status ops (fst (snd (popen maxfd k ty s))) else None)"
| "popen_run maxfd status (Pclose fd ok as # ops) s =
     (case pclose maxfd ok as status fd s of None \<Rightarrow> None | Some (r, s') \<Rightarrow> popen_run maxfd status ops s')"

lemma kernel_ok_code: "kernel_ok k s \<longleftrightarrow> (case k_pipe k of None \<Rightarrow> True | Some (a, b) \<Rightarrow> a \<noteq> b \<and> fdtab s a = None \<and> fdtab s b = None) \<and> k_fork k \<noteq> Some 0"
  by (auto simp: kernel_ok_def split: option.split)

lemma popen_run_keeps:
  assumes "popen_run maxfd status ops s = Some s'" "popen_ok maxfd s" "streams s fp = pid" "pid > 0" "\<forall>ok as. Pclose fp ok as \<notin> set ops"
  shows "popen_ok maxfd s' \<and> streams s' fp = pid"
  using assms
proof (induction ops arbitrary: s)
  case (Cons op ops)
  show ?case
  proof (cases op)
    case (Popen k ty)
    then have k: "kernel_ok k s" and r: "popen_run maxfd status ops (fst (snd (popen maxfd k ty s))) = Some s'"
      using Cons.prems(1) by (auto simp: kernel_ok_code split: if_splits)
    obtain res s1 c where p: "popen maxfd k ty s = (res, s1, c)" by (cases "popen maxfd k ty s")
    have used: "fdtab s fp \<noteq> None" using Cons.prems(2-4) by (auto simp: popen_ok_def)
    have "popen_ok maxfd s1 \<and> streams s1 fp = pid"
    proof (cases res)
      case (Inl e)
      then show ?thesis using popen_failure[of maxfd k ty s e s1 c] p k Cons.prems(2,3) by simp
    next
      case (Inr fp')
      then obtain p0 p1 pid' where q: "k_pipe k = Some (p0, p1)" "fp' = (if ty ! 0 = CHR ''r'' then p0 else p1)" "streams s1 = (streams s)(fp' := pid')" "popen_ok maxfd s1"
        using popen_success[of maxfd k ty s fp' s1 c] p k Cons.prems(2) by auto
      then have "fdtab s fp' = None" using k by (auto simp: kernel_ok_def)
      then show ?thesis using used q(3,4) Cons.prems(3) by auto
    qed
    then show ?thesis using Cons.IH[OF r[unfolded p fst_conv snd_conv]] Cons.prems(4,5) by simp
  next
    case (Pclose fd ok as)
    then obtain r s1 where p: "pclose maxfd ok as status fd s = Some (r, s1)" "popen_run maxfd status ops s1 = Some s'" using Cons.prems(1) by (auto split: option.splits)
    moreover have "fd \<noteq> fp" using Cons.prems(5) Pclose by auto
    ultimately have "popen_ok maxfd s1 \<and> streams s1 fp = pid" using pclose_cases[OF p(1) Cons.prems(2)] Cons.prems(2,3) by auto
    then show ?thesis using Cons.IH[OF p(2)] Cons.prems(4,5) by simp
  qed
qed simp

definition popen_start :: popen_sys where
  \<comment> \<open>a process with the three standard descriptors\<close>
  "popen_start = \<lparr>childpid = None, fdtab = (\<lambda>n. if n < 3 then Some (File n) else None), pipes = 0, reaped = {}\<rparr>"

definition no_stdin :: popen_sys where
  \<comment> \<open>the same, after it has closed its standard input\<close>
  "no_stdin = popen_start\<lparr>fdtab := (fdtab popen_start)(0 := None)\<rparr>"

lemma popen_start_ok: "popen_ok maxfd popen_start" "popen_ok maxfd no_stdin"
  by (simp_all add: popen_ok_def popen_start_def no_stdin_def streams_def)

section \<open>Properties\<close>

text \<open>C39. The command runs with the pipe as its standard output or input and with the other descriptors of the caller except those of
  the streams that \<open>popen\<close> opened before, provided none of those has the number of the standard descriptor.\<close>

theorem popen_child_wired:
  assumes "popen maxfd k ty s = (Inr fp, s', child)" "popen_ok maxfd s" "kernel_ok k s" "NUL \<notin> set ty"
    and "streams s (if ty = ''r'' then 1 else 0) = 0"
  shows "(ty = ''r'' \<or> ty = ''w'')
    \<and> child = Some (\<lambda>n. if n = (if ty = ''r'' then 1 else 0) then Some (if ty = ''r'' then WriteEnd (pipes s) else ReadEnd (pipes s)) else if streams s n > 0 then None else fdtab s n)
    \<and> fdtab s' fp = Some (if ty = ''r'' then ReadEnd (pipes s) else WriteEnd (pipes s))"
proof -
  have ty: "ty = ''r'' \<or> ty = ''w''" using assms(1) bad_type_iff[OF assms(4)] by (auto simp: popen_def split: if_splits)
  obtain p0 p1 where p: "k_pipe k = Some (p0, p1)" "fdtab s' = (fdtab s)(fp \<mapsto> (if ty ! 0 = CHR ''r'' then ReadEnd (pipes s) else WriteEnd (pipes s)))"
    "child = Some (popen_child (ty ! 0 = CHR ''r'') (p0, p1) (map (streams s) [0..<maxfd]) ((fdtab s)(p0 \<mapsto> ReadEnd (pipes s), p1 \<mapsto> WriteEnd (pipes s))))"
    using popen_success[OF assms(1-3)] by auto
  have free: "p0 \<noteq> p1" "fdtab s p0 = None" "fdtab s p1 = None" using assms(3) p(1) by (auto simp: kernel_ok_def)
  have far: "n \<ge> maxfd \<Longrightarrow> streams s n = 0" for n using assms(2) by (auto simp: streams_def popen_ok_def split: option.splits)
  have "popen_child (ty ! 0 = CHR ''r'') (p0, p1) (map (streams s) [0..<maxfd]) ((fdtab s)(p0 \<mapsto> ReadEnd (pipes s), p1 \<mapsto> WriteEnd (pipes s))) n
     = (if n = (if ty = ''r'' then 1 else 0) then Some (if ty = ''r'' then WriteEnd (pipes s) else ReadEnd (pipes s)) else if streams s n > 0 then None else fdtab s n)" for n
    using ty assms(5) free far[of n] by (cases "n < maxfd") (auto simp: popen_child_def close_children_at close_fd_def dup2_def Let_def)
  then show ?thesis using ty p(2,3) by auto
qed

theorem popen_child_wired_witness:
  "\<exists>s' t. popen 10 \<lparr>k_calloc = True, k_pipe = Some (3, 4), k_fork = Some 77, k_fdopen = True\<rparr> ''r'' popen_start = (Inr 3, s', Some t) \<and> t 1 = Some (WriteEnd 0) \<and> t 0 = Some (File 0) \<and> t 4 = None"
proof -
  let ?k = "\<lparr>k_calloc = True, k_pipe = Some (3::nat, 4::nat), k_fork = Some (77::nat), k_fdopen = True\<rparr>"
  obtain r s' c where e: "popen 10 ?k ''r'' popen_start = (r, s', c)" by (cases "popen 10 ?k ''r'' popen_start")
  have r: "r = Inr 3" using e by (simp add: popen_def bad_type_def popen_start_def Let_def)
  have k: "kernel_ok ?k popen_start" by (simp add: kernel_ok_def popen_start_def)
  have z: "streams popen_start n = 0" for n by (simp add: streams_def popen_start_def)
  show ?thesis using popen_child_wired[OF e[unfolded r] popen_start_ok(1) k] e r z by (auto simp: popen_start_def)
qed

text \<open>C40. \<open>pclose\<close> of a stream returns the termination status of the command that \<open>popen\<close> started for it, however many other streams
  have been opened and closed in between and however often \<open>waitpid\<close> is interrupted; a second \<open>pclose\<close> is refused.\<close>

theorem pclose_returns_status:
  assumes "popen maxfd k ty s = (Inr fp, s1, child)" "popen_ok maxfd s" "kernel_ok k s"
    and "popen_run maxfd status ops s1 = Some s2" "\<forall>ok as. Pclose fp ok as \<notin> set ops" "wait_loop answers = Some True"
  shows "\<exists>pid s3. k_fork k = Some pid \<and> pclose maxfd True answers status fp s2 = Some (Inr (status pid), s3) \<and> pid \<in> reaped s3 \<and> fdtab s3 fp = None
     \<and> pclose maxfd True answers status fp s3 = Some (Inl EINVAL, s3)"
proof -
  obtain pid where k: "k_fork k = Some pid" "pid > 0" "fp < maxfd" "streams s1 fp = pid" "popen_ok maxfd s1" using popen_success[OF assms(1-3)] by auto
  then have s2: "popen_ok maxfd s2" "streams s2 fp = pid" using popen_run_keeps[OF assms(4) k(5,4,2) assms(5)] by blast+
  then obtain arr where a: "childpid s2 = Some arr" "length arr = maxfd" "arr ! fp = pid" using k(2) by (auto simp: streams_def popen_ok_def split: option.splits if_splits)
  define s3 where "s3 = s2\<lparr>childpid := Some (arr[fp := 0]), fdtab := close_fd fp (fdtab s2), reaped := insert pid (reaped s2)\<rparr>"
  have "pclose maxfd True answers status fp s2 = Some (Inr (status pid), s3)"
    using a k assms(6) by (simp add: pclose_def Let_def s3_def)
  moreover have "pclose maxfd True answers status fp s3 = Some (Inl EINVAL, s3)" using a k by (simp add: pclose_def s3_def)
  ultimately show ?thesis using k(1) by (auto simp: s3_def close_fd_def)
qed

theorem pclose_returns_status_witness:
  "\<exists>s1 s2 s3. popen 10 \<lparr>k_calloc = True, k_pipe = Some (3, 4), k_fork = Some 77, k_fdopen = True\<rparr> ''r'' popen_start = (Inr 3, s1, snd (snd (popen 10 \<lparr>k_calloc = True, k_pipe = Some (3, 4), k_fork = Some 77, k_fdopen = True\<rparr> ''r'' popen_start)))
     \<and> popen_run 10 int [Popen \<lparr>k_calloc = True, k_pipe = Some (4, 5), k_fork = Some 78, k_fdopen = True\<rparr> ''w'', Pclose 5 True [Exits]] s1 = Some s2
     \<and> pclose 10 True [EINTR, Exits] int 3 s2 = Some (Inr 77, s3)"
proof -
  let ?k = "\<lparr>k_calloc = True, k_pipe = Some (3::nat, 4::nat), k_fork = Some (77::nat), k_fdopen = True\<rparr>"
  let ?ops = "[Popen \<lparr>k_calloc = True, k_pipe = Some (4, 5), k_fork = Some 78, k_fdopen = True\<rparr> ''w'', Pclose 5 True [Exits]]"
  obtain r s1 c where e: "popen 10 ?k ''r'' popen_start = (r, s1, c)" by (cases "popen 10 ?k ''r'' popen_start")
  have r: "r = Inr 3" using e by (simp add: popen_def bad_type_def popen_start_def Let_def)
  have k: "kernel_ok ?k popen_start" by (simp add: kernel_ok_def popen_start_def)
  have "popen_run 10 int ?ops (fst (snd (popen 10 ?k ''r'' popen_start))) \<noteq> None" by code_simp
  then obtain s2 where s2: "popen_run 10 int ?ops s1 = Some s2" using e by auto
  have "wait_loop [EINTR, Exits] = Some True" by simp
  from pclose_returns_status[OF e[unfolded r] popen_start_ok(1) k s2 _ this] show ?thesis using e r s2 by auto
qed

text \<open>When an earlier stream has the number of the standard descriptor, the loop of the child closes the pipe it has just put there, and the
  command runs without it.\<close>

theorem popen_child_unplugged:
  assumes "popen maxfd k ty s = (Inr fp, s', child)" "popen_ok maxfd s" "kernel_ok k s" "NUL \<notin> set ty"
    and "streams s (if ty = ''r'' then 1 else 0) > 0"
  shows "\<exists>t. child = Some t \<and> t (if ty = ''r'' then 1 else 0) = None"
proof -
  have ty: "ty = ''r'' \<or> ty = ''w''" using assms(1) bad_type_iff[OF assms(4)] by (auto simp: popen_def split: if_splits)
  have far: "n \<ge> maxfd \<Longrightarrow> streams s n = 0" for n using assms(2) by (auto simp: streams_def popen_ok_def split: option.splits)
  then have m: "(if ty = ''r'' then 1 else 0) < maxfd" using assms(5) by (metis not_le order_less_irrefl)
  show ?thesis using popen_success[OF assms(1-3)] ty assms(5) m
    by (auto simp: popen_child_def close_children_at Let_def)
qed

theorem popen_child_unplugged_witness:
  "\<exists>s1 s2 fp t. popen_run 10 int [Popen \<lparr>k_calloc = True, k_pipe = Some (0, 3), k_fork = Some 77, k_fdopen = True\<rparr> ''r''] no_stdin = Some s1
     \<and> popen 10 \<lparr>k_calloc = True, k_pipe = Some (3, 4), k_fork = Some 78, k_fdopen = True\<rparr> ''w'' s1 = (Inr fp, s2, Some t) \<and> t 0 = None"
proof -
  let ?ops = "[Popen \<lparr>k_calloc = True, k_pipe = Some (0, 3), k_fork = Some 77, k_fdopen = True\<rparr> ''r'']"
  let ?k = "\<lparr>k_calloc = True, k_pipe = Some (3::nat, 4::nat), k_fork = Some (78::nat), k_fdopen = True\<rparr>"
  define s1 where "s1 = the (popen_run 10 int ?ops no_stdin)"
  have "popen_run 10 int ?ops no_stdin \<noteq> None" by code_simp
  then have s1: "popen_run 10 int ?ops no_stdin = Some s1" by (auto simp: s1_def)
  have k: "kernel_ok ?k s1" unfolding kernel_ok_code s1_def by code_simp
  have z: "streams s1 0 = 77" unfolding s1_def by code_simp
  have "childpid s1 = Some (77 # replicate 9 0)" unfolding s1_def by code_simp
  moreover have f: "fdtab s1 0 = Some (ReadEnd 0)" unfolding s1_def by code_simp
  ultimately have ok: "popen_ok 10 s1" by (auto simp: popen_ok_def streams_def nth_Cons split: nat.splits)
  obtain r s2 c where e: "popen 10 ?k ''w'' s1 = (r, s2, c)" by (cases "popen 10 ?k ''w'' s1")
  have "fst (popen 10 ?k ''w'' s1) = Inr 4" unfolding s1_def by code_simp
  then have r: "r = Inr 4" using e by simp
  show ?thesis using popen_child_unplugged[OF e[unfolded r] ok k] e r s1 z by auto
qed

end
