(* ===== verification/RwQueue.thy ===== *)
theory RwQueue
  imports Prelude
begin

text \<open>
  The queue of jobs of \<open>threads/rwlock.c\<close>, a doubly linked list behind a readers-writer lock. The lock makes each
  function one step; following a null pointer is the error. The queue implements a sequence.
\<close>

section \<open>The functions\<close>

datatype null_pointer = NullPointer

record queue =
  q_head :: "nat option"
  q_tail :: "nat option"
  j_next :: "nat \<Rightarrow> nat option"    \<comment> \<open>the fields of the jobs, by address\<close>
  j_prev :: "nat \<Rightarrow> nat option"
  j_id :: "nat \<Rightarrow> nat"

definition queue_init :: "int \<Rightarrow> queue \<Rightarrow> int \<times> queue" where
  \<comment> \<open>\<open>err\<close> is what \<open>pthread_rwlock_init\<close> returns\<close>
  "queue_init err q = (let q1 = q\<lparr>q_head := None, q_tail := None\<rparr> in if err \<noteq> 0 then (err, q1) else (0, q1))"

definition link_next :: "nat option \<Rightarrow> nat option \<Rightarrow> queue \<Rightarrow> null_pointer + queue" where
  "link_next p x q = (case p of None \<Rightarrow> Inl NullPointer | Some a \<Rightarrow> Inr (q\<lparr>j_next := (j_next q)(a := x)\<rparr>))"

definition link_prev :: "nat option \<Rightarrow> nat option \<Rightarrow> queue \<Rightarrow> null_pointer + queue" where
  "link_prev p x q = (case p of None \<Rightarrow> Inl NullPointer | Some a \<Rightarrow> Inr (q\<lparr>j_prev := (j_prev q)(a := x)\<rparr>))"

definition job_insert :: "nat \<Rightarrow> queue \<Rightarrow> null_pointer + queue" where
  "job_insert jp q =
     (let q1 = q\<lparr>j_next := (j_next q)(jp := q_head q), j_prev := (j_prev q)(jp := None)\<rparr> in
      bindE (if q_head q1 \<noteq> None then link_prev (q_head q1) (Some jp) q1 else Inr (q1\<lparr>q_tail := Some jp\<rparr>))
        (\<lambda>q2. Inr (q2\<lparr>q_head := Some jp\<rparr>)))"

definition job_append :: "nat \<Rightarrow> queue \<Rightarrow> null_pointer + queue" where
  "job_append jp q =
     (let q1 = q\<lparr>j_next := (j_next q)(jp := None), j_prev := (j_prev q)(jp := q_tail q)\<rparr> in
      bindE (if q_tail q1 \<noteq> None then link_next (q_tail q1) (Some jp) q1 else Inr (q1\<lparr>q_head := Some jp\<rparr>))
        (\<lambda>q2. Inr (q2\<lparr>q_tail := Some jp\<rparr>)))"

definition job_remove :: "nat \<Rightarrow> queue \<Rightarrow> null_pointer + queue" where
  "job_remove jp q =
     (if q_head q = Some jp then
        (let q1 = q\<lparr>q_head := j_next q jp\<rparr> in
         if q_tail q1 = Some jp then Inr (q1\<lparr>q_tail := None\<rparr>) else link_prev (j_next q1 jp) (j_prev q1 jp) q1)
      else if q_tail q = Some jp then
        (let q1 = q\<lparr>q_tail := j_prev q jp\<rparr> in link_next (j_prev q1 jp) (j_next q1 jp) q1)
      else bindE (link_next (j_prev q jp) (j_next q jp) q) (\<lambda>q1. link_prev (j_next q1 jp) (j_prev q1 jp) q1))"

fun job_find_loop :: "nat \<Rightarrow> nat \<Rightarrow> nat option \<Rightarrow> queue \<Rightarrow> nat option option" where
  \<comment> \<open>the loop with fuel; the outer \<open>None\<close> when it has run out\<close>
  "job_find_loop 0 tid p q = None"
| "job_find_loop (Suc n) tid None q = Some None"
| "job_find_loop (Suc n) tid (Some a) q = (if j_id q a = tid then Some (Some a) else job_find_loop n tid (j_next q a) q)"

definition job_find :: "nat \<Rightarrow> bool \<Rightarrow> nat \<Rightarrow> queue \<Rightarrow> nat option option" where
  \<comment> \<open>\<open>locked\<close>: the read lock was obtained\<close>
  "job_find fuel locked tid q = (if \<not> locked then Some None else job_find_loop fuel tid (q_head q) q)"

section \<open>The queue as a sequence\<close>

definition job_seq :: "queue \<Rightarrow> nat list \<Rightarrow> bool" where
  "job_seq q xs \<longleftrightarrow> distinct xs \<and> q_head q = hd_opt xs \<and> q_tail q = last_opt xs
     \<and> (\<forall>as a bs. xs = as @ a # bs \<longrightarrow> j_next q a = hd_opt bs \<and> j_prev q a = last_opt as)"

lemma hd_opt_None [simp]: "hd_opt xs = None \<longleftrightarrow> xs = []" "last_opt xs = None \<longleftrightarrow> xs = []"
  by (cases xs; simp) (simp add: last_opt_def)

lemma last_opt_Cons: "last_opt (x # xs) = (if xs = [] then Some x else last_opt xs)"
  by (simp add: last_opt_def)

lemma hd_opt_append: "hd_opt (xs @ ys) = (if xs = [] then hd_opt ys else hd_opt xs)"
  by (cases xs) simp_all

lemma last_opt_append: "last_opt (xs @ ys) = (if ys = [] then last_opt xs else last_opt ys)"
  by (simp add: last_opt_def)

lemma job_seqD: "job_seq q xs \<Longrightarrow> xs = as @ a # bs \<Longrightarrow> j_next q a = hd_opt bs \<and> j_prev q a = last_opt as"
  by (simp add: job_seq_def)

lemma insert_seq:
  assumes "job_seq q xs" "a \<notin> set xs"
  shows "\<exists>q'. job_insert a q = Inr q' \<and> job_seq q' (a # xs) \<and> j_id q' = j_id q"
proof (cases xs)
  case Nil
  then show ?thesis using assms by (auto simp: job_insert_def Let_def job_seq_def Cons_eq_append_conv last_opt_def)
next
  case (Cons h ys)
  define q' where "q' = q\<lparr>j_next := (j_next q)(a := Some h), j_prev := (j_prev q)(a := None, h := Some a), q_head := Some a\<rparr>"
  have h: "q_head q = Some h" using assms(1) Cons by (simp add: job_seq_def)
  have r: "job_insert a q = Inr q'" using h by (simp add: job_insert_def Let_def link_prev_def q'_def)
  have "j_next q' b = hd_opt bs \<and> j_prev q' b = last_opt as" if e: "a # xs = as @ b # bs" for as b bs
  proof (cases as)
    case Nil
    then show ?thesis using e Cons assms(2) by (auto simp: q'_def)
  next
    case (Cons c cs)
    then have x: "xs = cs @ b # bs" "c = a" using e by auto
    have "b \<noteq> a" using x assms(2) by auto
    moreover have "b = h \<longleftrightarrow> cs = []" using x(1) \<open>xs = h # ys\<close> assms(1) by (cases cs) (auto simp: job_seq_def)
    ultimately show ?thesis using job_seqD[OF assms(1) x(1)] Cons x(2) by (auto simp: q'_def last_opt_Cons)
  qed
  then have "job_seq q' (a # xs)" using assms Cons by (auto simp: job_seq_def q'_def last_opt_Cons)
  then show ?thesis using r by (simp add: q'_def)
qed

lemma append_seq:
  assumes "job_seq q xs" "a \<notin> set xs"
  shows "\<exists>q'. job_append a q = Inr q' \<and> job_seq q' (xs @ [a]) \<and> j_id q' = j_id q"
proof (cases xs rule: rev_cases)
  case Nil
  then show ?thesis using assms by (auto simp: job_append_def Let_def job_seq_def Cons_eq_append_conv)
next
  case (snoc ys l)
  define q' where "q' = q\<lparr>j_next := (j_next q)(a := None, l := Some a), j_prev := (j_prev q)(a := Some l), q_tail := Some a\<rparr>"
  have l: "q_tail q = Some l" using assms(1) snoc by (simp add: job_seq_def)
  have r: "job_append a q = Inr q'" using l by (simp add: job_append_def Let_def link_next_def q'_def)
  have "j_next q' b = hd_opt bs \<and> j_prev q' b = last_opt as" if e: "xs @ [a] = as @ b # bs" for as b bs
  proof (cases bs rule: rev_cases)
    case Nil
    then show ?thesis using e snoc assms(2) by (auto simp: q'_def)
  next
    case (snoc cs c)
    then have x: "xs = as @ b # cs" "c = a" using e by (simp_all flip: append.simps append_assoc)
    have "b \<noteq> a" using x assms(2) by auto
    moreover have "b = l \<longleftrightarrow> cs = []" using x(1) \<open>xs = ys @ [l]\<close> assms(1) by (cases cs rule: rev_cases) (auto simp: job_seq_def simp flip: append.simps append_assoc)
    ultimately show ?thesis using job_seqD[OF assms(1) x(1)] snoc x(2) by (auto simp: q'_def hd_opt_append)
  qed
  moreover have "q_head q' = hd_opt (xs @ [a])" using assms(1) snoc by (simp add: job_seq_def q'_def hd_opt_append)
  moreover have "q_tail q' = last_opt (xs @ [a])" by (simp add: q'_def)
  ultimately have "job_seq q' (xs @ [a])" using assms unfolding job_seq_def by simp
  then show ?thesis using r by (simp add: q'_def)
qed

lemma split_at_elem:
  assumes "xs @ ys = cs @ b # ds"
  obtains es where "xs = cs @ b # es" "ds = es @ ys" | es where "ys = es @ b # ds" "cs = xs @ es"
  using assms by (auto simp: append_eq_append_conv2 Cons_eq_append_conv append_eq_Cons_conv)

lemma remove_links:
  assumes q: "job_seq q (xs @ a # ys)"
    and n: "j_next q' = (if xs = [] then j_next q else (j_next q)(last xs := hd_opt ys))" "j_prev q' = (if ys = [] then j_prev q else (j_prev q)(hd ys := last_opt xs))"
    and e: "q_head q' = hd_opt (xs @ ys)" "q_tail q' = last_opt (xs @ ys)"
  shows "job_seq q' (xs @ ys)"
proof -
  have d: "distinct (xs @ a # ys)" using q by (simp add: job_seq_def)
  have "j_next q' b = hd_opt ds \<and> j_prev q' b = last_opt cs" if b: "xs @ ys = cs @ b # ds" for cs b ds
    using b
  proof (rule split_at_elem)
    fix es
    assume x: "xs = cs @ b # es" "ds = es @ ys"
    have o: "j_next q b = hd_opt (es @ a # ys) \<and> j_prev q b = last_opt cs" by (rule job_seqD[OF q]) (simp add: x)
    have h: "ys \<noteq> [] \<Longrightarrow> b \<noteq> hd ys" using d x(1) by (cases ys) auto
    have l: "b = last xs \<longleftrightarrow> es = []" "xs \<noteq> []" using d x(1) by (cases es rule: rev_cases; auto)+
    have "j_prev q' b = last_opt cs" using o h n(2) by (cases "ys = []") simp_all
    moreover have "j_next q' b = (if es = [] then hd_opt ys else hd_opt es)" using o l n(1) by (simp add: hd_opt_append)
    ultimately show ?thesis using x(2) by (simp add: hd_opt_append)
  next
    fix es
    assume y: "ys = es @ b # ds" "cs = xs @ es"
    have o: "j_next q b = hd_opt ds \<and> j_prev q b = last_opt (xs @ a # es)" by (rule job_seqD[OF q]) (simp add: y)
    have l: "xs \<noteq> [] \<Longrightarrow> b \<noteq> last xs" using d y(1) by (cases xs rule: rev_cases) auto
    have h: "b = hd ys \<longleftrightarrow> es = []" "ys \<noteq> []" using d y(1) by (cases es; auto)+
    have "j_next q' b = hd_opt ds" using o l n(1) by (cases "xs = []") simp_all
    moreover have "j_prev q' b = (if es = [] then last_opt xs else last_opt es)" using o h n(2) by (simp add: last_opt_append last_opt_Cons)
    ultimately show ?thesis using y(2) by (simp add: last_opt_append)
  qed
  then show ?thesis using d e unfolding job_seq_def by auto
qed

lemma remove_seq:
  assumes "job_seq q xs" "a \<in> set xs"
  shows "\<exists>q'. job_remove a q = Inr q' \<and> job_seq q' (remove1 a xs) \<and> j_id q' = j_id q"
proof -
  obtain as bs where x: "xs = as @ a # bs" "a \<notin> set as" using split_list_first[OF assms(2)] by blast
  have d: "distinct (as @ a # bs)" and ends: "q_head q = hd_opt (as @ a # bs)" "q_tail q = last_opt (as @ a # bs)"
    using assms(1) x by (simp_all add: job_seq_def)
  have q: "job_seq q (as @ a # bs)" "j_next q a = hd_opt bs" "j_prev q a = last_opt as" using assms(1) x job_seqD[OF assms(1) x(1)] by simp_all
  have r: "remove1 a xs = as @ bs" using x by (simp add: remove1_append)
  show ?thesis
  proof (cases as)
    case Nil
    then have h: "q_head q = Some a" "q_tail q = Some a \<longleftrightarrow> bs = []" using ends d by (auto simp: last_opt_def)
    show ?thesis unfolding r
    proof (cases bs)
      case (Cons b bs')
      then have e: "job_remove a q = Inr (q\<lparr>q_head := Some b, j_prev := (j_prev q)(b := None)\<rparr>)" using h q Nil by (simp add: job_remove_def Let_def link_prev_def)
      have "job_seq (q\<lparr>q_head := Some b, j_prev := (j_prev q)(b := None)\<rparr>) (as @ bs)"
        by (rule remove_links[OF q(1)]) (use Nil Cons ends(2) in \<open>auto simp: last_opt_def\<close>)
      then show "\<exists>q'. job_remove a q = Inr q' \<and> job_seq q' (as @ bs) \<and> j_id q' = j_id q" using e by simp
    qed (use h q Nil in \<open>auto simp: job_remove_def job_seq_def\<close>)
  next
    case (Cons c cs)
    have h: "q_head q = Some c" "c \<noteq> a" using ends(1) Cons d by auto
    have l: "last_opt as = Some (last as)" using Cons by (simp add: last_opt_def)
    show ?thesis unfolding r
    proof (cases bs)
      case Nil
      let ?q = "q\<lparr>q_tail := Some (last as), j_next := (j_next q)(last as := None)\<rparr>"
      have e: "job_remove a q = Inr ?q" using h q l Nil ends(2) by (simp add: job_remove_def Let_def link_next_def)
      have "job_seq ?q (as @ bs)" by (rule remove_links[OF q(1)]) (use Nil Cons h l in auto)
      then show "\<exists>q'. job_remove a q = Inr q' \<and> job_seq q' (as @ bs) \<and> j_id q' = j_id q" using e by simp
    next
      case (Cons b bs')
      let ?q = "q\<lparr>j_next := (j_next q)(last as := Some b), j_prev := (j_prev q)(b := Some (last as))\<rparr>"
      have t: "q_tail q \<noteq> Some a" using ends(2) Cons d by (auto simp: last_opt_def)
      have "last as \<noteq> a" using d \<open>as = c # cs\<close> by auto
      then have e: "job_remove a q = Inr ?q" using h t q l Cons by (simp add: job_remove_def Let_def link_next_def link_prev_def)
      have "job_seq ?q (as @ bs)" by (rule remove_links[OF q(1)]) (use Cons \<open>as = c # cs\<close> ends h l in \<open>auto simp: last_opt_def\<close>)
      then show "\<exists>q'. job_remove a q = Inr q' \<and> job_seq q' (as @ bs) \<and> j_id q' = j_id q" using e by simp
    qed
  qed
qed

lemma find_seq:
  assumes "job_seq q (ys @ xs)" "p = hd_opt xs" "length xs < n"
  shows "job_find_loop n tid p q = Some (List.find (\<lambda>a. j_id q a = tid) xs)"
  using assms
proof (induction xs arbitrary: ys p n)
  case (Cons a xs)
  then obtain m where m: "n = Suc m" by (cases n) auto
  have "j_next q a = hd_opt xs" using job_seqD[OF Cons.prems(1)] by blast
  then show ?case using Cons.IH[of "ys @ [a]" "j_next q a" m] Cons.prems m by auto
qed (metis job_find_loop.simps(2) hd_opt_simps(1) less_imp_Suc_add find.simps(1))

datatype queue_op = Insert nat | Append nat | Remove nat

fun queue_step :: "queue_op \<Rightarrow> queue \<Rightarrow> null_pointer + queue" where
  "queue_step (Insert a) q = job_insert a q"
| "queue_step (Append a) q = job_append a q"
| "queue_step (Remove a) q = job_remove a q"

fun seq_step :: "queue_op \<Rightarrow> nat list \<Rightarrow> nat list option" where
  \<comment> \<open>a job is added when it is not in the queue and removed when it is\<close>
  "seq_step (Insert a) xs = (if a \<in> set xs then None else Some (a # xs))"
| "seq_step (Append a) xs = (if a \<in> set xs then None else Some (xs @ [a]))"
| "seq_step (Remove a) xs = (if a \<in> set xs then Some (remove1 a xs) else None)"

interpretation rwq: simulation queue_step seq_step "\<lambda>q xs. job_seq q xs \<and> j_id q = ids" for ids
proof
  fix q xs x ys
  assume "job_seq q xs \<and> j_id q = ids" "seq_step x xs = Some ys"
  then show "\<exists>q'. queue_step x q = Inr q' \<and> job_seq q' ys \<and> j_id q' = ids"
    using insert_seq append_seq remove_seq by (cases x) (auto split: if_splits)
qed

section \<open>Properties\<close>

text \<open>C36. After any sequence of insertions, appends and removals the queue holds the jobs that a list would hold, in its order, no null pointer is
  followed, and \<open>job_find\<close> gives the first job of the thread, or nothing when there is none.\<close>

theorem rw_queue_refines:
  assumes "run_abstract seq_step ops [] = Some xs"
  shows "\<exists>q'. run_concrete queue_step ops (snd (queue_init 0 q)) = Inr q' \<and> j_id q' = j_id q
    \<and> (\<forall>tid. job_find (length xs + 1) True tid q' = Some (List.find (\<lambda>a. j_id q a = tid) xs))"
proof -
  have "job_seq (snd (queue_init 0 q)) [] \<and> j_id (snd (queue_init 0 q)) = j_id q" by (simp add: queue_init_def job_seq_def Let_def)
  from rwq.run_follows[OF this assms] obtain q' where q': "run_concrete queue_step ops (snd (queue_init 0 q)) = Inr q'" "job_seq q' xs" "j_id q' = j_id q" by blast
  have "job_find (length xs + 1) True tid q' = Some (List.find (\<lambda>a. j_id q a = tid) xs)" for tid
    using find_seq[of q' "[]" xs "q_head q'" "length xs + 1" tid] q'(2,3) by (simp add: job_find_def job_seq_def)
  then show ?thesis using q' by blast
qed

theorem rw_queue_refines_witness:
  "\<exists>q'. run_concrete queue_step [Append 5, Insert 6, Append 7, Remove 5, Append 5] (snd (queue_init 0 \<lparr>q_head = None, q_tail = None, j_next = (\<lambda>_. None), j_prev = (\<lambda>_. None), j_id = (\<lambda>a. a mod 2)\<rparr>)) = Inr q'
     \<and> job_find 4 True 1 q' = Some (Some 7)"
proof -
  have "run_abstract seq_step [Append 5, Insert 6, Append 7, Remove 5, Append 5] [] = Some [6, 7, 5]" by simp
  note r = rw_queue_refines[OF this, of "\<lparr>q_head = None, q_tail = None, j_next = (\<lambda>_. None), j_prev = (\<lambda>_. None), j_id = (\<lambda>a. a mod 2)\<rparr>"]
  have four: "length [6, 7, 5::nat] + 1 = 4" by simp
  have "List.find (\<lambda>a. a mod 2 = 1) [6, 7, 5::nat] = Some 7" by simp
  then show ?thesis using r[unfolded four queue.select_convs] by metis
qed

end
